(* ===== verification/Prelude.thy ===== *)
theory Prelude
  imports Main "HOL-Library.Word"
begin

text \<open>
  What every component theory shares: the names of the machine integers, the proof collections of
  the development, Rust's slice and index accesses (\<open>b.get(i)\<close>, \<open>&s[i..j]\<close>,
  \<open>while pos < len && p(b[pos])\<close>) with the lemmas that move them across an append, and the
  UTF-8 coding of \<open>str\<close>.

  A Rust \<open>str\<close> or \<open>[u8]\<close> is a \<open>string\<close> here: a list of bytes, since Isabelle's
  \<open>char\<close> is an 8-bit value. A Rust \<open>char\<close> (a Unicode scalar value) is a \<open>nat\<close>.
\<close>

type_synonym u8 = "8 word"
type_synonym u16 = "16 word"
type_synonym u32 = "32 word"
type_synonym u64 = "64 word"

text \<open>Signed machine integers share the word types and are read with \<open>sint\<close>.\<close>

type_synonym i16 = "16 word"
type_synonym i32 = "32 word"
type_synonym i64 = "64 word"

named_theorems scan_simps \<open>closed forms of the byte scanning loops\<close>
named_theorems bounds \<open>where a scan or an operation ends, relative to its input\<close>

section \<open>Bytes the grammars name\<close>

abbreviation BS :: char where "BS \<equiv> CHR 0x5C"
abbreviation LF :: char where "LF \<equiv> CHR 0x0A"
abbreviation CR :: char where "CR \<equiv> CHR 0x0D"
abbreviation TAB :: char where "TAB \<equiv> CHR 0x09"
abbreviation VT :: char where "VT \<equiv> CHR 0x0B"
abbreviation FF :: char where "FF \<equiv> CHR 0x0C"
abbreviation SP :: char where "SP \<equiv> CHR 0x20"
abbreviation DQUOTE :: char where "DQUOTE \<equiv> CHR 0x22"
abbreviation LBRACE :: char where "LBRACE \<equiv> CHR 0x7B"
abbreviation RBRACE :: char where "RBRACE \<equiv> CHR 0x7D"

section \<open>Checked conversions\<close>

text \<open>\<open>i16::try_from\<close>, \<open>i32::try_from\<close> and \<open>u32::try_from\<close> on a mathematical integer.\<close>

definition i16_try_from :: "int \<Rightarrow> i16 option" where
  "i16_try_from x = (if - (2 ^ 15) \<le> x \<and> x < 2 ^ 15 then Some (word_of_int x) else None)"

definition i32_try_from :: "int \<Rightarrow> i32 option" where
  "i32_try_from x = (if - (2 ^ 31) \<le> x \<and> x < 2 ^ 31 then Some (word_of_int x) else None)"

text \<open>\<open>u32::try_from(i).unwrap_or(u32::MAX)\<close> on an index.\<close>

definition u32_or_max :: "nat \<Rightarrow> nat" where
  "u32_or_max i = (if i < 2 ^ 32 then i else 2 ^ 32 - 1)"

lemma u32_or_max_small [simp]: "i < 2 ^ 32 \<Longrightarrow> u32_or_max i = i"
  by (simp add: u32_or_max_def)

lemma i16_try_from_Some: "i16_try_from x = Some w \<Longrightarrow> sint w = x"
  by (auto simp: i16_try_from_def sint_word_ariths signed_take_bit_int_eq_self word_of_int_inverse
      sint_sbintrunc' split: if_splits)

lemma i32_try_from_Some: "i32_try_from x = Some w \<Longrightarrow> sint w = x"
  by (auto simp: i32_try_from_def signed_take_bit_int_eq_self sint_sbintrunc' split: if_splits)

lemma find_Some_mem: "find P xs = Some x \<Longrightarrow> x \<in> set xs \<and> P x"
  by (auto simp: find_Some_iff)

section \<open>Decimal\<close>

text \<open>The decimal digits \<open>format!\<close> prints for an unsigned integer.\<close>

fun show_nat :: "nat \<Rightarrow> string" where
  "show_nat n = (if n < 10 then [char_of (48 + n)] else show_nat (n div 10) @ [char_of (48 + n mod 10)])"

declare show_nat.simps [simp del]

section \<open>Slices and indexed reads\<close>

definition byte_at :: "'a list \<Rightarrow> nat \<Rightarrow> 'a option" where
  "byte_at b i = (if i < length b then Some (b ! i) else None)"

definition subslice :: "nat \<Rightarrow> nat \<Rightarrow> 'a list \<Rightarrow> 'a list" where
  "subslice i j s = take (j - i) (drop i s)"

lemma byte_at_drop: "byte_at (drop i b) k = byte_at b (i + k)"
  by (auto simp: byte_at_def)

lemma byte_at_Nil [simp]: "byte_at [] i = None"
  by (simp add: byte_at_def)

lemma byte_at_Cons_0 [simp]: "byte_at (c # s) 0 = Some c"
  by (simp add: byte_at_def)

lemma byte_at_Cons_Suc [simp]: "byte_at (c # s) (Suc i) = byte_at s i"
  by (simp add: byte_at_def)

lemma byte_at_Cons_numeral [simp]: "byte_at (c # s) (numeral k) = byte_at s (pred_numeral k)"
  by (simp add: numeral_eq_Suc)

lemma byte_at_SomeD: "byte_at b i = Some c \<Longrightarrow> i < length b \<and> b ! i = c"
  by (auto simp: byte_at_def split: if_splits)

lemma byte_at_None_iff: "byte_at b i = None \<longleftrightarrow> length b \<le> i"
  by (auto simp: byte_at_def)

lemma byte_at_beyond [simp]: "length b \<le> i \<Longrightarrow> byte_at b i = None"
  by (simp add: byte_at_def)

lemma byte_at_length_append [simp]: "byte_at (xs @ ys) (length xs) = byte_at ys 0"
  by (simp add: byte_at_def nth_append)

lemma subslice_self [simp]: "subslice i i s = []"
  by (simp add: subslice_def)

lemma subslice_append_subslice: "i \<le> j \<Longrightarrow> j \<le> k \<Longrightarrow> subslice i j s @ subslice j k s = subslice i k s"
proof -
  assume ij: "i \<le> j" and jk: "j \<le> k"
  have "take (k - i) (drop i s) = take (j - i + (k - j)) (drop i s)"
    using ij jk by simp
  also have "\<dots> = take (j - i) (drop i s) @ take (k - j) (drop (j - i) (drop i s))"
    by (rule take_add)
  finally show ?thesis using ij by (simp add: subslice_def)
qed

lemma subslice_to_end: "length s \<le> j \<Longrightarrow> subslice i j s = drop i s"
  by (simp add: subslice_def)

lemma subslice_Suc: "i \<le> j \<Longrightarrow> j < length s \<Longrightarrow> subslice i (Suc j) s = subslice i j s @ [s ! j]"
  by (simp add: subslice_def Suc_diff_le take_Suc_conv_app_nth)

lemma subslice_length_append [simp]: "subslice (length xs) (length xs + n) (xs @ ys) = take n ys"
  by (simp add: subslice_def)

lemma length_subslice [simp]: "j \<le> length s \<Longrightarrow> length (subslice i j s) = j - i"
  by (auto simp: subslice_def)

lemma drop_eq_Cons_iff: "drop i s = c # t \<longleftrightarrow> i < length s \<and> s ! i = c \<and> drop (Suc i) s = t"
  by (metis Cons_nth_drop_Suc drop_all linorder_not_le list.distinct(1) list.inject)

lemma takeWhile_split: "\<forall>x\<in>set xs. P x \<Longrightarrow> \<forall>x\<in>set ys. \<not> P x \<Longrightarrow> takeWhile P (xs @ ys) = xs \<and> dropWhile P (xs @ ys) = ys"
  by (induction xs) (auto simp: takeWhile_eq_Nil_iff dropWhile_eq_self_iff hd_in_set)

section \<open>The \<open>while pos < len && p(b[pos]) { pos += 1 }\<close> loop\<close>

function skip_while :: "('a \<Rightarrow> bool) \<Rightarrow> 'a list \<Rightarrow> nat \<Rightarrow> nat" where
  "skip_while p b pos = (if pos < length b \<and> p (b ! pos) then skip_while p b (Suc pos) else pos)"
  by pat_completeness auto
termination
  by (relation "measure (\<lambda>(p, b, pos). length b - pos)") auto

declare skip_while.simps [simp del]

lemma skip_while_closed [scan_simps]:
  "skip_while p b pos = pos + length (takeWhile p (drop pos b))"
proof (induction p b pos rule: skip_while.induct)
  case (1 p b pos)
  show ?case
  proof (cases "pos < length b")
    case True
    then have "drop pos b = b ! pos # drop (Suc pos) b"
      by (simp add: Cons_nth_drop_Suc)
    with 1 True show ?thesis by (simp add: skip_while.simps [of p b pos])
  next
    case False
    then show ?thesis by (simp add: skip_while.simps [of p b pos])
  qed
qed

lemma drop_skip_while [simp]: "drop (skip_while p b pos) b = dropWhile p (drop pos b)"
  by (simp add: skip_while_closed dropWhile_eq_drop add.commute)

lemma skip_while_ge [bounds]: "pos \<le> skip_while p b pos"
  by (simp add: scan_simps)

lemma skip_while_le [bounds]: "pos \<le> length b \<Longrightarrow> skip_while p b pos \<le> length b"
  using length_takeWhile_le [of p "drop pos b"] by (simp add: scan_simps)

lemma skip_while_stop: "skip_while p b pos < length b \<Longrightarrow> \<not> p (b ! skip_while p b pos)"
proof (induction p b pos rule: skip_while.induct)
  case (1 p b pos)
  then show ?case
    by (cases "pos < length b \<and> p (b ! pos)") (auto simp: skip_while.simps [of p b pos])
qed

lemma skip_while_before: "pos < skip_while p b pos \<Longrightarrow> p (b ! (skip_while p b pos - 1))"
proof (induction p b pos rule: skip_while.induct)
  case (1 p b pos)
  have c: "pos < length b \<and> p (b ! pos)" using "1.prems" by (subst (asm) skip_while.simps) (auto split: if_splits)
  then have e: "skip_while p b pos = skip_while p b (Suc pos)" by (simp add: skip_while.simps [of p b pos])
  show ?case
  proof (cases "Suc pos < skip_while p b (Suc pos)")
    case True
    with "1.IH" c e show ?thesis by simp
  next
    case False
    with skip_while_ge [of "Suc pos" p b] have "skip_while p b (Suc pos) = Suc pos" by simp
    with c e show ?thesis by simp
  qed
qed

lemma skip_while_append [simp]:
  "skip_while p (xs @ ys) (length xs) = length xs + length (takeWhile p ys)"
  by (simp add: scan_simps)

section \<open>UTF-8\<close>

text \<open>
  \<open>char::len_utf8\<close> and the bytes \<open>String::push\<close> appends, and the first scalar of a
  \<open>str\<close> (\<open>s.chars().next()\<close>) with its width.
\<close>

definition utf8_encode :: "nat \<Rightarrow> string" where
  "utf8_encode n =
     (if n < 0x80 then [char_of n]
      else if n < 0x800 then [char_of (0xC0 + n div 64), char_of (0x80 + n mod 64)]
      else if n < 0x10000 then
        [char_of (0xE0 + n div 4096), char_of (0x80 + n div 64 mod 64), char_of (0x80 + n mod 64)]
      else [char_of (0xF0 + n div 262144), char_of (0x80 + n div 4096 mod 64),
            char_of (0x80 + n div 64 mod 64), char_of (0x80 + n mod 64)])"

definition len_utf8 :: "nat \<Rightarrow> nat" where
  "len_utf8 n = (if n < 0x80 then 1 else if n < 0x800 then 2 else if n < 0x10000 then 3 else 4)"

definition is_scalar :: "nat \<Rightarrow> bool" where
  "is_scalar n \<longleftrightarrow> n < 0xD800 \<or> 0xE000 \<le> n \<and> n < 0x110000"

definition cont_bits :: "char option \<Rightarrow> nat" where
  "cont_bits c = (case c of None \<Rightarrow> 0 | Some b \<Rightarrow> of_char b mod 64)"

definition first_char :: "string \<Rightarrow> nat option" where
  "first_char s = (case byte_at s 0 of None \<Rightarrow> None | Some c \<Rightarrow>
     let b = of_char c in
     if b < (0x80::nat) then Some b
     else if b < 0xE0 then Some (b mod 32 * 64 + cont_bits (byte_at s 1))
     else if b < 0xF0 then
       Some (b mod 16 * 4096 + cont_bits (byte_at s 1) * 64 + cont_bits (byte_at s 2))
     else Some (b mod 8 * 262144 + cont_bits (byte_at s 1) * 4096
                + cont_bits (byte_at s 2) * 64 + cont_bits (byte_at s 3)))"

lemma length_utf8_encode [simp]: "length (utf8_encode n) = len_utf8 n"
  by (simp add: utf8_encode_def len_utf8_def)

lemma len_utf8_pos [simp]: "0 < len_utf8 n"
  by (simp add: len_utf8_def)

lemma utf8_encode_ascii [simp]: "n < 0x80 \<Longrightarrow> utf8_encode n = [char_of n]"
  by (simp add: utf8_encode_def)

lemma utf8_lead_bits [simp]:
  "q < 32 \<Longrightarrow> (192 + q) mod 32 = (q::nat)"
  "q < 16 \<Longrightarrow> (224 + q) mod 16 = (q::nat)"
  "q < 8 \<Longrightarrow> (240 + q) mod 8 = (q::nat)"
  "(128 + q) mod 64 = (q::nat) mod 64"
  using mod_mult_self3 [of 6 32 q] mod_mult_self3 [of 14 16 q] mod_mult_self3 [of 30 8 q]
    mod_mult_self3 [of 2 64 q] by simp_all

lemma base64_digits:
  "n div 64 * 64 + n mod 64 = (n::nat)"
  "n div 4096 * 64 + n div 64 mod 64 = n div (64::nat)"
  "n div 262144 * 64 + n div 4096 mod 64 = n div (4096::nat)"
proof -
  have "n div 4096 = n div 64 div 64" "n div 262144 = n div 4096 div 64"
    by (simp_all flip: div_mult2_eq)
  then show "n div 4096 * 64 + n div 64 mod 64 = n div (64::nat)"
    and "n div 262144 * 64 + n div 4096 mod 64 = n div (4096::nat)"
    by simp_all
qed simp

lemma char_of_ascii [simp]:
  "char_of (0x5C::nat) = BS" "char_of (0x0A::nat) = LF" "char_of (0x09::nat) = TAB"
  "char_of (0x0D::nat) = CR" "char_of (0x0B::nat) = VT" "char_of (0x0C::nat) = FF"
  "char_of (0x20::nat) = SP"
  by (simp_all add: char_of_eq_iff)

lemma first_char_encode:
  assumes "n < 0x110000"
  shows "first_char (utf8_encode n @ s) = Some n"
proof -
  note defs = first_char_def utf8_encode_def cont_bits_def Let_def
  consider "n < 0x80" | "0x80 \<le> n" "n < 0x800" | "0x800 \<le> n" "n < 0x10000" | "0x10000 \<le> n"
    by linarith
  then show ?thesis
  proof cases
    case 1
    then show ?thesis by (simp add: defs)
  next
    case 2
    then have "n div 64 < 32" by linarith
    with 2 show ?thesis by (simp add: defs)
  next
    case 3
    then have "n div 4096 < 16" by linarith
    moreover have "n div 4096 * 4096 + n div 64 mod 64 * 64 + n mod 64 = n"
      using base64_digits [of n] by linarith
    ultimately show ?thesis using 3 by (simp add: defs)
  next
    case 4
    with assms have "n div 262144 < 8" by linarith
    moreover have "n div 262144 * 262144 + n div 4096 mod 64 * 4096
        + n div 64 mod 64 * 64 + n mod 64 = n"
      using base64_digits [of n] by linarith
    ultimately show ?thesis using 4 by (simp add: defs)
  qed
qed

text \<open>
  The invariant of \<open>str\<close>, as \<open>core::str::from_utf8\<close> checks it: the bytes are the
  codings of a sequence of scalar values.
\<close>

function utf8_valid :: "string \<Rightarrow> bool" where
  "utf8_valid s =
     (case first_char s of
        None \<Rightarrow> True
      | Some ch \<Rightarrow> is_scalar ch \<and> take (len_utf8 ch) s = utf8_encode ch
                     \<and> utf8_valid (drop (len_utf8 ch) s))"
  by pat_completeness auto
termination
  by (relation "measure length")
    (auto simp: first_char_def split: option.splits dest!: byte_at_SomeD)

declare utf8_valid.simps [simp del]

lemma is_scalar_lt: "is_scalar ch \<Longrightarrow> ch < 0x110000"
  by (auto simp: is_scalar_def)

lemma first_char_Nil [simp]: "first_char [] = None"
  by (simp add: first_char_def)

lemma first_char_None [simp]: "first_char s = None \<longleftrightarrow> s = []"
  by (cases s) (simp_all add: first_char_def Let_def)

lemma utf8_valid_Nil [simp]: "utf8_valid []"
  by (subst utf8_valid.simps) simp

lemma utf8_valid_encode_append [simp]:
  "is_scalar ch \<Longrightarrow> utf8_valid (utf8_encode ch @ s) = utf8_valid s"
  by (subst utf8_valid.simps) (simp add: first_char_encode is_scalar_lt)

lemma utf8_valid_cases [consumes 1, case_names Nil Char]:
  assumes "utf8_valid s"
  obtains "s = []" | ch t where "s = utf8_encode ch @ t" "is_scalar ch" "utf8_valid t"
proof (cases "first_char s")
  case None
  then show ?thesis using that by simp
next
  case (Some ch)
  with assms have ch: "is_scalar ch" "take (len_utf8 ch) s = utf8_encode ch"
      "utf8_valid (drop (len_utf8 ch) s)"
    by (auto simp: utf8_valid.simps [of s])
  then have "s = utf8_encode ch @ drop (len_utf8 ch) s"
    by (metis append_take_drop_id)
  with ch that(2) show ?thesis by blast
qed

lemma utf8_valid_induct [consumes 1, case_names Nil Char]:
  assumes "utf8_valid s" "P []"
    and "\<And>ch t. is_scalar ch \<Longrightarrow> utf8_valid t \<Longrightarrow> P t \<Longrightarrow> P (utf8_encode ch @ t)"
  shows "P s"
  using assms(1)
proof (induction "length s" arbitrary: s rule: less_induct)
  case less
  from less.prems show ?case
  proof (cases rule: utf8_valid_cases)
    case Nil
    then show ?thesis using assms(2) by simp
  next
    case (Char ch t)
    then have "P t" by (intro less.hyps) auto
    with Char assms(3) show ?thesis by blast
  qed
qed

lemma utf8_encode_high:
  assumes "0x80 \<le> n" "n < 0x110000" "c \<in> set (utf8_encode n)"
  shows "of_char c \<ge> (0x80::nat)"
proof -
  consider "n < 0x800" | "0x800 \<le> n" "n < 0x10000" | "0x10000 \<le> n" by linarith
  then show ?thesis
  proof cases
    case 1
    then have "192 + n div 64 < 256" "128 + n mod 64 < 256" by linarith+
    with 1 assms show ?thesis by (auto simp: utf8_encode_def)
  next
    case 2
    then have "224 + n div 4096 < 256" "128 + n div 64 mod 64 < 256" "128 + n mod 64 < 256" by linarith+
    with 2 assms show ?thesis by (auto simp: utf8_encode_def)
  next
    case 3
    with assms have "240 + n div 262144 < 256" "128 + n div 4096 mod 64 < 256"
        "128 + n div 64 mod 64 < 256" "128 + n mod 64 < 256" by linarith+
    with 3 assms show ?thesis by (auto simp: utf8_encode_def)
  qed
qed

lemma first_char_ascii: "of_char a < (0x80::nat) \<Longrightarrow> first_char (a # s) = Some (of_char a)"
  using first_char_encode [of "of_char a" s] by simp

lemma utf8_valid_ascii_Cons [simp]:
  "of_char c < (0x80::nat) \<Longrightarrow> utf8_valid (c # s) = utf8_valid s"
proof -
  assume c: "of_char c < (0x80::nat)"
  then have "utf8_encode (of_char c) = [c]" "is_scalar (of_char c)"
    by (simp_all add: is_scalar_def)
  then show ?thesis using utf8_valid_encode_append [of "of_char c" s] by simp
qed

lemma utf8_valid_append: "utf8_valid s \<Longrightarrow> utf8_valid t \<Longrightarrow> utf8_valid (s @ t)"
  by (induction s rule: utf8_valid_induct) simp_all

text \<open>An ASCII byte is always a character of its own: cutting before it leaves well-formed text.\<close>

lemma utf8_valid_drop_at_ascii:
  "utf8_valid s \<Longrightarrow> k < length s \<Longrightarrow> of_char (s ! k) < (0x80::nat) \<Longrightarrow> utf8_valid (drop k s)"
proof (induction s arbitrary: k rule: utf8_valid_induct)
  case Nil
  then show ?case by simp
next
  case (Char ch t)
  show ?case
  proof (cases "k < len_utf8 ch")
    case True
    then have "utf8_encode ch ! k \<in> set (utf8_encode ch)" by simp
    moreover have "of_char (utf8_encode ch ! k) < (0x80::nat)"
      using Char.prems(2) True by (simp add: nth_append)
    ultimately have "ch < 0x80"
      using utf8_encode_high [of ch "utf8_encode ch ! k"] is_scalar_lt [OF Char.hyps(1)] by force
    with True have "k = 0" by (simp add: len_utf8_def)
    with Char.hyps show ?thesis by simp
  next
    case False
    with Char show ?thesis by (simp add: nth_append)
  qed
qed

text \<open>\<open>str::is_char_boundary\<close>, and that cutting at a boundary leaves well-formed text.\<close>

definition is_char_boundary :: "string \<Rightarrow> nat \<Rightarrow> bool" where
  "is_char_boundary s i =
     (i = 0 \<or> i = length s \<or>
      i < length s \<and> (of_char (s ! i) < (0x80::nat) \<or> (0xC0::nat) \<le> of_char (s ! i)))"

lemma utf8_continuation:
  assumes "0 < k" "k < len_utf8 n" "n < 0x110000"
  shows "(0x80::nat) \<le> of_char (utf8_encode n ! k) \<and> of_char (utf8_encode n ! k) < (0xC0::nat)"
proof -
  have m: "128 + x mod 64 < 192" for x :: nat by (simp add: add.commute less_diff_conv2)
  have small: "of_char (char_of (128 + x mod 64) :: char) = (128 + x mod 64 :: nat)" for x
    using m [of x] by simp
  have "k = 1 \<or> k = 2 \<or> k = 3" using assms by (auto simp: len_utf8_def split: if_splits)
  then show ?thesis
    using assms m by (elim disjE) (auto simp: utf8_encode_def len_utf8_def small simp del: of_char_of split: if_splits)
qed

text \<open>\<open>s.get(i..j)\<close>: the slice, where it is in range and cut at character boundaries.\<close>

definition str_get :: "string \<Rightarrow> nat \<Rightarrow> nat \<Rightarrow> string option" where
  "str_get s i j =
     (if i \<le> j \<and> j \<le> length s \<and> is_char_boundary s i \<and> is_char_boundary s j
      then Some (subslice i j s) else None)"

lemma utf8_valid_cut:
  "utf8_valid s \<Longrightarrow> i \<le> length s \<Longrightarrow> is_char_boundary s i \<Longrightarrow> utf8_valid (take i s) \<and> utf8_valid (drop i s)"
proof (induction s arbitrary: i rule: utf8_valid_induct)
  case (Char ch t)
  show ?case
  proof (cases "i < len_utf8 ch")
    case True
    have "i = 0"
    proof (rule ccontr)
      assume "i \<noteq> 0"
      with True utf8_continuation [of i ch] is_scalar_lt [OF Char.hyps(1)] Char.prems(2)
      show False by (auto simp: is_char_boundary_def nth_append)
    qed
    with Char.hyps show ?thesis by simp
  next
    case False
    have "is_char_boundary t (i - len_utf8 ch)"
      using Char.prems(1,2) False by (auto simp: is_char_boundary_def nth_append)
    with Char.IH [of "i - len_utf8 ch"] Char.prems(1) Char.hyps False show ?thesis by simp
  qed
qed simp

lemma boundary_of_valid_drop:
  assumes "utf8_valid (drop i s)" "i \<le> length s"
  shows "is_char_boundary s i"
proof (cases "i < length s")
  case True
  obtain ch t where t: "drop i s = utf8_encode ch @ t" "is_scalar ch"
    using assms(1) True by (cases rule: utf8_valid_cases) auto
  have "s ! i = drop i s ! 0" using True by simp
  then have "s ! i = utf8_encode ch ! 0" by (simp add: t(1) nth_append)
  then show ?thesis using True is_scalar_lt [OF t(2)] by (auto simp: is_char_boundary_def utf8_encode_def)
qed (use assms in \<open>simp add: is_char_boundary_def\<close>)

lemma boundary_after_ascii:
  assumes "utf8_valid s" "k < length s" "of_char (s ! k) < (0x80::nat)"
  shows "is_char_boundary s (Suc k)"
proof -
  from utf8_valid_drop_at_ascii [OF assms] assms(2,3) have "utf8_valid (drop (Suc k) s)"
    by (metis Cons_nth_drop_Suc utf8_valid_ascii_Cons)
  with assms(2) show ?thesis by (intro boundary_of_valid_drop) auto
qed

lemma utf8_valid_subslice:
  assumes "utf8_valid s" "is_char_boundary s i" "is_char_boundary s j" "i \<le> j" "j \<le> length s"
  shows "utf8_valid (subslice i j s)"
proof -
  have "utf8_valid (drop i s)" using utf8_valid_cut [OF assms(1) _ assms(2)] assms(4,5) by simp
  moreover have "is_char_boundary (drop i s) (j - i)"
    using assms(3-5) by (auto simp: is_char_boundary_def)
  ultimately show ?thesis using utf8_valid_cut [of "drop i s" "j - i"] assms(5) by (simp add: subslice_def)
qed

end
