(* ===== verification/Backslash.thy ===== *)
theory Backslash
  imports Prelude
begin

text \<open>
  Tcl backslash escapes: the release-variant escape grammar (\<open>EscapeSyntax\<close> of
  \<open>tcl-dialect/src/grammar.rs\<close>), the decoder, its extent rule and the splitter of
  \<open>tcl-lexer/src/substitution.rs\<close>, and the line-continuation collapse of
  \<open>tcl-syntax/src/backslash.rs\<close>.

  The decoder scans its text by index and copies literal runs in one piece; \<open>subst_ref\<close> is
  the reference it is proved equal to, one character or one escape at a time.
\<close>

section \<open>The escape grammar of a release\<close>

datatype escape_syntax = Tcl84 | Tcl86 | Tcl90 | Jim

definition hex_escape_digits :: "escape_syntax \<Rightarrow> nat option" where
  "hex_escape_digits e = (case e of Tcl84 \<Rightarrow> None | _ \<Rightarrow> Some 2)"

definition has_wide_unicode :: "escape_syntax \<Rightarrow> bool" where
  "has_wide_unicode e = (e \<noteq> Tcl84)"

definition has_braced_unicode :: "escape_syntax \<Rightarrow> bool" where
  "has_braced_unicode e = (e = Jim)"

definition octal_takes_third_digit :: "escape_syntax \<Rightarrow> nat \<Rightarrow> bool" where
  "octal_takes_third_digit e two_digit_value =
     (case e of Tcl84 \<Rightarrow> True | Jim \<Rightarrow> True | _ \<Rightarrow> two_digit_value < 0x20)"

definition is_bmp_only :: "escape_syntax \<Rightarrow> bool" where
  "is_bmp_only e = (e = Tcl84 \<or> e = Tcl86)"

section \<open>Scanning one escape\<close>

definition octal_digit :: "char \<Rightarrow> nat option" where
  "octal_digit c = (let n = of_char c in if 48 \<le> n \<and> n \<le> (55::nat) then Some (n - 48) else None)"

definition hex_digit :: "char \<Rightarrow> nat option" where
  "hex_digit c = (let n = of_char c in
     if 48 \<le> n \<and> n \<le> (57::nat) then Some (n - 48)
     else if 65 \<le> n \<and> n \<le> 70 then Some (n - 55)
     else if 97 \<le> n \<and> n \<le> 102 then Some (n - 87)
     else None)"

definition scalar :: "nat \<Rightarrow> escape_syntax \<Rightarrow> nat" where
  "scalar v e = (if is_bmp_only e \<and> v > 0xFFFF then 0xFFFD
                 else if is_scalar v then v else 0xFFFD)"

definition backslash_continuation_end :: "string \<Rightarrow> nat \<Rightarrow> nat option" where
  "backslash_continuation_end b i =
     (if byte_at b i \<noteq> Some BS \<or> byte_at b (i + 1) \<noteq> Some LF then None
      else Some (skip_while (\<lambda>c. c = SP \<or> c = TAB) b (i + 2)))"

definition is_line_continuation :: "string \<Rightarrow> nat \<Rightarrow> bool" where
  "is_line_continuation text i = (backslash_continuation_end text i \<noteq> None)"

text \<open>
  The digit budget \<open>None\<close> is \<open>usize::MAX\<close>, more digits than any text holds. The value is
  a \<open>u32\<close> that wraps.
\<close>

definition hex_next :: "string \<Rightarrow> nat option \<Rightarrow> bool \<Rightarrow> nat \<Rightarrow> u32 \<Rightarrow> nat \<Rightarrow> nat option" where
  "hex_next b budget capped stop val count =
     (if (case budget of None \<Rightarrow> True | Some m \<Rightarrow> count < m) then
        (case byte_at b stop of
           None \<Rightarrow> None
         | Some byte \<Rightarrow>
             if hex_digit byte = None \<or> capped \<and> val > 0x10FFF then None else hex_digit byte)
      else None)"

lemma hex_next_in: "hex_next b budget capped stop val count = Some d \<Longrightarrow> stop < length b"
  by (auto simp: hex_next_def split: option.splits if_splits dest: byte_at_SomeD)

function hex_run_loop :: "string \<Rightarrow> nat option \<Rightarrow> bool \<Rightarrow> nat \<Rightarrow> u32 \<Rightarrow> nat \<Rightarrow> nat \<times> u32" where
  "hex_run_loop b budget capped stop val count =
     (case hex_next b budget capped stop val count of
        None \<Rightarrow> (stop, val)
      | Some digit \<Rightarrow>
          hex_run_loop b budget capped (Suc stop) (val * 16 + of_nat digit) (Suc count))"
  by pat_completeness auto
termination
  by (relation "measure (\<lambda>(b, budget, capped, e, val, count). length b - e)")
    (auto dest: hex_next_in)

declare hex_run_loop.simps [simp del]

definition hex_run :: "string \<Rightarrow> nat \<Rightarrow> nat option \<Rightarrow> bool \<Rightarrow> nat \<times> nat" where
  "hex_run b start budget capped = (case hex_run_loop b budget capped start 0 0 of (e, v) \<Rightarrow> (e, unat v))"

text \<open>
  \<open>octal_run\<close> is only called at an octal digit; \<open>None\<close> is the panic of its
  \<open>expect\<close> anywhere else (\<open>octal_run_total\<close> below rules it out at the call).
\<close>

definition octal_run :: "string \<Rightarrow> nat \<Rightarrow> escape_syntax \<Rightarrow> (nat \<times> nat) option" where
  "octal_run b start e =
     (let digit = (\<lambda>i. Option.bind (byte_at b i) octal_digit) in
      case digit start of
        None \<Rightarrow> None
      | Some first \<Rightarrow>
          (case digit (start + 1) of
             None \<Rightarrow> Some (start + 1, first)
           | Some second \<Rightarrow>
               let v = first * 8 + second in
               if \<not> octal_takes_third_digit e v then Some (start + 2, v)
               else (case digit (start + 2) of
                       None \<Rightarrow> Some (start + 2, v)
                     | Some third \<Rightarrow> Some (start + 3, (v * 8 + third) mod 256))))"

definition decode_escape :: "string \<Rightarrow> nat \<Rightarrow> escape_syntax \<Rightarrow> nat \<times> nat" where
  "decode_escape text i e =
     (case byte_at text (i + 1) of
        None \<Rightarrow> (i + 1, 0x5C)
      | Some nx \<Rightarrow>
          if nx = CHR ''a'' then (i + 2, 0x07)
          else if nx = CHR ''b'' then (i + 2, 0x08)
          else if nx = CHR ''f'' then (i + 2, 0x0C)
          else if nx = CHR ''n'' then (i + 2, 0x0A)
          else if nx = CHR ''r'' then (i + 2, 0x0D)
          else if nx = CHR ''t'' then (i + 2, 0x09)
          else if nx = CHR ''v'' then (i + 2, 0x0B)
          else if nx = LF then
            (case backslash_continuation_end text i of Some j \<Rightarrow> (j, 0x20) | None \<Rightarrow> (i + 2, 0x20))
          else if nx = CHR ''x'' then
            (case hex_run text (i + 2) (hex_escape_digits e) False of (j, v) \<Rightarrow>
               if j = i + 2 then (i + 2, 0x78) else (j, scalar (v mod 256) e))
          else if nx = CHR ''u'' \<and> has_braced_unicode e \<and> byte_at text (i + 2) = Some LBRACE then
            (case hex_run text (i + 3) None True of (j, v) \<Rightarrow>
               if i + 3 < j \<and> byte_at text j = Some RBRACE then (j + 1, scalar v e)
               else (i + 2, 0x75))
          else if nx = CHR ''u'' then
            (case hex_run text (i + 2) (Some 4) True of (j, v) \<Rightarrow>
               if j = i + 2 then (i + 2, 0x75) else (j, scalar v e))
          else if nx = CHR ''U'' \<and> has_wide_unicode e then
            (case hex_run text (i + 2) (Some 8) True of (j, v) \<Rightarrow>
               if j = i + 2 then (i + 2, 0x55) else (j, scalar v e))
          else (case octal_run text (i + 1) e of
                  Some (j, v) \<Rightarrow> (j, scalar v e)
                | None \<Rightarrow>
                    (case first_char (drop (i + 1) text) of
                       Some ch \<Rightarrow> (i + 1 + len_utf8 ch, ch)
                     | None \<Rightarrow> (i + 4, 0xFFFD))))"

definition backslash_escape_end_in :: "string \<Rightarrow> nat \<Rightarrow> escape_syntax \<Rightarrow> nat" where
  "backslash_escape_end_in text i e = fst (decode_escape text i e)"

definition backslash_escape_end :: "string \<Rightarrow> nat \<Rightarrow> nat" where
  "backslash_escape_end text i = backslash_escape_end_in text i Tcl90"

lemma hex_run_loop_ge: "stop \<le> fst (hex_run_loop b m cap stop v c)"
proof (induction b m cap stop v c rule: hex_run_loop.induct)
  case (1 b m cap stop v c)
  then show ?case
    by (cases "hex_next b m cap stop v c") (auto simp: hex_run_loop.simps [of b m cap stop v c])
qed

lemma hex_run_ge [bounds]: "start \<le> fst (hex_run b start m cap)"
  using hex_run_loop_ge [of start b m cap 0 0] by (simp add: hex_run_def case_prod_beta)

lemma hex_run_gt [simp]: "i < start \<Longrightarrow> i < fst (hex_run b start m cap)"
  using hex_run_ge [of start b m cap] by simp

lemma octal_run_gt: "octal_run b start e = Some jv \<Longrightarrow> start < fst jv"
  by (auto simp: octal_run_def Let_def split: option.splits if_splits)

lemma continuation_end_gt: "backslash_continuation_end b i = Some j \<Longrightarrow> i + 2 \<le> j"
  using skip_while_ge [of "i + 2" "\<lambda>c. c = SP \<or> c = TAB" b]
  by (auto simp: backslash_continuation_end_def split: if_splits)

lemma decode_escape_gt [bounds]: "i < fst (decode_escape text i e)"
proof -
  have "fst (case backslash_continuation_end text i of Some j \<Rightarrow> (j, 0x20) | None \<Rightarrow> (i + 2, 0x20 :: nat)) > i"
    by (auto split: option.split dest: continuation_end_gt)
  moreover have "fst (case octal_run text (i + 1) e of Some (j, v) \<Rightarrow> (j, scalar v e)
      | None \<Rightarrow> (case first_char (drop (i + 1) text) of
                   Some ch \<Rightarrow> (i + 1 + len_utf8 ch, ch) | None \<Rightarrow> (i + 4, 0xFFFD))) > i"
    by (auto split: option.split dest!: octal_run_gt)
  ultimately show ?thesis
    by (cases "byte_at text (i + 1)") (simp_all add: decode_escape_def case_prod_beta)
qed

section \<open>Substitution and splitting\<close>

text \<open>The slow path: \<open>lit\<close> is the start of the literal run waiting to be copied.\<close>

function backslash_subst_loop ::
    "string \<Rightarrow> escape_syntax \<Rightarrow> string \<Rightarrow> nat \<Rightarrow> nat \<Rightarrow> string" where
  "backslash_subst_loop text e out lit i =
     (if i < length text then
        (if text ! i \<noteq> BS then backslash_subst_loop text e out lit (Suc i)
         else backslash_subst_loop text e
                (out @ subslice lit i text @ utf8_encode (snd (decode_escape text i e)))
                (fst (decode_escape text i e)) (fst (decode_escape text i e)))
      else out @ subslice lit (length text) text)"
  by pat_completeness auto
termination
  by (relation "measure (\<lambda>(text, e, out, lit, i). length text - i)")
    (auto intro!: diff_less_mono2 bounds)

declare backslash_subst_loop.simps [simp del]

definition backslash_subst_in :: "string \<Rightarrow> escape_syntax \<Rightarrow> string" where
  "backslash_subst_in text e =
     (if BS \<notin> set text then text else backslash_subst_loop text e [] 0 0)"

definition backslash_subst :: "string \<Rightarrow> string" where
  "backslash_subst text = backslash_subst_in text Tcl90"

record escape_segment =
  seg_start :: nat
  seg_end :: nat
  is_escape :: bool

function split_escapes_loop ::
    "string \<Rightarrow> escape_syntax \<Rightarrow> escape_segment list \<Rightarrow> nat \<Rightarrow> nat \<Rightarrow> escape_segment list" where
  "split_escapes_loop text e out run i =
     (if i < length text then
        (if text ! i \<noteq> BS \<or> length text \<le> i + 1 then split_escapes_loop text e out run (Suc i)
         else
           (let j = backslash_escape_end_in text i e in
            split_escapes_loop text e
              (out @ (if run < i then [\<lparr>seg_start = run, seg_end = i, is_escape = False\<rparr>] else [])
                 @ [\<lparr>seg_start = i, seg_end = j, is_escape = True\<rparr>]) j j))
      else out @ (if run < length text
                  then [\<lparr>seg_start = run, seg_end = length text, is_escape = False\<rparr>] else []))"
  by pat_completeness auto
termination
  by (relation "measure (\<lambda>(text, e, out, run, i). length text - i)")
    (auto intro!: diff_less_mono2 bounds simp: backslash_escape_end_in_def)

declare split_escapes_loop.simps [simp del]

definition split_backslash_escapes_in :: "string \<Rightarrow> escape_syntax \<Rightarrow> escape_segment list" where
  "split_backslash_escapes_in text e = split_escapes_loop text e [] 0 0"

definition split_backslash_escapes :: "string \<Rightarrow> escape_segment list" where
  "split_backslash_escapes text = split_backslash_escapes_in text Tcl90"

section \<open>An escape depends only on the text after it starts\<close>

lemma hex_next_drop: "hex_next (drop i b) m cap k v c = hex_next b m cap (i + k) v c"
  by (simp add: hex_next_def byte_at_drop)

lemma hex_run_loop_drop:
  "hex_run_loop b m cap (i + k) v c =
     (case hex_run_loop (drop i b) m cap k v c of (j, w) \<Rightarrow> (i + j, w))"
proof (induction "drop i b" m cap k v c rule: hex_run_loop.induct)
  case (1 m cap k v c)
  then show ?case
    by (cases "hex_next b m cap (i + k) v c")
      (simp_all add: hex_run_loop.simps [of b m cap "i + k" v c]
        hex_run_loop.simps [of "drop i b" m cap k v c] hex_next_drop)
qed

lemma hex_run_drop:
  "hex_run b (i + k) m cap = (case hex_run (drop i b) k m cap of (j, v) \<Rightarrow> (i + j, v))"
  by (simp add: hex_run_def hex_run_loop_drop case_prod_beta)

lemma octal_run_drop:
  "octal_run b (i + k) e = map_option (\<lambda>(j, v). (i + j, v)) (octal_run (drop i b) k e)"
  by (simp add: octal_run_def byte_at_drop add.assoc Let_def split: option.split)

lemma backslash_continuation_end_drop:
  "backslash_continuation_end b i =
     map_option ((+) i) (backslash_continuation_end (drop i b) 0)"
  by (simp add: backslash_continuation_end_def byte_at_drop scan_simps)

lemma decode_escape_drop:
  "decode_escape text i e = (case decode_escape (drop i text) 0 e of (j, v) \<Rightarrow> (i + j, v))"
proof (cases "byte_at text (i + 1)")
  case None
  then show ?thesis by (simp add: decode_escape_def byte_at_drop)
next
  case (Some nx)
  define t where "t = drop i text"
  have b: "byte_at text (i + k) = byte_at t k" for k
    by (simp add: t_def byte_at_drop)
  have h: "hex_run text (i + k) m cap = (i + fst (hex_run t k m cap), snd (hex_run t k m cap))" for k m cap
    by (simp add: t_def hex_run_drop case_prod_beta)
  have o: "octal_run text (i + 1) e = map_option (\<lambda>jv. (i + fst jv, snd jv)) (octal_run t 1 e)"
    by (simp only: t_def octal_run_drop case_prod_unfold)
  have c: "backslash_continuation_end text i = map_option ((+) i) (backslash_continuation_end t 0)"
    unfolding t_def by (rule backslash_continuation_end_drop)
  have d: "drop (i + 1) text = drop 1 t"
    by (simp add: t_def add.commute)
  have nx: "byte_at t 1 = Some nx"
    using Some b [of 1] by simp
  have push: "(i + fst (if P then x else y), snd (if P then x else y)) =
      (if P then (i + fst x, snd x) else (i + fst y, snd y))"
    for P and x y :: "nat \<times> nat"
    by simp
  have b2: "byte_at text (Suc (Suc i)) = byte_at t 2" "byte_at text (i + k) = byte_at t k" for k
    using b [of 2] b [of k] by simp_all
  show ?thesis
    unfolding decode_escape_def t_def [symmetric] add_0 nx Some option.case case_prod_beta push
    unfolding h o c d
    by (simp add: b2 push split del: if_split cong: if_cong split: option.split)
qed

lemmas decode_escape_at = decode_escape_drop [unfolded case_prod_beta]

section \<open>The decoder against the one-at-a-time reference\<close>

function subst_ref :: "escape_syntax \<Rightarrow> string \<Rightarrow> string" where
  "subst_ref e [] = []"
| "subst_ref e (c # s) =
     (if c \<noteq> BS then c # subst_ref e s
      else utf8_encode (snd (decode_escape (c # s) 0 e))
             @ subst_ref e (drop (fst (decode_escape (c # s) 0 e)) (c # s)))"
  by pat_completeness auto
termination
  by (relation "measure (length \<circ> snd)") (auto simp: decode_escape_gt)

lemma backslash_subst_loop_ref:
  assumes "lit \<le> i" "i \<le> length text \<or> lit = i"
  shows "backslash_subst_loop text e out lit i = out @ subslice lit i text @ subst_ref e (drop i text)"
  using assms
proof (induction "text" e out lit i rule: backslash_subst_loop.induct)
  case (1 "text" e out lit i)
  let ?d = "decode_escape text i e"
  note step = backslash_subst_loop.simps [of "text" e out lit i]
  show ?case
  proof (cases "i < length text")
    case True
    then have d: "drop i text = text ! i # drop (Suc i) text"
      by (simp add: Cons_nth_drop_Suc)
    show ?thesis
    proof (cases "text ! i = BS")
      case False
      with 1 True show ?thesis by (simp add: step d subslice_Suc)
    next
      case True
      with d have "decode_escape (BS # drop (Suc i) text) 0 e = (fst ?d - i, snd ?d)"
        using decode_escape_at [of "text" i e] by (simp add: prod_eq_iff)
      moreover have "drop (fst ?d - i) (BS # drop (Suc i) text) = drop (fst ?d) text"
        using decode_escape_gt [of i "text" e] d True by (metis drop_drop le_add_diff_inverse2 less_imp_le)
      ultimately show ?thesis
        using True \<open>i < length text\<close> 1(2) by (simp add: step d)
    qed
  next
    case False
    with 1(3,4) show ?thesis by (auto simp: step subslice_to_end)
  qed
qed

lemma subst_ref_no_backslash: "BS \<notin> set s \<Longrightarrow> subst_ref e s = s"
  by (induction s) auto

lemma backslash_subst_in_eq: "backslash_subst_in text e = subst_ref e text"
  by (simp add: backslash_subst_in_def backslash_subst_loop_ref subst_ref_no_backslash)

section \<open>Substitution keeps text well-formed\<close>

lemma scalar_is_scalar [simp]: "is_scalar (scalar v e)"
  by (simp add: scalar_def is_scalar_def)

lemma hex_digit_ascii: "hex_digit c = Some d \<Longrightarrow> of_char c < (0x80::nat)"
  by (auto simp: hex_digit_def Let_def split: if_splits)

lemma hex_run_loop_ascii:
  "stop \<le> length b \<Longrightarrow>
     fst (hex_run_loop b m cap stop v c) \<le> length b \<and>
     (\<forall>k. stop \<le> k \<longrightarrow> k < fst (hex_run_loop b m cap stop v c) \<longrightarrow> of_char (b ! k) < (0x80::nat))"
proof (induction b m cap stop v c rule: hex_run_loop.induct)
  case (1 b m cap stop v c)
  show ?case
  proof (cases "hex_next b m cap stop v c")
    case None
    with 1 show ?thesis by (simp add: hex_run_loop.simps [of b m cap stop v c])
  next
    case (Some d)
    then have "stop < length b" and "hex_digit (b ! stop) = Some d"
      by (auto simp: hex_next_def split: option.splits if_splits dest!: byte_at_SomeD)
    then show ?thesis using 1 Some hex_digit_ascii [of "b ! stop" d]
      by (auto simp: hex_run_loop.simps [of b m cap stop v c]) (metis le_antisym not_less_eq_eq)
  qed
qed

lemma hex_run_ascii:
  assumes "start \<le> length b" "\<forall>k < start. of_char (b ! k) < (0x80::nat)"
  shows "fst (hex_run b start m cap) \<le> length b"
    and "k < fst (hex_run b start m cap) \<Longrightarrow> of_char (b ! k) < (0x80::nat)"
  using hex_run_loop_ascii [OF assms(1), of m cap 0 0] assms(2)
  by (auto simp: hex_run_def case_prod_beta) (metis not_le)

lemma octal_digit_ascii: "octal_digit c = Some d \<Longrightarrow> of_char c < (0x80::nat)"
  by (auto simp: octal_digit_def Let_def split: if_splits)

lemma octal_run_ascii:
  assumes "octal_run b start e = Some (j, v)" "start \<le> k" "k < j"
  shows "k < length b \<and> of_char (b ! k) < (0x80::nat)"
proof -
  define digit where "digit i = Option.bind (byte_at b i) octal_digit" for i
  have digit: "i < length b \<and> of_char (b ! i) < (0x80::nat)" if "digit i = Some d" for i d
    using that by (auto simp: digit_def bind_eq_Some_conv dest!: byte_at_SomeD intro: octal_digit_ascii)
  have "j = start + 1 \<and> digit start \<noteq> None
      \<or> j = start + 2 \<and> digit start \<noteq> None \<and> digit (start + 1) \<noteq> None
      \<or> j = start + 3 \<and> digit start \<noteq> None \<and> digit (start + 1) \<noteq> None \<and> digit (start + 2) \<noteq> None"
    using assms(1) unfolding octal_run_def digit_def [symmetric] Let_def
    by (auto split: option.splits if_splits)
  moreover have "k = start \<or> k = start + 1 \<and> start + 2 \<le> j \<or> k = start + 2 \<and> start + 3 \<le> j \<or> start + 3 < j"
    using assms(2,3) by linarith
  ultimately have "digit k \<noteq> None" by auto
  then show ?thesis using digit by blast
qed

lemma utf8_valid_drop_ascii:
  "utf8_valid s \<Longrightarrow> n \<le> length s \<Longrightarrow> (\<And>k. k < n \<Longrightarrow> of_char (s ! k) < (0x80::nat)) \<Longrightarrow>
     utf8_valid (drop n s)"
proof (induction n arbitrary: s)
  case 0
  then show ?case by simp
next
  case (Suc n)
  then obtain c t where s: "s = c # t" by (cases s) auto
  have "of_char c < (0x80::nat)" using Suc.prems(3) [of 0] by (simp add: s)
  with Suc.prems have "utf8_valid t" "n \<le> length t" by (simp_all add: s)
  moreover have "of_char (t ! k) < (0x80::nat)" if "k < n" for k
    using Suc.prems(3) [of "Suc k"] that by (simp add: s)
  ultimately show ?case using Suc.IH by (simp add: s)
qed

text \<open>What one escape of a well-formed text leaves: a scalar, and well-formed text after it.\<close>

definition escape_ok :: "string \<Rightarrow> nat \<times> nat \<Rightarrow> bool" where
  "escape_ok s d \<longleftrightarrow> is_scalar (snd d) \<and> fst d \<le> length s \<and> utf8_valid (drop (fst d) s)"

lemma escape_ok_asciiI:
  "utf8_valid s \<Longrightarrow> is_scalar v \<Longrightarrow> j \<le> length s \<Longrightarrow> (\<And>k. k < j \<Longrightarrow> of_char (s ! k) < (0x80::nat)) \<Longrightarrow>
     escape_ok s (j, v)"
  by (simp add: escape_ok_def utf8_valid_drop_ascii)

lemma decode_escape_ok:
  assumes "utf8_valid (BS # t)"
  shows "escape_ok (BS # t) (decode_escape (BS # t) 0 e)"
proof (cases t)
  case Nil
  then show ?thesis by (simp add: decode_escape_def escape_ok_def is_scalar_def)
next
  case (Cons nx u)
  let ?s = "BS # t"
  have two: "escape_ok ?s (2, v)" if "is_scalar v" "of_char nx < (0x80::nat)" for v
    using assms that by (intro escape_ok_asciiI) (auto simp: Cons less_Suc_eq numeral_2_eq_2)
  have hex2: "escape_ok ?s (fst (hex_run ?s 2 m cap), scalar v e)" if "of_char nx < (0x80::nat)" for m cap v
    using assms that hex_run_ascii [where b = ?s and start = 2 and m = m and cap = cap]
    by (intro escape_ok_asciiI) (auto simp: Cons less_Suc_eq numeral_2_eq_2)
  have hex3: "escape_ok ?s (Suc (fst (hex_run ?s 3 None True)), scalar v e)"
    if "nx = CHR ''u''" "byte_at ?s 2 = Some LBRACE"
       "byte_at ?s (fst (hex_run ?s 3 None True)) = Some RBRACE" for v
  proof (rule escape_ok_asciiI)
    obtain w where u: "u = LBRACE # w"
      using \<open>byte_at ?s 2 = Some LBRACE\<close> by (cases u) (auto simp: Cons)
    have a3: "\<forall>k < 3. of_char (?s ! k) < (0x80::nat)" "3 \<le> length ?s"
      using that(1) by (auto simp: Cons u less_Suc_eq numeral_3_eq_3)
    show "Suc (fst (hex_run ?s 3 None True)) \<le> length ?s"
      using byte_at_SomeD [OF that(3)] by simp
    show "of_char (?s ! k) < (0x80::nat)" if "k < Suc (fst (hex_run ?s 3 None True))" for k
    proof (cases "k = fst (hex_run ?s 3 None True)")
      case True
      then have "?s ! k = RBRACE"
        using byte_at_SomeD [OF \<open>byte_at ?s (fst _) = _\<close>] by simp
      then show ?thesis by simp
    next
      case False
      with that show ?thesis
        using hex_run_ascii(2) [OF a3(2,1), where m = None and cap = True, of k] by simp
    qed
  qed (use assms in simp_all)
  have oct: "escape_ok ?s (j, scalar v e)" if "octal_run ?s 1 e = Some (j, v)" for j v
  proof (rule escape_ok_asciiI)
    show "j \<le> length ?s"
      using octal_run_ascii [OF that, of "j - 1"] octal_run_gt [OF that]
      by (cases j) (auto simp: less_Suc_eq_le)
    show "of_char (?s ! k) < (0x80::nat)" if "k < j" for k
      using octal_run_ascii [OF \<open>octal_run ?s 1 e = _\<close> _ that] by (cases k) auto
  qed (use assms in simp_all)
  have cont: "escape_ok ?s (j, 0x20)" if "backslash_continuation_end ?s 0 = Some j" for j
  proof -
    let ?ws = "takeWhile (\<lambda>c. c = SP \<or> c = TAB) u"
    have nx: "nx = LF" and j: "j = length (BS # nx # ?ws)"
      using that by (auto simp: backslash_continuation_end_def Cons scan_simps split: if_splits)
    have s: "?s = (BS # nx # ?ws) @ dropWhile (\<lambda>c. c = SP \<or> c = TAB) u"
      by (simp add: Cons)
    have a: "of_char c < (0x80::nat)" if "c \<in> set (BS # nx # ?ws)" for c
      using that nx by (auto dest: set_takeWhileD)
    show ?thesis
    proof (rule escape_ok_asciiI)
      show "of_char (?s ! k) < (0x80::nat)" if "k < j" for k
      proof -
        have "?s ! k = (BS # nx # ?ws) ! k"
          using that unfolding s j by (subst nth_append) simp
        then show ?thesis using a [OF nth_mem, of k] that j by simp
      qed
    qed (use assms j s length_takeWhile_le [of _ u] in \<open>auto simp: is_scalar_def Cons\<close>)
  qed
  have chr: "escape_ok ?s (Suc (len_utf8 ch), ch)" if "first_char t = Some ch" for ch
  proof -
    have t: "is_scalar ch" "take (len_utf8 ch) t = utf8_encode ch" "utf8_valid (drop (len_utf8 ch) t)"
      using assms that by (auto simp: utf8_valid.simps [of t])
    from arg_cong [OF t(2), of length] have "len_utf8 ch \<le> length t" by simp
    with t show ?thesis by (simp add: escape_ok_def)
  qed
  have ok_if: "escape_ok ?s (if P then x else y)"
    if "P \<Longrightarrow> escape_ok ?s x" "\<not> P \<Longrightarrow> escape_ok ?s y" for P x y
    using that by simp
  have nx: "byte_at ?s 1 = Some nx" by (simp add: Cons)
  show ?thesis
    unfolding decode_escape_def add_0 nx option.case case_prod_beta
    by (intro ok_if) (use two hex2 hex3 oct cont chr in \<open>auto simp: Cons is_scalar_def
        split: option.split\<close>)
qed

lemma decode_escape_bounds:
  assumes "utf8_valid text" "i < length text" "text ! i = BS"
  shows "fst (decode_escape text i e) \<le> length text"
    and "utf8_valid (drop (fst (decode_escape text i e)) text)"
    and "is_scalar (snd (decode_escape text i e))"
proof -
  have d: "drop i text = BS # drop (Suc i) text"
    using assms(2,3) by (simp add: Cons_nth_drop_Suc [symmetric])
  have "utf8_valid (drop i text)"
    using assms by (intro utf8_valid_drop_at_ascii) simp_all
  then have "escape_ok (drop i text) (decode_escape (drop i text) 0 e)"
    unfolding d by (rule decode_escape_ok)
  with assms(2) show "fst (decode_escape text i e) \<le> length text"
    and "utf8_valid (drop (fst (decode_escape text i e)) text)"
    and "is_scalar (snd (decode_escape text i e))"
    by (auto simp: decode_escape_at [of "text" i] escape_ok_def add.commute)
qed

lemma subst_ref_append_plain: "BS \<notin> set s \<Longrightarrow> subst_ref e (s @ t) = s @ subst_ref e t"
  by (induction s) auto

lemma utf8_valid_subst_ref: "utf8_valid s \<Longrightarrow> utf8_valid (subst_ref e s)"
proof (induction "length s" arbitrary: s rule: less_induct)
  case less
  from less.prems show ?case
  proof (cases rule: utf8_valid_cases)
    case Nil
    then show ?thesis by simp
  next
    case (Char ch t)
    show ?thesis
    proof (cases "ch = 0x5C")
      case True
      then have s: "s = BS # t" using Char by simp
      let ?d = "decode_escape (BS # t) 0 e"
      have ok: "escape_ok (BS # t) ?d"
        using less.prems s by (simp add: decode_escape_ok)
      then have "utf8_valid (subst_ref e (drop (fst ?d) (BS # t)))"
        using decode_escape_gt [of 0 "BS # t" e] by (intro less.hyps) (auto simp: s escape_ok_def)
      with ok show ?thesis by (simp add: s escape_ok_def)
    next
      case False
      have "BS \<notin> set (utf8_encode ch)"
      proof (cases "ch < 0x80")
        case True
        with False show ?thesis by (auto dest!: arg_cong [where f = "of_char :: char \<Rightarrow> nat"])
      next
        case high: False
        then show ?thesis using utf8_encode_high [of ch BS] is_scalar_lt [of ch] Char by auto
      qed
      moreover have "utf8_valid (subst_ref e t)"
        using Char by (intro less.hyps) simp_all
      ultimately show ?thesis using Char by (simp add: subst_ref_append_plain)
    qed
  qed
qed

section \<open>The splitter agrees with the decoder\<close>

definition render_segment :: "string \<Rightarrow> escape_syntax \<Rightarrow> escape_segment \<Rightarrow> string" where
  "render_segment text e g =
     (if is_escape g then utf8_encode (snd (decode_escape text (seg_start g) e))
      else subslice (seg_start g) (seg_end g) text)"

fun segments_cover :: "escape_segment list \<Rightarrow> nat \<Rightarrow> nat \<Rightarrow> bool" where
  "segments_cover [] a b = (a = b)"
| "segments_cover (g # gs) a b =
     (seg_start g = a \<and> a < seg_end g \<and> segments_cover gs (seg_end g) b)"

lemma segments_cover_append:
  "segments_cover gs a b \<Longrightarrow> segments_cover hs b c \<Longrightarrow> segments_cover (gs @ hs) a c"
  by (induction gs a b rule: segments_cover.induct) auto

lemma split_escapes_loop_cover:
  assumes "utf8_valid text" "segments_cover out 0 run" "run \<le> i" "i \<le> length text"
  shows "segments_cover (split_escapes_loop text e out run i) 0 (length text)"
  using assms
proof (induction "text" e out run i rule: split_escapes_loop.induct)
  case (1 "text" e out run i)
  note step = split_escapes_loop.simps [of "text" e out run i]
  consider "length text \<le> i" | "i < length text" "text ! i \<noteq> BS \<or> length text \<le> i + 1"
    | "i < length text" "text ! i = BS" "i + 1 < length text" by linarith
  then show ?case
  proof cases
    case 1
    with "1.prems" show ?thesis unfolding step by (auto intro!: segments_cover_append)
  next
    case 2
    with "1.prems" "1.IH"(1) show ?thesis by (auto simp: step)
  next
    case 3
    let ?j = "backslash_escape_end_in text i e"
    have "i < ?j" "?j \<le> length text"
      using decode_escape_gt decode_escape_bounds(1) 3 "1.prems"(1)
      by (simp_all add: backslash_escape_end_in_def)
    moreover have "segments_cover (out @ (if run < i then [\<lparr>seg_start = run, seg_end = i, is_escape = False\<rparr>] else [])
        @ [\<lparr>seg_start = i, seg_end = ?j, is_escape = True\<rparr>]) 0 ?j"
      using "1.prems"(2,3) \<open>i < ?j\<close> by (auto intro!: segments_cover_append)
    ultimately show ?thesis using 3 "1.prems"(1) "1.IH"(2) [OF _ _ refl] by (simp add: step Let_def)
  qed
qed

lemma subst_ref_at_escape:
  assumes "i < length text" "text ! i = BS"
  shows "subst_ref e (drop i text) = utf8_encode (snd (decode_escape text i e))
           @ subst_ref e (drop (fst (decode_escape text i e)) text)"
proof -
  have d: "drop i text = BS # drop (Suc i) text"
    using assms by (simp add: Cons_nth_drop_Suc [symmetric])
  have "drop (fst (decode_escape (drop i text) 0 e)) (drop i text) = drop (fst (decode_escape text i e)) text"
    by (simp add: decode_escape_at [of "text" i] add.commute)
  then show ?thesis
    using decode_escape_at [of "text" i e] unfolding d by (simp add: d)
qed

lemma split_escapes_loop_render:
  assumes "run \<le> i" "i \<le> length text \<or> run = i"
  shows "concat (map (render_segment text e) (split_escapes_loop text e out run i)) =
     concat (map (render_segment text e) out) @ subslice run i text @ subst_ref e (drop i text)"
  using assms
proof (induction "text" e out run i rule: split_escapes_loop.induct)
  case (1 "text" e out run i)
  note step = split_escapes_loop.simps [of "text" e out run i]
  consider "length text \<le> i" | "i < length text" "text ! i \<noteq> BS"
    | "i + 1 = length text" "text ! i = BS"
    | "i < length text" "text ! i = BS" "i + 1 < length text" by linarith
  then show ?case
  proof cases
    case 1
    with "1.prems" show ?thesis
      by (auto simp: step render_segment_def subslice_to_end)
  next
    case 2
    then have "subst_ref e (drop i text) = text ! i # subst_ref e (drop (Suc i) text)"
      by (simp add: Cons_nth_drop_Suc [symmetric])
    with 2 "1.prems" "1.IH"(1) show ?thesis by (simp add: step subslice_Suc)
  next
    case 3
    then have "drop i text = [BS]"
      by (simp add: Cons_nth_drop_Suc [symmetric])
    with 3 "1.prems" "1.IH"(1) subslice_Suc [of run i "text"] show ?thesis
      by (auto simp: step decode_escape_def)
  next
    case 4
    with "1.prems" "1.IH"(2) show ?thesis
      by (simp add: step Let_def backslash_escape_end_in_def subst_ref_at_escape render_segment_def)
  qed
qed

section \<open>Line continuations of a braced word\<close>

function collapse_loop :: "string \<Rightarrow> bool \<Rightarrow> string \<Rightarrow> nat \<Rightarrow> string" where
  "collapse_loop raw trim_preceding out i =
     (if i < length raw then
        (if raw ! i = BS then
           (case backslash_continuation_end raw i of
              Some j \<Rightarrow>
                collapse_loop raw trim_preceding
                  ((if trim_preceding then rev (dropWhile (\<lambda>c. c = SP \<or> c = TAB) (rev out)) else out) @ [SP]) j
            | None \<Rightarrow>
                (case byte_at raw (i + 1) of
                   Some b \<Rightarrow> collapse_loop raw trim_preceding (out @ [BS, b]) (i + 2)
                 | None \<Rightarrow> collapse_loop raw trim_preceding (out @ [BS]) (i + 1)))
         else collapse_loop raw trim_preceding (out @ [raw ! i]) (i + 1))
      else out)"
  by pat_completeness auto
termination
  by (relation "measure (\<lambda>(raw, t, out, i). length raw - i)")
    (auto intro!: diff_less_mono2 dest!: continuation_end_gt)

declare collapse_loop.simps [simp del]

definition collapse_continuations :: "string \<Rightarrow> bool \<Rightarrow> string" where
  "collapse_continuations raw trim_preceding =
     (if \<not> list_ex (\<lambda>i. backslash_continuation_end raw i \<noteq> None) [0..<length raw] then raw
      else collapse_loop raw trim_preceding [] 0)"

definition collapse_brace_continuations :: "string \<Rightarrow> string" where
  "collapse_brace_continuations raw = collapse_continuations raw False"

definition collapse_separator_continuations :: "string \<Rightarrow> string" where
  "collapse_separator_continuations raw = collapse_continuations raw True"

datatype brace_backslash_newline = Folds | Literal

definition folds :: "brace_backslash_newline \<Rightarrow> bool" where
  "folds r = (r = Folds)"

definition collapse_brace_continuations_for :: "string \<Rightarrow> brace_backslash_newline \<Rightarrow> string" where
  "collapse_brace_continuations_for raw rule =
     (if folds rule then collapse_brace_continuations raw else raw)"

definition decode_bytes_in :: "string \<Rightarrow> escape_syntax \<Rightarrow> string" where
  "decode_bytes_in raw e = (if utf8_valid raw then backslash_subst_in raw e else raw)"

definition decode_bytes :: "string \<Rightarrow> string" where
  "decode_bytes raw = decode_bytes_in raw Tcl90"

text \<open>What the collapse leaves of a braced word, one unit at a time.\<close>

function collapse_ref :: "string \<Rightarrow> string" where
  "collapse_ref [] = []"
| "collapse_ref [c] = [c]"
| "collapse_ref (c # d # s) =
     (if c \<noteq> BS then c # collapse_ref (d # s)
      else if d = LF then SP # collapse_ref (dropWhile (\<lambda>c. c = SP \<or> c = TAB) s)
      else BS # d # collapse_ref s)"
  by pat_completeness auto
termination
  by (relation "measure length") (auto simp: less_Suc_eq_le le_SucI length_dropWhile_le)

lemma continuation_end_Cons:
  "backslash_continuation_end (c # d # s) 0 =
     (if c = BS \<and> d = LF then Some (2 + length (takeWhile (\<lambda>c. c = SP \<or> c = TAB) s)) else None)"
  by (auto simp: backslash_continuation_end_def scan_simps numeral_2_eq_2)

lemma continuation_end_short: "length s \<le> 1 \<Longrightarrow> backslash_continuation_end s 0 = None"
  by (simp add: backslash_continuation_end_def)

lemma collapse_loop_ref: "collapse_loop raw False out i = out @ collapse_ref (drop i raw)"
proof (induction raw False out i rule: collapse_loop.induct)
  case (1 raw out i)
  note step = collapse_loop.simps [of raw False out i]
  note cont = backslash_continuation_end_drop [of raw i]
  show ?case
  proof (cases "drop i raw" rule: collapse_ref.cases)
    case 1
    then show ?thesis by (simp add: step)
  next
    case (2 c)
    then have "i < length raw" "raw ! i = c" "length raw \<le> Suc i"
      by (simp_all add: drop_eq_Cons_iff)
    with 2 show ?thesis using "1.hyps" by (auto simp: step cont continuation_end_short)
  next
    case (3 c d s)
    then have i: "i < length raw" "raw ! i = c" "drop (Suc i) raw = d # s"
      by (simp_all add: drop_eq_Cons_iff)
    then have b: "byte_at raw (i + 1) = Some d" "drop (i + 2) raw = s"
      by (simp_all add: drop_eq_Cons_iff byte_at_def)
    have dw: "drop (i + (2 + length (takeWhile P s))) raw = dropWhile P s" for P
      using b(2) by (metis add.assoc add.commute drop_drop dropWhile_eq_drop)
    show ?thesis
      using "1.hyps" i b 3 dw
      by (simp add: step cont continuation_end_Cons)
  qed
qed

lemma collapse_ref_no_continuation:
  "(\<And>i. backslash_continuation_end raw i = None) \<Longrightarrow> collapse_ref raw = raw"
proof (induction raw rule: collapse_ref.induct)
  case (3 c d s)
  have s: "backslash_continuation_end s i = None" "backslash_continuation_end (d # s) i = None" for i
    using "3.prems" [of "i + 2"] "3.prems" [of "i + 1"] by (simp_all add: backslash_continuation_end_def scan_simps split: if_splits)
  with 3 show ?case using "3.prems" [of 0] by (auto simp: continuation_end_Cons)
qed simp_all

lemma collapse_brace_continuations_ref: "collapse_brace_continuations raw = collapse_ref raw"
proof (cases "list_ex (\<lambda>i. backslash_continuation_end raw i \<noteq> None) [0..<length raw]")
  case True
  then show ?thesis
    by (simp add: collapse_brace_continuations_def collapse_continuations_def collapse_loop_ref)
next
  case False
  have "backslash_continuation_end raw i = None" for i
    using False by (cases "i < length raw")
      (auto simp: list_ex_iff backslash_continuation_end_def)
  with False show ?thesis
    by (simp add: collapse_brace_continuations_def collapse_continuations_def collapse_ref_no_continuation)
qed

lemma collapse_ref_idem: "collapse_ref (collapse_ref s) = collapse_ref s"
proof (induction s rule: collapse_ref.induct)
  case (3 c d s)
  show ?case
  proof (cases "c = BS")
    case True
    with 3 show ?thesis by (cases "collapse_ref (dropWhile (\<lambda>c. c = SP \<or> c = TAB) s)") auto
  next
    case False
    with 3 show ?thesis by (cases "collapse_ref (d # s)") auto
  qed
qed simp_all

section \<open>Properties\<close>

text \<open>
  C15. The decoder, which copies literal runs in one piece and advances by the extents it computes,
  is the plain left-to-right substitution of one character or one escape at a time, in every release
  grammar.
\<close>

theorem backslash_subst_reference: "backslash_subst_in text e = subst_ref e text"
  by (rule backslash_subst_in_eq)

text \<open>
  C16. Substitution maps well-formed UTF-8 to well-formed UTF-8: no escape of any release yields a
  surrogate or an over-long scalar, and none ends inside a character.
\<close>

theorem backslash_subst_utf8: "utf8_valid text \<Longrightarrow> utf8_valid (backslash_subst_in text e)"
  by (simp add: backslash_subst_in_eq utf8_valid_subst_ref)

theorem backslash_subst_utf8_witness:
  "utf8_valid (''a'' @ [BS] @ ''ud83d'') \<and> utf8_valid (backslash_subst_in (''a'' @ [BS] @ ''ud83d'') Tcl90)"
proof -
  have "utf8_valid (''a'' @ [BS] @ ''ud83d'')" by simp
  from this backslash_subst_utf8 [OF this] show ?thesis by blast
qed

text \<open>
  C33. An escape of a well-formed text ends after it starts, inside the text and at a character
  boundary, so the slices the decoder and the highlighters take never panic.
\<close>

theorem escape_end_in_bounds:
  assumes "utf8_valid text" "i < length text" "text ! i = BS"
  shows "i < backslash_escape_end_in text i e \<and> backslash_escape_end_in text i e \<le> length text
           \<and> utf8_valid (drop (backslash_escape_end_in text i e) text)"
  using decode_escape_bounds [OF assms] decode_escape_gt by (simp add: backslash_escape_end_in_def)

theorem escape_end_in_bounds_witness:
  "1 < backslash_escape_end_in (''a'' @ [BS] @ ''x41b'') 1 Tcl86
     \<and> backslash_escape_end_in (''a'' @ [BS] @ ''x41b'') 1 Tcl86 \<le> length (''a'' @ [BS] @ ''x41b'')
     \<and> utf8_valid (drop (backslash_escape_end_in (''a'' @ [BS] @ ''x41b'') 1 Tcl86) (''a'' @ [BS] @ ''x41b''))"
proof -
  have "utf8_valid (''a'' @ [BS] @ ''x41b'')" by simp
  moreover have "1 < length (''a'' @ [BS] @ ''x41b'')" "(''a'' @ [BS] @ ''x41b'') ! 1 = BS" by simp_all
  ultimately show ?thesis by (rule escape_end_in_bounds)
qed

text \<open>
  The segments of \<open>split_backslash_escapes\<close> are contiguous and cover the text exactly, and
  decoding the escape segments while copying the others gives what the decoder gives.
\<close>

lemma split_escapes_partition:
  assumes "utf8_valid text"
  shows "segments_cover (split_backslash_escapes_in text e) 0 (length text) \<and>
    concat (map (render_segment text e) (split_backslash_escapes_in text e)) = backslash_subst_in text e"
  using split_escapes_loop_cover [OF assms, of "[]" 0 0 e]
    split_escapes_loop_render [of 0 0 "text" e "[]"]
  by (simp add: split_backslash_escapes_in_def backslash_subst_in_eq)

text \<open>
  Collapsing the line continuations of a braced word is idempotent: the result holds no
  continuation that a second pass would still fold.
\<close>

lemma collapse_brace_idempotent:
  "collapse_brace_continuations (collapse_brace_continuations raw) = collapse_brace_continuations raw"
  by (simp add: collapse_brace_continuations_ref collapse_ref_idem)

end
