(* ===== verification/Tcl_List.thy ===== *)
theory Tcl_List
  imports Backslash
begin

text \<open>
  Tcl lists, \<open>tcl-syntax/src/list.rs\<close>: the element scanner \<open>find_element\<close> with the
  splitters over it, and the quoting of \<open>Tcl_ScanElement\<close>/\<open>Tcl_ConvertElement\<close> with
  \<open>join_list\<close> over it.

  The scanner works on byte indices of the whole text, and its results are ranges of that text; the
  section \<open>Scanning a suffix\<close> shows that it only looks at the text after its position, which
  carries the round trip: splitting a joined list gives back its elements.
\<close>

section \<open>Errors and elements\<close>

datatype list_error = UnmatchedBrace | UnmatchedQuote | BraceFollowedByJunk | QuoteFollowedByJunk

definition message :: "list_error \<Rightarrow> string" where
  "message e = (case e of
     UnmatchedBrace \<Rightarrow> ''unmatched open brace in list''
   | UnmatchedQuote \<Rightarrow> ''unmatched open quote in list''
   | BraceFollowedByJunk \<Rightarrow> ''list element in braces followed by''
   | QuoteFollowedByJunk \<Rightarrow> ''list element in quotes followed by'')"

record element =
  value_start :: nat
  value_end :: nat
  literal :: bool
  braced :: bool
  nxt :: nat

definition is_list_space :: "char \<Rightarrow> bool" where
  "is_list_space c = (c = SP \<or> c = TAB \<or> c = LF \<or> c = CR \<or> c = VT \<or> c = FF)"

section \<open>The element scanner\<close>

text \<open>
  The loop of \<open>find_element\<close>. It yields the element's size, the position after it and
  whether the element needs no backslash collapse.
\<close>

function elem_loop ::
    "string \<Rightarrow> nat \<Rightarrow> nat \<Rightarrow> bool \<Rightarrow> bool \<Rightarrow> nat \<Rightarrow> list_error + nat \<times> nat \<times> bool" where
  "elem_loop b elem_start open_braces in_quotes lit pos =
     (if length b \<le> pos then
        (if open_braces \<noteq> 0 then Inl UnmatchedBrace
         else if in_quotes then Inl UnmatchedQuote
         else Inr (pos - elem_start, pos, lit))
      else if b ! pos = LBRACE \<and> open_braces \<noteq> 0 then
        elem_loop b elem_start (open_braces + 1) in_quotes lit (pos + 1)
      else if b ! pos = RBRACE then
        (if open_braces = 1 then
           (if pos + 1 < length b \<and> \<not> is_list_space (b ! (pos + 1)) then Inl BraceFollowedByJunk
            else Inr (pos - elem_start, pos + 1, lit))
         else if open_braces > 1 then elem_loop b elem_start (open_braces - 1) in_quotes lit (pos + 1)
         else elem_loop b elem_start open_braces in_quotes lit (pos + 1))
      else if b ! pos = DQUOTE \<and> in_quotes then
        (if pos + 1 < length b \<and> \<not> is_list_space (b ! (pos + 1)) then Inl QuoteFollowedByJunk
         else Inr (pos - elem_start, pos + 1, lit))
      else if b ! pos = BS then
        (let lit' = (if open_braces = 0 then False else lit) in
         if pos + 1 < length b then
           (if open_braces = 0 \<and> b ! (pos + 1) = LF then
              elem_loop b elem_start open_braces in_quotes lit'
                (skip_while (\<lambda>c. c = SP \<or> c = TAB) b (pos + 2))
            else elem_loop b elem_start open_braces in_quotes lit' (pos + 2))
         else elem_loop b elem_start open_braces in_quotes lit' (pos + 1))
      else if open_braces = 0 \<and> \<not> in_quotes \<and> is_list_space (b ! pos) then
        Inr (pos - elem_start, pos, lit)
      else elem_loop b elem_start open_braces in_quotes lit (pos + 1))"
  by pat_completeness auto
termination
  by (relation "measure (\<lambda>(b, es, ob, q, l, pos). length b - pos)")
    (auto simp: scan_simps)

declare elem_loop.simps [simp del]

definition find_element :: "string \<Rightarrow> nat \<Rightarrow> list_error + element option" where
  "find_element s start =
     (let pos = skip_while is_list_space s start in
      if length s \<le> pos then Inr None
      else
        (let brc = (s ! pos = LBRACE);
             elem_start = (if s ! pos = LBRACE \<or> s ! pos = DQUOTE then pos + 1 else pos) in
         case elem_loop s elem_start (if brc then 1 else 0) (s ! pos = DQUOTE) True elem_start of
           Inl e \<Rightarrow> Inl e
         | Inr (sz, pos', lit) \<Rightarrow>
             Inr (Some \<lparr>value_start = elem_start, value_end = elem_start + sz, literal = lit,
                        braced = brc, nxt = skip_while is_list_space s pos'\<rparr>)))"

section \<open>Scanning a suffix\<close>

text \<open>
  The same scan on the text from the position on: the element's raw text, what follows it, and the
  literal flag.
\<close>

definition prepend :: "string \<Rightarrow> list_error + string \<times> string \<times> bool \<Rightarrow> list_error + string \<times> string \<times> bool" where
  "prepend p r = (case r of Inl e \<Rightarrow> Inl e | Inr (v, rest, l) \<Rightarrow> Inr (p @ v, rest, l))"

function elem_ref :: "nat \<Rightarrow> bool \<Rightarrow> bool \<Rightarrow> string \<Rightarrow> list_error + string \<times> string \<times> bool" where
  "elem_ref ob q lit [] =
     (if ob \<noteq> 0 then Inl UnmatchedBrace else if q then Inl UnmatchedQuote else Inr ([], [], lit))"
| "elem_ref ob q lit (c # s) =
     (if c = LBRACE \<and> ob \<noteq> 0 then prepend [c] (elem_ref (ob + 1) q lit s)
      else if c = RBRACE then
        (if ob = 1 then
           (if s \<noteq> [] \<and> \<not> is_list_space (hd s) then Inl BraceFollowedByJunk else Inr ([], s, lit))
         else prepend [c] (elem_ref (ob - 1) q lit s))
      else if c = DQUOTE \<and> q then
        (if s \<noteq> [] \<and> \<not> is_list_space (hd s) then Inl QuoteFollowedByJunk else Inr ([], s, lit))
      else if c = BS then
        (case s of
           [] \<Rightarrow> prepend [c] (elem_ref ob q (ob \<noteq> 0 \<and> lit) [])
         | d # t \<Rightarrow>
             if ob = 0 \<and> d = LF then
               prepend (c # d # takeWhile (\<lambda>c. c = SP \<or> c = TAB) t)
                 (elem_ref ob q False (dropWhile (\<lambda>c. c = SP \<or> c = TAB) t))
             else prepend [c, d] (elem_ref ob q (ob \<noteq> 0 \<and> lit) t))
      else if ob = 0 \<and> \<not> q \<and> is_list_space c then Inr ([], c # s, lit)
      else prepend [c] (elem_ref ob q lit s))"
  by pat_completeness auto
termination
  by (relation "measure (\<lambda>(ob, q, l, s). length s)")
    (auto simp: less_Suc_eq_le le_SucI length_dropWhile_le)

lemma prepend_Inr_iff [simp]:
  "prepend p r = Inr (v, rest, l) \<longleftrightarrow> (\<exists>v'. r = Inr (v', rest, l) \<and> v = p @ v')"
  by (auto simp: prepend_def split: sum.splits)

lemma prepend_Inl_iff [simp]: "prepend p r = Inl e \<longleftrightarrow> r = Inl e"
  by (auto simp: prepend_def split: sum.splits)

lemma prepend_Inr [simp]: "prepend p (Inr (v, rest, l)) = Inr (p @ v, rest, l)"
  by (simp add: prepend_def)

definition at_index :: "string \<Rightarrow> nat \<Rightarrow> nat \<Rightarrow> list_error + string \<times> string \<times> bool \<Rightarrow> list_error + nat \<times> nat \<times> bool" where
  "at_index b es pos r = (case r of Inl e \<Rightarrow> Inl e
     | Inr (v, rest, l) \<Rightarrow> Inr (pos - es + length v, length b - length rest, l))"

lemma at_index_prepend:
  "es \<le> pos \<Longrightarrow> at_index b es pos (prepend p r) = at_index b es (pos + length p) r"
  by (auto simp: at_index_def prepend_def split: sum.splits)

lemma at_index_simps [simp]:
  "at_index b es pos (Inl e) = Inl e"
  "at_index b es pos (Inr (v, rest, l)) = Inr (pos - es + length v, length b - length rest, l)"
  by (simp_all add: at_index_def)

lemma elem_loop_ref:
  "es \<le> pos \<Longrightarrow> pos \<le> length b \<Longrightarrow>
     elem_loop b es ob q lit pos = at_index b es pos (elem_ref ob q lit (drop pos b))"
proof (induction b es ob q lit pos rule: elem_loop.induct)
  case (1 b es ob q lit pos)
  note step = elem_loop.simps [of b es ob q lit pos]
  show ?case
  proof (cases "drop pos b")
    case Nil
    with "1.prems" show ?thesis by (simp add: step)
  next
    case (Cons c s)
    then have pos: "pos < length b" "b ! pos = c" "drop (Suc pos) b = s"
      by (simp_all add: drop_eq_Cons_iff)
    have hd: "(Suc pos < length b \<and> \<not> is_list_space (b ! Suc pos)) = (s \<noteq> [] \<and> \<not> is_list_space (hd s))"
      using pos(3) by (cases s) (auto simp: drop_eq_Cons_iff)
    have len: "length b - length s = Suc pos"
      using pos by auto
    show ?thesis
    proof (cases "c = BS")
      case False
      consider "c = LBRACE" "ob \<noteq> 0" | "c = RBRACE" "ob = 1" | "c = RBRACE" "1 < ob" | "c = RBRACE" "ob = 0"
        | "c = DQUOTE" "q" | "c \<noteq> RBRACE" "c = LBRACE \<longrightarrow> ob = 0" "c = DQUOTE \<longrightarrow> \<not> q"
            "ob = 0 \<and> \<not> q \<and> is_list_space c"
        | "c \<noteq> RBRACE" "c = LBRACE \<longrightarrow> ob = 0" "c = DQUOTE \<longrightarrow> \<not> q"
            "\<not> (ob = 0 \<and> \<not> q \<and> is_list_space c)" by linarith
      then show ?thesis
      proof cases
        case 1
        with "1.prems" "1.IH"(1) pos show ?thesis unfolding step by (simp add: Cons at_index_prepend)
      next
        case 2
        with "1.prems" pos hd len show ?thesis unfolding step by (auto simp: Cons)
      next
        case 3
        with "1.prems" "1.IH"(2) pos show ?thesis unfolding step by (simp add: Cons at_index_prepend)
      next
        case 4
        with "1.prems" "1.IH"(3) pos show ?thesis unfolding step by (simp add: Cons at_index_prepend)
      next
        case 5
        with "1.prems" pos hd len show ?thesis unfolding step by (auto simp: Cons)
      next
        case 6
        with False "1.prems" pos len show ?thesis unfolding step by (auto simp: Cons)
      next
        case 7
        have "elem_loop b es ob q lit pos = elem_loop b es ob q lit (pos + 1)"
          using 7 False pos by (subst step) auto
        moreover have "elem_ref ob q lit (c # s) = prepend [c] (elem_ref ob q lit s)"
          using 7 False by auto
        moreover have "elem_loop b es ob q lit (pos + 1) = at_index b es (pos + 1) (elem_ref ob q lit s)"
          using "1.IH"(7) 7 False "1.prems" pos by auto
        ultimately show ?thesis using "1.prems" by (simp only: Cons at_index_prepend) simp
      qed
    next
      case True
      then show ?thesis
      proof (cases s)
        case Nil
        with pos True "1.prems" "1.IH"(6) [OF _ _ _ _ _ refl] show ?thesis
          by (simp add: step Cons at_index_prepend)
      next
        case c2: (Cons d t)
        then have d: "Suc pos < length b" "b ! Suc pos = d" "drop (pos + 2) b = t"
          using pos by (simp_all add: drop_eq_Cons_iff)
        have "skip_while (\<lambda>c. c = SP \<or> c = TAB) b (pos + 2) \<le> length b"
          using d by (intro bounds) simp
        moreover have "drop (pos + 2 + length (takeWhile P t)) b = dropWhile P t" for P
          using d(3) by (metis add.commute drop_drop dropWhile_eq_drop)
        ultimately show ?thesis
          using "1.prems" "1.IH"(4,5) [OF _ _ _ _ _ refl] pos d True c2 unfolding step
          by (cases "ob = 0") (simp_all add: Cons at_index_prepend scan_simps)
      qed
    qed
  qed
qed

lemma elem_class_cases [case_names bopen bclose nested quoted esc space other]:
  obtains "c = LBRACE" "ob \<noteq> 0" | "c = RBRACE" "ob = 1" | "c = RBRACE" "ob \<noteq> (1::nat)"
    | "c = DQUOTE" "q" | "c = BS" | "ob = 0" "\<not> q" "is_list_space c"
    | "\<not> (c = LBRACE \<and> ob \<noteq> 0)" "c \<noteq> RBRACE" "\<not> (c = DQUOTE \<and> q)" "c \<noteq> BS"
      "\<not> (ob = 0 \<and> \<not> q \<and> is_list_space c)"
  by (cases "c = LBRACE \<and> ob \<noteq> 0"; cases "c = RBRACE"; cases "ob = 1"; cases "c = DQUOTE \<and> q";
      cases "c = BS"; cases "ob = 0 \<and> \<not> q \<and> is_list_space c"; simp)

lemma elem_ref_step:
  "ob \<noteq> 0 \<Longrightarrow> elem_ref ob q lit (LBRACE # s) = prepend [LBRACE] (elem_ref (ob + 1) q lit s)"
  "elem_ref (Suc 0) q lit (RBRACE # s) =
     (if s \<noteq> [] \<and> \<not> is_list_space (hd s) then Inl BraceFollowedByJunk else Inr ([], s, lit))"
  "ob \<noteq> 1 \<Longrightarrow> elem_ref ob q lit (RBRACE # s) = prepend [RBRACE] (elem_ref (ob - 1) q lit s)"
  "elem_ref ob True lit (DQUOTE # s) =
     (if s \<noteq> [] \<and> \<not> is_list_space (hd s) then Inl QuoteFollowedByJunk else Inr ([], s, lit))"
  "elem_ref ob q lit [BS] = prepend [BS] (elem_ref ob q (ob \<noteq> 0 \<and> lit) [])"
  "elem_ref 0 q lit (BS # LF # s) =
     prepend (BS # LF # takeWhile (\<lambda>c. c = SP \<or> c = TAB) s)
       (elem_ref 0 q False (dropWhile (\<lambda>c. c = SP \<or> c = TAB) s))"
  "ob \<noteq> 0 \<or> d \<noteq> LF \<Longrightarrow>
     elem_ref ob q lit (BS # d # s) = prepend [BS, d] (elem_ref ob q (ob \<noteq> 0 \<and> lit) s)"
  by simp_all (auto simp: is_list_space_def)

lemma elem_ref_space:
  "is_list_space c \<Longrightarrow> elem_ref 0 False lit (c # s) = Inr ([], c # s, lit)"
  by (auto simp: is_list_space_def)

lemma elem_ref_other:
  "\<not> (c = LBRACE \<and> ob \<noteq> 0) \<Longrightarrow> c \<noteq> RBRACE \<Longrightarrow> \<not> (c = DQUOTE \<and> q) \<Longrightarrow> c \<noteq> BS \<Longrightarrow>
     \<not> (ob = 0 \<and> \<not> q \<and> is_list_space c) \<Longrightarrow>
     elem_ref ob q lit (c # s) = prepend [c] (elem_ref ob q lit s)"
  by auto

declare elem_ref.simps(2) [simp del]

text \<open>The text after an element: the end, or list whitespace.\<close>

definition elem_end :: "string \<Rightarrow> bool" where
  "elem_end r \<longleftrightarrow> r = [] \<or> is_list_space (hd r)"

lemma elem_ref_split:
  "elem_ref ob q lit s = Inr (v, r, l) \<Longrightarrow>
     elem_end r \<and> (\<exists>d. s = v @ d @ r \<and> (ob = 0 \<and> \<not> q \<longrightarrow> d = []))"
proof (induction "length s" arbitrary: ob q lit s v rule: less_induct)
  case less
  show ?case
  proof (cases s)
    case Nil
    with less.prems show ?thesis by (auto simp: elem_end_def split: if_splits)
  next
    case s: (Cons c t)
    have rec: ?thesis
      if "s = p @ u" "p \<noteq> []" "elem_ref ob q lit s = prepend p (elem_ref ob' q lit' u)" "ob = 0 \<Longrightarrow> ob' = 0"
      for p u ob' lit'
    proof -
      note eqs = that
      have "length u < length s" using eqs(1,2) by simp
      moreover obtain v' where v': "elem_ref ob' q lit' u = Inr (v', r, l)" "v = p @ v'"
        using less.prems eqs(3) by auto
      ultimately obtain d where "elem_end r" "u = v' @ d @ r" "ob' = 0 \<and> \<not> q \<longrightarrow> d = []"
        using less.hyps by blast
      with eqs(1,4) v'(2) show ?thesis by (intro conjI exI [of _ d]) simp_all
    qed
    show ?thesis
    proof (cases rule: elem_class_cases [where c = c and ob = ob and q = q])
      case bopen
      then show ?thesis by (intro rec [of "[c]" t "ob + 1" lit]) (simp_all add: s elem_ref_step)
    next
      case bclose
      with less.prems show ?thesis by (auto simp: s elem_ref_step elem_end_def split: if_splits)
    next
      case nested
      then show ?thesis by (intro rec [of "[c]" t "ob - 1" lit]) (simp_all add: s elem_ref_step)
    next
      case quoted
      with less.prems show ?thesis by (auto simp: s elem_ref_step elem_end_def split: if_splits)
    next
      case esc
      show ?thesis
      proof (cases t)
        case Nil
        with esc show ?thesis
          by (intro rec [of "[BS]" "[]" ob "ob \<noteq> 0 \<and> lit"]) (simp_all add: s elem_ref_step)
      next
        case t: (Cons d u)
        let ?ws = "\<lambda>c. c = SP \<or> c = TAB"
        show ?thesis
        proof (cases "ob = 0 \<and> d = LF")
          case True
          with esc show ?thesis
            by (intro rec [of "BS # LF # takeWhile ?ws u" "dropWhile ?ws u" 0 False])
              (simp_all add: s t elem_ref_step)
        next
          case False
          with esc show ?thesis
            by (intro rec [of "[BS, d]" u ob "ob \<noteq> 0 \<and> lit"]) (auto simp: s t elem_ref_step)
        qed
      qed
    next
      case space
      with less.prems show ?thesis by (auto simp: s elem_ref_space elem_end_def)
    next
      case other
      from elem_ref_other [OF this] show ?thesis by (intro rec [of "[c]" t ob lit]) (simp_all add: s)
    qed
  qed
qed

section \<open>One element of a suffix\<close>

definition next_elem :: "string \<Rightarrow> list_error + (string \<times> string \<times> bool) option" where
  "next_elem s =
     (case dropWhile is_list_space s of
        [] \<Rightarrow> Inr None
      | c # t \<Rightarrow>
          (case (if c = LBRACE then elem_ref 1 False True t
                 else if c = DQUOTE then elem_ref 0 True True t
                 else elem_ref 0 False True (c # t)) of
             Inl e \<Rightarrow> Inl e
           | Inr r \<Rightarrow> Inr (Some r)))"

definition element_shows :: "string \<Rightarrow> element \<Rightarrow> string \<times> string \<times> bool \<Rightarrow> bool" where
  "element_shows s el r \<longleftrightarrow>
     subslice (value_start el) (value_end el) s = fst r
     \<and> drop (nxt el) s = dropWhile is_list_space (fst (snd r))
     \<and> nxt el \<le> length s \<and> literal el = snd (snd r)"

lemma find_element_next:
  assumes "start \<le> length s"
  shows "rel_sum (=) (rel_option (element_shows s)) (find_element s start) (next_elem (drop start s))"
proof -
  define pos where "pos = skip_while is_list_space s start"
  have pos: "drop pos s = dropWhile is_list_space (drop start s)"
    by (simp add: pos_def)
  show ?thesis
  proof (cases "dropWhile is_list_space (drop start s)")
    case Nil
    with pos have "length s \<le> pos" by simp
    then show ?thesis unfolding next_elem_def Nil by (simp add: find_element_def Let_def flip: pos_def)
  next
    case (Cons c t)
    then have c: "pos < length s" "s ! pos = c" "drop (Suc pos) s = t"
      using pos by (simp_all add: drop_eq_Cons_iff)
    define es where "es = (if c = LBRACE \<or> c = DQUOTE then pos + 1 else pos)"
    define u where "u = (if c = LBRACE \<or> c = DQUOTE then t else c # t)"
    define ob :: nat where "ob = (if c = LBRACE then 1 else 0)"
    have es: "es \<le> length s" "drop es s = u"
      using c Cons pos by (auto simp: es_def u_def)
    have ref: "elem_loop s es ob (c = DQUOTE) True es = at_index s es es (elem_ref ob (c = DQUOTE) True u)"
      using elem_loop_ref [OF order.refl es(1)] by (simp add: es(2))
    have nx: "next_elem (drop start s) = (case elem_ref ob (c = DQUOTE) True u of Inl e \<Rightarrow> Inl e | Inr r \<Rightarrow> Inr (Some r))"
      by (auto simp: next_elem_def Cons ob_def u_def)
    have fe: "find_element s start = (case elem_loop s es ob (c = DQUOTE) True es of Inl e \<Rightarrow> Inl e
        | Inr (sz, p, l) \<Rightarrow> Inr (Some \<lparr>value_start = es, value_end = es + sz, literal = l,
             braced = (c = LBRACE), nxt = skip_while is_list_space s p\<rparr>))"
      using c unfolding find_element_def pos_def [symmetric] Let_def es_def ob_def by auto
    show ?thesis
    proof (cases "elem_ref ob (c = DQUOTE) True u")
      case (Inl e)
      then show ?thesis by (simp add: nx fe ref)
    next
      case (Inr vrl)
      obtain v r l where vrl: "vrl = (v, r, l)" by (cases vrl)
      obtain d where d: "u = v @ d @ r" using elem_ref_split Inr vrl by blast
      have s: "s = take es s @ v @ d @ r" using es d by (metis append_take_drop_id)
      have "length s - length r \<le> length s" "drop (length s - length r) s = r"
        "subslice es (es + length v) s = v"
        using es d by (auto simp: subslice_def) (metis append_assoc append_eq_conv_conj s length_append diff_add_inverse2)+
      then show ?thesis
        by (auto simp: nx fe ref Inr vrl element_shows_def intro: bounds)
    qed
  qed
qed

lemma elem_ref_bare_progress:
  assumes "elem_ref 0 False lit (c # t) = Inr (v, r, l)" "\<not> is_list_space c"
  shows "length r \<le> length t"
proof -
  have "elem_ref 0 False lit (c # t) \<noteq> Inr ([], r, l)"
    using assms(2) by (cases t) (auto simp: elem_ref.simps(2) split: if_splits)
  then have "v \<noteq> []" using assms(1) by auto
  moreover obtain d where "c # t = v @ d @ r" using elem_ref_split [OF assms(1)] by blast
  ultimately show ?thesis by (cases v) auto
qed

lemma next_elem_shorter:
  assumes "next_elem s = Inr (Some (v, r, l))"
  shows "length r < length s"
proof -
  obtain c t where ct: "dropWhile is_list_space s = c # t"
    using assms by (cases "dropWhile is_list_space s") (simp_all add: next_elem_def)
  then have "\<not> is_list_space c" by (metis hd_dropWhile list.discI list.sel(1))
  moreover have "length r \<le> length t" if "elem_ref ob q lit t = Inr (v, r, l)" for ob q lit
    using elem_ref_split [OF that] by auto
  ultimately have "length r \<le> length t"
    using assms elem_ref_bare_progress
    by (auto simp: next_elem_def ct split: if_splits sum.splits)
  also have "Suc (length t) \<le> length s"
    using length_dropWhile_le [of is_list_space s] by (simp add: ct)
  finally show ?thesis by simp
qed

lemma find_element_beyond: "length s \<le> start \<Longrightarrow> find_element s start = Inr None"
  by (simp add: find_element_def Let_def scan_simps)

lemma find_element_progress:
  assumes "find_element s start = Inr (Some el)"
  shows "start < nxt el" "nxt el \<le> length s"
proof -
  have st: "start \<le> length s"
    using assms find_element_beyond [of s start] by (cases "start \<le> length s") auto
  obtain v r l where r: "next_elem (drop start s) = Inr (Some (v, r, l))" "element_shows s el (v, r, l)"
    using find_element_next [OF st] assms
    by (auto simp: option_rel_Some1 elim!: rel_sum.cases)
  from next_elem_shorter [OF r(1)] have "length r < length s - start" by simp
  moreover have "length s - nxt el \<le> length r"
    using r(2) length_dropWhile_le [of is_list_space r] by (auto simp: element_shows_def simp flip: length_drop)
  ultimately show "start < nxt el" by linarith
  show "nxt el \<le> length s" using r(2) by (simp add: element_shows_def)
qed

lemma find_element_measure:
  "find_element s pos = Inr (Some el) \<Longrightarrow> length s - nxt el < length s - pos"
  using find_element_progress [of s pos el] by linarith

section \<open>The splitters\<close>

definition elem_value :: "string \<Rightarrow> element \<Rightarrow> string" where
  "elem_value s el =
     (if literal el then subslice (value_start el) (value_end el) s
      else backslash_subst (subslice (value_start el) (value_end el) s))"

function split_list_loop :: "string \<Rightarrow> string list \<Rightarrow> nat \<Rightarrow> list_error + string list" where
  "split_list_loop s out pos =
     (case find_element s pos of
        Inl e \<Rightarrow> Inl e
      | Inr None \<Rightarrow> Inr out
      | Inr (Some el) \<Rightarrow> split_list_loop s (out @ [elem_value s el]) (nxt el))"
  by pat_completeness auto
termination
  by (relation "measure (\<lambda>(s, out, pos). length s - pos)")
    (auto intro: find_element_measure)

definition split_list :: "string \<Rightarrow> list_error + string list" where
  "split_list s = split_list_loop s [] 0"

function split_list_raw_loop :: "string \<Rightarrow> string list \<Rightarrow> nat \<Rightarrow> list_error + string list" where
  "split_list_raw_loop s out pos =
     (case find_element s pos of
        Inl e \<Rightarrow> Inl e
      | Inr None \<Rightarrow> Inr out
      | Inr (Some el) \<Rightarrow>
          split_list_raw_loop s (out @ [subslice (value_start el) (value_end el) s]) (nxt el))"
  by pat_completeness auto
termination
  by (relation "measure (\<lambda>(s, out, pos). length s - pos)")
    (auto intro: find_element_measure)

definition split_list_raw :: "string \<Rightarrow> list_error + string list" where
  "split_list_raw s = split_list_raw_loop s [] 0"

function split_list_lenient_loop :: "string \<Rightarrow> string list \<Rightarrow> nat \<Rightarrow> string list" where
  "split_list_lenient_loop s out pos =
     (case find_element s pos of
        Inr (Some el) \<Rightarrow> split_list_lenient_loop s (out @ [elem_value s el]) (nxt el)
      | _ \<Rightarrow> out)"
  by pat_completeness auto
termination
  by (relation "measure (\<lambda>(s, out, pos). length s - pos)")
    (auto intro: find_element_measure)

definition split_list_lenient :: "string \<Rightarrow> string list" where
  "split_list_lenient s = split_list_lenient_loop s [] 0"

function split_list_raw_lenient_loop :: "string \<Rightarrow> string list \<Rightarrow> nat \<Rightarrow> string list" where
  "split_list_raw_lenient_loop s out pos =
     (case find_element s pos of
        Inr (Some el) \<Rightarrow>
          split_list_raw_lenient_loop s (out @ [subslice (value_start el) (value_end el) s]) (nxt el)
      | _ \<Rightarrow> out)"
  by pat_completeness auto
termination
  by (relation "measure (\<lambda>(s, out, pos). length s - pos)")
    (auto intro: find_element_measure)

definition split_list_raw_lenient :: "string \<Rightarrow> string list" where
  "split_list_raw_lenient s = split_list_raw_lenient_loop s [] 0"

declare split_list_loop.simps [simp del] split_list_raw_loop.simps [simp del]
  split_list_lenient_loop.simps [simp del] split_list_raw_lenient_loop.simps [simp del]

section \<open>Quoting an element\<close>

datatype quote = QNone | QBrace | QEscape | QMask

record scan_flags =
  forbid_none :: bool
  require_escape :: bool
  prefer_escape :: bool
  prefer_brace :: bool
  depth :: int

text \<open>
  The loop of \<open>scan_element\<close>; its index only moves forward, so it recurses on the bytes left. The brace
  depth is an \<open>i32\<close> in the source, which no text of fewer than \<open>2 ^ 31\<close> braces exceeds.
\<close>

fun scan_loop :: "scan_flags \<Rightarrow> string \<Rightarrow> scan_flags" where
  "scan_loop f [] = f"
| "scan_loop f (c # s) =
     (if c = LBRACE then scan_loop (f\<lparr>depth := depth f + 1\<rparr>) s
      else if c = RBRACE then
        scan_loop (f\<lparr>depth := depth f - 1, require_escape := require_escape f \<or> depth f - 1 < 0\<rparr>) s
      else if c = CHR '']'' \<or> c = DQUOTE then
        scan_loop (f\<lparr>forbid_none := True, prefer_escape := True\<rparr>) s
      else if c = CHR ''['' \<or> c = CHR ''$'' \<or> c = CHR '';'' \<or> is_list_space c then
        scan_loop (f\<lparr>forbid_none := True, prefer_brace := True\<rparr>) s
      else if c = BS then
        (case s of
           [] \<Rightarrow> scan_loop (f\<lparr>require_escape := True\<rparr>) []
         | d # t \<Rightarrow>
             if d = LF then scan_loop (f\<lparr>require_escape := True\<rparr>) t
             else if d = LBRACE \<or> d = RBRACE \<or> d = BS then
               scan_loop (f\<lparr>forbid_none := True, prefer_brace := True\<rparr>) t
             else scan_loop (f\<lparr>forbid_none := True, prefer_brace := True\<rparr>) (d # t))
      else scan_loop f s)"

definition scan_element :: "string \<Rightarrow> bool \<Rightarrow> quote" where
  "scan_element b leading_hash_unsafe =
     (case b of
        [] \<Rightarrow> QBrace
      | c # _ \<Rightarrow>
          let f0 = \<lparr>forbid_none = (c = LBRACE \<or> c = DQUOTE), require_escape = False,
                     prefer_escape = False,
                     prefer_brace = ((leading_hash_unsafe \<and> c = CHR ''#'') \<or> c = LBRACE \<or> c = DQUOTE),
                     depth = 0\<rparr>;
              f = scan_loop f0 b in
          if require_escape f \<or> depth f > 0 then QEscape
          else if forbid_none f then
            (if prefer_escape f \<and> \<not> prefer_brace f then QMask else QBrace)
          else QNone)"

definition escape_byte :: "bool \<Rightarrow> char \<Rightarrow> string" where
  "escape_byte escape_braces c =
     (if c = LBRACE \<or> c = RBRACE then (if escape_braces then [BS, c] else [c])
      else if c = CHR ''['' \<or> c = CHR '']'' \<or> c = CHR ''$'' \<or> c = CHR '';'' \<or> c = BS \<or> c = DQUOTE \<or> c = SP
      then [BS, c]
      else if c = LF then [BS, CHR ''n'']
      else if c = TAB then [BS, CHR ''t'']
      else if c = CR then [BS, CHR ''r'']
      else if c = VT then [BS, CHR ''v'']
      else if c = FF then [BS, CHR ''f'']
      else [c])"

definition convert_element :: "string \<Rightarrow> quote \<Rightarrow> bool \<Rightarrow> string \<Rightarrow> string" where
  "convert_element b quote leading_hash_unsafe out =
     (let lead_hash = (leading_hash_unsafe \<and> byte_at b 0 = Some (CHR ''#''));
          quote' = (if lead_hash \<and> quote \<noteq> QEscape then QBrace else quote) in
      case quote' of
        QNone \<Rightarrow> out @ b
      | QBrace \<Rightarrow> out @ [LBRACE] @ b @ [RBRACE]
      | _ \<Rightarrow> (let escape_braces = (quote' = QEscape) in
               case b of
                 [] \<Rightarrow> out
               | c # s \<Rightarrow>
                   out @ (if c = CHR ''#'' \<and> leading_hash_unsafe then [BS, CHR ''#'']
                          else escape_byte escape_braces c)
                       @ concat (map (escape_byte escape_braces) s)))"

definition append_list_element :: "string \<Rightarrow> string \<Rightarrow> bool \<Rightarrow> string" where
  "append_list_element out elem leading_hash_unsafe =
     convert_element elem (scan_element elem leading_hash_unsafe) leading_hash_unsafe out"

definition list_element :: "string \<Rightarrow> string" where
  "list_element s = append_list_element [] s True"

fun join_loop :: "string \<Rightarrow> nat \<Rightarrow> string list \<Rightarrow> string" where
  "join_loop out idx [] = out"
| "join_loop out idx (e # es) =
     join_loop (append_list_element (if idx \<noteq> 0 then out @ [SP] else out) e (idx = 0)) (idx + 1) es"

definition join_list :: "string list \<Rightarrow> string" where
  "join_list elems = join_loop [] 0 elems"

definition normalise_spacing :: "string \<Rightarrow> list_error + string" where
  "normalise_spacing s = (case split_list s of Inl e \<Rightarrow> Inl e | Inr xs \<Rightarrow> Inr (join_list xs))"

section \<open>Splitting a suffix\<close>

function split_ref :: "string \<Rightarrow> list_error + string list" where
  "split_ref s =
     (case next_elem s of
        Inl e \<Rightarrow> Inl e
      | Inr None \<Rightarrow> Inr []
      | Inr (Some (v, r, l)) \<Rightarrow>
          map_sum id ((#) (if l then v else backslash_subst v)) (split_ref r))"
  by pat_completeness auto
termination
  by (relation "measure length") (auto intro: next_elem_shorter)

declare split_ref.simps [simp del]

lemma next_elem_dropWhile [simp]: "next_elem (dropWhile is_list_space s) = next_elem s"
  by (simp add: next_elem_def)

lemma split_ref_dropWhile [simp]: "split_ref (dropWhile is_list_space s) = split_ref s"
  by (simp add: split_ref.simps [of s] split_ref.simps [of "dropWhile is_list_space s"])

lemma split_list_loop_ref:
  "pos \<le> length s \<Longrightarrow> split_list_loop s out pos = map_sum id ((@) out) (split_ref (drop pos s))"
proof (induction s out pos rule: split_list_loop.induct)
  case (1 s out pos)
  note step = split_list_loop.simps [of s out pos] split_ref.simps [of "drop pos s"]
  have rel: "rel_sum (=) (rel_option (element_shows s)) (find_element s pos) (next_elem (drop pos s))"
    by (rule find_element_next) (rule "1.prems")
  then show ?case
  proof cases
    case (1 e e')
    then show ?thesis by (simp add: step)
  next
    case (2 el r)
    show ?thesis
    proof (cases el)
      case None
      with 2 show ?thesis by (simp add: step)
    next
      case (Some elem)
      with 2 obtain v t l where r: "r = Some (v, t, l)" and sh: "element_shows s elem (v, t, l)"
        by (auto simp: option_rel_Some1)
      from sh have "elem_value s elem = (if l then v else backslash_subst v)"
        "split_ref (drop (nxt elem) s) = split_ref t" "nxt elem \<le> length s"
        by (simp_all add: element_shows_def elem_value_def)
      then show ?thesis
        using "1.IH" [OF 2(1) Some] 2 Some r
        by (cases "split_ref t") (simp_all add: step)
    qed
  qed
qed

lemma split_list_ref: "split_list s = split_ref s"
  by (cases "split_ref s") (simp_all add: split_list_def split_list_loop_ref)

section \<open>What each quoting mode parses back to\<close>

lemma elem_ref_end: "elem_end r \<Longrightarrow> elem_ref 0 False lit r = Inr ([], r, lit)"
  by (cases r) (auto simp: elem_end_def elem_ref_space)

lemma elem_ref_plain:
  "BS \<notin> set b \<Longrightarrow> (\<forall>c \<in> set b. \<not> is_list_space c) \<Longrightarrow> elem_end r \<Longrightarrow>
     elem_ref 0 False lit (b @ r) = Inr (b, r, lit)"
proof (induction b)
  case Nil
  then show ?case by (simp add: elem_ref_end)
next
  case (Cons c b)
  then show ?case by (cases "c = RBRACE") (auto simp: elem_ref_step elem_ref_other)
qed

text \<open>
  Braces: where the scan never asks for escapes, the text closes exactly the braces it opens, with a
  backslash hiding the next byte the same way on both sides.
\<close>

lemma scan_loop_require_mono: "require_escape f \<Longrightarrow> require_escape (scan_loop f s)"
  by (induction f s rule: scan_loop.induct) (auto split: list.split)

lemma scan_loop_braces:
  "\<not> require_escape (scan_loop f s) \<Longrightarrow> depth (scan_loop f s) = 0 \<Longrightarrow> 0 \<le> depth f \<Longrightarrow> elem_end r \<Longrightarrow>
     elem_ref (Suc (nat (depth f))) False True (s @ RBRACE # r) = Inr (s, r, True)"
proof (induction f s rule: scan_loop.induct)
  case (1 f)
  then show ?case by (auto simp: elem_ref_step elem_end_def)
next
  case (2 f c s)
  let ?rest = "RBRACE # r"
  have dep: "0 < depth f" if "c = RBRACE"
  proof (rule ccontr)
    assume "\<not> 0 < depth f"
    then have "require_escape (scan_loop
        (f\<lparr>depth := depth f - 1, require_escape := require_escape f \<or> depth f - 1 < 0\<rparr>) s)"
      by (intro scan_loop_require_mono) simp
    with that "2.prems"(1) show False by simp
  qed
  consider "c = LBRACE" | "c = RBRACE" | "c = BS" | "c \<noteq> LBRACE" "c \<noteq> RBRACE" "c \<noteq> BS" by blast
  then show ?case
  proof cases
    case 1
    with "2.prems" "2.IH"(1) show ?thesis by (simp add: elem_ref_step nat_add_distrib)
  next
    case 2
    with dep have "nat (depth f) = Suc (nat (depth f - 1))" "0 \<le> depth f - 1" by simp_all
    with 2 "2.prems" "2.IH"(2) show ?thesis by (simp add: elem_ref_step)
  next
    case 3
    show ?thesis
    proof (cases s)
      case Nil
      with 3 "2.prems" show ?thesis by (simp add: is_list_space_def)
    next
      case (Cons d t)
      have nl: "d \<noteq> LF"
        using 3 Cons "2.prems"(1) scan_loop_require_mono [of "f\<lparr>require_escape := True\<rparr>" t]
        by (auto simp: is_list_space_def)
      show ?thesis
      proof (cases "d = LBRACE \<or> d = RBRACE \<or> d = BS")
        case True
        with 3 Cons "2.prems" "2.IH"(7) nl show ?thesis by (auto simp: elem_ref_step is_list_space_def)
      next
        case False
        with 3 Cons "2.prems" "2.IH"(8) nl show ?thesis
          by (auto simp: elem_ref_step elem_ref_other is_list_space_def)
      qed
    qed
  next
    case 4
    then have "elem_ref (Suc (nat (depth f))) False True (c # s @ ?rest) =
        prepend [c] (elem_ref (Suc (nat (depth f))) False True (s @ ?rest))"
      by (intro elem_ref_other) simp_all
    with 4 "2.prems" "2.IH"(3,4,9) show ?thesis by (auto split: if_splits)
  qed
qed


text \<open>Escapes: every special byte is written so that the decoder gives it back.\<close>

lemma decode_punct:
  assumes "of_char c < (0x80::nat)" "octal_digit c = None"
    "c \<notin> {CHR ''a'', CHR ''b'', CHR ''f'', CHR ''n'', CHR ''r'', CHR ''t'', CHR ''v'', LF, CHR ''x'', CHR ''u'', CHR ''U''}"
  shows "decode_escape (BS # c # s) 0 Tcl90 = (2, of_char c)"
proof -
  have "octal_run (BS # c # s) (Suc 0) Tcl90 = None"
    using assms(2) by (simp add: octal_run_def)
  moreover have "first_char (c # s) = Some (of_char c)" "len_utf8 (of_char c) = 1"
    using assms(1) by (simp_all add: first_char_def len_utf8_def)
  ultimately show ?thesis
    using assms(3) by (simp add: decode_escape_def)
qed

lemma escape_byte_classes:
  obtains (brace) "c = LBRACE \<or> c = RBRACE"
    | (punct) "c = CHR ''['' \<or> c = CHR '']'' \<or> c = CHR ''$'' \<or> c = CHR '';'' \<or> c = BS \<or> c = DQUOTE \<or> c = SP"
    | (letter) "c = LF \<or> c = TAB \<or> c = CR \<or> c = VT \<or> c = FF"
    | (plain) "escape_byte eb c = [c]" "c \<noteq> BS" "\<not> is_list_space c"
  unfolding escape_byte_def is_list_space_def by argo

lemma subst_ref_escape_byte:
  "subst_ref Tcl90 (escape_byte eb c @ s) = c # subst_ref Tcl90 s"
proof -
  have pu: "subst_ref Tcl90 (BS # d # s) = d # subst_ref Tcl90 s"
    if "d \<in> {LBRACE, RBRACE, CHR ''['', CHR '']'', CHR ''$'', CHR '';'', BS, DQUOTE, SP, CHR ''#''}" for d
  proof -
    have "decode_escape (BS # d # s) 0 Tcl90 = (2, of_char d)" "of_char d < (0x80::nat)"
      using that by (auto intro!: decode_punct simp: octal_digit_def)
    then show ?thesis by simp
  qed
  have le: "subst_ref Tcl90 (BS # CHR ''n'' # s) = LF # subst_ref Tcl90 s"
    "subst_ref Tcl90 (BS # CHR ''t'' # s) = TAB # subst_ref Tcl90 s"
    "subst_ref Tcl90 (BS # CHR ''r'' # s) = CR # subst_ref Tcl90 s"
    "subst_ref Tcl90 (BS # CHR ''v'' # s) = VT # subst_ref Tcl90 s"
    "subst_ref Tcl90 (BS # CHR ''f'' # s) = FF # subst_ref Tcl90 s"
  proof -
    have "decode_escape (BS # CHR ''n'' # s) 0 Tcl90 = (2, 0x0A)"
      "decode_escape (BS # CHR ''t'' # s) 0 Tcl90 = (2, 0x09)"
      "decode_escape (BS # CHR ''r'' # s) 0 Tcl90 = (2, 0x0D)"
      "decode_escape (BS # CHR ''v'' # s) 0 Tcl90 = (2, 0x0B)"
      "decode_escape (BS # CHR ''f'' # s) 0 Tcl90 = (2, 0x0C)"
      by (simp_all add: decode_escape_def)
    then show "subst_ref Tcl90 (BS # CHR ''n'' # s) = LF # subst_ref Tcl90 s"
      "subst_ref Tcl90 (BS # CHR ''t'' # s) = TAB # subst_ref Tcl90 s"
      "subst_ref Tcl90 (BS # CHR ''r'' # s) = CR # subst_ref Tcl90 s"
      "subst_ref Tcl90 (BS # CHR ''v'' # s) = VT # subst_ref Tcl90 s"
      "subst_ref Tcl90 (BS # CHR ''f'' # s) = FF # subst_ref Tcl90 s"
      by simp_all
  qed
  have pl: "subst_ref Tcl90 (c # s) = c # subst_ref Tcl90 s" if "c \<noteq> BS" for c
    using that by simp
  note [simp del] = subst_ref.simps(2)
  show ?thesis
  proof (cases rule: escape_byte_classes [where c = c and eb = eb])
    case brace
    then show ?thesis by (cases eb) (auto simp: escape_byte_def pu pl)
  next
    case punct
    then have "escape_byte eb c = [BS, c]" by (auto simp: escape_byte_def)
    with punct show ?thesis by (auto simp: pu)
  next
    case letter
    then show ?thesis
      by (elim disjE) (simp_all add: escape_byte_def le)
  next
    case plain
    then show ?thesis by (simp add: subst_ref.simps(2))
  qed
qed

lemma escape_byte_cases:
  obtains (pair) d where "escape_byte eb c = [BS, d]" "d \<noteq> LF"
    | (plain) "escape_byte eb c = [c]" "c \<noteq> BS" "\<not> is_list_space c"
proof (cases rule: escape_byte_classes [where c = c and eb = eb])
  case brace
  then show ?thesis using that by (cases eb) (auto simp: escape_byte_def is_list_space_def)
next
  case punct
  then have "escape_byte eb c = [BS, c]" "c \<noteq> LF" by (auto simp: escape_byte_def)
  then show ?thesis using that(1) by blast
next
  case letter
  then show ?thesis using that(1) by (elim disjE) (simp_all add: escape_byte_def)
next
  case plain
  then show ?thesis using that(2) by blast
qed

definition escape_all :: "bool \<Rightarrow> string \<Rightarrow> string" where
  "escape_all eb b = concat (map (escape_byte eb) b)"

lemma escape_all_simps [simp]:
  "escape_all eb [] = []" "escape_all eb (c # b) = escape_byte eb c @ escape_all eb b"
  by (simp_all add: escape_all_def)

lemma elem_ref_escape_byte:
  "elem_ref 0 False lit (escape_byte eb c @ s) =
     prepend (escape_byte eb c) (elem_ref 0 False (lit \<and> BS \<notin> set (escape_byte eb c)) s)"
proof (cases rule: escape_byte_cases [of eb c])
  case (pair d)
  then show ?thesis by (simp add: elem_ref_step)
next
  case plain
  then show ?thesis by (cases "c = RBRACE") (auto simp: elem_ref_step elem_ref_other)
qed

lemma elem_ref_escape_all:
  "elem_end r \<Longrightarrow> elem_ref 0 False lit (escape_all eb b @ r) =
     Inr (escape_all eb b, r, lit \<and> BS \<notin> set (escape_all eb b))"
  by (induction b arbitrary: lit) (auto simp: elem_ref_end elem_ref_escape_byte)

lemma subst_ref_escape_all: "subst_ref Tcl90 (escape_all eb b @ s) = b @ subst_ref Tcl90 s"
  by (induction b) (simp_all add: subst_ref_escape_byte)

lemma elem_value_subst:
  "l = (BS \<notin> set v) \<Longrightarrow> (if l then v else backslash_subst v) = subst_ref Tcl90 v"
  by (simp add: backslash_subst_def backslash_subst_in_eq subst_ref_no_backslash)

section \<open>What the scan learns\<close>

text \<open>A byte that is no brace and no backslash only raises flags.\<close>

lemma scan_loop_flags:
  assumes "c \<noteq> LBRACE" "c \<noteq> RBRACE" "c \<noteq> BS"
  obtains f' where "scan_loop f (c # s) = scan_loop f' s" "depth f' = depth f"
    "require_escape f' = require_escape f" "forbid_none f \<Longrightarrow> forbid_none f'"
    "prefer_brace f \<Longrightarrow> prefer_brace f'" "is_list_space c \<Longrightarrow> forbid_none f'"
proof (cases "c = CHR '']'' \<or> c = DQUOTE")
  case True
  with assms that [of "f\<lparr>forbid_none := True, prefer_escape := True\<rparr>"] show ?thesis by simp
next
  case False
  show ?thesis
  proof (cases "c = CHR ''['' \<or> c = CHR ''$'' \<or> c = CHR '';'' \<or> is_list_space c")
    case True
    with False assms that [of "f\<lparr>forbid_none := True, prefer_brace := True\<rparr>"] show ?thesis by simp
  next
    case f2: False
    with False assms that [of f] show ?thesis by simp
  qed
qed

lemma scan_loop_BS:
  "scan_loop f [BS] = f\<lparr>require_escape := True\<rparr>"
  "scan_loop f (BS # LF # t) = scan_loop (f\<lparr>require_escape := True\<rparr>) t"
  "d = LBRACE \<or> d = RBRACE \<or> d = BS \<Longrightarrow>
     scan_loop f (BS # d # t) = scan_loop (f\<lparr>forbid_none := True, prefer_brace := True\<rparr>) t"
  "d \<noteq> LF \<Longrightarrow> d \<noteq> LBRACE \<Longrightarrow> d \<noteq> RBRACE \<Longrightarrow> d \<noteq> BS \<Longrightarrow>
     scan_loop f (BS # d # t) = scan_loop (f\<lparr>forbid_none := True, prefer_brace := True\<rparr>) (d # t)"
  by (auto simp: is_list_space_def)

lemma scan_loop_brace:
  "scan_loop f (LBRACE # s) = scan_loop (f\<lparr>depth := depth f + 1\<rparr>) s"
  "scan_loop f (RBRACE # s) =
     scan_loop (f\<lparr>depth := depth f - 1, require_escape := require_escape f \<or> depth f - 1 < 0\<rparr>) s"
  by simp_all

text \<open>An induction over the scan that names those steps.\<close>

lemma scan_loop_induct [case_names Nil LBrace RBrace Lone Newline Pair Escape Flag]:
  assumes "\<And>f. P f []"
    and "\<And>f s. P (f\<lparr>depth := depth f + 1\<rparr>) s \<Longrightarrow> P f (LBRACE # s)"
    and "\<And>f s. P (f\<lparr>depth := depth f - 1, require_escape := require_escape f \<or> depth f - 1 < 0\<rparr>) s \<Longrightarrow>
           P f (RBRACE # s)"
    and "\<And>f. P f [BS]"
    and "\<And>f t. P (f\<lparr>require_escape := True\<rparr>) t \<Longrightarrow> P f (BS # LF # t)"
    and "\<And>f d t. d = LBRACE \<or> d = RBRACE \<or> d = BS \<Longrightarrow>
           P (f\<lparr>forbid_none := True, prefer_brace := True\<rparr>) t \<Longrightarrow> P f (BS # d # t)"
    and "\<And>f d t. d \<noteq> LF \<Longrightarrow> d \<noteq> LBRACE \<Longrightarrow> d \<noteq> RBRACE \<Longrightarrow> d \<noteq> BS \<Longrightarrow>
           P (f\<lparr>forbid_none := True, prefer_brace := True\<rparr>) (d # t) \<Longrightarrow> P f (BS # d # t)"
    and "\<And>f c s. c \<noteq> LBRACE \<Longrightarrow> c \<noteq> RBRACE \<Longrightarrow> c \<noteq> BS \<Longrightarrow> (\<And>f. P f s) \<Longrightarrow> P f (c # s)"
  shows "P f s"
proof (induction "length s" arbitrary: f s rule: less_induct)
  case less
  show ?case
  proof (cases s)
    case Nil
    then show ?thesis using assms(1) by simp
  next
    case s: (Cons c t)
    consider "c = LBRACE" | "c = RBRACE" | "c = BS" "t = []" | d u where "c = BS" "t = d # u"
      | "c \<noteq> LBRACE" "c \<noteq> RBRACE" "c \<noteq> BS" by (cases t) auto
    then show ?thesis
    proof cases
      case (4 d u)
      with s less assms(5-7) show ?thesis by (cases "d = LF"; cases "d = LBRACE \<or> d = RBRACE \<or> d = BS") auto
    qed (use s less assms(2-4,8) in auto)
  qed
qed

declare scan_loop.simps(2) [simp del]

lemmas scan_steps = scan_loop_brace scan_loop_BS

lemma scan_loop_plain:
  "\<not> forbid_none (scan_loop f s) \<Longrightarrow> \<not> require_escape (scan_loop f s) \<Longrightarrow>
     \<not> forbid_none f \<and> BS \<notin> set s \<and> (\<forall>c \<in> set s. \<not> is_list_space c)"
proof (induction f s rule: scan_loop_induct)
  case (Newline f t)
  then show ?case using scan_loop_require_mono [of "f\<lparr>require_escape := True\<rparr>" t] by (simp add: scan_steps)
next
  case (Flag f c s)
  obtain f' where f': "scan_loop f (c # s) = scan_loop f' s" "forbid_none f \<Longrightarrow> forbid_none f'"
      "is_list_space c \<Longrightarrow> forbid_none f'"
    using scan_loop_flags [OF Flag(1-3), of f s] by metis
  with Flag(4) [of f'] Flag(5,6) Flag(3) show ?case by auto
qed (simp_all add: scan_steps is_list_space_def)

lemma scan_loop_prefer_brace_mono: "prefer_brace f \<Longrightarrow> prefer_brace (scan_loop f s)"
proof (induction f s rule: scan_loop_induct)
  case (Flag f c s)
  then show ?case using scan_loop_flags [OF Flag(1-3), of f s] by metis
qed (simp_all add: scan_steps)

lemma scan_loop_depth: "\<not> require_escape (scan_loop f s) \<Longrightarrow> 0 \<le> depth f \<Longrightarrow> 0 \<le> depth (scan_loop f s)"
proof (induction f s rule: scan_loop_induct)
  case (RBrace f s)
  show ?case
  proof (cases "depth f - 1 < 0")
    case True
    with RBrace.prems scan_loop_require_mono
      [of "f\<lparr>depth := depth f - 1, require_escape := require_escape f \<or> depth f - 1 < 0\<rparr>" s]
    show ?thesis by (simp add: scan_steps)
  next
    case False
    with RBrace show ?thesis by (simp add: scan_steps)
  qed
next
  case (Flag f c s)
  then show ?case using scan_loop_flags [OF Flag(1-3), of f s] by metis
qed (simp_all add: scan_steps)

section \<open>A quoted element parses back\<close>

lemma next_elem_bare:
  assumes "enc = c # u" "\<not> is_list_space c" "c \<noteq> LBRACE" "c \<noteq> DQUOTE"
    "elem_ref 0 False True (enc @ r) = Inr (enc, r, BS \<notin> set enc)" "subst_ref Tcl90 enc = b"
  shows "\<exists>v l. next_elem (enc @ r) = Inr (Some (v, r, l)) \<and> (if l then v else backslash_subst v) = b"
  using assms by (auto simp: next_elem_def elem_value_subst)

lemma next_elem_braced:
  assumes "\<not> require_escape (scan_loop f b)" "depth (scan_loop f b) \<le> 0" "depth f = 0" "elem_end r"
  shows "next_elem ((LBRACE # b @ [RBRACE]) @ r) = Inr (Some (b, r, True))"
proof -
  have "depth (scan_loop f b) = 0"
    using scan_loop_depth [OF assms(1)] assms(2,3) by simp
  from scan_loop_braces [OF assms(1) this _ assms(4)] assms(3) show ?thesis
    by (simp add: next_elem_def is_list_space_def)
qed

lemma append_list_element_out: "append_list_element out b h = out @ append_list_element [] b h"
  by (auto simp: append_list_element_def convert_element_def Let_def split: quote.split list.split)

lemma quoted_element_parses:
  assumes "elem_end r"
  shows "\<exists>v l. next_elem (append_list_element [] b h @ r) = Inr (Some (v, r, l))
           \<and> (if l then v else backslash_subst v) = b"
proof (cases b)
  case Nil
  then show ?thesis
    using next_elem_braced [of "\<lparr>forbid_none = False, require_escape = False, prefer_escape = False,
        prefer_brace = False, depth = 0\<rparr>" "[]" r] assms
    by (auto simp: append_list_element_def convert_element_def scan_element_def)
next
  case (Cons c s)
  define f0 where "f0 = \<lparr>forbid_none = (c = LBRACE \<or> c = DQUOTE), require_escape = False,
      prefer_escape = False, prefer_brace = ((h \<and> c = CHR ''#'') \<or> c = LBRACE \<or> c = DQUOTE), depth = 0\<rparr>"
  define f where "f = scan_loop f0 b"
  define head where "head eb = (if c = CHR ''#'' \<and> h then [BS, CHR ''#''] else escape_byte eb c)" for eb
  have scan: "scan_element b h = (if require_escape f \<or> depth f > 0 then QEscape
      else if forbid_none f then (if prefer_escape f \<and> \<not> prefer_brace f then QMask else QBrace) else QNone)"
    unfolding scan_element_def Cons list.case Let_def f_def f0_def by (rule refl)
  have brace: ?thesis if "\<not> (require_escape f \<or> depth f > 0)" "append_list_element [] b h = LBRACE # b @ [RBRACE]"
    using next_elem_braced [of f0 b r] that assms by (auto simp: f_def f0_def)
  have esc: ?thesis if enc: "append_list_element [] b h = head eb @ escape_all eb s" and c: "eb \<or> c \<noteq> LBRACE" for eb
  proof -
    have "\<exists>d u. escape_byte eb c = d # u \<and> \<not> is_list_space d \<and> d \<noteq> LBRACE \<and> d \<noteq> DQUOTE"
    proof (cases rule: escape_byte_cases [where eb = eb and c = c])
      case (pair d)
      then show ?thesis by (simp add: is_list_space_def)
    next
      case plain
      then have "c \<noteq> DQUOTE" "c \<noteq> LBRACE" using c by (auto simp: escape_byte_def)
      with plain show ?thesis by simp
    qed
    then obtain d u where du: "head eb = d # u" "\<not> is_list_space d" "d \<noteq> LBRACE" "d \<noteq> DQUOTE"
      by (cases "c = CHR ''#'' \<and> h") (auto simp: head_def is_list_space_def)
    have "elem_ref 0 False True (head eb @ escape_all eb s @ r) =
        prepend (head eb) (elem_ref 0 False (BS \<notin> set (head eb)) (escape_all eb s @ r))"
      by (simp add: head_def elem_ref_step elem_ref_escape_byte)
    then have "elem_ref 0 False True ((head eb @ escape_all eb s) @ r) =
        Inr (head eb @ escape_all eb s, r, BS \<notin> set (head eb @ escape_all eb s))"
      using assms by (simp add: elem_ref_escape_all)
    moreover have "subst_ref Tcl90 (head eb @ escape_all eb s) = b"
      using subst_ref_escape_all [of eb s "[]"] decode_punct [of "CHR ''#''" "escape_all eb s"]
      by (simp add: head_def Cons subst_ref_escape_byte octal_digit_def char_of_eq_iff)
    ultimately show ?thesis unfolding enc using du by (intro next_elem_bare [of _ d "u @ escape_all eb s"]) simp_all
  qed
  note enc = append_list_element_def convert_element_def Let_def Cons head_def escape_all_def
  have encs: "scan_element b h = QEscape \<Longrightarrow> append_list_element [] b h = head True @ escape_all True s"
    "scan_element b h \<noteq> QEscape \<Longrightarrow> h \<and> c = CHR ''#'' \<or> scan_element b h = QBrace \<Longrightarrow>
       append_list_element [] b h = LBRACE # b @ [RBRACE]"
    "scan_element b h = QMask \<Longrightarrow> \<not> (h \<and> c = CHR ''#'') \<Longrightarrow>
       append_list_element [] b h = head False @ escape_all False s"
    "scan_element b h = QNone \<Longrightarrow> \<not> (h \<and> c = CHR ''#'') \<Longrightarrow> append_list_element [] b h = b"
    unfolding enc by (auto split: quote.split)
  consider "require_escape f \<or> depth f > 0"
    | "\<not> (require_escape f \<or> depth f > 0)" "h \<and> c = CHR ''#'' \<or> forbid_none f \<and> \<not> (prefer_escape f \<and> \<not> prefer_brace f)"
    | "\<not> (require_escape f \<or> depth f > 0)" "\<not> (h \<and> c = CHR ''#'')" "forbid_none f" "prefer_escape f" "\<not> prefer_brace f"
    | "\<not> (require_escape f \<or> depth f > 0)" "\<not> (h \<and> c = CHR ''#'')" "\<not> forbid_none f"
    by blast
  then show ?thesis
  proof cases
    case 1
    then show ?thesis by (intro esc [of True] encs(1)) (simp_all add: scan)
  next
    case 2
    then show ?thesis by (intro brace encs(2)) (auto simp: scan)
  next
    case 3
    then have "c \<noteq> LBRACE"
      using scan_loop_prefer_brace_mono [of f0 b] by (auto simp: f_def f0_def)
    with 3 show ?thesis by (intro esc [of False] encs(3)) (auto simp: scan)
  next
    case 4
    then have "append_list_element [] b h = b" by (intro encs(4)) (auto simp: scan)
    moreover have "\<not> forbid_none f0 \<and> BS \<notin> set b \<and> (\<forall>c \<in> set b. \<not> is_list_space c)"
      using 4 by (intro scan_loop_plain) (simp_all add: f_def)
    ultimately show ?thesis
      using assms elem_ref_plain [of b r True]
      by (intro next_elem_bare [of _ c s]) (auto simp: Cons f0_def subst_ref_no_backslash)
  qed
qed

section \<open>Splitting what was joined\<close>

fun join_tail :: "string list \<Rightarrow> string" where
  "join_tail [] = []"
| "join_tail (e # es) = SP # append_list_element [] e False @ join_tail es"

lemma join_loop_tail: "join_loop out (Suc i) es = out @ join_tail es"
proof (induction es arbitrary: out i)
  case (Cons e es)
  then show ?case by (simp add: append_list_element_out [of "out @ [SP]"])
qed simp

lemma join_list_Cons: "join_list (e # es) = append_list_element [] e True @ join_tail es"
  by (simp add: join_list_def join_loop_tail)

lemma elem_end_join_tail: "elem_end (join_tail es)"
  by (cases es) (simp_all add: elem_end_def is_list_space_def)

lemma split_ref_quoted:
  "elem_end r \<Longrightarrow> split_ref (append_list_element [] e h @ r) = map_sum id ((#) e) (split_ref r)"
  using quoted_element_parses [of r e h] by (auto simp: split_ref.simps [of "append_list_element [] e h @ r"])

lemma split_ref_join_tail: "split_ref (join_tail es) = Inr es"
proof (induction es)
  case Nil
  then show ?case by (simp add: split_ref.simps next_elem_def)
next
  case (Cons e es)
  have "split_ref (SP # s) = split_ref s" for s
    using split_ref_dropWhile [of "SP # s"] split_ref_dropWhile [of s] by (simp add: is_list_space_def)
  with Cons show ?case by (simp add: split_ref_quoted elem_end_join_tail)
qed

lemma split_join: "split_list (join_list es) = Inr es"
proof (cases es)
  case Nil
  then show ?thesis using split_ref_join_tail [of "[]"] by (simp add: split_list_ref join_list_def)
next
  case (Cons e es')
  then show ?thesis
    by (simp add: split_list_ref join_list_Cons split_ref_quoted elem_end_join_tail split_ref_join_tail)
qed

section \<open>The contract of a list codec\<close>

locale list_codec =
  fixes parse :: "string \<Rightarrow> 'err + string list"
    and render :: "string list \<Rightarrow> string"
    and normalise :: "string \<Rightarrow> 'err + string"
  assumes parse_render: "parse (render xs) = Inr xs"
    and normalise_def: "normalise s = map_sum id render (parse s)"
begin

lemma render_inj: "render xs = render ys \<Longrightarrow> xs = ys"
  by (metis parse_render sum.inject(2))

lemma normalise_keeps_elements: "normalise s = Inr t \<Longrightarrow> parse t = parse s"
  by (cases "parse s") (auto simp: normalise_def parse_render)

lemma normalise_fixpoint: "normalise s = Inr t \<Longrightarrow> normalise t = Inr t"
  by (cases "parse s") (auto simp: normalise_def parse_render)

lemma normalise_canonical:
  "parse s = Inr xs \<Longrightarrow> parse t = Inr xs \<Longrightarrow> normalise s = normalise t"
  by (simp add: normalise_def)

lemma normalise_fails_iff: "(\<exists>e. normalise s = Inl e) = (\<exists>e. parse s = Inl e)"
  by (cases "parse s") (simp_all add: normalise_def)

end

interpretation tcl: list_codec split_list join_list normalise_spacing
  by unfold_locales (simp_all add: split_join normalise_spacing_def split: sum.split)

section \<open>Error fragments and estimates\<close>

function failing_start :: "string \<Rightarrow> nat \<Rightarrow> nat" where
  "failing_start s start =
     (case find_element s start of Inr (Some el) \<Rightarrow> failing_start s (nxt el) | _ \<Rightarrow> start)"
  by pat_completeness auto
termination
  by (relation "measure (\<lambda>(s, start). length s - start)") (auto intro: find_element_measure)

declare failing_start.simps [simp del]

function junk_after_brace :: "string \<Rightarrow> nat \<Rightarrow> nat \<Rightarrow> nat" where
  "junk_after_brace b nest pos =
     (if pos < length b \<and> nest > 0 then
        (if b ! pos = BS \<and> pos + 1 < length b then junk_after_brace b nest (pos + 2)
         else if b ! pos = LBRACE then junk_after_brace b (nest + 1) (pos + 1)
         else if b ! pos = RBRACE then junk_after_brace b (nest - 1) (pos + 1)
         else junk_after_brace b nest (pos + 1))
      else pos)"
  by pat_completeness auto
termination
  by (relation "measure (\<lambda>(b, d, pos). length b - pos)") auto

declare junk_after_brace.simps [simp del]

function junk_after_quote :: "string \<Rightarrow> nat \<Rightarrow> nat" where
  "junk_after_quote b pos =
     (if pos < length b \<and> b ! pos \<noteq> DQUOTE then
        junk_after_quote b (if b ! pos = BS then pos + 2 else pos + 1)
      else pos + 1)"
  by pat_completeness auto
termination
  by (relation "measure (\<lambda>(b, pos). length b - pos)") auto

declare junk_after_quote.simps [simp del]

function char_boundary_back :: "string \<Rightarrow> nat \<Rightarrow> nat \<Rightarrow> nat" where
  "char_boundary_back s low p =
     (if low < p \<and> \<not> is_char_boundary s p then char_boundary_back s low (p - 1) else p)"
  by pat_completeness auto
termination
  by (relation "measure (\<lambda>(s, low, p). p)") auto

declare char_boundary_back.simps [simp del]

definition junk_fragment :: "string \<Rightarrow> string" where
  "junk_fragment src =
     (let len = length src;
          pos = skip_while is_list_space src (failing_start src 0);
          fragment = (\<lambda>junk.
            let stop = min (junk + 20) len;
                p = skip_while (\<lambda>c. \<not> is_list_space c) (take stop src) junk;
                p' = char_boundary_back src junk p in
            case str_get src junk p' of Some t \<Rightarrow> t | None \<Rightarrow> []) in
      case byte_at src pos of
        None \<Rightarrow> []
      | Some c \<Rightarrow>
          if c = LBRACE then fragment (junk_after_brace src 1 (pos + 1))
          else if c = DQUOTE then fragment (junk_after_quote src (pos + 1))
          else [])"

definition full_message :: "list_error \<Rightarrow> string \<Rightarrow> string" where
  "full_message e src =
     (let say = (\<lambda>kind. ''list element in '' @ kind @ '' followed by '' @ [DQUOTE] @ junk_fragment src
                          @ [DQUOTE] @ '' instead of space'') in
      case e of
        BraceFollowedByJunk \<Rightarrow> say ''braces''
      | QuoteFollowedByJunk \<Rightarrow> say ''quotes''
      | _ \<Rightarrow> message e)"

function max_list_loop :: "string \<Rightarrow> nat \<Rightarrow> nat \<Rightarrow> nat" where
  "max_list_loop b i count =
     (if i < length b then
        (if is_list_space (b ! i) then max_list_loop b (skip_while is_list_space b i) (count + 1)
         else max_list_loop b (i + 1) count)
      else count)"
  by pat_completeness auto
termination
proof (relation "measure (\<lambda>(b, i, c). length b - i)")
  fix b :: string and i c :: nat
  assume "i < length b" "is_list_space (b ! i)"
  then have "i < skip_while is_list_space b i"
    using skip_while_ge [of "Suc i" is_list_space b] by (simp add: skip_while.simps [of _ b i])
  with \<open>i < length b\<close>
  show "((b, skip_while is_list_space b i, c + 1), (b, i, c)) \<in> measure (\<lambda>(b, i, c). length b - i)"
    by simp
qed auto

declare max_list_loop.simps [simp del]

definition max_list_length :: "string \<Rightarrow> nat" where
  "max_list_length s =
     (case s of
        [] \<Rightarrow> 0
      | first # _ \<Rightarrow>
          max_list_loop s 0 (if is_list_space first then 0 else 1)
            - (if is_list_space (s ! (length s - 1)) then 1 else 0))"

definition describe_bad_value :: "string \<Rightarrow> string" where
  "describe_bad_value s =
     (if max_list_length s > 1 \<and> (case split_list s of Inr _ \<Rightarrow> True | Inl _ \<Rightarrow> False)
      then ''a list''
      else [DQUOTE] @ take (char_boundary_back s 0 (min (length s) 50)) s @ [DQUOTE])"

section \<open>The Jim splitter\<close>

function jim_brace_close :: "string \<Rightarrow> nat \<Rightarrow> nat \<Rightarrow> nat option" where
  "jim_brace_close b nest i =
     (if i < length b then
        (if b ! i = BS then jim_brace_close b nest (i + 2)
         else if b ! i = LBRACE then jim_brace_close b (nest + 1) (i + 1)
         else if b ! i = RBRACE then
           (if nest - 1 = 0 then Some i else jim_brace_close b (nest - 1) (i + 1))
         else jim_brace_close b nest (i + 1))
      else None)"
  by pat_completeness auto
termination
  by (relation "measure (\<lambda>(b, d, i). length b - i)") auto

function jim_quote_close :: "string \<Rightarrow> nat \<Rightarrow> nat option" where
  "jim_quote_close b i =
     (if i < length b then
        (if b ! i = BS then jim_quote_close b (i + 2)
         else if b ! i = DQUOTE then Some i
         else jim_quote_close b (i + 1))
      else None)"
  by pat_completeness auto
termination
  by (relation "measure (\<lambda>(b, i). length b - i)") auto

function jim_bare_end :: "string \<Rightarrow> nat \<Rightarrow> nat" where
  "jim_bare_end b i =
     (if i < length b \<and> \<not> is_list_space (b ! i) then
        jim_bare_end b (if b ! i = BS then i + 2 else i + 1)
      else i)"
  by pat_completeness auto
termination
  by (relation "measure (\<lambda>(b, i). length b - i)") auto

declare jim_brace_close.simps [simp del] jim_quote_close.simps [simp del] jim_bare_end.simps [simp del]

lemma jim_brace_close_ge: "jim_brace_close b d i = Some j \<Longrightarrow> i \<le> j"
proof (induction b d i rule: jim_brace_close.induct)
  case (1 b d i)
  then show ?case by (subst (asm) (5) jim_brace_close.simps) (force split: if_splits)
qed

lemma jim_quote_close_ge: "jim_quote_close b i = Some j \<Longrightarrow> i \<le> j"
proof (induction b i rule: jim_quote_close.induct)
  case (1 b i)
  then show ?case by (subst (asm) (3) jim_quote_close.simps) (force split: if_splits)
qed

lemma jim_bare_end_ge: "i \<le> jim_bare_end b i"
proof (induction b i rule: jim_bare_end.induct)
  case (1 b i)
  then show ?case by (subst jim_bare_end.simps) (auto split: if_splits)
qed

lemma jim_bare_end_gt: "i < length b \<Longrightarrow> \<not> is_list_space (b ! i) \<Longrightarrow> i < jim_bare_end b i"
  using jim_bare_end_ge [of "i + 1" b] jim_bare_end_ge [of "i + 2" b]
  by (simp add: jim_bare_end.simps [of b i])

definition jim_next :: "string \<Rightarrow> nat \<Rightarrow> string \<times> nat" where
  "jim_next s pos =
     (let len = length s in
      if s ! pos = LBRACE then
        (case jim_brace_close s 1 (pos + 1) of
           Some c \<Rightarrow> (subslice (pos + 1) c s, c + 1)
         | None \<Rightarrow> (subslice (pos + 1) len s, len))
      else if s ! pos = DQUOTE then
        (case jim_quote_close s (pos + 1) of
           Some c \<Rightarrow> (backslash_subst (subslice (pos + 1) (min c len) s), c + 1)
         | None \<Rightarrow> (backslash_subst (subslice (pos + 1) len s), len))
      else
        (let stop = min (jim_bare_end s pos) len in (backslash_subst (subslice pos stop s), stop)))"

lemma jim_next_progress:
  "pos < length s \<Longrightarrow> \<not> is_list_space (s ! pos) \<Longrightarrow> pos < snd (jim_next s pos)"
  by (auto simp: jim_next_def Let_def jim_bare_end_gt split: option.split
      dest: jim_brace_close_ge jim_quote_close_ge)

function split_list_jim_loop :: "string \<Rightarrow> string list \<Rightarrow> nat \<Rightarrow> string list" where
  "split_list_jim_loop s out pos =
     (let p = skip_while is_list_space s pos in
      if p < length s then split_list_jim_loop s (out @ [fst (jim_next s p)]) (snd (jim_next s p))
      else out)"
  by pat_completeness auto
termination
proof (relation "measure (\<lambda>(s, out, pos). length s - pos)")
  fix s :: string and out :: "string list" and pos p :: nat
  assume p: "p = skip_while is_list_space s pos" "p < length s"
  then have "p < snd (jim_next s p)" using skip_while_stop [of is_list_space s pos] by (simp add: jim_next_progress)
  moreover have "pos \<le> p" using p(1) skip_while_ge by simp
  ultimately show "((s, out @ [fst (jim_next s p)], snd (jim_next s p)), (s, out, pos))
      \<in> measure (\<lambda>(s, out, pos). length s - pos)"
    using p(2) by simp
qed simp

declare split_list_jim_loop.simps [simp del]

definition split_list_jim :: "string \<Rightarrow> string list" where
  "split_list_jim s = split_list_jim_loop s [] 0"

section \<open>The estimate is an upper bound\<close>

function runs :: "string \<Rightarrow> nat" where
  "runs s = (case dropWhile is_list_space s of
     [] \<Rightarrow> 0 | c # t \<Rightarrow> Suc (runs (dropWhile (\<lambda>c. \<not> is_list_space c) t)))"
  by pat_completeness auto
termination
proof (relation "measure length")
  fix s c t
  assume "dropWhile is_list_space s = c # t"
  from arg_cong [OF this, of length]
  show "(dropWhile (\<lambda>c. \<not> is_list_space c) t, s) \<in> measure length"
    using length_dropWhile_le [of is_list_space s] length_dropWhile_le [of "\<lambda>c. \<not> is_list_space c" t]
    by simp
qed simp

declare runs.simps [simp del]

lemma runs_Nil [simp]: "runs [] = 0"
  by (simp add: runs.simps)

lemma runs_space [simp]: "is_list_space c \<Longrightarrow> runs (c # s) = runs s"
  by (simp add: runs.simps [of "c # s"] runs.simps [of s])

lemma runs_word: "\<not> is_list_space c \<Longrightarrow> runs (c # s) = Suc (runs (dropWhile (\<lambda>c. \<not> is_list_space c) s))"
  by (simp add: runs.simps [of "c # s"])

lemma runs_dropWhile [simp]: "runs (dropWhile is_list_space s) = runs s"
  by (simp add: runs.simps [of s] runs.simps [of "dropWhile is_list_space s"])

lemma runs_append_ge: "elem_end r \<Longrightarrow> runs r \<le> runs (dropWhile (\<lambda>c. \<not> is_list_space c) (x @ r))"
proof (induction "length x" arbitrary: x rule: less_induct)
  case less
  show ?case
  proof (cases x)
    case Nil
    with less.prems show ?thesis by (cases r) (auto simp: elem_end_def)
  next
    case (Cons c y)
    have IH: "runs r \<le> runs (dropWhile (\<lambda>c. \<not> is_list_space c) (y @ r))"
      using less Cons by simp
    show ?thesis
    proof (cases "is_list_space c")
      case False
      with IH Cons show ?thesis by simp
    next
      case True
      have "runs (dropWhile (\<lambda>c. \<not> is_list_space c) (y @ r)) \<le> runs (y @ r)"
        by (cases "y @ r") (auto simp: runs_word)
      with IH True Cons show ?thesis by simp
    qed
  qed
qed

lemma next_elem_runs: "next_elem s = Inr (Some (v, r, l)) \<Longrightarrow> Suc (runs r) \<le> runs s"
proof -
  assume nx: "next_elem s = Inr (Some (v, r, l))"
  then obtain c t where ct: "dropWhile is_list_space s = c # t"
    by (cases "dropWhile is_list_space s") (simp_all add: next_elem_def)
  then have c: "\<not> is_list_space c" by (metis hd_dropWhile list.discI list.sel(1))
  have "\<exists>x. t = x @ r \<and> elem_end r"
  proof (cases "c = LBRACE \<or> c = DQUOTE")
    case True
    then have "\<exists>ob q. elem_ref ob q True t = Inr (v, r, l)"
      using nx by (auto simp: next_elem_def ct split: if_splits sum.splits)
    then show ?thesis using elem_ref_split by (metis append_assoc)
  next
    case False
    then have e: "elem_ref 0 False True (c # t) = Inr (v, r, l)"
      using nx by (auto simp: next_elem_def ct split: sum.splits)
    from elem_ref_split [OF e] have "elem_end r" "c # t = v @ r" by auto
    with elem_ref_bare_progress [OF e c] show ?thesis by (cases v) auto
  qed
  then obtain x where "t = x @ r" "elem_end r" by blast
  then have "Suc (runs r) \<le> runs (c # t)"
    using runs_append_ge [of r x] c by (simp add: runs_word)
  then show ?thesis using runs_dropWhile [of s] by (simp add: ct)
qed

lemma split_ref_runs: "split_ref s = Inr xs \<Longrightarrow> length xs \<le> runs s"
proof (induction s arbitrary: xs rule: split_ref.induct)
  case (1 s)
  show ?case
  proof (cases "next_elem s")
    case (Inl e)
    with "1.prems" show ?thesis by (simp add: split_ref.simps [of s])
  next
    case (Inr o1)
    show ?thesis
    proof (cases o1)
      case None
      with "1.prems" Inr show ?thesis by (simp add: split_ref.simps [of s])
    next
      case (Some vrl)
      obtain v r l where vrl: "vrl = (v, r, l)" by (cases vrl)
      obtain ys where ys: "split_ref r = Inr ys" "length xs = Suc (length ys)"
        using "1.prems" Inr Some vrl by (cases "split_ref r") (auto simp: split_ref.simps [of s])
      from "1.IH" [OF Inr Some vrl [symmetric] refl ys(1)] next_elem_runs [of s v r l] show ?thesis
        using Inr Some vrl ys(2) by simp
    qed
  qed
qed

text \<open>The loop counts the whitespace runs of the rest.\<close>

function gaps :: "string \<Rightarrow> nat" where
  "gaps [] = 0"
| "gaps (c # s) = (if is_list_space c then Suc (gaps (dropWhile is_list_space s)) else gaps s)"
  by pat_completeness auto
termination
  by (relation "measure length") (auto simp: less_Suc_eq_le length_dropWhile_le)

lemma max_list_loop_gaps: "max_list_loop b i c = c + gaps (drop i b)"
proof (induction b i c rule: max_list_loop.induct)
  case (1 b i c)
  show ?case
  proof (cases "drop i b")
    case Nil
    then show ?thesis by (simp add: max_list_loop.simps [of b i c])
  next
    case (Cons d t)
    then have "i < length b" "b ! i = d" "drop (Suc i) b = t" by (simp_all add: drop_eq_Cons_iff)
    with 1 Cons show ?thesis by (simp add: max_list_loop.simps [of b i c])
  qed
qed

lemma runs_gaps:
  "s \<noteq> [] \<Longrightarrow> runs s + (if is_list_space (last s) then 1 else 0) =
     gaps s + (if is_list_space (hd s) then 0 else 1)"
proof (induction s rule: gaps.induct)
  case 1
  then show ?case by simp
next
  case (2 c s)
  show ?case
  proof (cases "is_list_space c")
    case True
    let ?d = "dropWhile is_list_space s"
    show ?thesis
    proof (cases "?d = []")
      case d: True
      then have "runs s = 0" by (simp only: runs.simps [of s] list.case)
      moreover have "\<forall>x \<in> set s. is_list_space x" using d by simp
      moreover have "gaps ?d = 0" by (simp only: d gaps.simps)
      ultimately show ?thesis using True by auto
    next
      case d: False
      then have "s \<noteq> []" by auto
      with last_appendR [OF d, of "takeWhile is_list_space s"] have "last (c # s) = last ?d" by simp
      moreover have "\<not> is_list_space (hd ?d)" using d by (rule hd_dropWhile)
      ultimately show ?thesis using 2(1) [OF True d] True runs_dropWhile [of s] by simp
    qed
  next
    case False
    show ?thesis
    proof (cases s)
      case Nil
      with False show ?thesis by (simp add: runs_word)
    next
      case (Cons d t)
      with 2(2) False show ?thesis by (cases "is_list_space d") (auto simp: runs_word)
    qed
  qed
qed

lemma max_list_length_runs: "max_list_length s = runs s"
proof (cases s)
  case Nil
  then show ?thesis by (simp add: max_list_length_def)
next
  case (Cons c t)
  then have "last s = s ! (length s - 1)" by (simp add: last_conv_nth)
  with runs_gaps [of s] Cons show ?thesis
    by (auto simp: max_list_length_def max_list_loop_gaps split: if_splits)
qed

lemma lenient_strict_loop:
  "split_list_loop s out pos = Inr xs \<Longrightarrow> split_list_lenient_loop s out pos = xs"
proof (induction s out pos rule: split_list_loop.induct)
  case (1 s out pos)
  then show ?case
    by (simp add: split_list_loop.simps [of s out pos] split_list_lenient_loop.simps [of s out pos]
        split: sum.splits option.splits)
qed

lemma lenient_extends: "\<exists>ys. split_list_lenient_loop s out pos = out @ ys"
proof (induction s out pos rule: split_list_lenient_loop.induct)
  case (1 s out pos)
  show ?case
  proof (cases "\<exists>el. find_element s pos = Inr (Some el)")
    case True
    with 1 show ?thesis by (fastforce simp: split_list_lenient_loop.simps [of s out pos])
  next
    case False
    then show ?thesis by (auto simp: split_list_lenient_loop.simps [of s out pos] split: sum.splits option.splits)
  qed
qed

section \<open>Properties\<close>

text \<open>
  C11. Splitting a joined list gives back exactly its elements, for every list of byte strings:
  whatever an element contains (braces, quotes, backslashes, newlines, a leading hash), the quoting
  mode \<open>scan_element\<close> chooses protects it from the splitter.
\<close>

theorem split_join_roundtrip: "split_list (join_list es) = Inr es"
  by (rule tcl.parse_render)

text \<open>
  Re-spacing a list keeps its elements, and the result is a fixed point: re-spacing it again
  changes nothing.
\<close>

lemma normalise_spacing_canonical:
  "normalise_spacing s = Inr t \<Longrightarrow> split_list t = split_list s \<and> normalise_spacing t = Inr t"
  by (blast intro: tcl.normalise_keeps_elements tcl.normalise_fixpoint)

text \<open>
  \<open>max_list_length\<close> never underestimates: a text that splits has at most that many
  elements.
\<close>

lemma max_list_length_bound: "split_list s = Inr xs \<Longrightarrow> length xs \<le> max_list_length s"
  by (simp add: split_list_ref max_list_length_runs split_ref_runs)

text \<open>
  Every located element ends inside the text and strictly after the scan's start, so each
  splitter's loop makes progress and stops.
\<close>

lemma find_element_advances:
  "find_element s start = Inr (Some el) \<Longrightarrow> start < nxt el \<and> nxt el \<le> length s"
  by (simp add: find_element_progress)

text \<open>
  Where the strict splitter succeeds, the lenient one returns the same elements; it differs
  only where the text is malformed.
\<close>

lemma split_list_lenient_agrees: "split_list s = Inr xs \<Longrightarrow> split_list_lenient s = xs"
  by (simp add: split_list_def split_list_lenient_def lenient_strict_loop)

section \<open>The Jim splitter against the Tcl one\<close>

text \<open>A backslash-newline with a blank after it.\<close>

definition continued :: "string \<Rightarrow> bool" where
  "continued s \<longleftrightarrow> (\<exists>u w. \<exists>c\<in>{SP, TAB}. s = u @ BS # LF # c # w)"

lemma continued_drop: "continued (drop i s) \<Longrightarrow> continued s"
  unfolding continued_def by (metis append.assoc append_take_drop_id)

lemma continued_here: "c \<in> {SP, TAB} \<Longrightarrow> continued (BS # LF # c # w)"
  unfolding continued_def by (intro exI [of _ "[]"] exI [of _ w] bexI [of _ c]) simp_all

text \<open>The end of an element, as the Jim scanners find it, where the strict scan succeeds.\<close>

lemma drop_nth: "drop i s = c # t \<Longrightarrow> i < length s \<and> s ! i = c \<and> drop (Suc i) s = t"
  by (simp add: drop_eq_Cons_iff)

lemma elem_ref_quoted_newline:
  "elem_ref 0 True lit (BS # LF # s) = prepend [BS, LF] (elem_ref 0 True False s)"
proof -
  let ?ws = "\<lambda>c. c = SP \<or> c = TAB"
  have "elem_ref 0 True l u = prepend (takeWhile ?ws u) (elem_ref 0 True l (dropWhile ?ws u))" for l u
    by (induction u) (auto simp: elem_ref_other prepend_def split: sum.split)
  from this [of False s] show ?thesis by (simp add: elem_ref_step prepend_def split: sum.split)
qed

lemma jim_brace_close_elem:
  "elem_ref ob False lit (drop i s) = Inr (v, r, l) \<Longrightarrow> 0 < ob \<Longrightarrow>
   jim_brace_close s ob i = Some (i + length v) \<and> drop i s = v @ RBRACE # r \<and> l = lit"
proof (induction s ob i arbitrary: v rule: jim_brace_close.induct)
  case (1 s ob i)
  note step = jim_brace_close.simps [of s ob i]
  show ?case
  proof (cases "drop i s")
    case Nil
    with "1.prems" show ?thesis by simp
  next
    case (Cons c t)
    note d = drop_nth [OF Cons]
    consider "c = BS" | "c = LBRACE" | "c = RBRACE" | "c \<noteq> BS" "c \<noteq> LBRACE" "c \<noteq> RBRACE" by blast
    then show ?thesis
    proof cases
      case 1
      show ?thesis
      proof (cases t)
        case Nil
        with "1.prems" Cons 1 show ?thesis by (simp add: elem_ref_step)
      next
        case t: (Cons e u)
        have u: "drop (i + 2) s = u" using d t by (metis add_2_eq_Suc' drop_nth)
        from "1.prems" Cons 1 t obtain v' where v': "elem_ref ob False lit u = Inr (v', r, l)" "v = BS # e # v'"
          by (auto simp: elem_ref_step)
        from "1.IH"(1) [of v'] d 1 v' u "1.prems"(2) Cons t show ?thesis by (simp add: step)
      qed
    next
      case 2
      from "1.prems" Cons 2 obtain v' where v': "elem_ref (ob + 1) False lit t = Inr (v', r, l)" "v = c # v'"
        by (auto simp: elem_ref_step)
      from "1.IH"(2) [of v'] d 2 v' Cons show ?thesis by (simp add: step)
    next
      case 3
      show ?thesis
      proof (cases "ob = 1")
        case True
        have "jim_brace_close s ob i = Some i" by (subst step) (use d 3 True in simp)
        with "1.prems" Cons 3 True show ?thesis by (auto simp: elem_ref_step split: if_splits)
      next
        case False
        from "1.prems" Cons 3 False obtain v' where v': "elem_ref (ob - 1) False lit t = Inr (v', r, l)" "v = c # v'"
          by (auto simp: elem_ref_step)
        from "1.IH"(3) [of v'] d 3 v' Cons False "1.prems"(2) show ?thesis by (simp add: step)
      qed
    next
      case 4
      from "1.prems" Cons 4 obtain v' where v': "elem_ref ob False lit t = Inr (v', r, l)" "v = c # v'"
        by (auto simp: elem_ref_other)
      from "1.IH"(4) [of v'] d 4 v' Cons "1.prems"(2) show ?thesis by (simp add: step)
    qed
  qed
qed

lemma jim_quote_close_elem:
  "elem_ref 0 True lit (drop i s) = Inr (v, r, l) \<Longrightarrow>
   jim_quote_close s i = Some (i + length v) \<and> drop i s = v @ DQUOTE # r \<and> (l \<longleftrightarrow> lit \<and> BS \<notin> set v)"
proof (induction s i arbitrary: lit v rule: jim_quote_close.induct)
  case (1 s i)
  note step = jim_quote_close.simps [of s i]
  show ?case
  proof (cases "drop i s")
    case Nil
    with "1.prems" show ?thesis by simp
  next
    case (Cons c t)
    note d = drop_nth [OF Cons]
    consider "c = BS" | "c = DQUOTE" | "c \<noteq> BS" "c \<noteq> DQUOTE" by blast
    then show ?thesis
    proof cases
      case 1
      show ?thesis
      proof (cases t)
        case Nil
        with "1.prems" Cons 1 show ?thesis by (simp add: elem_ref_step)
      next
        case t: (Cons e u)
        have u: "drop (i + 2) s = u" using d t by (metis add_2_eq_Suc' drop_nth)
        have "elem_ref 0 True lit (BS # e # u) = prepend [BS, e] (elem_ref 0 True False u)"
          using elem_ref_quoted_newline [of lit u] elem_ref_step(7) [of 0 e True lit u] by (cases "e = LF") simp_all
        with "1.prems" Cons 1 t obtain v' where v': "elem_ref 0 True False u = Inr (v', r, l)" "v = BS # e # v'"
          by auto
        from "1.IH"(1) [of False v'] d 1 v' u Cons t show ?thesis by (simp add: step)
      qed
    next
      case 2
      with "1.prems" Cons d show ?thesis by (auto simp: step elem_ref_step split: if_splits)
    next
      case 3
      have "elem_ref 0 True lit (c # t) = prepend [c] (elem_ref 0 True lit t)"
        using 3 by (cases "c = RBRACE") (simp_all add: elem_ref_step elem_ref_other)
      with "1.prems" Cons obtain v' where v': "elem_ref 0 True lit t = Inr (v', r, l)" "v = c # v'" by auto
      from "1.IH"(2) [of lit v'] d 3 v' Cons show ?thesis by (simp add: step)
    qed
  qed
qed

lemma jim_bare_end_elem:
  "elem_ref 0 False lit (drop i s) = Inr (v, r, l) \<Longrightarrow> \<not> continued (drop i s) \<Longrightarrow>
   min (jim_bare_end s i) (length s) = min (i + length v) (length s) \<and> drop i s = v @ r \<and> (l \<longleftrightarrow> lit \<and> BS \<notin> set v)"
proof (induction s i arbitrary: lit v rule: jim_bare_end.induct)
  case (1 s i)
  note step = jim_bare_end.simps [of s i]
  show ?case
  proof (cases "drop i s")
    case Nil
    with "1.prems" show ?thesis by (simp add: step)
  next
    case (Cons c t)
    note d = drop_nth [OF Cons]
    consider "c = BS" | "is_list_space c" | "c \<noteq> BS" "\<not> is_list_space c" by blast
    then show ?thesis
    proof cases
      case 1
      have sp: "\<not> is_list_space BS" by (simp add: is_list_space_def)
      show ?thesis
      proof (cases t)
        case Nil
        with "1.prems"(1) Cons 1 have "v = [BS]" "r = []" "l = False" by (auto simp: elem_ref_step)
        moreover have "length s = Suc i" using Nil d by (metis Suc_leI drop_eq_Nil le_antisym)
        moreover have "jim_bare_end s (i + 2) = i + 2" using d Nil by (subst jim_bare_end.simps) simp
        ultimately show ?thesis using d 1 sp Cons Nil by (simp add: step)
      next
        case t: (Cons e u)
        have u: "drop (i + 2) s = u" using d t by (metis add_2_eq_Suc' drop_nth)
        have nc: "\<not> continued (BS # e # u)" using "1.prems"(2) Cons 1 t by simp
        have "elem_ref 0 False lit (BS # e # u) = prepend [BS, e] (elem_ref 0 False False u)"
        proof (cases "e = LF")
          case True
          show ?thesis
          proof (cases u)
            case (Cons x w)
            with True nc continued_here [of x w] have "x \<noteq> SP" "x \<noteq> TAB" by auto
            with Cons True show ?thesis by (simp add: elem_ref_step)
          qed (simp add: True elem_ref_step)
        qed (simp add: elem_ref_step)
        with "1.prems"(1) Cons 1 t obtain v' where v': "elem_ref 0 False False u = Inr (v', r, l)" "v = BS # e # v'"
          by auto
        have "\<not> continued u" using "1.prems"(2) continued_drop [of 2 "drop i s"] u by (auto simp: add.commute)
        from "1.IH" [of False v'] this d 1 v' u Cons t sp show ?thesis by (simp add: step)
      qed
    next
      case 2
      with "1.prems" Cons d show ?thesis by (auto simp: step elem_ref_space)
    next
      case 3
      have "elem_ref 0 False lit (c # t) = prepend [c] (elem_ref 0 False lit t)"
        using 3 by (cases "c = RBRACE") (simp_all add: elem_ref_step elem_ref_other)
      with "1.prems"(1) Cons obtain v' where v': "elem_ref 0 False lit t = Inr (v', r, l)" "v = c # v'" by auto
      have "\<not> continued t" using "1.prems"(2) continued_drop [of 1 "drop i s"] d by auto
      from "1.IH" [of lit v'] this d 3 v' Cons show ?thesis by (simp add: step)
    qed
  qed
qed

text \<open>One element, and the whole list.\<close>

lemma jim_next_elem:
  assumes "next_elem (drop i s) = Inr (Some (v, r, l))" "i < length s" "\<not> is_list_space (s ! i)" "\<not> continued (drop i s)"
  shows "fst (jim_next s i) = (if l then v else backslash_subst v) \<and> drop (snd (jim_next s i)) s = r"
proof -
  define t where "t = drop (Suc i) s"
  have d: "drop i s = s ! i # t" using assms(2) by (simp add: t_def Cons_nth_drop_Suc)
  have n: "next_elem (drop i s) =
      (case (if s ! i = LBRACE then elem_ref 1 False True t else if s ! i = DQUOTE then elem_ref 0 True True t
             else elem_ref 0 False True (s ! i # t)) of Inl e \<Rightarrow> Inl e | Inr r \<Rightarrow> Inr (Some r))"
    using assms(3) by (simp add: next_elem_def d)
  have cut: "subslice (Suc i) (Suc (i + length v)) s = v \<and> drop (Suc (Suc (i + length v))) s = r \<and> Suc (i + length v) \<le> length s"
    if "t = v @ c # r" for c
  proof -
    have "s = take (Suc i) s @ v @ c # r" using that by (metis append_take_drop_id t_def)
    then have "length s = Suc i + length v + Suc (length r)" using assms(2) by (metis (no_types) Suc_leI add.assoc length_Cons length_append length_take min.absorb2)
    moreover have "drop (Suc (length v)) t = r" "take (length v) t = v" by (simp_all add: that)
    moreover have "drop (Suc (Suc (i + length v))) s = drop (Suc (length v)) t" by (simp add: t_def add.commute)
    ultimately show ?thesis by (simp add: subslice_def flip: t_def)
  qed
  have plain: "backslash_subst v = v" if "BS \<notin> set v"
    using that by (simp add: backslash_subst_def backslash_subst_in_eq subst_ref_no_backslash)
  consider "s ! i = LBRACE" | "s ! i = DQUOTE" | "s ! i \<noteq> LBRACE" "s ! i \<noteq> DQUOTE" by blast
  then show ?thesis
  proof cases
    case 1
    with assms(1) n have "elem_ref 1 False True (drop (Suc i) s) = Inr (v, r, l)"
      by (auto simp: t_def split: sum.splits)
    from jim_brace_close_elem [OF this] cut 1 show ?thesis by (simp add: jim_next_def t_def)
  next
    case 2
    with assms(1) n have "elem_ref 0 True True (drop (Suc i) s) = Inr (v, r, l)"
      by (auto simp: t_def split: sum.splits)
    from jim_quote_close_elem [OF this] cut 2 plain show ?thesis
      by (auto simp: jim_next_def t_def min_absorb1)
  next
    case 3
    with assms(1) n d have "elem_ref 0 False True (drop i s) = Inr (v, r, l)"
      by (auto split: sum.splits)
    from jim_bare_end_elem [OF this assms(4)] have e: "min (jim_bare_end s i) (length s) = min (i + length v) (length s)"
      "drop i s = v @ r" "l \<longleftrightarrow> BS \<notin> set v" by simp_all
    have "length s - i = length v + length r" using e(2) by (metis length_append length_drop)
    then have m: "i + length v \<le> length s" using assms(2) by linarith
    have "drop (i + length v) s = drop (length v) (drop i s)" by (simp add: add.commute)
    then have "subslice i (i + length v) s = v" "drop (i + length v) s = r"
      using e(2) by (simp_all add: subslice_def)
    with e m 3 plain show ?thesis by (simp add: jim_next_def min_absorb1 Let_def)
  qed
qed

lemma split_list_jim_loop_ref:
  "pos \<le> length s \<Longrightarrow> split_ref (drop pos s) = Inr xs \<Longrightarrow> \<not> continued s \<Longrightarrow> split_list_jim_loop s out pos = out @ xs"
proof (induction s out pos arbitrary: xs rule: split_list_jim_loop.induct)
  case (1 s out pos)
  define p where "p = skip_while is_list_space s pos"
  note step = split_list_jim_loop.simps [of s out pos, folded p_def]
  have d: "drop p s = dropWhile is_list_space (drop pos s)" by (simp add: p_def)
  show ?case
  proof (cases "p < length s")
    case False
    then have "next_elem (drop pos s) = Inr None" using d by (simp add: next_elem_def flip: d)
    with "1.prems"(2) False show ?thesis by (simp add: step split_ref.simps [of "drop pos s"])
  next
    case True
    have nsp: "\<not> is_list_space (s ! p)" using skip_while_stop [of is_list_space s pos] True by (simp add: p_def)
    have nx: "next_elem (drop p s) = next_elem (drop pos s)" by (simp add: d)
    have "next_elem (drop pos s) \<noteq> Inr None"
      using True nsp by (simp add: next_elem_def flip: d Cons_nth_drop_Suc split: sum.split)
    then obtain v r l where e: "next_elem (drop p s) = Inr (Some (v, r, l))"
      using "1.prems"(2) nx by (cases "next_elem (drop pos s)") (auto simp: split_ref.simps [of "drop pos s"])
    from e nx have e': "next_elem (drop pos s) = Inr (Some (v, r, l))" by simp
    with "1.prems"(2) obtain ys where ys: "split_ref r = Inr ys" "xs = (if l then v else backslash_subst v) # ys"
      by (cases "split_ref r") (auto simp: split_ref.simps [of "drop pos s"])
    have "\<not> continued (drop p s)" using "1.prems"(3) continued_drop by blast
    note j = jim_next_elem [OF e True nsp this]
    have le: "snd (jim_next s p) \<le> length s \<or> r = []" using j by auto
    show ?thesis
    proof (cases "snd (jim_next s p) \<le> length s")
      case in_range: True
      from "1.IH" [OF p_def, of ys] in_range True j ys "1.prems"(3) show ?thesis by (simp add: step)
    next
      case False
      with le ys(1) have "ys = []" by (simp add: split_ref.simps [of "[]"] next_elem_def)
      moreover have "split_list_jim_loop s o' (snd (jim_next s p)) = o'" for o'
        using False skip_while_ge [of "snd (jim_next s p)" is_list_space s]
        by (simp add: split_list_jim_loop.simps [of s o' "snd (jim_next s p)"] Let_def)
      ultimately show ?thesis using True j ys by (simp add: step)
    qed
  qed
qed

text \<open>A bare word that a backslash-newline and blanks part from another.\<close>

definition bare_word :: "string \<Rightarrow> bool" where
  "bare_word a \<longleftrightarrow> a \<noteq> [] \<and> BS \<notin> set a \<and> (\<forall>c\<in>set a. \<not> is_list_space c) \<and> hd a \<notin> {LBRACE, DQUOTE}"

lemma elem_ref_word:
  "BS \<notin> set a \<Longrightarrow> \<forall>c\<in>set a. \<not> is_list_space c \<Longrightarrow> elem_ref 0 False lit (a @ r) = prepend a (elem_ref 0 False lit r)"
proof (induction a)
  case (Cons c a)
  then show ?case by (cases "c = RBRACE") (auto simp: elem_ref_step elem_ref_other prepend_def split: sum.split)
qed (simp add: prepend_def split: sum.split)

lemma jim_bare_end_word:
  "BS \<notin> set a \<Longrightarrow> \<forall>c\<in>set a. \<not> is_list_space c \<Longrightarrow>
   jim_bare_end (p @ a @ r) (length p) = jim_bare_end (p @ a @ r) (length p + length a)"
proof (induction a arbitrary: p)
  case (Cons c a)
  from Cons.IH [of "p @ [c]"] Cons.prems show ?case
    by (subst jim_bare_end.simps) (auto simp: nth_append)
qed simp

lemma subst_continuation:
  assumes "BS \<notin> set a" "set ws \<subseteq> {SP, TAB}" "b = [] \<or> hd b \<notin> {SP, TAB}" "BS \<notin> set b"
  shows "backslash_subst (a @ BS # LF # ws @ b) = a @ SP # b"
proof -
  let ?ws = "\<lambda>c. c = SP \<or> c = TAB"
  have "takeWhile ?ws (ws @ b) = ws"
    using assms(2,3) by (subst takeWhile_append2) (auto, cases b, auto)
  then have "decode_escape (BS # LF # ws @ b) 0 Tcl90 = (2 + length ws, 0x20)"
    by (simp add: decode_escape_def octal_run_def octal_digit_def skip_while_closed byte_at_def backslash_continuation_end_def)
  then have "subst_ref Tcl90 (BS # LF # ws @ b) = SP # b"
    using assms(4) by (simp add: subst_ref_no_backslash utf8_encode_def)
  with assms(1) show ?thesis by (simp add: backslash_subst_def backslash_subst_in_eq subst_ref_append_plain)
qed

lemma bare_wordD:
  assumes "bare_word a"
  shows "a \<noteq> []" "BS \<notin> set a" "\<forall>c\<in>set a. \<not> is_list_space c" "hd a \<notin> {LBRACE, DQUOTE}" "hd a \<notin> {SP, TAB}"
  using assms by (auto simp: bare_word_def is_list_space_def dest: hd_in_set)

lemma continuation_strict:
  assumes "bare_word a" "bare_word b" "set ws \<subseteq> {SP, TAB}"
  shows "split_list (a @ BS # LF # ws @ b) = Inr [a @ SP # b]"
proof -
  let ?s = "a @ BS # LF # ws @ b" and ?ws = "\<lambda>c. c = SP \<or> c = TAB"
  note a = bare_wordD [OF assms(1)] and b = bare_wordD [OF assms(2)]
  have w: "takeWhile ?ws (ws @ b) = ws" "dropWhile ?ws (ws @ b) = b"
    using assms(3) b(1,5) by (subst takeWhile_append2 dropWhile_append2; auto; cases b; auto)+
  have "elem_ref 0 False True ?s = Inr (?s, [], False)"
    using elem_ref_word [OF a(2,3), of True "BS # LF # ws @ b"] elem_ref_word [OF b(2,3), of False "[]"]
    by (simp add: elem_ref_step w)
  then have "next_elem ?s = Inr (Some (?s, [], False))"
    using a by (cases a) (auto simp: next_elem_def)
  then show ?thesis
    using subst_continuation [OF a(2) assms(3) _ b(2)] b(5)
    by (simp add: split_list_ref split_ref.simps [of ?s] split_ref.simps [of "[]"] next_elem_def)
qed

lemma continuation_jim:
  assumes "bare_word a" "bare_word b" "ws \<noteq> []" "set ws \<subseteq> {SP, TAB}"
  shows "split_list_jim (a @ BS # LF # ws @ b) = [a @ [SP], b]"
proof -
  let ?s = "a @ BS # LF # ws @ b"
  note a = bare_wordD [OF assms(1)] and b = bare_wordD [OF assms(2)]
  have sp: "is_list_space (hd ws)" using assms(3,4) by (cases ws) (auto simp: is_list_space_def)
  have e1: "jim_bare_end ?s 0 = length a + 2"
  proof -
    have "jim_bare_end ?s 0 = jim_bare_end ?s (length a)" using jim_bare_end_word [OF a(2,3), of "[]"] by simp
    also have "\<dots> = jim_bare_end ?s (length a + 2)"
      by (subst jim_bare_end.simps) (simp add: is_list_space_def)
    also have "\<dots> = length a + 2"
      using sp assms(3) by (subst jim_bare_end.simps) (cases ws; simp add: nth_append)
    finally show ?thesis .
  qed
  define p where "p = length a + 2 + length ws"
  have s': "?s = (a @ BS # LF # ws) @ b @ []" "length (a @ BS # LF # ws) = p" by (simp_all add: p_def)
  have e2: "jim_bare_end ?s p = length ?s"
    using jim_bare_end_word [OF b(2,3), of "a @ BS # LF # ws" "[]"] jim_bare_end.simps [of ?s "length ?s"] by (simp add: p_def add.assoc)
  have n1: "jim_next ?s 0 = (a @ [SP], length a + 2)"
    using a e1 subst_continuation [OF a(2), of "[]" "[]"] by (cases a) (auto simp: jim_next_def subslice_def nth_append)
  have nb: "?s ! p = hd b" using b(1) by (cases b) (simp_all add: p_def nth_append)
  have n2: "jim_next ?s p = (b, length ?s)"
    using b e2 nb subst_ref_no_backslash [OF b(2)]
    by (simp add: jim_next_def subslice_def p_def backslash_subst_def backslash_subst_in_eq)
  have k1: "skip_while is_list_space ?s 0 = 0" using a by (cases a) (simp_all add: skip_while_closed)
  have k2: "skip_while is_list_space ?s (length a + 2) = p"
  proof -
    have blank: "is_list_space c" if "c \<in> set ws" for c using that assms(4) by (auto simp: is_list_space_def)
    have "takeWhile is_list_space b = []" using b(1,3) by (cases b) simp_all
    with takeWhile_append2 [of ws is_list_space b, OF blank] have "takeWhile is_list_space (ws @ b) = ws" by simp
    then show ?thesis by (simp add: skip_while_closed p_def)
  qed
  have "p < length ?s" using b(1) by (simp add: p_def)
  moreover have "split_list_jim_loop ?s o' (length ?s) = o'" for o'
    using skip_while_ge [of "length ?s" is_list_space ?s] by (simp only: split_list_jim_loop.simps [of ?s o' "length ?s"] Let_def) simp
  ultimately have l2: "split_list_jim_loop ?s o' (length a + 2) = o' @ [b]" for o'
    by (simp only: split_list_jim_loop.simps [of ?s o' "length a + 2"] k2 n2 Let_def if_True fst_conv snd_conv)
  have "0 < length ?s" by simp
  then show ?thesis
    by (simp only: split_list_jim_def split_list_jim_loop.simps [of ?s "[]" 0] k1 n1 l2 Let_def if_True fst_conv snd_conv append_Nil)
      simp
qed

text \<open>
  C35. The Jim splitter reads a well-formed list as the Tcl splitter does, unless a backslash-newline
  with a blank after it occurs in it. There they differ: two bare words with a backslash-newline and any
  number of blanks between them are one element for Tcl, joined by a space, and two for Jim.
\<close>

theorem split_list_jim_agrees:
  "(split_list s = Inr xs \<longrightarrow> \<not> continued s \<longrightarrow> split_list_jim s = xs) \<and>
   (bare_word a \<longrightarrow> bare_word b \<longrightarrow> ws \<noteq> [] \<longrightarrow> set ws \<subseteq> {SP, TAB} \<longrightarrow>
      split_list (a @ BS # LF # ws @ b) = Inr [a @ SP # b] \<and> split_list_jim (a @ BS # LF # ws @ b) = [a @ [SP], b])"
proof (intro conjI impI)
  show "split_list_jim s = xs" if "split_list s = Inr xs" "\<not> continued s"
    using split_list_jim_loop_ref [of 0 s xs "[]"] that by (simp add: split_list_jim_def split_list_ref)
qed (rule continuation_strict continuation_jim; assumption)+

theorem split_list_jim_agrees_witness:
  "split_list_jim ''x {y z}'' = [''x'', ''y z''] \<and>
   split_list (''a'' @ BS # LF # [SP] @ ''b'') = Inr [''a b''] \<and> split_list_jim (''a'' @ BS # LF # [SP] @ ''b'') = [''a '', ''b'']"
proof -
  have "split_list ''x {y z}'' = Inr [''x'', ''y z'']" by code_simp
  moreover have "\<not> continued ''x {y z}''" by (auto simp: continued_def Cons_eq_append_conv)
  ultimately have "split_list_jim ''x {y z}'' = [''x'', ''y z'']"
    using split_list_jim_agrees [of "''x {y z}''" "[''x'', ''y z'']"] by blast
  moreover have "bare_word ''a''" "bare_word ''b''" by (simp_all add: bare_word_def is_list_space_def)
  ultimately show ?thesis using split_list_jim_agrees [of _ _ "''a''" "''b''" "[SP]"] by simp
qed

end
