(* ===== verification/Glob.thy ===== *)
theory Glob
  imports Prelude
begin

text \<open>
  \<open>string match\<close> globbing, \<open>tcl-syntax/src/glob.rs\<close>. Patterns and texts are lists of
  Unicode scalar values; \<open>lower\<close> is \<open>c.to_lowercase().next()\<close>, whose tables are
  Unicode's, so it stays a parameter.

  The matcher keeps a single resume point after the last star. \<open>glob_at\<close> is the
  specification it is proved to compute: a star stands for every possible run of characters.
\<close>

abbreviation STAR :: nat where "STAR \<equiv> 0x2A"
abbreviation QUESTION :: nat where "QUESTION \<equiv> 0x3F"
abbreviation LBRACKET :: nat where "LBRACKET \<equiv> 0x5B"
abbreviation RBRACKET :: nat where "RBRACKET \<equiv> 0x5D"
abbreviation DASH :: nat where "DASH \<equiv> 0x2D"
abbreviation BSLASH :: nat where "BSLASH \<equiv> 0x5C"

section \<open>One pattern atom\<close>

definition fold_char :: "(nat \<Rightarrow> nat) \<Rightarrow> nat \<Rightarrow> bool \<Rightarrow> nat" where
  "fold_char lower c nocase = (if nocase then lower c else c)"

text \<open>The member scan of a \<open>[...]\<close> class: where it stops, and whether a member matched.\<close>

function class_scan :: "(nat \<Rightarrow> nat) \<Rightarrow> nat list \<Rightarrow> bool \<Rightarrow> nat \<Rightarrow> nat \<Rightarrow> bool \<Rightarrow> nat \<times> bool" where
  "class_scan lower p nocase ch1 pj matched =
     (if pj < length p \<and> p ! pj \<noteq> RBRACKET then
        (let start = fold_char lower (p ! pj) nocase in
         if pj + 1 < length p \<and> p ! (pj + 1) = DASH then
           (if length p \<le> pj + 2 then (pj + 2, matched)
            else
              (let stop = fold_char lower (p ! (pj + 2)) nocase in
               class_scan lower p nocase ch1 (pj + 3)
                 (matched \<or> start \<le> ch1 \<and> ch1 \<le> stop \<or> stop \<le> ch1 \<and> ch1 \<le> start)))
         else class_scan lower p nocase ch1 (pj + 1) (matched \<or> start = ch1))
      else (pj, matched))"
  by pat_completeness auto
termination
  by (relation "measure (\<lambda>(lower, p, nocase, ch1, pj, matched). length p - pj)") auto

declare class_scan.simps [simp del]

definition match_one :: "(nat \<Rightarrow> nat) \<Rightarrow> nat list \<Rightarrow> nat \<Rightarrow> nat \<Rightarrow> bool \<Rightarrow> nat option" where
  "match_one lower p pi sc nocase =
     (if p ! pi = QUESTION then Some (pi + 1)
      else if p ! pi = LBRACKET then
        (case class_scan lower p nocase (fold_char lower sc nocase) (pi + 1) False of (pj, matched) \<Rightarrow>
           if \<not> matched then None
           else
             (let pj' = skip_while (\<lambda>c. c \<noteq> RBRACKET) p pj in
              Some (if pj' < length p then pj' + 1 else pj')))
      else
        (let pj = (if p ! pi = BSLASH then pi + 1 else pi) in
         if p ! pi = BSLASH \<and> length p \<le> pj then None
         else if fold_char lower (p ! pj) nocase = fold_char lower sc nocase then Some (pj + 1)
         else None))"

lemma class_scan_ge: "pj \<le> fst (class_scan lower p nocase ch pj m)"
proof (induction lower p nocase ch pj m rule: class_scan.induct)
  case (1 lower p nocase ch pj m)
  then show ?case
    by (subst class_scan.simps) (fastforce simp: Let_def intro: le_trans)
qed

lemma class_scan_end_fixed: "fst (class_scan lower p nocase a pj m) = fst (class_scan lower p nocase b pj n)"
proof (induction lower p nocase a pj m arbitrary: n rule: class_scan.induct)
  case (1 lower p nocase a pj m)
  show ?case
  proof (cases "pj < length p \<and> p ! pj \<noteq> RBRACKET")
    case True
    then show ?thesis
      using 1
      by (cases "pj + 1 < length p \<and> p ! (pj + 1) = DASH"; cases "length p \<le> pj + 2")
        (auto simp add: class_scan.simps [of lower p nocase a pj m] class_scan.simps [of lower p nocase b pj n] Let_def)
  next
    case False
    then show ?thesis
      by (auto simp: class_scan.simps [of lower p nocase a pj m] class_scan.simps [of lower p nocase b pj n])
  qed
qed

lemma match_one_gt: "match_one lower p pi sc nocase = Some n \<Longrightarrow> pi < n"
  using class_scan_ge [of "pi + 1" lower p nocase "fold_char lower sc nocase" False]
    skip_while_ge [of "fst (class_scan lower p nocase (fold_char lower sc nocase) (pi + 1) False)"
      "\<lambda>c. c \<noteq> RBRACKET" p]
  by (auto simp: match_one_def Let_def case_prod_beta split: if_splits)

text \<open>How far an atom reaches depends on the pattern only, not on the character it matched.\<close>

lemma match_one_end_fixed:
  "match_one lower p pi a nocase = Some n \<Longrightarrow> match_one lower p pi b nocase = Some m \<Longrightarrow> n = m"
  using class_scan_end_fixed [of lower p nocase "fold_char lower a nocase" "pi + 1" False
      "fold_char lower b nocase" False]
  by (auto simp: match_one_def Let_def case_prod_beta split: if_splits)

section \<open>What a pattern matches\<close>

function glob_at :: "(nat \<Rightarrow> nat) \<Rightarrow> bool \<Rightarrow> nat list \<Rightarrow> nat \<Rightarrow> nat list \<Rightarrow> nat \<Rightarrow> bool" where
  "glob_at lower nocase p pi s si =
     (if length p \<le> pi then length s \<le> si
      else if p ! pi = STAR then list_ex (glob_at lower nocase p (pi + 1) s) [si..<Suc (length s)]
      else si < length s \<and>
        (case match_one lower p pi (s ! si) nocase of
           None \<Rightarrow> False
         | Some n \<Rightarrow> glob_at lower nocase p n s (si + 1)))"
  by pat_completeness auto
termination
  by (relation "measure (\<lambda>(lower, nocase, p, pi, s, si). length p - pi)")
    (auto dest: match_one_gt)

declare glob_at.simps [simp del]

section \<open>The matcher\<close>

text \<open>
  The loop of \<open>do_match\<close>. Its state is the two indices and the resume point: the pattern index
  after the last star and the text index that star was last tried at. \<open>None\<close> would be a loop
  that never returns; \<open>do_match_loop_total\<close> shows that there is none.
\<close>

partial_function (option) do_match_loop ::
    "(nat \<Rightarrow> nat) \<Rightarrow> bool \<Rightarrow> nat list \<Rightarrow> nat list \<Rightarrow> nat \<Rightarrow> nat \<Rightarrow> (nat \<times> nat) option \<Rightarrow> bool option" where
  "do_match_loop lower nocase p s pi si star =
     (if pi < length p \<and> p ! pi = STAR then
        (let pi' = skip_while (\<lambda>c. c = STAR) p pi in
         if length p \<le> pi' then Some True
         else do_match_loop lower nocase p s pi' si (Some (pi', si)))
      else
        (case (if pi < length p \<and> si < length s then match_one lower p pi (s ! si) nocase else None) of
           Some n \<Rightarrow> do_match_loop lower nocase p s n (si + 1) star
         | None \<Rightarrow>
             if length p \<le> pi \<and> length s \<le> si then Some True
             else
               (case star of
                  None \<Rightarrow> Some False
                | Some (resume, star_str) \<Rightarrow>
                    if length s \<le> star_str then Some False
                    else do_match_loop lower nocase p s resume (star_str + 1)
                           (Some (resume, star_str + 1)))))"

definition do_match :: "(nat \<Rightarrow> nat) \<Rightarrow> nat list \<Rightarrow> nat \<Rightarrow> nat list \<Rightarrow> nat \<Rightarrow> bool \<Rightarrow> bool option" where
  "do_match lower p pi s si nocase = do_match_loop lower nocase p s pi si None"

definition is_literal :: "nat list \<Rightarrow> bool" where
  "is_literal pattern = (\<not> list_ex (\<lambda>c. c = STAR \<or> c = QUESTION \<or> c = LBRACKET \<or> c = BSLASH) pattern)"

definition string_case_match :: "(nat \<Rightarrow> nat) \<Rightarrow> nat list \<Rightarrow> nat list \<Rightarrow> bool \<Rightarrow> bool option" where
  "string_case_match lower pattern str nocase =
     (if pattern = [STAR] then Some True
      else if is_literal pattern then
        Some (if nocase then map (\<lambda>c. fold_char lower c True) pattern = map (\<lambda>c. fold_char lower c True) str
              else pattern = str)
      else do_match lower pattern 0 str 0 nocase)"

definition string_match :: "(nat \<Rightarrow> nat) \<Rightarrow> nat list \<Rightarrow> nat list \<Rightarrow> bool option" where
  "string_match lower pattern str = string_case_match lower pattern str False"

text \<open>The metacharacters are ASCII, so the byte test and the scalar test agree.\<close>

definition is_literal_bytes :: "string \<Rightarrow> bool" where
  "is_literal_bytes pattern =
     (\<not> list_ex (\<lambda>b. b = CHR ''*'' \<or> b = CHR ''?'' \<or> b = CHR ''['' \<or> b = BS) pattern)"

text \<open>\<open>str::chars\<close> of a well-formed string.\<close>

function chars_of :: "string \<Rightarrow> nat list" where
  "chars_of s = (case first_char s of None \<Rightarrow> [] | Some ch \<Rightarrow> ch # chars_of (drop (max 1 (len_utf8 ch)) s))"
  by pat_completeness auto
termination
  by (relation "measure length") (auto simp: first_char_def split: option.splits dest!: byte_at_SomeD)

declare chars_of.simps [simp del]

definition string_match_bytes :: "(nat \<Rightarrow> nat) \<Rightarrow> string \<Rightarrow> string \<Rightarrow> bool option" where
  "string_match_bytes lower pattern str =
     (if utf8_valid pattern \<and> utf8_valid str then string_match lower (chars_of pattern) (chars_of str)
      else Some (pattern = str))"

section \<open>The matcher computes the specification\<close>


text \<open>A run of stars is one star: it stands for any run of characters.\<close>

lemma glob_at_star_run:
  assumes "pi < length p" "p ! pi = STAR"
  shows "glob_at lower nocase p pi s si \<longleftrightarrow>
    (\<exists>k\<in>{si..length s}. glob_at lower nocase p (skip_while (\<lambda>c. c = STAR) p pi) s k)"
  using assms
proof (induction "\<lambda>c. c = STAR" p pi arbitrary: si rule: skip_while.induct)
  case (1 p pi)
  let ?G = "glob_at lower nocase p"
  have step: "?G pi s si \<longleftrightarrow> (\<exists>k\<in>{si..length s}. ?G (Suc pi) s k)"
    using 1 by (subst glob_at.simps) (auto simp: list_ex_iff)
  show ?case
  proof (cases "Suc pi < length p \<and> p ! Suc pi = STAR")
    case True
    have skip: "skip_while (\<lambda>c. c = STAR) p pi = skip_while (\<lambda>c. c = STAR) p (Suc pi)"
      using 1 by (subst skip_while.simps) simp
    show ?thesis
      unfolding step skip using 1(1) 1(2,3) True by (auto intro: le_trans)
  next
    case False
    then have "skip_while (\<lambda>c. c = STAR) p pi = Suc pi"
      using 1(2,3) by (auto simp: skip_while.simps)
    then show ?thesis using step by simp
  qed
qed

lemma glob_at_end [simp]: "length p \<le> pi \<Longrightarrow> glob_at lower nocase p pi s si \<longleftrightarrow> length s \<le> si"
  by (subst glob_at.simps) simp

lemma glob_at_atom:
  "pi < length p \<Longrightarrow> p ! pi \<noteq> STAR \<Longrightarrow> glob_at lower nocase p pi s si \<longleftrightarrow> si < length s \<and>
     (\<exists>n. match_one lower p pi (s ! si) nocase = Some n \<and> glob_at lower nocase p n s (si + 1))"
  by (subst glob_at.simps) (auto split: option.splits)

text \<open>
  The invariant of the resume point: whatever the star could still match further on, the atoms
  consumed since then would be consumed there too, ending at the same place of the pattern.
\<close>

definition resume_ok :: "(nat \<Rightarrow> nat) \<Rightarrow> bool \<Rightarrow> nat list \<Rightarrow> nat list \<Rightarrow> nat \<Rightarrow> nat \<Rightarrow> (nat \<times> nat) option \<Rightarrow> bool" where
  "resume_ok lower nocase p s pi si star \<longleftrightarrow> si \<le> length s \<and>
     (\<forall>r ss. star = Some (r, ss) \<longrightarrow> ss \<le> si \<and> r < length p \<and> p ! r \<noteq> STAR \<and>
        (\<forall>k. glob_at lower nocase p r s k \<longrightarrow> glob_at lower nocase p pi s (k + (si - ss))))"

definition resume_matches :: "(nat \<Rightarrow> nat) \<Rightarrow> bool \<Rightarrow> nat list \<Rightarrow> nat list \<Rightarrow> (nat \<times> nat) option \<Rightarrow> bool" where
  "resume_matches lower nocase p s star \<longleftrightarrow>
     (\<exists>r ss k. star = Some (r, ss) \<and> ss < k \<and> glob_at lower nocase p r s k)"

lemma resume_ok_match:
  assumes ok: "resume_ok lower nocase p s pi si star" and lt: "pi < length p" "si < length s" "p ! pi \<noteq> STAR"
    and m: "match_one lower p pi (s ! si) nocase = Some n"
  shows "resume_ok lower nocase p s n (si + 1) star"
proof -
  have "glob_at lower nocase p n s (k + (si + 1 - ss))"
    if "star = Some (r, ss)" "glob_at lower nocase p r s k" for r ss k
  proof -
    from ok that have "glob_at lower nocase p pi s (k + (si - ss))" "ss \<le> si" by (auto simp: resume_ok_def)
    then show ?thesis using lt m by (auto simp: glob_at_atom Suc_diff_le dest: match_one_end_fixed)
  qed
  with ok lt show ?thesis by (auto simp: resume_ok_def)
qed

lemma resume_ok_star:
  assumes "resume_ok lower nocase p s pi si star" "r < length p" "p ! r \<noteq> STAR"
  shows "resume_ok lower nocase p s r si (Some (r, si))"
  using assms by (auto simp: resume_ok_def)

lemma resume_star_absorbed:
  assumes "resume_ok lower nocase p s pi si star" "pi < length p" "p ! pi = STAR"
    and "resume_matches lower nocase p s star"
  shows "glob_at lower nocase p pi s si"
proof -
  from assms(4) obtain r ss k where star: "star = Some (r, ss)" "ss < k" "glob_at lower nocase p r s k"
    by (auto simp: resume_matches_def)
  with assms(1) have "glob_at lower nocase p pi s (k + (si - ss))" "ss \<le> si" by (auto simp: resume_ok_def)
  with star show ?thesis by (fastforce simp: glob_at_star_run [OF assms(2,3)])
qed

definition retry_rank :: "nat list \<Rightarrow> nat list \<Rightarrow> nat \<Rightarrow> (nat \<times> nat) option \<Rightarrow> nat \<times> nat" where
  "retry_rank p s pi star =
     (case star of None \<Rightarrow> Suc (length s) | Some (r, ss) \<Rightarrow> length s - ss, length p - pi)"

lemma skip_star_facts:
  assumes "pi < length p" "p ! pi = STAR"
  shows "pi < skip_while (\<lambda>c. c = STAR) p pi"
proof -
  have "skip_while (\<lambda>c. c = STAR) p pi = skip_while (\<lambda>c. c = STAR) p (Suc pi)"
    using assms by (subst skip_while.simps) simp
  then show ?thesis using skip_while_ge [of "Suc pi" "\<lambda>c. c = STAR" p] by simp
qed

lemma do_match_loop_stuck:
  assumes "\<not> (pi < length p \<and> p ! pi = STAR)"
    and "(if pi < length p \<and> si < length s then match_one lower p pi (s ! si) nocase else None) = None"
    and "\<not> (length p \<le> pi \<and> length s \<le> si)"
  shows "do_match_loop lower nocase p s pi si star =
    (case star of
       None \<Rightarrow> Some False
     | Some (resume, star_str) \<Rightarrow>
         if length s \<le> star_str then Some False
         else do_match_loop lower nocase p s resume (star_str + 1) (Some (resume, star_str + 1)))"
  unfolding do_match_loop.simps [of lower nocase p s pi si star]
    if_not_P [OF assms(1)] assms(2) option.case if_not_P [OF assms(3)] ..

lemma do_match_loop_total:
  assumes "resume_ok lower nocase p s pi si star"
  shows "do_match_loop lower nocase p s pi si star =
    Some (glob_at lower nocase p pi s si \<or> resume_matches lower nocase p s star)"
  using assms
proof (induction "retry_rank p s pi star" arbitrary: pi si star
    rule: wf_induct_rule [OF wf_lex_prod [OF wf_less wf_less]])
  case (1 pi star si)
  let ?G = "glob_at lower nocase p" and ?R = "resume_matches lower nocase p s"
  let ?pi' = "skip_while (\<lambda>c. c = STAR) p pi"
  note IH = 1(1) and ok = 1(2)
  from ok have si: "si \<le> length s" by (simp add: resume_ok_def)
  consider (star) "pi < length p" "p ! pi = STAR"
    | (atom) n where "\<not> (pi < length p \<and> p ! pi = STAR)" "pi < length p" "si < length s"
        "match_one lower p pi (s ! si) nocase = Some n"
    | (stuck) "\<not> (pi < length p \<and> p ! pi = STAR)"
        "(if pi < length p \<and> si < length s then match_one lower p pi (s ! si) nocase else None) = None"
    by (cases "pi < length p \<and> p ! pi = STAR";
        cases "if pi < length p \<and> si < length s then match_one lower p pi (s ! si) nocase else None")
      (auto split: if_splits)
  then show ?case
  proof cases
    case star
    show ?thesis
    proof (cases "length p \<le> ?pi'")
      case True
      with star si have "?G pi s si" by (auto simp: glob_at_star_run)
      with star True show ?thesis by (subst do_match_loop.simps) simp
    next
      case False
      have r: "p ! ?pi' \<noteq> STAR" using skip_while_stop [of "\<lambda>c. c = STAR" p pi] False by simp
      have "do_match_loop lower nocase p s ?pi' si (Some (?pi', si)) =
          Some (?G ?pi' s si \<or> ?R (Some (?pi', si)))"
        using skip_star_facts [OF star] star ok
        by (intro IH resume_ok_star [OF ok]) (use False r in \<open>auto simp: retry_rank_def resume_ok_def split: option.splits\<close>)
      moreover have "?G pi s si \<longleftrightarrow> ?G ?pi' s si \<or> ?R (Some (?pi', si))"
        using False r by (auto simp: glob_at_star_run [OF star] resume_matches_def glob_at_atom le_less)
      ultimately show ?thesis
        using star False resume_star_absorbed [OF ok star] by (subst do_match_loop.simps) auto
    qed
  next
    case (atom n)
    have "do_match_loop lower nocase p s n (si + 1) star = Some (?G n s (si + 1) \<or> ?R star)"
      using atom match_one_gt [OF atom(4)]
      by (intro IH resume_ok_match [OF ok]) (auto simp: retry_rank_def)
    then show ?thesis using atom by (subst do_match_loop.simps) (auto simp: glob_at_atom)
  next
    case stuck
    show ?thesis
    proof (cases "length p \<le> pi \<and> length s \<le> si")
      case True
      then show ?thesis by (subst do_match_loop.simps) simp
    next
      case False
      with stuck have no: "\<not> ?G pi s si"
        by (cases "pi < length p") (auto simp: glob_at_atom split: if_splits)
      show ?thesis
      proof (cases star)
        case None
        with stuck False no show ?thesis
          by (simp add: resume_matches_def do_match_loop_stuck split del: if_split)
      next
        case (Some rs)
        then obtain r ss where rs: "star = Some (r, ss)" by (cases rs) auto
        from ok rs have r: "r < length p" "p ! r \<noteq> STAR" by (auto simp: resume_ok_def)
        show ?thesis
        proof (cases "length s \<le> ss")
          case True
          with r have "\<not> ?R star" by (auto simp: resume_matches_def rs glob_at_atom)
          with stuck False no True rs show ?thesis
            by (simp add: do_match_loop_stuck split del: if_split)
        next
          case ss: False
          have "do_match_loop lower nocase p s r (ss + 1) (Some (r, ss + 1)) =
              Some (?G r s (ss + 1) \<or> ?R (Some (r, ss + 1)))"
            using ss r by (intro IH) (auto simp: rs retry_rank_def resume_ok_def)
          moreover have "?R star \<longleftrightarrow> ?G r s (ss + 1) \<or> ?R (Some (r, ss + 1))"
            by (simp add: rs resume_matches_def) (metis Suc_lessD Suc_lessI lessI)
          ultimately show ?thesis using stuck False no ss rs
            by (simp add: do_match_loop_stuck split del: if_split)
        qed
      qed
    qed
  qed
qed

section \<open>Literal patterns\<close>

lemma is_literal_nth:
  "is_literal p \<Longrightarrow> i < length p \<Longrightarrow> p ! i \<noteq> STAR \<and> p ! i \<noteq> QUESTION \<and> p ! i \<noteq> LBRACKET \<and> p ! i \<noteq> BSLASH"
  unfolding is_literal_def list_ex_iff using nth_mem by blast

lemma match_one_literal:
  "is_literal p \<Longrightarrow> pi < length p \<Longrightarrow> match_one lower p pi c nocase =
     (if fold_char lower (p ! pi) nocase = fold_char lower c nocase then Some (pi + 1) else None)"
  using is_literal_nth [of p pi] by (simp add: match_one_def)

lemma glob_at_literal:
  assumes "is_literal p" "pi \<le> length p" "si \<le> length s"
  shows "glob_at lower nocase p pi s si \<longleftrightarrow>
    map (\<lambda>c. fold_char lower c nocase) (drop pi p) = map (\<lambda>c. fold_char lower c nocase) (drop si s)"
  using assms(2,3)
proof (induction "length p - pi" arbitrary: pi si)
  case 0
  then show ?case by auto
next
  case (Suc n)
  then have pi: "pi < length p" by simp
  have "drop pi p = p ! pi # drop (Suc pi) p" using pi by (simp add: Cons_nth_drop_Suc)
  moreover have "drop si s = (if si < length s then s ! si # drop (Suc si) s else [])"
    by (simp add: Cons_nth_drop_Suc)
  ultimately show ?case
    using Suc.hyps(1) [of "Suc pi" "Suc si"] Suc.hyps(2) pi assms(1) is_literal_nth [OF assms(1) pi]
    by (auto simp: glob_at_atom match_one_literal)
qed

lemma string_case_match_eq: "string_case_match lower p s nocase = Some (glob_at lower nocase p 0 s 0)"
proof -
  have "do_match lower p 0 s 0 nocase = Some (glob_at lower nocase p 0 s 0)"
    by (simp add: do_match_def do_match_loop_total resume_ok_def resume_matches_def)
  moreover have "glob_at lower nocase [STAR] 0 s 0"
  proof -
    have "skip_while (\<lambda>c. c = STAR) [STAR] 0 = 1" by (simp add: scan_simps)
    then show ?thesis by (auto simp: glob_at_star_run)
  qed
  ultimately show ?thesis
    by (cases nocase) (auto simp: string_case_match_def glob_at_literal fold_char_def)
qed

text \<open>The scalars of a well-formed string determine its bytes.\<close>

lemma chars_of_Nil [simp]: "chars_of [] = []"
  by (subst chars_of.simps) simp

lemma chars_of_encode [simp]:
  "is_scalar ch \<Longrightarrow> chars_of (utf8_encode ch @ s) = ch # chars_of s"
  by (subst chars_of.simps) (simp add: first_char_encode is_scalar_lt max_absorb2 Suc_leI)

lemma chars_of_inverse: "utf8_valid s \<Longrightarrow> concat (map utf8_encode (chars_of s)) = s"
  by (induction s rule: utf8_valid_induct) simp_all

lemma meta_byte_ascii:
  assumes "ch < (0x80::nat)"
  shows "char_of ch = CHR ''*'' \<longleftrightarrow> ch = STAR" "char_of ch = CHR ''?'' \<longleftrightarrow> ch = QUESTION"
    "char_of ch = CHR ''['' \<longleftrightarrow> ch = LBRACKET" "char_of ch = BS \<longleftrightarrow> ch = BSLASH"
  using assms by (simp_all add: char_of_eq_iff take_bit_eq_mod)

lemma is_literal_chars_of: "utf8_valid p \<Longrightarrow> is_literal (chars_of p) \<longleftrightarrow> is_literal_bytes p"
proof (induction p rule: utf8_valid_induct)
  case Nil
  then show ?case by (simp add: is_literal_def is_literal_bytes_def)
next
  case (Char ch t)
  note defs = is_literal_def is_literal_bytes_def
  show ?case
  proof (cases "ch < 0x80")
    case True
    then have "chars_of (char_of ch # t) = ch # chars_of t"
      using chars_of_encode [OF Char.hyps(1), of t] by simp
    with Char True show ?thesis by (simp add: defs meta_byte_ascii)
  next
    case False
    have high: "of_char c \<ge> (0x80::nat)" if "c \<in> set (utf8_encode ch)" for c
      using utf8_encode_high [OF _ _ that] False Char.hyps by (simp add: is_scalar_lt)
    have "\<not> list_ex (\<lambda>b. b = CHR ''*'' \<or> b = CHR ''?'' \<or> b = CHR ''['' \<or> b = BS) (utf8_encode ch)"
      by (auto simp: list_ex_iff dest!: high)
    with Char False show ?thesis by (simp add: defs)
  qed
qed

lemma string_match_bytes_literal:
  "is_literal_bytes p \<Longrightarrow> string_match_bytes lower p t = Some (p = t)"
proof (cases "utf8_valid p \<and> utf8_valid t")
  case True
  assume "is_literal_bytes p"
  with True have "is_literal (chars_of p)" by (simp add: is_literal_chars_of)
  moreover have "chars_of p = chars_of t \<longleftrightarrow> p = t" using True chars_of_inverse by metis
  ultimately show ?thesis
    using True by (simp add: string_match_bytes_def string_match_def string_case_match_eq glob_at_literal fold_char_def)
qed (auto simp: string_match_bytes_def)

section \<open>Properties\<close>

text \<open>
  C13. The matcher returns on every pattern and text, and its answer, fast paths included, is the one
  of the specification in which each star stands for every run of characters: rewinding only to
  the last star loses no match.
\<close>

theorem string_case_match_reference:
  "string_case_match lower p s nocase = Some (glob_at lower nocase p 0 s 0)"
  by (rule string_case_match_eq)

end
