(* ===== verification/Span.thy ===== *)
theory Span
  imports Prelude
begin

text \<open>
  Byte ranges of a source text: \<open>tcl-lexer/src/span.rs\<close>. Everything that has a position carries one.
\<close>

record span =
  span_start :: nat
  span_end :: nat

definition span_new :: "nat \<Rightarrow> nat \<Rightarrow> span" where
  "span_new s e = \<lparr>span_start = s, span_end = e\<rparr>"

definition span_empty :: "nat \<Rightarrow> span" where
  "span_empty offset = \<lparr>span_start = offset, span_end = offset\<rparr>"

lemma span_new_sel [simp]: "span_start (span_new s e) = s" "span_end (span_new s e) = e"
  by (simp_all add: span_new_def)

lemma span_empty_sel [simp]: "span_start (span_empty k) = k" "span_end (span_empty k) = k"
  by (simp_all add: span_empty_def)

end
