(* ===== verification/Bpf_IR.thy ===== *)
theory Bpf_IR
  imports Span "HOL-Library.AList"
begin

text \<open>
  The typed BPF-IR of the BPF-Tcl compiler: \<open>bpf-tcl-ir/src/ty.rs\<close>, \<open>ir.rs\<close> and
  \<open>diag.rs\<close>. Slot, block and map numbers are naturals; values are 64-bit words read as signed
  integers.
\<close>

section \<open>Diagnostics\<close>

datatype bpf_diag =
    OutOfSubset | UnknownCommand | BadArity | TypeMismatch | UndefinedVar | BadInt | UnboundedLoop
  | BadEvent | BadProfile | BadTemplate | CapabilityDenied | BadAttach | StrayTopLevel
  | StackOverflow | MissingVerdict | BadMap | AmbiguousComposition | Internal

primrec diag_code :: "bpf_diag \<Rightarrow> string" where
  "diag_code OutOfSubset = ''BPF001''"
| "diag_code UnknownCommand = ''BPF002''"
| "diag_code BadArity = ''BPF003''"
| "diag_code TypeMismatch = ''BPF004''"
| "diag_code UndefinedVar = ''BPF005''"
| "diag_code BadInt = ''BPF006''"
| "diag_code UnboundedLoop = ''BPF007''"
| "diag_code BadEvent = ''BPF008''"
| "diag_code StackOverflow = ''BPF009''"
| "diag_code BadProfile = ''BPF010''"
| "diag_code BadTemplate = ''BPF011''"
| "diag_code CapabilityDenied = ''BPF012''"
| "diag_code BadAttach = ''BPF013''"
| "diag_code StrayTopLevel = ''BPF014''"
| "diag_code MissingVerdict = ''BPF015''"
| "diag_code BadMap = ''BPF016''"
| "diag_code AmbiguousComposition = ''BPF017''"
| "diag_code Internal = ''BPF999''"

record bpf_error =
  err_span :: span
  err_code :: bpf_diag
  err_msg :: string

definition bpf_error_new :: "bpf_diag \<Rightarrow> span \<Rightarrow> string \<Rightarrow> bpf_error" where
  "bpf_error_new code span msg = \<lparr>err_span = span, err_code = code, err_msg = msg\<rparr>"

definition saturating_add_u32 :: "nat \<Rightarrow> nat \<Rightarrow> nat" where
  "saturating_add_u32 a b = min (a + b) (2 ^ 32 - 1)"

definition bpf_error_offset :: "bpf_error \<Rightarrow> nat \<Rightarrow> bpf_error" where
  "bpf_error_offset e base =
     e\<lparr>err_span := span_new (saturating_add_u32 (span_start (err_span e)) base)
                            (saturating_add_u32 (span_end (err_span e)) base)\<rparr>"

definition bpf_error_display :: "bpf_error \<Rightarrow> string" where
  "bpf_error_display e = ''['' @ diag_code (err_code e) @ ''] '' @ err_msg e"

section \<open>Types\<close>

datatype region = Ctx

datatype ty = TInt | TPtr region

definition is_int :: "ty \<Rightarrow> bool" where
  "is_int t = (case t of TInt \<Rightarrow> True | TPtr _ \<Rightarrow> False)"

datatype width = B8 | B16 | B32

primrec width_bytes :: "width \<Rightarrow> nat" where
  "width_bytes B8 = 1"
| "width_bytes B16 = 2"
| "width_bytes B32 = 4"

datatype byte_order = Native | Big | Little

definition byte_order_parse :: "string \<Rightarrow> byte_order option" where
  "byte_order_parse word =
     (if word = ''be'' \<or> word = ''big'' then Some Big
      else if word = ''le'' \<or> word = ''little'' then Some Little
      else if word = ''native'' then Some Native
      else None)"

section \<open>Instructions, blocks and programs\<close>

type_synonym slot_id = nat
type_synonym block_id = nat

definition CONTINUE_SENTINEL :: i64 where
  "CONTINUE_SENTINEL = 0xffffffff"

datatype int_bin_op = Add | Sub | Mul | Div | Mod | And | Or | Xor | Shl | Shr

datatype cmp_op = CEq | CNe | CLt | CLe | CGt | CGe

datatype un_op = Neg | LNot | BitNot

datatype oob_action = ReturnVerdict i64

text \<open>The fields of each instruction are in the order of the source.\<close>

datatype inst =
    Const slot_id i64 span
  | Copy slot_id slot_id span
  | Bin slot_id int_bin_op slot_id slot_id span
  | Unop slot_id un_op slot_id span
  | Cmp slot_id cmp_op slot_id slot_id span
  | CtxPtr slot_id span
  | CtxLen slot_id span
  | Load slot_id width slot_id int byte_order oob_action span
  | MapGet slot_id nat slot_id span
  | MapHas slot_id nat slot_id span
  | MapSet nat slot_id slot_id span

text \<open>How a block ends (\<open>Term\<close>).\<close>

datatype terminator =
    Goto block_id span
  | BranchNz slot_id block_id block_id span
  | Return slot_id span

record block =
  block_label :: block_id
  insts :: "inst list"
  blk_term :: terminator

datatype prog_type = SocketFilter | Xdp | TcIngress | TcEgress | CgroupInet4Connect | CgroupInet4Bind

definition is_tc :: "prog_type \<Rightarrow> bool" where
  "is_tc p = (p = TcIngress \<or> p = TcEgress)"

definition is_cgroup_sock_addr :: "prog_type \<Rightarrow> bool" where
  "is_cgroup_sock_addr p = (p = CgroupInet4Connect \<or> p = CgroupInet4Bind)"

datatype map_kind = Hash | Array

definition map_kind_parse :: "string \<Rightarrow> map_kind option" where
  "map_kind_parse word =
     (if word = ''hash'' then Some Hash else if word = ''array'' then Some Array else None)"

primrec map_kind_as_str :: "map_kind \<Rightarrow> string" where
  "map_kind_as_str Hash = ''hash''"
| "map_kind_as_str Array = ''array''"

datatype map_concurrency = Shared | PerCpu

definition map_concurrency_parse :: "string \<Rightarrow> map_concurrency option" where
  "map_concurrency_parse word =
     (if word = ''shared'' then Some Shared else if word = ''percpu'' then Some PerCpu else None)"

record map_def =
  map_name :: string
  map_idx :: nat
  map_kind :: map_kind
  key_size :: nat
  value_size :: nat
  max_entries :: nat
  concurrency :: map_concurrency
  map_span :: span

record bpf_program =
  prog_type :: prog_type
  entry :: block_id
  blocks :: "block list"
  num_slots :: nat
  slot_types :: "ty list"
  raw_slot_count :: nat
  zero_init :: "slot_id list"
  maps :: "map_def list"

record attach_spec =
  attach_kind :: string
  attach_target :: string

record bpf_program_decl =
  event :: string
  priority :: nat
  program :: bpf_program
  attach :: "attach_spec option"
  source_base :: nat

record bpf_module =
  programs :: "bpf_program_decl list"

end
