(* ===== verification/Bpf_Compose.thy ===== *)
theory Bpf_Compose
  imports Bpf_IR
begin

text \<open>
  Composition of the handlers of one event, \<open>bpf-tcl-ir/src/compose.rs\<close>: the classification of
  a handler's return value, the evaluation of a chain, the projection of a module into per-event
  chains and the ambiguity check.
\<close>

section \<open>Handler composition\<close>

datatype outcome = Continue | Terminal i64

text \<open>Only the low 32 bits count; \<open>i64::from(low as u32)\<close> zero-extends.\<close>

definition classify :: "u64 \<Rightarrow> outcome" where
  "classify run_result =
     (let low = and run_result 0xffffffff in
      if low = and CONTINUE_SENTINEL 0xffffffff then Continue else Terminal low)"

definition classify_outcome :: "u64 \<Rightarrow> outcome" where
  "classify_outcome run_result = classify run_result"

datatype chain_result = Decided nat i64 | Default

primrec compose_from :: "nat \<Rightarrow> outcome list \<Rightarrow> chain_result" where
  "compose_from index [] = Default"
| "compose_from index (out # rest) =
     (case out of Terminal verdict \<Rightarrow> Decided index verdict | Continue \<Rightarrow> compose_from (Suc index) rest)"

definition compose :: "outcome list \<Rightarrow> chain_result" where
  "compose outcomes = compose_from 0 outcomes"

record event_chain =
  chain_event :: string
  handler_indices :: "nat list"
  priorities :: "nat list"

text \<open>\<open>chains.iter_mut().find(|c| c.event == decl.event)\<close>: extend that chain, or open one.\<close>

fun add_handler :: "nat \<Rightarrow> bpf_program_decl \<Rightarrow> event_chain list \<Rightarrow> event_chain list" where
  "add_handler index decl [] =
     [\<lparr>chain_event = event decl, handler_indices = [index], priorities = [priority decl]\<rparr>]"
| "add_handler index decl (c # cs) =
     (if chain_event c = event decl
      then c\<lparr>handler_indices := handler_indices c @ [index], priorities := priorities c @ [priority decl]\<rparr> # cs
      else c # add_handler index decl cs)"

definition event_chains :: "bpf_module \<Rightarrow> event_chain list" where
  "event_chains m = fold (\<lambda>(index, decl) chains. add_handler index decl chains)
     (enumerate 0 (programs m)) []"

text \<open>The loop over \<open>seen.windows(2)\<close> of the sorted priorities.\<close>

fun priority_clashes :: "string \<Rightarrow> nat list \<Rightarrow> (string \<times> nat) list \<Rightarrow> (string \<times> nat) list" where
  "priority_clashes ev (a # b # rest) clashes =
     priority_clashes ev (b # rest)
       (if a = b \<and> \<not> list_ex (\<lambda>(e, p). e = ev \<and> p = a) clashes then clashes @ [(ev, a)] else clashes)"
| "priority_clashes ev _ clashes = clashes"

definition ambiguous_priorities :: "bpf_module \<Rightarrow> (string \<times> nat) list" where
  "ambiguous_priorities m =
     fold (\<lambda>chain clashes. priority_clashes (chain_event chain) (sort (priorities chain)) clashes)
       (event_chains m) []"

definition chain_len :: "event_chain \<Rightarrow> nat" where
  "chain_len c = length (handler_indices c)"

definition chain_is_empty :: "event_chain \<Rightarrow> bool" where
  "chain_is_empty c = (handler_indices c = [])"

section \<open>Chains\<close>

lemma compose_from_Decided:
  "compose_from k outs = Decided i v \<longleftrightarrow>
     (\<exists>j<length outs. i = k + j \<and> outs ! j = Terminal v \<and> (\<forall>l<j. outs ! l = Continue))"
proof (induction outs arbitrary: k)
  case (Cons out outs)
  show ?case
  proof (cases out)
    case Continue
    have "(\<exists>j<Suc (length outs). i = k + j \<and> (Continue # outs) ! j = Terminal v \<and> (\<forall>l<j. (Continue # outs) ! l = Continue)) \<longleftrightarrow>
        (\<exists>j<length outs. i = Suc k + j \<and> outs ! j = Terminal v \<and> (\<forall>l<j. outs ! l = Continue))"
      by (subst Ex_less_Suc2) (auto simp: All_less_Suc2)
    with Continue Cons.IH [of "Suc k"] show ?thesis by simp
  next
    case (Terminal w)
    then show ?thesis by (subst length_Cons, subst Ex_less_Suc2) (auto simp: All_less_Suc2)
  qed
qed simp

lemma compose_from_Default: "compose_from k outs = Default \<longleftrightarrow> (\<forall>out\<in>set outs. out = Continue)"
  by (induction outs arbitrary: k) (auto split: outcome.splits)

text \<open>The events in the order of their first handler, and the chain of one of them.\<close>

definition first_seen :: "'a list \<Rightarrow> 'a list" where
  "first_seen xs = rev (remdups (rev xs))"

definition chain_of :: "(nat \<times> bpf_program_decl) list \<Rightarrow> string \<Rightarrow> event_chain" where
  "chain_of ps e = (let hs = filter (\<lambda>(i, d). event d = e) ps in
     \<lparr>chain_event = e, handler_indices = map fst hs, priorities = map (priority \<circ> snd) hs\<rparr>)"

lemma first_seen_snoc: "first_seen (xs @ [x]) = (if x \<in> set xs then first_seen xs else first_seen xs @ [x])"
  by (simp add: first_seen_def)

lemma set_first_seen [simp]: "set (first_seen xs) = set xs" "distinct (first_seen xs)"
  by (simp_all add: first_seen_def)

lemma add_handler_new:
  "event d \<notin> chain_event ` set cs \<Longrightarrow>
     add_handler i d cs = cs @ [\<lparr>chain_event = event d, handler_indices = [i], priorities = [priority d]\<rparr>]"
  by (induction cs) auto

lemma chain_of_snoc: "chain_of (ps @ [(i, d)]) e =
    (if event d = e
     then (chain_of ps e)\<lparr>handler_indices := handler_indices (chain_of ps e) @ [i],
                          priorities := priorities (chain_of ps e) @ [priority d]\<rparr>
     else chain_of ps e)"
  by (simp add: chain_of_def Let_def)

lemma chain_event_of [simp]: "chain_event (chain_of ps e) = e"
  by (simp add: chain_of_def Let_def)

lemma add_handler_old:
  "event d \<in> set es \<Longrightarrow> distinct es \<Longrightarrow>
     add_handler i d (map (chain_of ps) es) = map (chain_of (ps @ [(i, d)])) es"
  by (induction es) (auto simp: chain_of_snoc intro!: map_cong)

lemma chains_fold:
  "fold (\<lambda>(i, d) cs. add_handler i d cs) ps [] = map (chain_of ps) (first_seen (map (event \<circ> snd) ps))"
proof (induction ps rule: rev_induct)
  case (snoc p ps)
  obtain i d where p: "p = (i, d)" by (cases p)
  show ?case
  proof (cases "event d \<in> set (map (event \<circ> snd) ps)")
    case True
    with snoc show ?thesis by (simp add: p add_handler_old first_seen_snoc)
  next
    case False
    have "chain_of (ps @ [(i, d)]) (event d) = \<lparr>chain_event = event d, handler_indices = [i], priorities = [priority d]\<rparr>"
      using False by (force simp: chain_of_def Let_def filter_empty_conv)
    moreover have "map (chain_of (ps @ [(i, d)])) (first_seen (map (event \<circ> snd) ps)) =
        map (chain_of ps) (first_seen (map (event \<circ> snd) ps))"
      using False by (intro map_cong) (auto simp: chain_of_snoc)
    ultimately show ?thesis using snoc False by (simp add: p add_handler_new first_seen_snoc image_comp)
  qed
qed (simp add: first_seen_def)

lemma priorities_enumerate:
  "map (priority \<circ> snd) (filter (\<lambda>(i, d). event d = e) (enumerate k ds)) = map priority (filter (\<lambda>d. event d = e) ds)"
  by (induction ds arbitrary: k) auto

section \<open>Ambiguity\<close>

lemma priority_clashes_spec:
  assumes "sorted xs" "distinct cl"
  shows "set (priority_clashes ev xs cl) = set cl \<union> {(ev, a) | a. 2 \<le> count_list xs a}
    \<and> distinct (priority_clashes ev xs cl)"
  using assms
proof (induction ev xs cl rule: priority_clashes.induct)
  case (1 ev a b rest cl)
  let ?cl = "if a = b \<and> \<not> list_ex (\<lambda>(e, p). e = ev \<and> p = a) cl then cl @ [(ev, a)] else cl"
  have seen: "list_ex (\<lambda>(e, p). e = ev \<and> p = a) cl \<longleftrightarrow> (ev, a) \<in> set cl" by (auto simp: list_ex_iff)
  have "a \<noteq> b \<Longrightarrow> count_list (b # rest) a = 0" using "1.prems"(1) by (auto simp: count_list_0_iff)
  then have cnt: "2 \<le> count_list (a # b # rest) c \<longleftrightarrow> (a = b \<and> c = a) \<or> 2 \<le> count_list (b # rest) c" for c
    by (cases "a = b"; cases "c = a") simp_all
  have "{(ev, c) | c. 2 \<le> count_list (a # b # rest) c} =
      (if a = b then {(ev, a)} else {}) \<union> {(ev, c) | c. 2 \<le> count_list (b # rest) c}"
    unfolding cnt by auto
  moreover have "set (priority_clashes ev (b # rest) ?cl) = set ?cl \<union> {(ev, c) | c. 2 \<le> count_list (b # rest) c} \<and>
      distinct (priority_clashes ev (b # rest) ?cl)"
    by (rule "1.IH") (use "1.prems" seen in auto)
  ultimately show ?case using seen by auto
qed auto

lemma count_insort: "count_list (insort x xs) a = count_list (x # xs) a"
  by (induction xs) auto

lemma count_sort: "count_list (sort xs) a = count_list xs a"
  by (induction xs) (auto simp: count_insort)

lemma clashes_fold:
  "distinct cl \<Longrightarrow>
     set (fold (\<lambda>c cl. priority_clashes (chain_event c) (sort (priorities c)) cl) cs cl) =
       set cl \<union> {(chain_event c, a) | c a. c \<in> set cs \<and> 2 \<le> count_list (priorities c) a} \<and>
     distinct (fold (\<lambda>c cl. priority_clashes (chain_event c) (sort (priorities c)) cl) cs cl)"
proof (induction cs arbitrary: cl)
  case (Cons c cs)
  from priority_clashes_spec [of "sort (priorities c)" cl "chain_event c"] Cons.prems
  have step: "set (priority_clashes (chain_event c) (sort (priorities c)) cl) =
      set cl \<union> {(chain_event c, a) | a. 2 \<le> count_list (priorities c) a}"
    "distinct (priority_clashes (chain_event c) (sort (priorities c)) cl)" by (simp_all add: count_sort)
  from Cons.IH [OF step(2)] step(1) show ?case by auto
qed simp

text \<open>Two positions of a list hold the same value exactly when it is counted twice.\<close>

lemma count_list_two: "2 \<le> count_list xs a \<longleftrightarrow> (\<exists>i j. i < j \<and> j < length xs \<and> xs ! i = a \<and> xs ! j = a)"
proof (induction xs)
  case (Cons x xs)
  have one: "1 \<le> count_list xs a \<longleftrightarrow> (\<exists>j<length xs. xs ! j = a)"
    using count_list_0_iff [of xs a] by (auto simp: Suc_le_eq in_set_conv_nth)
  have "(\<exists>i j. i < j \<and> j < length (x # xs) \<and> (x # xs) ! i = a \<and> (x # xs) ! j = a) \<longleftrightarrow>
      (x = a \<and> (\<exists>j<length xs. xs ! j = a)) \<or> (\<exists>i j. i < j \<and> j < length xs \<and> xs ! i = a \<and> xs ! j = a)"
    (is "?l \<longleftrightarrow> ?r")
  proof
    assume ?l
    then obtain i j where ij: "i < j" "j < length (x # xs)" "(x # xs) ! i = a" "(x # xs) ! j = a" by blast
    then obtain j' where "j = Suc j'" by (cases j) auto
    with ij show ?r by (cases i) auto
  next
    assume ?r
    then show ?l
    proof (elim disjE exE conjE)
      fix j assume "x = a" "j < length xs" "xs ! j = a"
      then show ?l by (intro exI [of _ 0] exI [of _ "Suc j"]) simp
    next
      fix i j assume "i < j" "j < length xs" "xs ! i = a" "xs ! j = a"
      then show ?l by (intro exI [of _ "Suc i"] exI [of _ "Suc j"]) simp
    qed
  qed
  with Cons.IH one show ?case by auto
qed simp

lemma count_filtered:
  "2 \<le> count_list (map f (filter P xs)) a \<longleftrightarrow>
     (\<exists>i j. i < j \<and> j < length xs \<and> P (xs ! i) \<and> P (xs ! j) \<and> f (xs ! i) = a \<and> f (xs ! j) = a)"
proof -
  have e: "count_list (map f (filter P xs)) a = count_list (map (\<lambda>x. P x \<and> f x = a) xs) True"
    by (induction xs) auto
  show ?thesis unfolding e count_list_two by (intro iff_exI) auto
qed

section \<open>Properties\<close>

text \<open>
  A chain is decided by the first handler that returns a terminal verdict, with that verdict, and
  falls to the default exactly when every handler continues.
\<close>

lemma compose_first_terminal:
  "(compose outs = Decided i v \<longleftrightarrow> i < length outs \<and> outs ! i = Terminal v \<and> (\<forall>j<i. outs ! j = Continue)) \<and>
   (compose outs = Default \<longleftrightarrow> (\<forall>out\<in>set outs. out = Continue))"
  by (auto simp: compose_def compose_from_Decided compose_from_Default)

text \<open>
  The projection of a module into chains: one chain per event, in the order of the events' first
  handlers, each holding exactly that event's handlers in module order with their priorities.
\<close>

lemma event_chains_spec:
  "event_chains m = map (chain_of (enumerate 0 (programs m))) (first_seen (map event (programs m)))"
  by (simp add: event_chains_def chains_fold flip: map_map)

text \<open>
  The ambiguity check reports, once each, exactly the event and priority pairs that two different
  handlers of the module share.
\<close>

lemma ambiguous_priorities_exact:
  "distinct (ambiguous_priorities m) \<and>
   ((e, a) \<in> set (ambiguous_priorities m) \<longleftrightarrow>
      (\<exists>i j. i < j \<and> j < length (programs m) \<and> event (programs m ! i) = e \<and> event (programs m ! j) = e \<and>
         priority (programs m ! i) = a \<and> priority (programs m ! j) = a))"
proof -
  let ?chains = "event_chains m"
  have chains: "?chains = map (chain_of (enumerate 0 (programs m))) (first_seen (map event (programs m)))"
    by (simp add: event_chains_def chains_fold flip: map_map)
  have prio: "priorities (chain_of (enumerate 0 (programs m)) e) = map priority (filter (\<lambda>d. event d = e) (programs m))" for e
    by (simp add: chain_of_def Let_def priorities_enumerate)
  have "(e, a) \<in> set (ambiguous_priorities m) \<longleftrightarrow> (\<exists>c\<in>set ?chains. chain_event c = e \<and> 2 \<le> count_list (priorities c) a)"
    using clashes_fold [of "[]" ?chains] by (auto simp: ambiguous_priorities_def)
  also have "\<dots> \<longleftrightarrow> 2 \<le> count_list (map priority (filter (\<lambda>d. event d = e) (programs m))) a"
    using count_list_0_iff [of "map priority (filter (\<lambda>d. event d = e) (programs m))" a]
    by (auto simp: chains prio)
  finally show ?thesis
    using clashes_fold [of "[]" ?chains] by (auto simp: ambiguous_priorities_def count_filtered)
qed

end
