(* ===== verification/Ebpf_Insn.thy ===== *)
theory Ebpf_Insn
  imports Prelude
begin

text \<open>
  The eBPF instruction format, \<open>bpf-tcl-codegen/src/ebpf/insn.rs\<close>: the instruction record, its
  eight-byte little-endian encoding, the opcode constants and the builders. \<open>decode_insn\<close> reads
  the documented layout back (\<open>op:u8, dst:4|src:4, off:i16, imm:i32\<close>).

  The constants \<open>K\<close>, \<open>X\<close>, \<open>OR\<close>, \<open>AND\<close>, \<open>MOD\<close> and \<open>XOR\<close> of the source are
  \<open>SRC_K\<close>, \<open>SRC_X\<close>, \<open>OR_op\<close>, \<open>AND_op\<close>, \<open>MOD_op\<close> and \<open>XOR_op\<close> here.
\<close>

record insn =
  i_op :: u8
  i_dst :: u8
  i_src :: u8
  i_off :: i16
  i_imm :: i32

definition mk_insn :: "u8 \<Rightarrow> u8 \<Rightarrow> u8 \<Rightarrow> i16 \<Rightarrow> i32 \<Rightarrow> insn" where
  "mk_insn op dst src off imm = \<lparr>i_op = op, i_dst = dst, i_src = src, i_off = off, i_imm = imm\<rparr>"

section \<open>Encoding\<close>

definition le_bytes16 :: "i16 \<Rightarrow> u8 list" where
  "le_bytes16 w = [ucast w, ucast (drop_bit 8 w)]"

definition le_bytes32 :: "i32 \<Rightarrow> u8 list" where
  "le_bytes32 w = [ucast w, ucast (drop_bit 8 w), ucast (drop_bit 16 w), ucast (drop_bit 24 w)]"

definition to_le_bytes :: "insn \<Rightarrow> u8 list" where
  "to_le_bytes i =
     [i_op i, or (and (i_dst i) 0x0f) (push_bit 4 (and (i_src i) 0x0f))]
     @ le_bytes16 (i_off i) @ le_bytes32 (i_imm i)"

section \<open>Opcodes and registers\<close>

definition LD :: u8 where "LD = 0x00"
definition LDX :: u8 where "LDX = 0x01"
definition ST :: u8 where "ST = 0x02"
definition STX :: u8 where "STX = 0x03"
definition ALU :: u8 where "ALU = 0x04"
definition JMP :: u8 where "JMP = 0x05"
definition ALU64 :: u8 where "ALU64 = 0x07"
definition IMM :: u8 where "IMM = 0x00"
definition DW :: u8 where "DW = 0x18"
definition END :: u8 where "END = 0xd0"
definition PSEUDO_MAP_FD :: u8 where "PSEUDO_MAP_FD = 1"
definition SRC_K :: u8 where "SRC_K = 0x00"
definition SRC_X :: u8 where "SRC_X = 0x08"
definition SZ_W :: u8 where "SZ_W = 0x00"
definition SZ_H :: u8 where "SZ_H = 0x08"
definition SZ_B :: u8 where "SZ_B = 0x10"
definition SZ_DW :: u8 where "SZ_DW = 0x18"
definition MEM :: u8 where "MEM = 0x60"
definition ADD :: u8 where "ADD = 0x00"
definition SUB :: u8 where "SUB = 0x10"
definition MUL :: u8 where "MUL = 0x20"
definition DIV :: u8 where "DIV = 0x30"
definition OR_op :: u8 where "OR_op = 0x40"
definition AND_op :: u8 where "AND_op = 0x50"
definition LSH :: u8 where "LSH = 0x60"
definition RSH :: u8 where "RSH = 0x70"
definition NEG :: u8 where "NEG = 0x80"
definition MOD_op :: u8 where "MOD_op = 0x90"
definition XOR_op :: u8 where "XOR_op = 0xa0"
definition MOV :: u8 where "MOV = 0xb0"
definition ARSH :: u8 where "ARSH = 0xc0"
definition JA :: u8 where "JA = 0x00"
definition JEQ :: u8 where "JEQ = 0x10"
definition JGT :: u8 where "JGT = 0x20"
definition JNE :: u8 where "JNE = 0x50"
definition JSGT :: u8 where "JSGT = 0x60"
definition JSGE :: u8 where "JSGE = 0x70"
definition JLE :: u8 where "JLE = 0xb0"
definition JSLT :: u8 where "JSLT = 0xc0"
definition JSLE :: u8 where "JSLE = 0xd0"
definition EXIT :: u8 where "EXIT = 0x90"
definition CALL :: u8 where "CALL = 0x80"
definition R0 :: u8 where "R0 = 0"
definition R1 :: u8 where "R1 = 1"
definition R2 :: u8 where "R2 = 2"
definition R3 :: u8 where "R3 = 3"
definition R4 :: u8 where "R4 = 4"
definition R6 :: u8 where "R6 = 6"
definition R7 :: u8 where "R7 = 7"
definition R8 :: u8 where "R8 = 8"
definition R10 :: u8 where "R10 = 10"

definition FN_MAP_LOOKUP :: i32 where "FN_MAP_LOOKUP = 1"
definition FN_MAP_UPDATE :: i32 where "FN_MAP_UPDATE = 2"
definition FN_MAP_DELETE :: i32 where "FN_MAP_DELETE = 3"

lemmas opcode_defs =
  LD_def LDX_def ST_def STX_def ALU_def JMP_def ALU64_def IMM_def DW_def END_def PSEUDO_MAP_FD_def
  SRC_K_def SRC_X_def SZ_W_def SZ_H_def SZ_B_def SZ_DW_def MEM_def ADD_def SUB_def MUL_def DIV_def
  OR_op_def AND_op_def LSH_def RSH_def NEG_def MOD_op_def XOR_op_def MOV_def ARSH_def JA_def
  JEQ_def JGT_def JNE_def JSGT_def JSGE_def JLE_def JSLT_def JSLE_def EXIT_def CALL_def R0_def
  R1_def R2_def R3_def R4_def R6_def R7_def R8_def R10_def FN_MAP_LOOKUP_def FN_MAP_UPDATE_def
  FN_MAP_DELETE_def

section \<open>Builders\<close>

definition mov64_imm :: "u8 \<Rightarrow> i32 \<Rightarrow> insn" where
  "mov64_imm dst imm = mk_insn (or ALU64 (or SRC_K MOV)) dst 0 0 imm"

definition mov64_reg :: "u8 \<Rightarrow> u8 \<Rightarrow> insn" where
  "mov64_reg dst src = mk_insn (or ALU64 (or SRC_X MOV)) dst src 0 0"

definition alu64_imm :: "u8 \<Rightarrow> u8 \<Rightarrow> i32 \<Rightarrow> insn" where
  "alu64_imm alu_op dst imm = mk_insn (or ALU64 (or SRC_K alu_op)) dst 0 0 imm"

definition alu64_reg_off :: "u8 \<Rightarrow> u8 \<Rightarrow> u8 \<Rightarrow> i16 \<Rightarrow> insn" where
  "alu64_reg_off alu_op dst src off = mk_insn (or ALU64 (or SRC_X alu_op)) dst src off 0"

definition alu64_reg :: "u8 \<Rightarrow> u8 \<Rightarrow> u8 \<Rightarrow> insn" where
  "alu64_reg alu_op dst src = alu64_reg_off alu_op dst src 0"

definition neg64 :: "u8 \<Rightarrow> insn" where
  "neg64 dst = mk_insn (or ALU64 NEG) dst 0 0 0"

definition ldx :: "u8 \<Rightarrow> u8 \<Rightarrow> u8 \<Rightarrow> i16 \<Rightarrow> insn" where
  "ldx sz dst base off = mk_insn (or LDX (or MEM sz)) dst base off 0"

definition stx :: "u8 \<Rightarrow> u8 \<Rightarrow> u8 \<Rightarrow> i16 \<Rightarrow> insn" where
  "stx sz base val off = mk_insn (or STX (or MEM sz)) base val off 0"

definition st_imm :: "u8 \<Rightarrow> u8 \<Rightarrow> i16 \<Rightarrow> i32 \<Rightarrow> insn" where
  "st_imm sz base off imm = mk_insn (or ST (or MEM sz)) base 0 off imm"

definition jmp_imm :: "u8 \<Rightarrow> u8 \<Rightarrow> i32 \<Rightarrow> i16 \<Rightarrow> insn" where
  "jmp_imm jop dst imm off = mk_insn (or JMP (or SRC_K jop)) dst 0 off imm"

definition jmp_reg :: "u8 \<Rightarrow> u8 \<Rightarrow> u8 \<Rightarrow> i16 \<Rightarrow> insn" where
  "jmp_reg jop dst src off = mk_insn (or JMP (or SRC_X jop)) dst src off 0"

definition ja :: "i16 \<Rightarrow> insn" where
  "ja off = mk_insn (or JMP JA) 0 0 off 0"

definition exit_insn :: insn where
  "exit_insn = mk_insn (or JMP EXIT) 0 0 0 0"

definition call :: "i32 \<Rightarrow> insn" where
  "call helper_id = mk_insn (or JMP CALL) 0 0 0 helper_id"

text \<open>The low half rides in the first instruction, the high half in the second.\<close>

definition lddw_src :: "u8 \<Rightarrow> u8 \<Rightarrow> i64 \<Rightarrow> insn \<times> insn" where
  "lddw_src dst src imm =
     (let lo = ucast (and imm 0xffffffff); hi = ucast (and (signed_drop_bit 32 imm) 0xffffffff) in
      (mk_insn (or LD (or IMM DW)) dst src 0 lo, mk_insn 0 0 0 0 hi))"

definition lddw :: "u8 \<Rightarrow> i64 \<Rightarrow> insn \<times> insn" where
  "lddw dst imm = lddw_src dst 0 imm"

definition bswap_be :: "u8 \<Rightarrow> i32 \<Rightarrow> insn" where
  "bswap_be dst width = mk_insn (or ALU (or SRC_X END)) dst 0 0 width"

definition bswap_le :: "u8 \<Rightarrow> i32 \<Rightarrow> insn" where
  "bswap_le dst width = mk_insn (or ALU (or SRC_K END)) dst 0 0 width"

lemmas builder_defs = mov64_imm_def mov64_reg_def alu64_imm_def alu64_reg_off_def alu64_reg_def
  neg64_def ldx_def stx_def st_imm_def jmp_imm_def jmp_reg_def ja_def exit_insn_def call_def
  lddw_src_def lddw_def bswap_be_def bswap_le_def

lemma mk_insn_sel [simp]:
  "i_op (mk_insn op dst src off imm) = op" "i_dst (mk_insn op dst src off imm) = dst"
  "i_src (mk_insn op dst src off imm) = src" "i_off (mk_insn op dst src off imm) = off"
  "i_imm (mk_insn op dst src off imm) = imm"
  by (simp_all add: mk_insn_def)

section \<open>Decoding\<close>

definition le_word16 :: "u8 \<Rightarrow> u8 \<Rightarrow> i16" where
  "le_word16 a b = or (ucast a) (push_bit 8 (ucast b))"

definition le_word32 :: "u8 \<Rightarrow> u8 \<Rightarrow> u8 \<Rightarrow> u8 \<Rightarrow> i32" where
  "le_word32 a b c d =
     or (ucast a) (or (push_bit 8 (ucast b)) (or (push_bit 16 (ucast c)) (push_bit 24 (ucast d))))"

fun decode_insns :: "u8 list \<Rightarrow> insn list" where
  "decode_insns (a # b # c # d # e # f # g # h # rest) =
     mk_insn a (and b 0x0f) (drop_bit 4 b) (le_word16 c d) (le_word32 e f g h) # decode_insns rest"
| "decode_insns _ = []"

lemma le_word16_bytes [simp]: "le_word16 (ucast w) (ucast (drop_bit 8 w)) = w"
  unfolding le_word16_def
  by (rule bit_word_eqI) (auto simp: bit_simps)

lemma le_word32_bytes [simp]:
  "le_word32 (ucast w) (ucast (drop_bit 8 w)) (ucast (drop_bit 16 w)) (ucast (drop_bit 24 w)) = w"
  unfolding le_word32_def
  apply (rule bit_word_eqI)
  subgoal for n by (cases "n < 16"; cases "n < 24") (auto simp: bit_simps)
  done

text \<open>Register numbers are 0 to 10, so they survive the four-bit fields.\<close>

definition insn_ok :: "insn \<Rightarrow> bool" where
  "insn_ok i \<longleftrightarrow> i_dst i < 16 \<and> i_src i < 16"

lemma regs_nibbles:
  assumes "d < 16" "s < (16 :: u8)"
  shows "and (or (and d 0x0f) (push_bit 4 (and s 0x0f))) 0x0f = d"
    and "drop_bit 4 (or (and d 0x0f) (push_bit 4 (and s 0x0f))) = s"
proof -
  have m: "(0x0f :: u8) = mask 4" by (simp add: mask_eq_exp_minus_1)
  have self: "take_bit 4 w = w" if "w < 16" for w :: u8
    using that by (intro word_uint_eqI) (simp add: unsigned_take_bit_eq take_bit_int_eq_self word_less_def)
  have low: "bit w k \<Longrightarrow> k < 4" if "w < 16" for w :: u8 and k
    using self [OF that] by (metis bit_take_bit_iff)
  show "and (or (and d 0x0f) (push_bit 4 (and s 0x0f))) 0x0f = d"
    unfolding m by (rule bit_word_eqI) (auto simp: bit_simps dest: low [OF assms(1)])
  show "drop_bit 4 (or (and d 0x0f) (push_bit 4 (and s 0x0f))) = s"
    unfolding m by (rule bit_word_eqI) (auto simp: bit_simps dest: low [OF assms(2)])
qed

lemma decode_to_le_bytes:
  assumes "insn_ok i"
  shows "decode_insns (to_le_bytes i @ rest) = i # decode_insns rest"
proof -
  have "decode_insns (to_le_bytes i @ rest) =
      mk_insn (i_op i) (and (or (and (i_dst i) 0x0f) (push_bit 4 (and (i_src i) 0x0f))) 0x0f)
        (drop_bit 4 (or (and (i_dst i) 0x0f) (push_bit 4 (and (i_src i) 0x0f)))) (i_off i) (i_imm i)
        # decode_insns rest"
    unfolding to_le_bytes_def le_bytes16_def le_bytes32_def append_Cons append_Nil decode_insns.simps(1)
      le_word16_bytes le_word32_bytes ..
  also have "\<dots> = i # decode_insns rest"
    using assms unfolding insn_ok_def by (simp only: regs_nibbles) (simp add: mk_insn_def)
  finally show ?thesis .
qed

lemma decode_encode: "list_all insn_ok is \<Longrightarrow> decode_insns (concat (map to_le_bytes is)) = is"
  by (induction "is") (simp_all add: decode_to_le_bytes)

lemma length_to_le_bytes [simp]: "length (to_le_bytes i) = 8"
  by (simp add: to_le_bytes_def le_bytes16_def le_bytes32_def)

end
