(* ===== verification/Ebpf_Emit.thy ===== *)
theory Ebpf_Emit
  imports Ebpf_Insn Bpf_IR
begin

text \<open>
  The code generator, \<open>bpf-tcl-codegen/src/ebpf/emit.rs\<close>: execution ABIs, the pending instruction
  stream each IR instruction and terminator lowers to, layout, jump resolution and map relocations.

  Functions that push onto the pending vector return what they push. A diagnostic is \<open>Inl\<close>; a
  panic of the source (a jump to a label with no block) is \<open>None\<close>. Slot offsets and the stack
  budget are exact integers: programs hold at most 64 slots, far from the 32-bit bounds.
\<close>

section \<open>Targets\<close>

definition RPTR :: u8 where "RPTR = R6"
definition REND :: u8 where "REND = R7"
definition RBPF_MAP_GET_ID :: i32 where "RBPF_MAP_GET_ID = 1"
definition RBPF_MAP_SET_ID :: i32 where "RBPF_MAP_SET_ID = 2"
definition RBPF_MAP_HAS_ID :: i32 where "RBPF_MAP_HAS_ID = 3"
definition MAX_STACK :: int where "MAX_STACK = 512"

datatype target_abi = RbpfFixedMbuff | KernelXdp | KernelSocketFilter | KernelTc | KernelCgroupSockAddr

primrec target_as_str :: "target_abi \<Rightarrow> string" where
  "target_as_str RbpfFixedMbuff = ''rbpf''"
| "target_as_str KernelXdp = ''kernel-xdp''"
| "target_as_str KernelSocketFilter = ''kernel-socket''"
| "target_as_str KernelTc = ''kernel-tc''"
| "target_as_str KernelCgroupSockAddr = ''kernel-cgroup-sockaddr''"

definition is_kernel :: "target_abi \<Rightarrow> bool" where
  "is_kernel t = (t \<noteq> RbpfFixedMbuff)"

record ctx_layout =
  data_off :: i16
  data_end_off :: i16
  load_size :: u8

definition ctx_layout_of :: "target_abi \<Rightarrow> ctx_layout" where
  "ctx_layout_of t =
     (case t of
        RbpfFixedMbuff \<Rightarrow> \<lparr>data_off = 0, data_end_off = 8, load_size = SZ_DW\<rparr>
      | KernelXdp \<Rightarrow> \<lparr>data_off = 0, data_end_off = 4, load_size = SZ_W\<rparr>
      | KernelSocketFilter \<Rightarrow> \<lparr>data_off = 76, data_end_off = 80, load_size = SZ_W\<rparr>
      | KernelTc \<Rightarrow> \<lparr>data_off = 76, data_end_off = 80, load_size = SZ_W\<rparr>
      | KernelCgroupSockAddr \<Rightarrow> \<lparr>data_off = 0, data_end_off = 0, load_size = SZ_W\<rparr>)"

record map_reloc =
  reloc_insn_index :: nat
  reloc_map_index :: nat

record ebpf_object =
  obj_target :: target_abi
  obj_prog_type :: prog_type
  insns :: "insn list"
  raw :: "u8 list"
  obj_maps :: "map_def list"
  relocations :: "map_reloc list"

definition assemble :: "target_abi \<Rightarrow> prog_type \<Rightarrow> insn list \<Rightarrow> map_def list \<Rightarrow> map_reloc list \<Rightarrow> ebpf_object" where
  "assemble t pt is ms rs =
     \<lparr>obj_target = t, obj_prog_type = pt, insns = is, raw = concat (map to_le_bytes is),
      obj_maps = ms, relocations = rs\<rparr>"

section \<open>Pending instructions\<close>

datatype pending =
    Ins insn
  | Wide insn insn
  | MapFd nat
  | Ja block_id
  | JmpNeZero u8 block_id

fun pending_len :: "pending \<Rightarrow> nat" where
  "pending_len (Wide _ _) = 2"
| "pending_len (MapFd _) = 2"
| "pending_len _ = 1"

definition slot_off :: "slot_id \<Rightarrow> i16" where
  "slot_off slot = - (case i16_try_from (int ((slot + 1) * 8)) of Some w \<Rightarrow> w | None \<Rightarrow> 32767)"

record emit_ctx =
  ctx_target :: target_abi
  map_key_off :: i16
  map_value_off :: i16

definition emit_ctx_new :: "target_abi \<Rightarrow> nat \<Rightarrow> emit_ctx" where
  "emit_ctx_new t n =
     (let base = - ((if n < 2 ^ 31 then int n else 0) * 8) in
      \<lparr>ctx_target = t,
       map_key_off = (case i16_try_from (base - 8) of Some w \<Rightarrow> w | None \<Rightarrow> - 32768),
       map_value_off = (case i16_try_from (base - 16) of Some w \<Rightarrow> w | None \<Rightarrow> - 32768)\<rparr>)"

section \<open>Instructions\<close>

fun bin_alu :: "int_bin_op \<Rightarrow> u8 \<times> i16" where
  "bin_alu Add = (ADD, 0)"
| "bin_alu Sub = (SUB, 0)"
| "bin_alu Mul = (MUL, 0)"
| "bin_alu Div = (DIV, 1)"
| "bin_alu Mod = (MOD_op, 1)"
| "bin_alu And = (AND_op, 0)"
| "bin_alu Or = (OR_op, 0)"
| "bin_alu Xor = (XOR_op, 0)"
| "bin_alu Shl = (LSH, 0)"
| "bin_alu Shr = (ARSH, 0)"

fun cmp_jop :: "cmp_op \<Rightarrow> u8" where
  "cmp_jop CEq = JEQ"
| "cmp_jop CNe = JNE"
| "cmp_jop CLt = JSLT"
| "cmp_jop CLe = JSLE"
| "cmp_jop CGt = JSGT"
| "cmp_jop CGe = JSGE"

fun width_size :: "width \<Rightarrow> u8" where
  "width_size B8 = SZ_B"
| "width_size B16 = SZ_H"
| "width_size B32 = SZ_W"

definition map_imm :: "nat \<Rightarrow> i32" where
  "map_imm mp = (case i32_try_from (int mp) of Some w \<Rightarrow> w | None \<Rightarrow> 0)"

text \<open>The load of a slot into a register, and the store of a register into a slot.\<close>

definition ld_slot :: "u8 \<Rightarrow> slot_id \<Rightarrow> pending" where
  "ld_slot r s = Ins (ldx SZ_DW r R10 (slot_off s))"

definition st_slot :: "u8 \<Rightarrow> slot_id \<Rightarrow> pending" where
  "st_slot r s = Ins (stx SZ_DW R10 r (slot_off s))"

definition emit_load ::
    "slot_id \<Rightarrow> width \<Rightarrow> int \<Rightarrow> byte_order \<Rightarrow> oob_action \<Rightarrow> span \<Rightarrow> bpf_error + pending list" where
  "emit_load dst width off order oob sp =
     (case i16_try_from off of
        None \<Rightarrow> Inl (bpf_error_new BadInt sp ''load offset out of range (must fit in 16 bits)'')
      | Some off16 \<Rightarrow>
          (case oob of ReturnVerdict verdict \<Rightarrow>
             (let field_end = word_of_int (int (width_bytes width) + off) :: i32;
                  vimm = (case i32_try_from (sint verdict) of Some w \<Rightarrow> w | None \<Rightarrow> 0);
                  bits = word_of_nat (width_bytes width * 8) :: i32
              in Inr ([Ins (mov64_reg R2 RPTR),
                       Ins (alu64_imm ADD R2 field_end),
                       Ins (jmp_reg JLE R2 REND 2),
                       Ins (mov64_imm R0 vimm),
                       Ins exit_insn,
                       Ins (ldx (width_size width) R2 RPTR off16)]
                    @ (if width \<noteq> B8 then
                         (case order of
                            Big \<Rightarrow> [Ins (bswap_be R2 bits)]
                          | Little \<Rightarrow> [Ins (bswap_le R2 bits)]
                          | Native \<Rightarrow> [])
                       else [])
                    @ [st_slot R2 dst]))))"

definition emit_kernel_lookup :: "emit_ctx \<Rightarrow> nat \<Rightarrow> slot_id \<Rightarrow> pending list" where
  "emit_kernel_lookup ctx mp key =
     [ld_slot R1 key,
      Ins (stx SZ_DW R10 R1 (map_key_off ctx)),
      MapFd mp,
      Ins (mov64_reg R2 R10),
      Ins (alu64_imm ADD R2 (scast (map_key_off ctx))),
      Ins (call FN_MAP_LOOKUP)]"

definition emit_map_get :: "emit_ctx \<Rightarrow> slot_id \<Rightarrow> nat \<Rightarrow> slot_id \<Rightarrow> pending list" where
  "emit_map_get ctx dst mp key =
     (if \<not> is_kernel (ctx_target ctx) then
        [Ins (mov64_imm R1 (map_imm mp)), ld_slot R2 key, Ins (call RBPF_MAP_GET_ID), st_slot R0 dst]
      else emit_kernel_lookup ctx mp key @
        [Ins (mov64_imm R1 0), Ins (jmp_imm JEQ R0 0 1), Ins (ldx SZ_DW R1 R0 0), st_slot R1 dst])"

definition emit_map_has :: "emit_ctx \<Rightarrow> slot_id \<Rightarrow> nat \<Rightarrow> slot_id \<Rightarrow> pending list" where
  "emit_map_has ctx dst mp key =
     (if \<not> is_kernel (ctx_target ctx) then
        [Ins (mov64_imm R1 (map_imm mp)), ld_slot R2 key, Ins (call RBPF_MAP_HAS_ID), st_slot R0 dst]
      else emit_kernel_lookup ctx mp key @
        [Ins (mov64_imm R1 0), Ins (jmp_imm JEQ R0 0 1), Ins (mov64_imm R1 1), st_slot R1 dst])"

definition emit_map_set :: "emit_ctx \<Rightarrow> nat \<Rightarrow> slot_id \<Rightarrow> slot_id \<Rightarrow> pending list" where
  "emit_map_set ctx mp key val =
     (if \<not> is_kernel (ctx_target ctx) then
        [Ins (mov64_imm R1 (map_imm mp)), ld_slot R2 key, ld_slot R3 val, Ins (call RBPF_MAP_SET_ID)]
      else
        [ld_slot R1 key,
         Ins (stx SZ_DW R10 R1 (map_key_off ctx)),
         ld_slot R1 val,
         Ins (stx SZ_DW R10 R1 (map_value_off ctx)),
         MapFd mp,
         Ins (mov64_reg R2 R10),
         Ins (alu64_imm ADD R2 (scast (map_key_off ctx))),
         Ins (mov64_reg R3 R10),
         Ins (alu64_imm ADD R3 (scast (map_value_off ctx))),
         Ins (mov64_imm R4 0),
         Ins (call FN_MAP_UPDATE)])"

definition emit_un :: "un_op \<Rightarrow> pending list" where
  "emit_un op =
     (case op of
        Neg \<Rightarrow> [Ins (neg64 R1)]
      | BitNot \<Rightarrow> [Ins (alu64_imm XOR_op R1 (- 1))]
      | LNot \<Rightarrow> [Ins (mov64_imm R3 1), Ins (jmp_imm JEQ R1 0 1), Ins (mov64_imm R3 0), Ins (mov64_reg R1 R3)])"

fun emit_inst :: "emit_ctx \<Rightarrow> inst \<Rightarrow> bpf_error + pending list" where
  "emit_inst ctx (Const dst val _) =
     Inr ((case i32_try_from (sint val) of
             Some imm \<Rightarrow> [Ins (mov64_imm R1 imm)]
           | None \<Rightarrow> (case lddw R1 val of (a, b) \<Rightarrow> [Wide a b]))
          @ [st_slot R1 dst])"
| "emit_inst ctx (Copy dst src _) = Inr [ld_slot R1 src, st_slot R1 dst]"
| "emit_inst ctx (Bin dst op a b _) =
     Inr [ld_slot R1 a, ld_slot R2 b,
          (case bin_alu op of (alu_op, off) \<Rightarrow> Ins (alu64_reg_off alu_op R1 R2 off)), st_slot R1 dst]"
| "emit_inst ctx (Unop dst op a _) = Inr ([ld_slot R1 a] @ emit_un op @ [st_slot R1 dst])"
| "emit_inst ctx (Cmp dst op a b _) =
     Inr [ld_slot R1 a, ld_slot R2 b, Ins (mov64_imm R3 1), Ins (jmp_reg (cmp_jop op) R1 R2 1),
          Ins (mov64_imm R3 0), st_slot R3 dst]"
| "emit_inst ctx (CtxPtr dst _) = Inr [st_slot RPTR dst]"
| "emit_inst ctx (CtxLen dst _) = Inr [Ins (mov64_reg R1 REND), Ins (alu64_reg SUB R1 RPTR), st_slot R1 dst]"
| "emit_inst ctx (Load dst width ptr off order oob sp) = emit_load dst width off order oob sp"
| "emit_inst ctx (MapGet dst mp key _) = Inr (emit_map_get ctx dst mp key)"
| "emit_inst ctx (MapHas dst mp key _) = Inr (emit_map_has ctx dst mp key)"
| "emit_inst ctx (MapSet mp key val _) = Inr (emit_map_set ctx mp key val)"

fun emit_term :: "terminator \<Rightarrow> pending list" where
  "emit_term (Goto target _) = [Ja target]"
| "emit_term (BranchNz cond t f _) = [ld_slot R1 cond, JmpNeZero R1 t, Ja f]"
| "emit_term (Return verdict _) = [ld_slot R0 verdict, Ins exit_insn]"

fun emit_insts :: "emit_ctx \<Rightarrow> inst list \<Rightarrow> bpf_error + pending list" where
  "emit_insts ctx [] = Inr []"
| "emit_insts ctx (i # is) =
     (case emit_inst ctx i of
        Inl e \<Rightarrow> Inl e
      | Inr code \<Rightarrow> (case emit_insts ctx is of Inl e \<Rightarrow> Inl e | Inr rest \<Rightarrow> Inr (code @ rest)))"

section \<open>Programs\<close>

definition uses_context :: "inst \<Rightarrow> bool" where
  "uses_context i = (case i of CtxPtr _ _ \<Rightarrow> True | CtxLen _ _ \<Rightarrow> True | Load _ _ _ _ _ _ _ \<Rightarrow> True | _ \<Rightarrow> False)"

definition program_uses_context :: "bpf_program \<Rightarrow> bool" where
  "program_uses_context prog = list_ex uses_context (concat (map insts (blocks prog)))"

definition emit_prologue :: "bpf_program \<Rightarrow> target_abi \<Rightarrow> pending list" where
  "emit_prologue prog t =
     (if t = RbpfFixedMbuff \<or> program_uses_context prog then
        (let layout = ctx_layout_of t in
         [Ins (ldx (load_size layout) RPTR R1 (data_off layout)),
          Ins (ldx (load_size layout) REND R1 (data_end_off layout))])
      else [])"

definition target_accepts :: "target_abi \<Rightarrow> prog_type \<Rightarrow> bool \<times> string" where
  "target_accepts t pt =
     (case t of
        KernelXdp \<Rightarrow> (pt = Xdp, ''when XDP'')
      | KernelSocketFilter \<Rightarrow> (pt = SocketFilter, ''when SOCKET_FILTER'')
      | KernelTc \<Rightarrow> (is_tc pt, ''when TC_INGRESS or when TC_EGRESS'')
      | KernelCgroupSockAddr \<Rightarrow> (is_cgroup_sock_addr pt, ''when CGROUP_CONNECT4 or when CGROUP_BIND4'')
      | RbpfFixedMbuff \<Rightarrow> (True, ''''))"

definition validate_target :: "bpf_program \<Rightarrow> target_abi \<Rightarrow> bpf_error + unit" where
  "validate_target prog t =
     (if \<not> is_kernel t then Inr ()
      else (case target_accepts t (prog_type prog) of (compatible, accepted) \<Rightarrow>
        if \<not> compatible then
          Inl (bpf_error_new OutOfSubset (span_empty 0)
            (''the `'' @ target_as_str t @ ''` target only accepts `'' @ accepted @ ''` programs''))
        else if maps prog \<noteq> [] \<and>
            MAX_STACK < (if num_slots prog < 2 ^ 31 then int (num_slots prog) else 2 ^ 31 - 1) * 8 + 16 then
          Inl (bpf_error_new OutOfSubset (map_span (hd (maps prog)))
            ''program uses too much stack for kernel map key/value scratch (exceeds 512 bytes)'')
        else Inr ()))"

definition rel_off :: "nat \<Rightarrow> nat \<Rightarrow> bpf_error + i16" where
  "rel_off from to =
     (case i16_try_from (int to - int from - 1) of
        Some w \<Rightarrow> Inr w
      | None \<Rightarrow> Inl (bpf_error_new Internal (span_empty 0)
          ''program too large: jump target exceeds a 16-bit offset''))"

text \<open>The entry block first, then the rest in the order given.\<close>

definition block_order :: "bpf_program \<Rightarrow> block list" where
  "block_order prog =
     (case find (\<lambda>b. block_label b = entry prog) (blocks prog) of Some b \<Rightarrow> [b] | None \<Rightarrow> [])
     @ filter (\<lambda>b. block_label b \<noteq> entry prog) (blocks prog)"

text \<open>\<open>block_start\<close> maps a label to an index of the pending stream.\<close>

fun emit_blocks ::
    "emit_ctx \<Rightarrow> block list \<Rightarrow> pending list \<Rightarrow> (block_id \<rightharpoonup> nat) \<Rightarrow> bpf_error + pending list \<times> (block_id \<rightharpoonup> nat)" where
  "emit_blocks ctx [] pend starts = Inr (pend, starts)"
| "emit_blocks ctx (b # bs) pend starts =
     (case emit_insts ctx (insts b) of
        Inl e \<Rightarrow> Inl e
      | Inr code \<Rightarrow>
          emit_blocks ctx bs (pend @ code @ emit_term (blk_term b)) (starts(block_label b \<mapsto> length pend)))"

text \<open>The prefix sum: the instruction index at which each pending item begins, and the total.\<close>

fun insn_indices :: "nat \<Rightarrow> pending list \<Rightarrow> nat list" where
  "insn_indices acc [] = [acc]"
| "insn_indices acc (p # ps) = acc # insn_indices (acc + pending_len p) ps"

definition jump_off :: "nat list \<Rightarrow> (block_id \<rightharpoonup> nat) \<Rightarrow> nat \<Rightarrow> block_id \<Rightarrow> (bpf_error + i16) option" where
  "jump_off index_of starts here target =
     (case starts target of None \<Rightarrow> None | Some pend_idx \<Rightarrow> Some (rel_off here (index_of ! pend_idx)))"

definition resolve_one ::
    "nat list \<Rightarrow> (block_id \<rightharpoonup> nat) \<Rightarrow> nat \<Rightarrow> pending \<Rightarrow> (bpf_error + insn list \<times> map_reloc list) option" where
  "resolve_one index_of starts here p =
     (case p of
        Ins i \<Rightarrow> Some (Inr ([i], []))
      | Wide a b \<Rightarrow> Some (Inr ([a, b], []))
      | MapFd mp \<Rightarrow>
          (case lddw_src R1 PSEUDO_MAP_FD 0 of (a, b) \<Rightarrow>
             Some (Inr ([a, b], [\<lparr>reloc_insn_index = u32_or_max here, reloc_map_index = mp\<rparr>])))
      | Ja target \<Rightarrow>
          (case jump_off index_of starts here target of
             None \<Rightarrow> None
           | Some (Inl e) \<Rightarrow> Some (Inl e)
           | Some (Inr off) \<Rightarrow> Some (Inr ([ja off], [])))
      | JmpNeZero reg target \<Rightarrow>
          (case jump_off index_of starts here target of
             None \<Rightarrow> None
           | Some (Inl e) \<Rightarrow> Some (Inl e)
           | Some (Inr off) \<Rightarrow> Some (Inr ([jmp_imm JNE reg 0 off], []))))"

fun resolve_all ::
    "nat list \<Rightarrow> (block_id \<rightharpoonup> nat) \<Rightarrow> nat \<Rightarrow> pending list \<Rightarrow> (bpf_error + insn list \<times> map_reloc list) option" where
  "resolve_all index_of starts pend_idx [] = Some (Inr ([], []))"
| "resolve_all index_of starts pend_idx (p # ps) =
     (case resolve_one index_of starts (index_of ! pend_idx) p of
        None \<Rightarrow> None
      | Some (Inl e) \<Rightarrow> Some (Inl e)
      | Some (Inr (is, rs)) \<Rightarrow>
          (case resolve_all index_of starts (Suc pend_idx) ps of
             None \<Rightarrow> None
           | Some (Inl e) \<Rightarrow> Some (Inl e)
           | Some (Inr (is', rs')) \<Rightarrow> Some (Inr (is @ is', rs @ rs'))))"

definition emit_program_for_target :: "bpf_program \<Rightarrow> target_abi \<Rightarrow> (bpf_error + ebpf_object) option" where
  "emit_program_for_target prog t =
     (case validate_target prog t of
        Inl e \<Rightarrow> Some (Inl e)
      | Inr _ \<Rightarrow>
          (let ctx = emit_ctx_new t (num_slots prog);
               pend0 = emit_prologue prog t
                 @ map (\<lambda>s. Ins (st_imm SZ_DW R10 (slot_off s) 0)) (zero_init prog)
           in case emit_blocks ctx (block_order prog) pend0 Map.empty of
                Inl e \<Rightarrow> Some (Inl e)
              | Inr (pend, starts) \<Rightarrow>
                  (case resolve_all (insn_indices 0 pend) starts 0 pend of
                     None \<Rightarrow> None
                   | Some (Inl e) \<Rightarrow> Some (Inl e)
                   | Some (Inr (is, rs)) \<Rightarrow>
                       Some (Inr (assemble t (prog_type prog) is (maps prog) rs)))))"

definition emit_program :: "bpf_program \<Rightarrow> (bpf_error + ebpf_object) option" where
  "emit_program prog = emit_program_for_target prog RbpfFixedMbuff"

section \<open>What resolution does to the pending stream\<close>

definition pend_all :: "(insn \<Rightarrow> bool) \<Rightarrow> pending \<Rightarrow> bool" where
  "pend_all Q p \<longleftrightarrow>
     (case p of
        Ins i \<Rightarrow> Q i
      | Wide a b \<Rightarrow> Q a \<and> Q b
      | MapFd _ \<Rightarrow> Q (fst (lddw_src R1 PSEUDO_MAP_FD 0)) \<and> Q (snd (lddw_src R1 PSEUDO_MAP_FD 0))
      | Ja _ \<Rightarrow> (\<forall>off. Q (ja off))
      | JmpNeZero r _ \<Rightarrow> (\<forall>off. Q (jmp_imm JNE r 0 off)))"

lemma pend_all_simps [simp]:
  "pend_all Q (Ins i) = Q i" "pend_all Q (Wide a b) = (Q a \<and> Q b)"
  "pend_all Q (Ja t) = (\<forall>off. Q (ja off))" "pend_all Q (JmpNeZero r t) = (\<forall>off. Q (jmp_imm JNE r 0 off))"
  by (simp_all add: pend_all_def)

lemma resolve_one_facts:
  assumes "resolve_one ix starts here p = Some (Inr (is, rs))"
  shows "length is = pending_len p" "pend_all Q p \<Longrightarrow> list_all Q is"
    "p = MapFd mp \<Longrightarrow> is = [fst (lddw_src R1 PSEUDO_MAP_FD 0), snd (lddw_src R1 PSEUDO_MAP_FD 0)] \<and>
       rs = [\<lparr>reloc_insn_index = u32_or_max here, reloc_map_index = mp\<rparr>]"
    "p = Ins i \<Longrightarrow> is = [i]"
  using assms by (cases p; auto simp: resolve_one_def pend_all_def split: prod.splits option.splits sum.splits)+

lemma resolve_all_Cons:
  "resolve_all ix starts k (p # ps) = Some (Inr (is, rs)) \<longleftrightarrow>
     (\<exists>is1 rs1 is2 rs2. resolve_one ix starts (ix ! k) p = Some (Inr (is1, rs1)) \<and>
        resolve_all ix starts (Suc k) ps = Some (Inr (is2, rs2)) \<and> is = is1 @ is2 \<and> rs = rs1 @ rs2)"
  by (auto split: option.splits sum.splits)

declare resolve_all.simps(2) [simp del]

lemma resolve_all_append:
  "resolve_all ix starts k (ps @ qs) = Some (Inr (is, rs)) \<longleftrightarrow>
     (\<exists>is1 rs1 is2 rs2. resolve_all ix starts k ps = Some (Inr (is1, rs1)) \<and>
        resolve_all ix starts (k + length ps) qs = Some (Inr (is2, rs2)) \<and> is = is1 @ is2 \<and> rs = rs1 @ rs2)"
proof (induction ps arbitrary: k "is" rs)
  case (Cons p ps)
  show ?case (is "?l \<longleftrightarrow> ?r")
  proof
    assume ?l
    then show ?r by (force simp: resolve_all_Cons Cons.IH)
  next
    assume ?r
    then show ?l by (force simp: resolve_all_Cons Cons.IH)
  qed
qed auto

lemma resolve_all_length:
  "resolve_all ix starts k ps = Some (Inr (is, rs)) \<Longrightarrow> length is = sum_list (map pending_len ps)"
  by (induction ps arbitrary: k "is" rs) (auto simp: resolve_all_Cons resolve_one_facts(1))

lemma resolve_all_pred:
  "resolve_all ix starts k ps = Some (Inr (is, rs)) \<Longrightarrow> list_all (pend_all Q) ps \<Longrightarrow> list_all Q is"
  by (induction ps arbitrary: k "is" rs) (auto simp: resolve_all_Cons dest: resolve_one_facts(2))

text \<open>A run of plain instructions is copied as it is.\<close>

lemma resolve_all_Ins:
  "resolve_all ix starts k (map Ins is') = Some (Inr (is, rs)) \<Longrightarrow> is = is' \<and> rs = []"
  by (induction is' arbitrary: k "is" rs) (auto simp: resolve_all_Cons resolve_one_def)

lemma insn_indices_nth:
  "k \<le> length ps \<Longrightarrow> insn_indices acc ps ! k = acc + sum_list (map pending_len (take k ps))"
proof (induction ps arbitrary: acc k)
  case (Cons p ps)
  then show ?case by (cases k) auto
qed simp

lemma RPTR_R6 [simp]: "RPTR = R6" by (simp add: RPTR_def)
lemma REND_R7 [simp]: "REND = R7" by (simp add: REND_def)

section \<open>The shape of an emitted program\<close>

lemma emit_insts_all:
  assumes "emit_insts ctx is = Inr code" "\<And>i c. i \<in> set is \<Longrightarrow> emit_inst ctx i = Inr c \<Longrightarrow> list_all P c"
  shows "list_all P code"
  using assms
proof (induction "is" arbitrary: code)
  case (Cons i "is")
  then obtain c rest where "emit_inst ctx i = Inr c" "emit_insts ctx is = Inr rest" "code = c @ rest"
    by (auto split: sum.splits)
  with Cons.IH [of rest] Cons.prems(2) show ?case by auto
qed simp

definition emitted :: "emit_ctx \<Rightarrow> block \<Rightarrow> pending list \<Rightarrow> bool" where
  "emitted ctx b code \<longleftrightarrow> (\<exists>c. emit_insts ctx (insts b) = Inr c \<and> code = c @ emit_term (blk_term b))"

lemma emit_blocks_codes:
  "emit_blocks ctx bs pend starts = Inr (pend', starts') \<Longrightarrow>
     \<exists>codes. list_all2 (emitted ctx) bs codes \<and> pend' = pend @ concat codes"
proof (induction bs arbitrary: pend starts)
  case (Cons b bs)
  then obtain c where c: "emit_insts ctx (insts b) = Inr c"
    "emit_blocks ctx bs (pend @ c @ emit_term (blk_term b)) (starts(block_label b \<mapsto> length pend)) = Inr (pend', starts')"
    by (auto split: sum.splits)
  from Cons.IH [OF c(2)] obtain codes where "list_all2 (emitted ctx) bs codes"
    "pend' = (pend @ c @ emit_term (blk_term b)) @ concat codes" by auto
  with c(1) show ?case
    by (intro exI [of _ "(c @ emit_term (blk_term b)) # codes"]) (auto simp: emitted_def [of ctx b])
qed simp

lemma emitted_all:
  assumes "emitted ctx b code" "\<And>i c. i \<in> set (insts b) \<Longrightarrow> emit_inst ctx i = Inr c \<Longrightarrow> list_all P c"
    and "list_all P (emit_term (blk_term b))"
  shows "list_all P code"
  using assms emit_insts_all by (fastforce simp: emitted_def)

lemma emitted_blocks_all:
  "list_all2 (emitted ctx) bs codes \<Longrightarrow> (\<And>b c. b \<in> set bs \<Longrightarrow> emitted ctx b c \<Longrightarrow> list_all P c) \<Longrightarrow>
     list_all P (concat codes)"
  by (induction bs codes rule: list_all2_induct) auto

lemma block_order_sub: "b \<in> set (block_order p) \<Longrightarrow> b \<in> set (blocks p)"
  by (cases "find (\<lambda>b. block_label b = entry p) (blocks p)") (auto simp: block_order_def find_Some_iff)

text \<open>The parts of a successful emission.\<close>

lemma emit_program_parts:
  assumes "emit_program_for_target p t = Some (Inr obj)"
  obtains codes starts rs where
    "validate_target p t = Inr ()"
    "list_all2 (emitted (emit_ctx_new t (num_slots p))) (block_order p) codes"
    "emit_blocks (emit_ctx_new t (num_slots p)) (block_order p)
       (emit_prologue p t @ map (\<lambda>s. Ins (st_imm SZ_DW R10 (slot_off s) 0)) (zero_init p)) Map.empty
       = Inr (emit_prologue p t @ map (\<lambda>s. Ins (st_imm SZ_DW R10 (slot_off s) 0)) (zero_init p) @ concat codes, starts)"
    "resolve_all (insn_indices 0 (emit_prologue p t @ map (\<lambda>s. Ins (st_imm SZ_DW R10 (slot_off s) 0)) (zero_init p) @ concat codes))
       starts 0 (emit_prologue p t @ map (\<lambda>s. Ins (st_imm SZ_DW R10 (slot_off s) 0)) (zero_init p) @ concat codes)
       = Some (Inr (insns obj, rs))"
    "obj = assemble t (prog_type p) (insns obj) (maps p) rs"
proof -
  let ?pend0 = "emit_prologue p t @ map (\<lambda>s. Ins (st_imm SZ_DW R10 (slot_off s) 0)) (zero_init p)"
  from assms obtain pend starts "is" rs where e: "validate_target p t = Inr ()"
    "emit_blocks (emit_ctx_new t (num_slots p)) (block_order p) ?pend0 Map.empty = Inr (pend, starts)"
    "resolve_all (insn_indices 0 pend) starts 0 pend = Some (Inr (is, rs))"
    "obj = assemble t (prog_type p) is (maps p) rs"
    by (auto simp: emit_program_for_target_def Let_def split: sum.splits option.splits prod.splits)
  from emit_blocks_codes [OF e(2)] obtain codes where
    "list_all2 (emitted (emit_ctx_new t (num_slots p))) (block_order p) codes" "pend = ?pend0 @ concat codes" by auto
  with e that show ?thesis by (auto simp: assemble_def)
qed


section \<open>The encoded object\<close>

lemma insn_ok_builders [simp]:
  "d < 16 \<Longrightarrow> insn_ok (mov64_imm d i)" "d < 16 \<Longrightarrow> s < 16 \<Longrightarrow> insn_ok (mov64_reg d s)"
  "d < 16 \<Longrightarrow> insn_ok (alu64_imm op d i)" "d < 16 \<Longrightarrow> s < 16 \<Longrightarrow> insn_ok (alu64_reg op d s)"
  "d < 16 \<Longrightarrow> s < 16 \<Longrightarrow> insn_ok (alu64_reg_off op d s off)" "d < 16 \<Longrightarrow> insn_ok (neg64 d)"
  "d < 16 \<Longrightarrow> s < 16 \<Longrightarrow> insn_ok (ldx sz d s off)" "d < 16 \<Longrightarrow> s < 16 \<Longrightarrow> insn_ok (stx sz d s off)"
  "d < 16 \<Longrightarrow> insn_ok (st_imm sz d off i)" "d < 16 \<Longrightarrow> insn_ok (jmp_imm op d i off)"
  "d < 16 \<Longrightarrow> s < 16 \<Longrightarrow> insn_ok (jmp_reg op d s off)" "insn_ok (ja off)" "insn_ok exit_insn" "insn_ok (call h)"
  "d < 16 \<Longrightarrow> insn_ok (bswap_be d w)" "d < 16 \<Longrightarrow> insn_ok (bswap_le d w)"
  by (simp_all add: insn_ok_def builder_defs)

lemma insn_ok_lddw [simp]:
  "d < 16 \<Longrightarrow> s < 16 \<Longrightarrow> insn_ok (fst (lddw_src d s v)) \<and> insn_ok (snd (lddw_src d s v))"
  by (simp add: insn_ok_def lddw_src_def Let_def)

lemma reg_small [simp]: "R0 < 16" "R1 < 16" "R2 < 16" "R3 < 16" "R4 < 16" "R6 < 16" "R7 < 16" "R10 < 16" "PSEUDO_MAP_FD < 16"
  by (simp_all add: opcode_defs)

lemma pend_ok_slot [simp]:
  "r < 16 \<Longrightarrow> pend_all insn_ok (ld_slot r s)" "r < 16 \<Longrightarrow> pend_all insn_ok (st_slot r s)" "pend_all insn_ok (MapFd mp)"
  by (simp_all add: ld_slot_def st_slot_def pend_all_def [of _ "MapFd mp"])

lemma emit_inst_ok: "emit_inst ctx i = Inr code \<Longrightarrow> list_all (pend_all insn_ok) code"
proof (cases i)
  case (Load dst width ptr off order oob sp)
  moreover assume "emit_inst ctx i = Inr code"
  ultimately show ?thesis
    by (cases oob; cases order) (auto simp: emit_load_def Let_def split: option.splits if_splits)
next
  case (Const dst val sp)
  obtain a b where ab: "lddw_src R1 0 val = (a, b)" by (cases "lddw_src R1 0 val")
  with insn_ok_lddw [of R1 0 val] have "insn_ok a" "insn_ok b" by (simp_all del: insn_ok_lddw)
  moreover assume "emit_inst ctx i = Inr code"
  ultimately show ?thesis
    using Const ab by (auto simp: lddw_def split: option.splits)
next
  case (Unop dst op a sp)
  moreover assume "emit_inst ctx i = Inr code"
  ultimately show ?thesis by (cases op) (auto simp: emit_un_def)
qed (auto simp: emit_map_get_def emit_map_has_def emit_map_set_def emit_kernel_lookup_def split: prod.splits)

lemma emit_term_ok: "list_all (pend_all insn_ok) (emit_term t)"
  by (cases t) auto

lemma emit_program_ok:
  assumes "emit_program_for_target p t = Some (Inr obj)"
  shows "list_all insn_ok (insns obj)"
proof (rule emit_program_parts [OF assms])
  fix codes starts rs
  let ?lead = "emit_prologue p t @ map (\<lambda>s. Ins (st_imm SZ_DW R10 (slot_off s) 0)) (zero_init p)"
  assume codes: "list_all2 (emitted (emit_ctx_new t (num_slots p))) (block_order p) codes"
    and res: "resolve_all (insn_indices 0 (emit_prologue p t @ map (\<lambda>s. Ins (st_imm SZ_DW R10 (slot_off s) 0)) (zero_init p) @ concat codes))
       starts 0 (emit_prologue p t @ map (\<lambda>s. Ins (st_imm SZ_DW R10 (slot_off s) 0)) (zero_init p) @ concat codes)
       = Some (Inr (insns obj, rs))"
  have "list_all (pend_all insn_ok) (concat codes)"
    by (rule emitted_blocks_all [OF codes], erule emitted_all) (auto intro: emit_inst_ok emit_term_ok)
  then show ?thesis
    by (intro resolve_all_pred [OF res]) (auto simp: emit_prologue_def Let_def list_all_iff)
qed

lemma emitted_decodes:
  assumes "emit_program_for_target p t = Some (Inr obj)"
  shows "decode_insns (raw obj) = insns obj" "length (raw obj) = 8 * length (insns obj)"
proof -
  have raw: "raw obj = concat (map to_le_bytes (insns obj))"
    by (rule emit_program_parts [OF assms]) (metis assemble_def ebpf_object.select_convs(3,4))
  have "length (concat (map to_le_bytes is)) = 8 * length is" for "is" by (induction "is") auto
  with raw decode_encode [OF emit_program_ok [OF assms]]
  show "decode_insns (raw obj) = insns obj" "length (raw obj) = 8 * length (insns obj)" by simp_all
qed

section \<open>Properties\<close>

text \<open>
  C31. The bytes of an emitted object, eight per instruction, decode to exactly the instructions that
  were emitted, for every target.
\<close>

theorem emitted_bytes_decode:
  assumes "emit_program_for_target p t = Some (Inr obj)"
  shows "decode_insns (raw obj) = insns obj \<and> length (raw obj) = 8 * length (insns obj)"
  using emitted_decodes [OF assms] by blast

theorem emitted_bytes_decode_witness:
  "\<exists>obj. emit_program \<lparr>prog_type = SocketFilter, entry = 0,
       blocks = [\<lparr>block_label = 0, insts = [Const 0 7 (span_empty 0)], blk_term = Return 0 (span_empty 0)\<rparr>],
       num_slots = 1, slot_types = [TInt], raw_slot_count = 1, zero_init = [], maps = []\<rparr> = Some (Inr obj) \<and>
     decode_insns (raw obj) = insns obj \<and> length (raw obj) = 48"
proof -
  let ?p = "\<lparr>prog_type = SocketFilter, entry = 0,
       blocks = [\<lparr>block_label = 0, insts = [Const 0 7 (span_empty 0)], blk_term = Return 0 (span_empty 0)\<rparr>],
       num_slots = 1, slot_types = [TInt], raw_slot_count = 1, zero_init = [], maps = []\<rparr>"
  obtain obj where obj: "emit_program_for_target ?p RbpfFixedMbuff = Some (Inr obj)" "length (insns obj) = 6"
    by (simp add: emit_program_for_target_def validate_target_def is_kernel_def block_order_def i32_try_from_def
        emit_prologue_def resolve_all.simps resolve_one_def st_slot_def ld_slot_def assemble_def Let_def)
  from emitted_bytes_decode [OF obj(1)] obj show ?thesis by (simp add: emit_program_def)
qed

end
