(* ===== verification/Bpf_Sem.thy ===== *)
theory Bpf_Sem
  imports Bpf_IR "HOL-Library.Signed_Division"
begin

text \<open>
  The meaning of the IR. First the map emulation of \<open>bpf-tcl/src/run.rs\<close> (\<open>EmuMap\<close> and the
  three by-value helpers), with the contract its clients rely on as the locale \<open>map_store\<close>; then
  the values the operators, comparisons and checked packet reads stand for, and the execution of
  instructions, blocks and programs.
\<close>

section \<open>Emulated maps\<close>

text \<open>
  A \<open>HashMap<u64, u64>\<close> is an association list with distinct keys; its order plays no role.
\<close>

record emu_map =
  ekind :: map_kind
  emax :: nat
  store :: "(u64 \<times> u64) list"

definition emu_map_new :: "map_def \<Rightarrow> emu_map" where
  "emu_map_new d =
     \<lparr>ekind = map_kind d, emax = max_entries d,
      store = (if map_kind d = Array then map (\<lambda>k. (of_nat k, 0)) [0..<max_entries d] else [])\<rparr>"

definition key_in_range :: "emu_map \<Rightarrow> u64 \<Rightarrow> bool" where
  "key_in_range t key = (ekind t \<noteq> Array \<or> unat key < emax t)"

definition map_get_helper :: "emu_map list \<Rightarrow> u64 \<Rightarrow> u64 \<Rightarrow> u64" where
  "map_get_helper m mp key =
     (case byte_at m (unat mp) of
        None \<Rightarrow> 0
      | Some t \<Rightarrow> (case map_of (store t) key of None \<Rightarrow> 0 | Some v \<Rightarrow> v))"

definition emu_insert :: "emu_map \<Rightarrow> u64 \<Rightarrow> u64 \<Rightarrow> emu_map" where
  "emu_insert t key val =
     (if \<not> key_in_range t key then t
      else if map_of (store t) key = None \<and> ekind t = Hash \<and> emax t \<le> length (store t) then t
      else t\<lparr>store := AList.update key val (store t)\<rparr>)"

definition map_set_helper :: "emu_map list \<Rightarrow> u64 \<Rightarrow> u64 \<Rightarrow> u64 \<Rightarrow> u64 \<times> emu_map list" where
  "map_set_helper m mp key val =
     (0, if unat mp < length m then m[unat mp := emu_insert (m ! unat mp) key val] else m)"

definition map_has_helper :: "emu_map list \<Rightarrow> u64 \<Rightarrow> u64 \<Rightarrow> u64" where
  "map_has_helper m mp key =
     (case byte_at m (unat mp) of
        None \<Rightarrow> 0
      | Some t \<Rightarrow> if map_of (store t) key = None then 0 else 1)"

text \<open>
  The invariant of an emulated map: no key twice, a hash map never beyond its capacity, an array map
  holding exactly its index range.
\<close>

definition emu_ok :: "emu_map \<Rightarrow> bool" where
  "emu_ok t \<longleftrightarrow> distinct (map fst (store t)) \<and>
     (case ekind t of
        Hash \<Rightarrow> length (store t) \<le> emax t
      | Array \<Rightarrow> fst ` set (store t) = of_nat ` {0..<emax t})"

text \<open>What a map accepts an update of: a present key, or a new one while a hash map has room.\<close>

definition accepts_key :: "emu_map \<Rightarrow> u64 \<Rightarrow> bool" where
  "accepts_key t key \<longleftrightarrow>
     map_of (store t) key \<noteq> None \<or> (ekind t = Hash \<and> length (store t) < emax t)"

lemma emu_map_new_ok: "max_entries d < 2 ^ 32 \<Longrightarrow> emu_ok (emu_map_new d)"
proof -
  assume "max_entries d < 2 ^ 32"
  then have "inj_on (of_nat :: nat \<Rightarrow> u64) {0..<max_entries d}"
    by (intro inj_on_inverseI [where g = unat]) (simp add: unsigned_of_nat take_bit_nat_eq_self)
  then show ?thesis
    by (cases "map_kind d") (simp_all add: emu_ok_def emu_map_new_def distinct_map comp_def image_image)
qed

lemma key_in_range_present:
  assumes "emu_ok t" "emax t \<le> 2 ^ 64" "ekind t = Array"
  shows "key_in_range t key \<longleftrightarrow> map_of (store t) key \<noteq> None"
proof -
  have "unat key < emax t \<longleftrightarrow> key \<in> of_nat ` {0..<emax t}"
  proof
    assume "unat key < emax t"
    then show "key \<in> of_nat ` {0..<emax t}" by (intro image_eqI [where x = "unat key"]) auto
  next
    assume "key \<in> of_nat ` {0..<emax t}"
    then show "unat key < emax t"
      using assms(2) by (auto simp: unsigned_of_nat take_bit_nat_eq_self)
  qed
  then show ?thesis using assms by (auto simp: key_in_range_def emu_ok_def map_of_eq_None_iff)
qed

lemma emu_insert_eq:
  assumes "emu_ok t" "emax t \<le> 2 ^ 64"
  shows "emu_insert t key val =
    (if accepts_key t key then t\<lparr>store := AList.update key val (store t)\<rparr> else t)"
  using key_in_range_present [OF assms, of key]
  by (cases "ekind t") (auto simp: emu_insert_def accepts_key_def key_in_range_def)

lemma emu_insert_ok: 
  assumes "emu_ok t" "emax t \<le> 2 ^ 64"
  shows "emu_ok (emu_insert t key val)"
proof -
  have len: "length (AList.update key val al) = length al + (if map_of al key = None then 1 else 0)" for al
    by (induction al) auto
  have "fst ` set (AList.update key val (store t)) = (if map_of (store t) key = None then insert key (fst ` set (store t)) else fst ` set (store t))"
    by (auto simp: dom_update map_of_eq_None_iff)
  with assms len show ?thesis
    by (auto simp: emu_insert_eq emu_ok_def accepts_key_def distinct_update split: map_kind.splits)
qed

section \<open>The contract of the map helpers\<close>

text \<open>
  What the IR documents about map accesses: a read of an absent key is zero, presence is reported
  apart from the value, an accepted update is what later reads see, and a refused one changes
  nothing. Once a key is present every update of it is accepted.
\<close>

locale map_store =
  fixes ok :: "'m \<Rightarrow> bool"
    and get :: "'m \<Rightarrow> u64 \<Rightarrow> u64 \<Rightarrow> u64"
    and put :: "'m \<Rightarrow> u64 \<Rightarrow> u64 \<Rightarrow> u64 \<Rightarrow> 'm"
    and has :: "'m \<Rightarrow> u64 \<Rightarrow> u64 \<Rightarrow> u64"
    and accepts :: "'m \<Rightarrow> u64 \<Rightarrow> u64 \<Rightarrow> bool"
  assumes put_ok: "ok m \<Longrightarrow> ok (put m i k v)"
    and get_put: "ok m \<Longrightarrow>
      get (put m i k v) j l = (if accepts m i k \<and> j = i \<and> l = k then v else get m j l)"
    and has_put: "ok m \<Longrightarrow>
      has (put m i k v) j l = (if accepts m i k \<and> j = i \<and> l = k then 1 else has m j l)"
    and absent_get: "has m i k = 0 \<Longrightarrow> get m i k = 0"
    and present_accepts: "has m i k = 1 \<Longrightarrow> accepts m i k"
    and refused: "ok m \<Longrightarrow> \<not> accepts m i k \<Longrightarrow> put m i k v = m"
begin

text \<open>The counter idiom: \<open>map_get n m k; map_set m k (n + 1)\<close>.\<close>

definition bump :: "u64 \<Rightarrow> u64 \<Rightarrow> 'm \<Rightarrow> 'm" where
  "bump i k m = put m i k (get m i k + 1)"

lemma bump_ok: "ok m \<Longrightarrow> ok (bump i k m)"
  by (simp add: bump_def put_ok)

lemma get_bump:
  "ok m \<Longrightarrow> get (bump i k m) j l = (if accepts m i k \<and> j = i \<and> l = k then get m i k + 1 else get m j l)"
  by (simp add: bump_def get_put)

lemma bump_accepts:
  assumes "ok m" "accepts m i k"
  shows "accepts (bump i k m) i k"
  by (rule present_accepts) (use assms in \<open>simp add: bump_def has_put\<close>)

lemma bumps_count:
  assumes "ok m" "accepts m i k"
  shows "get ((bump i k ^^ n) m) i k = get m i k + of_nat n"
proof -
  have "ok ((bump i k ^^ n) m) \<and> accepts ((bump i k ^^ n) m) i k \<and>
    get ((bump i k ^^ n) m) i k = get m i k + of_nat n"
    using assms by (induction n) (auto simp: bump_ok bump_accepts get_bump)
  then show ?thesis by simp
qed

lemma bumps_frame:
  assumes "ok m" "(j, l) \<noteq> (i, k)"
  shows "get ((bump i k ^^ n) m) j l = get m j l"
proof -
  have "ok ((bump i k ^^ n) m) \<and> get ((bump i k ^^ n) m) j l = get m j l"
    using assms by (induction n) (auto simp: bump_ok get_bump)
  then show ?thesis by simp
qed

end

definition maps_ok :: "emu_map list \<Rightarrow> bool" where
  "maps_ok m \<longleftrightarrow> list_all (\<lambda>t. emu_ok t \<and> emax t < 2 ^ 32) m"

definition maps_accept :: "emu_map list \<Rightarrow> u64 \<Rightarrow> u64 \<Rightarrow> bool" where
  "maps_accept m mp key \<longleftrightarrow> unat mp < length m \<and> accepts_key (m ! unat mp) key"

definition map_put :: "emu_map list \<Rightarrow> u64 \<Rightarrow> u64 \<Rightarrow> u64 \<Rightarrow> emu_map list" where
  "map_put m mp key val = snd (map_set_helper m mp key val)"

lemma maps_okD:
  "maps_ok m \<Longrightarrow> i < length m \<Longrightarrow> emu_ok (m ! i) \<and> emax (m ! i) \<le> 2 ^ 64"
  by (fastforce simp: maps_ok_def list_all_length)

lemma emax_insert [simp]: "emax (emu_insert t k v) = emax t"
  by (simp add: emu_insert_def)

lemma store_insert:
  assumes "emu_ok t" "emax t \<le> 2 ^ 64"
  shows "map_of (store (emu_insert t k v)) l = (if accepts_key t k \<and> l = k then Some v else map_of (store t) l)"
  using assms by (simp add: emu_insert_eq update_conv')

lemma map_put_nth:
  "i < length m \<Longrightarrow> map_put m mp k v ! i = (if i = unat mp then emu_insert (m ! i) k v else m ! i)"
  by (simp add: map_put_def map_set_helper_def)

lemma length_map_put [simp]: "length (map_put m mp k v) = length m"
  by (simp add: map_put_def map_set_helper_def)

interpretation emu: map_store maps_ok map_get_helper map_put map_has_helper maps_accept
proof
  fix m i k v j l
  assume ok: "maps_ok m"
  note at = maps_okD [OF ok]
  show "maps_ok (map_put m i k v)"
    using ok at by (auto simp: maps_ok_def list_all_length map_put_nth emu_insert_ok)
  show "map_get_helper (map_put m i k v) j l =
      (if maps_accept m i k \<and> j = i \<and> l = k then v else map_get_helper m j l)"
    using at by (auto simp: map_get_helper_def byte_at_def map_put_nth store_insert maps_accept_def word_unat_eq_iff [of j i])
  show "map_has_helper (map_put m i k v) j l =
      (if maps_accept m i k \<and> j = i \<and> l = k then 1 else map_has_helper m j l)"
    using at by (auto simp: map_has_helper_def byte_at_def map_put_nth store_insert maps_accept_def word_unat_eq_iff [of j i]
        split: if_splits)
  show "map_put m i k v = m" if "\<not> maps_accept m i k"
    using that at by (intro nth_equalityI) (auto simp: map_put_nth emu_insert_eq maps_accept_def)
next
  fix m i k
  show "map_has_helper m i k = 0 \<Longrightarrow> map_get_helper m i k = 0"
    by (auto simp: map_has_helper_def map_get_helper_def split: option.splits if_splits)
  show "map_has_helper m i k = 1 \<Longrightarrow> maps_accept m i k"
    by (auto simp: map_has_helper_def maps_accept_def accepts_key_def byte_at_def split: option.splits if_splits)
qed

text \<open>A sequence of updates, each through the helper.\<close>

definition map_sets :: "(u64 \<times> u64 \<times> u64) list \<Rightarrow> emu_map list \<Rightarrow> emu_map list" where
  "map_sets ops m = fold (\<lambda>(mp, key, val) m. snd (map_set_helper m mp key val)) ops m"

lemma map_sets_ok: "maps_ok m \<Longrightarrow> maps_ok (map_sets ops m)"
proof (induction ops arbitrary: m)
  case (Cons op ops)
  obtain mp key val where op: "op = (mp, key, val)" by (cases op)
  from Cons.IH [OF emu.put_ok [OF Cons.prems, of mp key val]] show ?case
    by (simp add: map_sets_def op map_put_def)
qed (simp add: map_sets_def)

lemma maps_new_ok: "list_all (\<lambda>d. max_entries d < 2 ^ 32) ds \<Longrightarrow> maps_ok (map emu_map_new ds)"
  using emu_map_new_ok by (auto simp: maps_ok_def list_all_iff emu_map_new_def)

section \<open>Values\<close>

text \<open>
  Integers are signed 64-bit. Division and remainder truncate towards zero, as the code generator
  documents; by zero they are eBPF's: quotient zero, remainder the dividend. Shift counts are taken
  modulo 64.
\<close>

primrec bin_val :: "int_bin_op \<Rightarrow> i64 \<Rightarrow> i64 \<Rightarrow> i64" where
  "bin_val Add a b = a + b"
| "bin_val Sub a b = a - b"
| "bin_val Mul a b = a * b"
| "bin_val Div a b = word_of_int (sint a sdiv sint b)"
| "bin_val Mod a b = word_of_int (sint a smod sint b)"
| "bin_val And a b = and a b"
| "bin_val Or a b = or a b"
| "bin_val Xor a b = xor a b"
| "bin_val Shl a b = push_bit (unat b mod 64) a"
| "bin_val Shr a b = signed_drop_bit (unat b mod 64) a"

primrec cmp_val :: "cmp_op \<Rightarrow> i64 \<Rightarrow> i64 \<Rightarrow> bool" where
  "cmp_val CEq a b = (a = b)"
| "cmp_val CNe a b = (a \<noteq> b)"
| "cmp_val CLt a b = (sint a < sint b)"
| "cmp_val CLe a b = (sint a \<le> sint b)"
| "cmp_val CGt a b = (sint b < sint a)"
| "cmp_val CGe a b = (sint b \<le> sint a)"

primrec un_val :: "un_op \<Rightarrow> i64 \<Rightarrow> i64" where
  "un_val Neg a = - a"
| "un_val LNot a = (if a = 0 then 1 else 0)"
| "un_val BitNot a = not a"

text \<open>The value of a run of bytes, least or most significant byte first, zero-extended.\<close>

fun le_val :: "u8 list \<Rightarrow> u64" where
  "le_val [] = 0"
| "le_val (b # bs) = ucast b + 256 * le_val bs"

definition host_val :: "bool \<Rightarrow> u8 list \<Rightarrow> u64" where
  "host_val big bs = le_val (if big then rev bs else bs)"

definition field_val :: "bool \<Rightarrow> byte_order \<Rightarrow> u8 list \<Rightarrow> u64" where
  "field_val host_big order bs =
     host_val (case order of Native \<Rightarrow> host_big | Big \<Rightarrow> True | Little \<Rightarrow> False) bs"

section \<open>Execution\<close>

text \<open>
  The invocation a program runs in: the host's byte order, the address of the packet and its bytes.
\<close>

record invocation =
  host_big :: bool
  data_ptr :: u64
  packet :: "u8 list"

record ir_state =
  slots :: "slot_id \<Rightarrow> i64"
  emaps :: "emu_map list"

definition set_slot :: "slot_id \<Rightarrow> i64 \<Rightarrow> ir_state \<Rightarrow> ir_state" where
  "set_slot d v st = st\<lparr>slots := (slots st)(d := v)\<rparr>"

text \<open>An instruction goes on in a new state, or ends the program with a verdict.\<close>

fun exec_inst :: "invocation \<Rightarrow> inst \<Rightarrow> ir_state \<Rightarrow> ir_state + i64 \<times> emu_map list" where
  "exec_inst ivk (Const dst val _) st = Inl (set_slot dst val st)"
| "exec_inst ivk (Copy dst src _) st = Inl (set_slot dst (slots st src) st)"
| "exec_inst ivk (Bin dst op a b _) st = Inl (set_slot dst (bin_val op (slots st a) (slots st b)) st)"
| "exec_inst ivk (Unop dst op a _) st = Inl (set_slot dst (un_val op (slots st a)) st)"
| "exec_inst ivk (Cmp dst op a b _) st =
     Inl (set_slot dst (if cmp_val op (slots st a) (slots st b) then 1 else 0) st)"
| "exec_inst ivk (CtxPtr dst _) st = Inl (set_slot dst (data_ptr ivk) st)"
| "exec_inst ivk (CtxLen dst _) st = Inl (set_slot dst (of_nat (length (packet ivk))) st)"
| "exec_inst ivk (Load dst width ptr off order oob _) st =
     (if 0 \<le> off \<and> nat off + width_bytes width \<le> length (packet ivk)
      then Inl (set_slot dst
             (field_val (host_big ivk) order (subslice (nat off) (nat off + width_bytes width) (packet ivk))) st)
      else (case oob of ReturnVerdict v \<Rightarrow> Inr (v, emaps st)))"
| "exec_inst ivk (MapGet dst mp key _) st =
     Inl (set_slot dst (map_get_helper (emaps st) (of_nat mp) (slots st key)) st)"
| "exec_inst ivk (MapHas dst mp key _) st =
     Inl (set_slot dst (map_has_helper (emaps st) (of_nat mp) (slots st key)) st)"
| "exec_inst ivk (MapSet mp key val _) st =
     Inl (st\<lparr>emaps := map_put (emaps st) (of_nat mp) (slots st key) (slots st val)\<rparr>)"

fun exec_insts :: "invocation \<Rightarrow> inst list \<Rightarrow> ir_state \<Rightarrow> ir_state + i64 \<times> emu_map list" where
  "exec_insts ivk [] st = Inl st"
| "exec_insts ivk (i # is) st =
     (case exec_inst ivk i st of Inl st' \<Rightarrow> exec_insts ivk is st' | Inr r \<Rightarrow> Inr r)"

text \<open>A terminator names the next block or returns the verdict.\<close>

fun exec_term :: "terminator \<Rightarrow> ir_state \<Rightarrow> block_id + i64" where
  "exec_term (Goto target _) st = Inl target"
| "exec_term (BranchNz cond t f _) st = Inl (if slots st cond \<noteq> 0 then t else f)"
| "exec_term (Return verdict _) st = Inr (slots st verdict)"

definition find_block :: "bpf_program \<Rightarrow> block_id \<Rightarrow> block option" where
  "find_block prog b = find (\<lambda>blk. block_label blk = b) (blocks prog)"

text \<open>
  At most \<open>fuel\<close> blocks are executed; \<open>None\<close> is a run that needs more, or that reaches a label
  with no block.
\<close>

fun run_ir :: "nat \<Rightarrow> invocation \<Rightarrow> bpf_program \<Rightarrow> block_id \<Rightarrow> ir_state \<Rightarrow> (i64 \<times> emu_map list) option" where
  "run_ir 0 ivk prog b st = None"
| "run_ir (Suc fuel) ivk prog b st =
     (case find_block prog b of
        None \<Rightarrow> None
      | Some blk \<Rightarrow>
          (case exec_insts ivk (insts blk) st of
             Inr r \<Rightarrow> Some r
           | Inl st' \<Rightarrow>
               (case exec_term (blk_term blk) st' of
                  Inl next \<Rightarrow> run_ir fuel ivk prog next st'
                | Inr v \<Rightarrow> Some (v, emaps st'))))"

lemma run_ir_mono:
  "run_ir n ivk prog b st = Some r \<Longrightarrow> n \<le> m \<Longrightarrow> run_ir m ivk prog b st = Some r"
proof (induction n arbitrary: m b st)
  case (Suc n)
  then obtain k where "m = Suc k" "n \<le> k" by (cases m) auto
  with Suc show ?case by (auto split: option.splits sum.splits)
qed simp

section \<open>Properties\<close>

text \<open>
  C32. The emulated maps keep their invariant through every sequence of updates from the declared
  state: no key is stored twice, a hash map never exceeds its capacity, and an array map holds exactly
  the keys of its range.
\<close>

theorem emulated_maps_invariant:
  assumes "list_all (\<lambda>d. max_entries d < 2 ^ 32) defs"
  shows "list_all emu_ok (map_sets ops (map emu_map_new defs))"
  using map_sets_ok [OF maps_new_ok [OF assms], of ops] by (auto simp: maps_ok_def list_all_iff)

theorem emulated_maps_invariant_witness:
  "list_all emu_ok (map_sets [(0, 7, 1), (0, 9, 2), (0, 7, 3)]
     (map emu_map_new [\<lparr>map_name = ''m'', map_idx = 0, map_kind = Hash, key_size = 8, value_size = 8,
        max_entries = 1, concurrency = Shared, map_span = span_empty 0\<rparr>]))"
  by (rule emulated_maps_invariant) simp

text \<open>
  The counter idiom counts: reading a key, adding one and writing it back, \<open>n\<close> times over,
  raises an accepted key by \<open>n\<close> modulo 2 to the 64 and leaves every other key of every map alone.
\<close>

lemma map_counter_counts:
  assumes "maps_ok m" "maps_accept m mp key"
  shows "map_get_helper (((\<lambda>m. snd (map_set_helper m mp key (map_get_helper m mp key + 1))) ^^ n) m) mp key =
      map_get_helper m mp key + of_nat n \<and>
    ((j, l) \<noteq> (mp, key) \<longrightarrow>
      map_get_helper (((\<lambda>m. snd (map_set_helper m mp key (map_get_helper m mp key + 1))) ^^ n) m) j l = map_get_helper m j l)"
proof -
  have "emu.bump mp key = (\<lambda>m. snd (map_set_helper m mp key (map_get_helper m mp key + 1)))"
    by (auto simp: emu.bump_def map_put_def)
  with emu.bumps_count [OF assms, of n] emu.bumps_frame [OF assms(1), of j l mp key n] show ?thesis by simp
qed

end
