(* ===== verification/Bpf_Alloc.thy ===== *)
theory Bpf_Alloc
  imports Bpf_Sem
begin

text \<open>
  Liveness-based stack-slot allocation, \<open>bpf-tcl-ir/src/alloc.rs\<close>: per-block facts, the backward
  liveness fixpoint, the interference graph, the greedy colouring and the rewriting of the program.

  A panic of the source (an index outside a \<open>SlotSet\<close>) is \<open>None\<close>. The fixpoint loop is a
  \<open>partial_function\<close>, so that a loop that never settles would be \<open>None\<close> too; it is shown to
  return on every program.
\<close>

section \<open>Slot sets\<close>

type_synonym slot_set = "bool list"

definition ss_new :: "nat \<Rightarrow> slot_set" where
  "ss_new n = replicate n False"

definition ss_insert :: "slot_set \<Rightarrow> slot_id \<Rightarrow> slot_set" where
  "ss_insert bits s = bits[s := True]"

definition ss_remove :: "slot_set \<Rightarrow> slot_id \<Rightarrow> slot_set" where
  "ss_remove bits s = bits[s := False]"

definition ss_contains :: "slot_set \<Rightarrow> slot_id \<Rightarrow> bool" where
  "ss_contains bits s = bits ! s"

text \<open>The union over \<open>zip\<close>, and whether it changed anything.\<close>

fun ss_union_with :: "slot_set \<Rightarrow> slot_set \<Rightarrow> slot_set \<times> bool" where
  "ss_union_with (a # as) (b # bs) =
     (case ss_union_with as bs of (rest, changed) \<Rightarrow>
        (if b \<and> \<not> a then (True # rest, True) else (a # rest, changed)))"
| "ss_union_with as [] = (as, False)"
| "ss_union_with [] bs = ([], False)"

definition ss_iter :: "slot_set \<Rightarrow> slot_id list" where
  "ss_iter bits = map u32_or_max (filter (\<lambda>i. bits ! i) [0..<length bits])"

section \<open>What an instruction reads and writes\<close>

fun inst_def :: "inst \<Rightarrow> slot_id option" where
  "inst_def (Const dst _ _) = Some dst"
| "inst_def (Copy dst _ _) = Some dst"
| "inst_def (Bin dst _ _ _ _) = Some dst"
| "inst_def (Unop dst _ _ _) = Some dst"
| "inst_def (Cmp dst _ _ _ _) = Some dst"
| "inst_def (CtxPtr dst _) = Some dst"
| "inst_def (CtxLen dst _) = Some dst"
| "inst_def (Load dst _ _ _ _ _ _) = Some dst"
| "inst_def (MapGet dst _ _ _) = Some dst"
| "inst_def (MapHas dst _ _ _) = Some dst"
| "inst_def (MapSet _ _ _ _) = None"

fun inst_uses :: "inst \<Rightarrow> slot_id list" where
  "inst_uses (Const _ _ _) = []"
| "inst_uses (CtxPtr _ _) = []"
| "inst_uses (CtxLen _ _) = []"
| "inst_uses (Copy _ src _) = [src]"
| "inst_uses (Bin _ _ a b _) = [a, b]"
| "inst_uses (Cmp _ _ a b _) = [a, b]"
| "inst_uses (Unop _ _ a _) = [a]"
| "inst_uses (Load _ _ ptr _ _ _ _) = [ptr]"
| "inst_uses (MapGet _ _ key _) = [key]"
| "inst_uses (MapHas _ _ key _) = [key]"
| "inst_uses (MapSet _ key val _) = [key, val]"

fun term_uses :: "terminator \<Rightarrow> slot_id list" where
  "term_uses (Goto _ _) = []"
| "term_uses (BranchNz cond _ _ _) = [cond]"
| "term_uses (Return verdict _) = [verdict]"

fun inst_span :: "inst \<Rightarrow> span" where
  "inst_span (Const _ _ span) = span"
| "inst_span (Copy _ _ span) = span"
| "inst_span (Bin _ _ _ _ span) = span"
| "inst_span (Unop _ _ _ span) = span"
| "inst_span (Cmp _ _ _ _ span) = span"
| "inst_span (CtxPtr _ span) = span"
| "inst_span (CtxLen _ span) = span"
| "inst_span (Load _ _ _ _ _ _ span) = span"
| "inst_span (MapGet _ _ _ span) = span"
| "inst_span (MapHas _ _ _ span) = span"
| "inst_span (MapSet _ _ _ span) = span"

fun remap_inst :: "slot_id list \<Rightarrow> inst \<Rightarrow> inst" where
  "remap_inst m (Const dst val span) = Const (m ! dst) val span"
| "remap_inst m (CtxPtr dst span) = CtxPtr (m ! dst) span"
| "remap_inst m (CtxLen dst span) = CtxLen (m ! dst) span"
| "remap_inst m (Copy dst src span) = Copy (m ! dst) (m ! src) span"
| "remap_inst m (Bin dst op a b span) = Bin (m ! dst) op (m ! a) (m ! b) span"
| "remap_inst m (Cmp dst op a b span) = Cmp (m ! dst) op (m ! a) (m ! b) span"
| "remap_inst m (Unop dst op a span) = Unop (m ! dst) op (m ! a) span"
| "remap_inst m (Load dst width ptr off order oob span) = Load (m ! dst) width (m ! ptr) off order oob span"
| "remap_inst m (MapGet dst mp key span) = MapGet (m ! dst) mp (m ! key) span"
| "remap_inst m (MapHas dst mp key span) = MapHas (m ! dst) mp (m ! key) span"
| "remap_inst m (MapSet mp key val span) = MapSet mp (m ! key) (m ! val) span"

fun remap_term :: "slot_id list \<Rightarrow> terminator \<Rightarrow> terminator" where
  "remap_term m (Goto target span) = Goto target span"
| "remap_term m (BranchNz cond t f span) = BranchNz (m ! cond) t f span"
| "remap_term m (Return verdict span) = Return (m ! verdict) span"

section \<open>Liveness\<close>

record block_facts =
  upward :: slot_set
  defs :: slot_set
  live_in :: slot_set
  live_out :: slot_set
  succs :: "block_id list"

type_synonym facts = "block_id \<rightharpoonup> block_facts"

text \<open>The two closures of the scan: a read, upward exposed unless already written, and a write.\<close>

definition note_use :: "slot_set \<times> slot_set \<Rightarrow> slot_id \<Rightarrow> (slot_set \<times> slot_set) option" where
  "note_use ud s =
     (case ud of (up, def) \<Rightarrow>
        if s < length def then Some (if ss_contains def s then up else ss_insert up s, def) else None)"

fun note_uses :: "slot_set \<times> slot_set \<Rightarrow> slot_id list \<Rightarrow> (slot_set \<times> slot_set) option" where
  "note_uses ud [] = Some ud"
| "note_uses ud (s # ss) = (case note_use ud s of None \<Rightarrow> None | Some ud' \<Rightarrow> note_uses ud' ss)"

definition note_def :: "slot_set \<times> slot_set \<Rightarrow> slot_id option \<Rightarrow> (slot_set \<times> slot_set) option" where
  "note_def ud d =
     (case ud of (up, def) \<Rightarrow>
        (case d of
           None \<Rightarrow> Some ud
         | Some s \<Rightarrow> if s < length def then Some (up, ss_insert def s) else None))"

fun scan_insts :: "slot_set \<times> slot_set \<Rightarrow> inst list \<Rightarrow> (slot_set \<times> slot_set) option" where
  "scan_insts ud [] = Some ud"
| "scan_insts ud (i # is) =
     (case note_uses ud (inst_uses i) of
        None \<Rightarrow> None
      | Some ud1 \<Rightarrow> (case note_def ud1 (inst_def i) of None \<Rightarrow> None | Some ud2 \<Rightarrow> scan_insts ud2 is))"

fun term_succs :: "terminator \<Rightarrow> block_id list" where
  "term_succs (Goto target _) = [target]"
| "term_succs (BranchNz _ t f _) = [t, f]"
| "term_succs (Return _ _) = []"

definition block_fact :: "nat \<Rightarrow> block \<Rightarrow> block_facts option" where
  "block_fact n b =
     (case scan_insts (ss_new n, ss_new n) (insts b) of
        None \<Rightarrow> None
      | Some ud \<Rightarrow>
          (case note_uses ud (term_uses (blk_term b)) of
             None \<Rightarrow> None
           | Some (up, def) \<Rightarrow>
               Some \<lparr>upward = up, defs = def, live_in = ss_new n, live_out = ss_new n,
                     succs = term_succs (blk_term b)\<rparr>))"

fun initial_facts :: "nat \<Rightarrow> block list \<Rightarrow> facts \<Rightarrow> facts option" where
  "initial_facts n [] facts = Some facts"
| "initial_facts n (b # bs) facts =
     (case block_fact n b of
        None \<Rightarrow> None
      | Some f \<Rightarrow> initial_facts n bs (facts(block_label b \<mapsto> f)))"

text \<open>The body of the loop over the blocks, last block first.\<close>

definition union_all :: "slot_set list \<Rightarrow> slot_set \<times> bool \<Rightarrow> slot_set \<times> bool" where
  "union_all = fold (\<lambda>si (out, changed). case ss_union_with out si of (out', c) \<Rightarrow> (out', changed \<or> c))"

definition visit_block :: "block_id \<Rightarrow> facts \<times> bool \<Rightarrow> facts \<times> bool" where
  "visit_block b fc =
     (case fc of (facts, changed) \<Rightarrow>
        (case facts b of
           None \<Rightarrow> (facts, changed)
         | Some bf \<Rightarrow>
             (let succ_ins = map live_in (List.map_filter facts (succs bf));
                  (out, changed1) = union_all succ_ins (live_out bf, changed);
                  new_in = fold (\<lambda>s li. if ss_contains (defs bf) s then li else ss_insert li s)
                             (ss_iter out) (upward bf);
                  bf1 = bf\<lparr>live_out := out\<rparr>
              in if new_in \<noteq> live_in bf1 then (facts(b \<mapsto> bf1\<lparr>live_in := new_in\<rparr>), True)
                 else (facts(b \<mapsto> bf1), changed1))))"

definition visit_blocks :: "block_id list \<Rightarrow> facts \<Rightarrow> facts \<times> bool" where
  "visit_blocks block_ids facts = fold visit_block (rev block_ids) (facts, False)"

partial_function (option) liveness_loop :: "block_id list \<Rightarrow> facts \<Rightarrow> facts option" where
  "liveness_loop block_ids facts =
     (case visit_blocks block_ids facts of (facts', changed) \<Rightarrow>
        if changed then liveness_loop block_ids facts' else Some facts')"

definition solve_liveness :: "bpf_program \<Rightarrow> nat \<Rightarrow> facts option" where
  "solve_liveness prog n =
     (case initial_facts n (blocks prog) Map.empty of
        None \<Rightarrow> None
      | Some facts \<Rightarrow> liveness_loop (map block_label (blocks prog)) facts)"

section \<open>Interference\<close>

definition add_edge :: "slot_set list \<Rightarrow> slot_id \<Rightarrow> slot_id \<Rightarrow> slot_set list" where
  "add_edge g a b =
     (if a \<noteq> b then
        (let g1 = g[a := ss_insert (g ! a) b] in g1[b := ss_insert (g1 ! b) a])
      else g)"

definition interfere_inst :: "inst \<Rightarrow> slot_set list \<times> slot_set \<Rightarrow> slot_set list \<times> slot_set" where
  "interfere_inst i gl =
     (case gl of (g, live) \<Rightarrow>
        (let (g1, live1) =
           (case inst_def i of
              Some d \<Rightarrow> (fold (\<lambda>l g. add_edge g d l) (ss_iter live) g, ss_remove live d)
            | None \<Rightarrow> (g, live))
         in (g1, fold (\<lambda>s live. ss_insert live s) (inst_uses i) live1)))"

definition interfere_block :: "facts \<Rightarrow> block \<Rightarrow> slot_set list \<Rightarrow> slot_set list" where
  "interfere_block facts b g =
     fst (fold interfere_inst (rev (insts b))
       (g, fold (\<lambda>s live. ss_insert live s) (term_uses (blk_term b))
             (live_out (the (facts (block_label b))))))"

fun interfere_all :: "slot_id list \<Rightarrow> slot_set list \<Rightarrow> slot_set list" where
  "interfere_all [] g = g"
| "interfere_all (a # rest) g = interfere_all rest (fold (\<lambda>b g. add_edge g a b) rest g)"

definition build_interference ::
    "bpf_program \<Rightarrow> facts \<Rightarrow> slot_id list \<Rightarrow> nat \<Rightarrow> slot_set list" where
  "build_interference prog facts entry_zero n =
     interfere_all entry_zero
       (fold (interfere_block facts) (blocks prog) (replicate n (ss_new n)))"

section \<open>Colouring\<close>

definition MAX_SLOTS :: nat where
  "MAX_SLOTS = 64"

record colouring =
  col_of :: "slot_id list"
  col_types :: "ty list"

text \<open>One turn of the loop over the virtual slots: the colours so far, their types, the overflow.\<close>

definition colour_step ::
    "slot_set list \<Rightarrow> nat \<times> ty \<Rightarrow> slot_id list \<times> ty list \<times> slot_id option
      \<Rightarrow> slot_id list \<times> ty list \<times> slot_id option" where
  "colour_step interferes vt st =
     (case vt of (v, ty) \<Rightarrow> case st of (of', types, first_overflow) \<Rightarrow>
        (let taken = fold (\<lambda>ni taken. if ni < v then taken[of' ! ni := True] else taken)
                       (ss_iter (interferes ! v)) (replicate (length types) False);
             (picked, types1) =
               (case find (\<lambda>c. \<not> taken ! c \<and> types ! c = ty) [0..<length types] of
                  Some c \<Rightarrow> (c, types)
                | None \<Rightarrow> (length types, types @ [ty]));
             overflow1 =
               (if MAX_SLOTS \<le> picked \<and> first_overflow = None then Some (u32_or_max v) else first_overflow)
         in (of' @ [u32_or_max picked], types1, overflow1)))"

definition colour_error :: "bpf_program \<Rightarrow> nat \<Rightarrow> nat \<Rightarrow> slot_id \<Rightarrow> bpf_error" where
  "colour_error prog needed n over =
     bpf_error_new StackOverflow
       (case find (\<lambda>i. inst_def i = Some over) (concat (map insts (blocks prog))) of
          None \<Rightarrow> span_empty 0
        | Some i \<Rightarrow> inst_span i)
       (''program needs '' @ show_nat needed @ '' stack slots even after liveness-based reuse ('' @
        show_nat n @ '' values before reuse; the 512-byte eBPF stack holds '' @ show_nat MAX_SLOTS @
        '') '' @ [CHR 0xE2, CHR 0x80, CHR 0x94] @
        '' split the handler, or shrink the unrolled `loop`/`use` expansion that defines this value'')"

definition colour :: "bpf_program \<Rightarrow> slot_set list \<Rightarrow> nat \<Rightarrow> bpf_error + colouring" where
  "colour prog interferes n =
     (case fold (colour_step interferes) (enumerate 0 (slot_types prog)) ([], [], None) of
        (of', types, Some over) \<Rightarrow> Inl (colour_error prog (length types) n over)
      | (of', types, None) \<Rightarrow> Inr \<lparr>col_of = of', col_types = types\<rparr>)"

section \<open>The pass\<close>

definition remap_block :: "slot_id list \<Rightarrow> block \<Rightarrow> block" where
  "remap_block m b =
     b\<lparr>insts := map (remap_inst m) (insts b), blk_term := remap_term m (blk_term b)\<rparr>"

definition entry_zero_slots :: "bpf_program \<Rightarrow> facts \<Rightarrow> nat \<Rightarrow> slot_id list" where
  "entry_zero_slots prog facts n =
     ss_iter (case facts (entry prog) of None \<Rightarrow> ss_new n | Some f \<Rightarrow> live_in f)"

definition assign_slots :: "bpf_program \<Rightarrow> (bpf_error + bpf_program) option" where
  "assign_slots prog =
     (let n = length (slot_types prog); prog1 = prog\<lparr>raw_slot_count := u32_or_max n\<rparr> in
      if n = 0 then Some (Inr (prog1\<lparr>num_slots := 0, zero_init := []\<rparr>))
      else
        (case solve_liveness prog n of
           None \<Rightarrow> None
         | Some facts \<Rightarrow>
             (let entry_zero = entry_zero_slots prog facts n;
                  interferes = build_interference prog facts entry_zero n
              in case colour prog interferes n of
                   Inl e \<Rightarrow> Some (Inl e)
                 | Inr c \<Rightarrow>
                     Some (Inr (prog1\<lparr>blocks := map (remap_block (col_of c)) (blocks prog),
                       zero_init := remdups_adj (sort (map (\<lambda>s. col_of c ! s) entry_zero)),
                       num_slots := u32_or_max (length (col_types c)),
                       slot_types := col_types c\<rparr>)))))"

section \<open>Slot sets as sets\<close>

definition slots_of :: "slot_set \<Rightarrow> slot_id set" where
  "slots_of bits = {s. s < length bits \<and> bits ! s}"

named_theorems slot_sets \<open>slot-set operations read as set operations\<close>

lemma slots_of_bounded: "s \<in> slots_of bits \<Longrightarrow> s < length bits"
  by (simp add: slots_of_def)

lemma finite_slots_of [simp]: "finite (slots_of bits)"
  by (simp add: slots_of_def)

lemma card_slots_of_le: "card (slots_of bits) \<le> length bits"
proof -
  have "slots_of bits \<subseteq> {0..<length bits}" by (auto simp: slots_of_def)
  from card_mono [OF _ this] show ?thesis by simp
qed

lemma slots_of_eqI: "length a = length b \<Longrightarrow> slots_of a = slots_of b \<Longrightarrow> a = b"
  by (rule nth_equalityI) (auto simp: slots_of_def set_eq_iff)

lemma slots_of_new [slot_sets]: "slots_of (ss_new n) = {}"
  by (simp add: slots_of_def ss_new_def)

lemma length_ss [simp]: "length (ss_new n) = n" "length (ss_insert bits s) = length bits"
  "length (ss_remove bits s) = length bits"
  by (simp_all add: ss_new_def ss_insert_def ss_remove_def)

lemma slots_of_insert [slot_sets]: "s < length bits \<Longrightarrow> slots_of (ss_insert bits s) = insert s (slots_of bits)"
  by (auto simp: slots_of_def ss_insert_def nth_list_update)

lemma slots_of_remove [slot_sets]: "slots_of (ss_remove bits s) = slots_of bits - {s}"
  by (cases "s < length bits") (auto simp: slots_of_def ss_remove_def nth_list_update split: if_splits)

lemma ss_contains_iff [slot_sets]: "s < length bits \<Longrightarrow> ss_contains bits s \<longleftrightarrow> s \<in> slots_of bits"
  by (simp add: slots_of_def ss_contains_def)

lemma ss_union_with_map2:
  "length a = length b \<Longrightarrow> ss_union_with a b = (map2 (\<or>) a b, map2 (\<or>) a b \<noteq> a)"
  by (induction a b rule: list_induct2) auto

lemma ss_union_with_facts:
  assumes "length a = length b"
  shows "length (fst (ss_union_with a b)) = length a \<and>
     slots_of (fst (ss_union_with a b)) = slots_of a \<union> slots_of b \<and>
     (snd (ss_union_with a b) \<longleftrightarrow> fst (ss_union_with a b) \<noteq> a)"
  using assms by (auto simp: ss_union_with_map2 slots_of_def)

lemma ss_iter_filter: "length bits \<le> 2 ^ 32 \<Longrightarrow> ss_iter bits = filter (\<lambda>i. bits ! i) [0..<length bits]"
  unfolding ss_iter_def by (rule map_idI) simp

lemma set_ss_iter [slot_sets]: "length bits \<le> 2 ^ 32 \<Longrightarrow> set (ss_iter bits) = slots_of bits"
  by (auto simp: ss_iter_filter slots_of_def)

lemma fold_insert_facts:
  "\<forall>s\<in>set ss. s < length bits \<Longrightarrow>
     length (fold (\<lambda>s b. ss_insert b s) ss bits) = length bits \<and>
     slots_of (fold (\<lambda>s b. ss_insert b s) ss bits) = set ss \<union> slots_of bits"
  by (induction ss arbitrary: bits) (auto simp: slot_sets)

lemma fold_insert_unless_facts:
  "\<forall>s\<in>set ss. s < length bits \<and> s < length d \<Longrightarrow>
     length (fold (\<lambda>s li. if ss_contains d s then li else ss_insert li s) ss bits) = length bits \<and>
     slots_of (fold (\<lambda>s li. if ss_contains d s then li else ss_insert li s) ss bits) =
       (set ss - slots_of d) \<union> slots_of bits"
  by (induction ss arbitrary: bits) (auto simp: slot_sets)

section \<open>Upward-exposed uses and liveness inside a block\<close>

definition def_set :: "inst \<Rightarrow> slot_id set" where
  "def_set i = (case inst_def i of None \<Rightarrow> {} | Some d \<Rightarrow> {d})"

definition defs_of :: "inst list \<Rightarrow> slot_id set" where
  "defs_of is = \<Union> (def_set ` set is)"

fun exposed :: "slot_id set \<Rightarrow> inst list \<Rightarrow> slot_id set" where
  "exposed D [] = {}"
| "exposed D (i # is) = (set (inst_uses i) - D) \<union> exposed (D \<union> def_set i) is"

fun lives :: "inst list \<Rightarrow> slot_id set \<Rightarrow> slot_id set" where
  "lives [] T = T"
| "lives (i # is) T = (lives is T - def_set i) \<union> set (inst_uses i)"

lemma lives_exposed: "lives is T - D = exposed D is \<union> (T - (D \<union> defs_of is))"
proof (induction "is" arbitrary: D)
  case (Cons i "is")
  have "lives (i # is) T - D = (lives is T - (D \<union> def_set i)) \<union> (set (inst_uses i) - D)" by auto
  also have "\<dots> = exposed D (i # is) \<union> (T - (D \<union> defs_of (i # is)))"
    unfolding Cons.IH by (auto simp: defs_of_def)
  finally show ?case .
qed (simp add: defs_of_def)

definition inst_slots :: "inst \<Rightarrow> slot_id set" where
  "inst_slots i = def_set i \<union> set (inst_uses i)"

definition block_slots :: "block \<Rightarrow> slot_id set" where
  "block_slots b = \<Union> (inst_slots ` set (insts b)) \<union> set (term_uses (blk_term b))"

text \<open>Every slot an instruction or terminator names has a declared type.\<close>

definition slots_in_range :: "bpf_program \<Rightarrow> bool" where
  "slots_in_range prog \<longleftrightarrow> (\<forall>b\<in>set (blocks prog). \<forall>s\<in>block_slots b. s < length (slot_types prog))"

lemma note_uses_iff:
  "length up = n \<Longrightarrow> length def = n \<Longrightarrow>
     (if \<forall>s\<in>set ss. s < n
      then \<exists>up'. note_uses (up, def) ss = Some (up', def) \<and> length up' = n \<and>
             slots_of up' = slots_of up \<union> (set ss - slots_of def)
      else note_uses (up, def) ss = None)"
proof (induction ss arbitrary: up)
  case (Cons s ss)
  show ?case
  proof (cases "s < n")
    case True
    with Cons.prems have step: "note_use (up, def) s = Some (if s \<in> slots_of def then up else ss_insert up s, def)"
      by (simp add: note_use_def slot_sets)
    let ?up = "if s \<in> slots_of def then up else ss_insert up s"
    from Cons.IH [of ?up] Cons.prems True show ?thesis
      by (auto simp: step slot_sets split: if_splits)
  qed (use Cons.prems in \<open>auto simp: note_use_def\<close>)
qed simp

lemma scan_insts_iff:
  "length up = n \<Longrightarrow> length def = n \<Longrightarrow>
     (if \<forall>i\<in>set is. \<forall>s\<in>inst_slots i. s < n
      then \<exists>up' def'. scan_insts (up, def) is = Some (up', def') \<and> length up' = n \<and> length def' = n \<and>
             slots_of up' = slots_of up \<union> exposed (slots_of def) is \<and>
             slots_of def' = slots_of def \<union> defs_of is
      else scan_insts (up, def) is = None)"
proof (induction "is" arbitrary: up "def")
  case (Cons i "is")
  note uses = note_uses_iff [OF Cons.prems, of "inst_uses i"]
  show ?case
  proof (cases "\<forall>s\<in>inst_slots i. s < n")
    case True
    then have "\<forall>s\<in>set (inst_uses i). s < n" by (simp add: inst_slots_def)
    with uses obtain up1 where up1: "note_uses (up, def) (inst_uses i) = Some (up1, def)" "length up1 = n"
        "slots_of up1 = slots_of up \<union> (set (inst_uses i) - slots_of def)" by auto
    obtain def1 where def1: "note_def (up1, def) (inst_def i) = Some (up1, def1)" "length def1 = n"
        "slots_of def1 = slots_of def \<union> def_set i"
      using True Cons.prems
      by (cases "inst_def i") (auto simp: note_def_def def_set_def inst_slots_def slot_sets)
    from Cons.IH [OF up1(2) def1(2)] True show ?thesis
      by (auto simp: up1(1,3) def1(1,3) defs_of_def Un_assoc split: if_splits)
  next
    case False
    then have "note_uses (up, def) (inst_uses i) = None \<or>
       (\<exists>up1. note_uses (up, def) (inst_uses i) = Some (up1, def) \<and> note_def (up1, def) (inst_def i) = None)"
      using uses Cons.prems
      by (auto simp: inst_slots_def def_set_def note_def_def split: if_splits option.splits)
    with False show ?thesis by (auto split: option.splits)
  qed
qed (simp add: defs_of_def)

lemma block_fact_iff:
  "if \<forall>s\<in>block_slots b. s < n
   then \<exists>f. block_fact n b = Some f \<and> length (upward f) = n \<and> length (defs f) = n \<and>
          live_in f = ss_new n \<and> live_out f = ss_new n \<and> succs f = term_succs (blk_term b) \<and>
          slots_of (defs f) = defs_of (insts b) \<and>
          slots_of (upward f) = exposed {} (insts b) \<union> (set (term_uses (blk_term b)) - defs_of (insts b))
   else block_fact n b = None"
proof -
  note scan = scan_insts_iff [of "ss_new n" n "ss_new n" "insts b"]
  show ?thesis
  proof (cases "\<forall>i\<in>set (insts b). \<forall>s\<in>inst_slots i. s < n")
    case True
    with scan obtain up def where ud: "scan_insts (ss_new n, ss_new n) (insts b) = Some (up, def)"
        "length up = n" "length def = n" "slots_of up = exposed {} (insts b)" "slots_of def = defs_of (insts b)"
      by (auto simp: slot_sets)
    from note_uses_iff [OF ud(2,3), of "term_uses (blk_term b)"] True show ?thesis
      by (auto simp: block_fact_def ud block_slots_def split: if_splits)
  next
    case False
    with scan have "scan_insts (ss_new n, ss_new n) (insts b) = None" by auto
    with False show ?thesis by (auto simp: block_fact_def block_slots_def)
  qed
qed


section \<open>The liveness fixpoint\<close>

text \<open>
  \<open>flow\<close> is the transfer function the loop body applies to one block; the body reports a change
  exactly when it changes the block's facts.
\<close>

definition flow :: "facts \<Rightarrow> block_facts \<Rightarrow> block_facts" where
  "flow facts bf =
     (let out = fst (union_all (map live_in (List.map_filter facts (succs bf))) (live_out bf, False))
      in bf\<lparr>live_out := out,
            live_in := fold (\<lambda>s li. if ss_contains (defs bf) s then li else ss_insert li s)
                         (ss_iter out) (upward bf)\<rparr>)"

definition facts_wf :: "nat \<Rightarrow> facts \<Rightarrow> bool" where
  "facts_wf n facts \<longleftrightarrow> n \<le> 2 ^ 32 \<and>
     (\<forall>b bf. facts b = Some bf \<longrightarrow> length (upward bf) = n \<and> length (defs bf) = n \<and>
        length (live_in bf) = n \<and> length (live_out bf) = n \<and>
        slots_of (live_in bf) \<subseteq> slots_of (upward bf) \<union> (slots_of (live_out bf) - slots_of (defs bf)))"

lemma union_all_facts:
  "\<forall>si\<in>set sis. length si = length out \<Longrightarrow>
     length (fst (union_all sis (out, c))) = length out \<and>
     slots_of (fst (union_all sis (out, c))) = slots_of out \<union> \<Union> (slots_of ` set sis) \<and>
     (snd (union_all sis (out, c)) \<longleftrightarrow> c \<or> fst (union_all sis (out, c)) \<noteq> out)"
proof (induction sis arbitrary: out c)
  case (Cons si sis)
  obtain out1 c1 where u: "ss_union_with out si = (out1, c1)" by (cases "ss_union_with out si")
  with ss_union_with_facts [of out si] Cons.prems
  have f: "length out1 = length out" "slots_of out1 = slots_of out \<union> slots_of si" "c1 \<longleftrightarrow> out1 \<noteq> out"
    by auto
  have step: "union_all (si # sis) (out, c) = union_all sis (out1, c \<or> c1)"
    by (simp add: union_all_def u)
  have IH: "length (fst (union_all sis (out1, c \<or> c1))) = length out1"
      "slots_of (fst (union_all sis (out1, c \<or> c1))) = slots_of out1 \<union> \<Union> (slots_of ` set sis)"
      "snd (union_all sis (out1, c \<or> c1)) \<longleftrightarrow> (c \<or> c1) \<or> fst (union_all sis (out1, c \<or> c1)) \<noteq> out1"
    using Cons.IH [of out1 "c \<or> c1"] Cons.prems f(1) by auto
  have "fst (union_all sis (out1, c \<or> c1)) = out1" if "fst (union_all sis (out1, c \<or> c1)) = out"
    using IH(2) f that by (intro slots_of_eqI) (auto simp: IH(1))
  with IH f show ?case unfolding step by auto
qed (simp add: union_all_def)

lemma union_all_fst: "fst (union_all sis (out, c)) = fst (union_all sis (out, c'))"
proof (induction sis arbitrary: out c c')
  case (Cons si sis)
  obtain out1 c1 where u: "ss_union_with out si = (out1, c1)" by (cases "ss_union_with out si")
  from Cons [of out1 "c \<or> c1" "c' \<or> c1"] show ?case by (simp add: union_all_def u)
qed (simp add: union_all_def)

lemma succ_live_length:
  "facts_wf n facts \<Longrightarrow> \<forall>si\<in>set (map live_in (List.map_filter facts ss)). length si = n"
  by (auto simp: facts_wf_def map_filter_def)

lemma flow_facts:
  assumes wf: "facts_wf n facts" and bf: "facts b = Some bf"
  shows "length (live_out (flow facts bf)) = n" "length (live_in (flow facts bf)) = n"
    "slots_of (live_out (flow facts bf)) =
       slots_of (live_out bf) \<union> (\<Union>s\<in>set (succs bf). case facts s of None \<Rightarrow> {} | Some f \<Rightarrow> slots_of (live_in f))"
    "slots_of (live_in (flow facts bf)) =
       slots_of (upward bf) \<union> (slots_of (live_out (flow facts bf)) - slots_of (defs bf))"
    "upward (flow facts bf) = upward bf" "defs (flow facts bf) = defs bf" "succs (flow facts bf) = succs bf"
proof -
  let ?sis = "map live_in (List.map_filter facts (succs bf))"
  let ?out = "fst (union_all ?sis (live_out bf, False))"
  from wf bf have len: "n \<le> 2 ^ 32" "length (upward bf) = n" "length (defs bf) = n" "length (live_out bf) = n"
    by (auto simp: facts_wf_def)
  have out: "length ?out = n" "slots_of ?out = slots_of (live_out bf) \<union> \<Union> (slots_of ` set ?sis)"
    using union_all_facts [of ?sis "live_out bf" False] succ_live_length [OF wf, of "succs bf"] len by auto
  have sis: "\<Union> (slots_of ` set ?sis) =
      (\<Union>s\<in>set (succs bf). case facts s of None \<Rightarrow> {} | Some f \<Rightarrow> slots_of (live_in f))"
    by (fastforce simp: map_filter_def split: option.splits)
  have iter: "set (ss_iter ?out) = slots_of ?out" using out len by (simp add: set_ss_iter)
  have "\<forall>s\<in>set (ss_iter ?out). s < length (upward bf) \<and> s < length (defs bf)"
    unfolding iter using out(1) len by (auto dest: slots_of_bounded)
  from fold_insert_unless_facts [OF this] iter out sis len
  show "length (live_out (flow facts bf)) = n" "length (live_in (flow facts bf)) = n"
    "slots_of (live_out (flow facts bf)) =
       slots_of (live_out bf) \<union> (\<Union>s\<in>set (succs bf). case facts s of None \<Rightarrow> {} | Some f \<Rightarrow> slots_of (live_in f))"
    "slots_of (live_in (flow facts bf)) =
       slots_of (upward bf) \<union> (slots_of (live_out (flow facts bf)) - slots_of (defs bf))"
    "upward (flow facts bf) = upward bf" "defs (flow facts bf) = defs bf" "succs (flow facts bf) = succs bf"
    by (auto simp: flow_def Let_def)
qed

lemma visit_block_flow:
  assumes wf: "facts_wf n facts" and bf: "facts b = Some bf"
  shows "visit_block b (facts, c) = (facts(b \<mapsto> flow facts bf), c \<or> flow facts bf \<noteq> bf)"
proof -
  let ?sis = "map live_in (List.map_filter facts (succs bf))"
  let ?out = "fst (union_all ?sis (live_out bf, c))"
  let ?in = "fold (\<lambda>s li. if ss_contains (defs bf) s then li else ss_insert li s) (ss_iter ?out) (upward bf)"
  have fl: "flow facts bf = bf\<lparr>live_out := ?out, live_in := ?in\<rparr>"
    unfolding flow_def Let_def union_all_fst [of ?sis "live_out bf" False c] ..
  have "snd (union_all ?sis (live_out bf, c)) \<longleftrightarrow> c \<or> ?out \<noteq> live_out bf"
    using union_all_facts [of ?sis "live_out bf" c] succ_live_length [OF wf, of "succs bf"] wf bf
    by (auto simp: facts_wf_def)
  moreover obtain out ch where oc: "union_all ?sis (live_out bf, c) = (out, ch)"
    by (cases "union_all ?sis (live_out bf, c)")
  moreover have "bf\<lparr>live_out := o', live_in := i'\<rparr> = bf \<longleftrightarrow> o' = live_out bf \<and> i' = live_in bf" for o' i'
    by (cases bf) auto
  ultimately show ?thesis
    by (auto simp: visit_block_def bf fl Let_def)
qed

lemma facts_wf_flow:
  "facts_wf n facts \<Longrightarrow> facts b = Some bf \<Longrightarrow> facts_wf n (facts(b \<mapsto> flow facts bf))"
  using flow_facts [of n facts b bf] by (auto simp: facts_wf_def)


text \<open>The slots known live so far; every reported change adds one.\<close>

definition weight :: "block_id list \<Rightarrow> facts \<Rightarrow> nat" where
  "weight ids facts = (\<Sum>b\<in>set ids. case facts b of None \<Rightarrow> 0
     | Some bf \<Rightarrow> card (slots_of (live_in bf)) + card (slots_of (live_out bf)))"

lemma weight_bound:
  assumes "facts_wf n facts"
  shows "weight ids facts \<le> 2 * n * card (set ids)"
proof -
  have "(case facts b of None \<Rightarrow> 0
     | Some bf \<Rightarrow> card (slots_of (live_in bf)) + card (slots_of (live_out bf))) \<le> 2 * n" for b
  proof (cases "facts b")
    case (Some bf)
    with assms have "length (live_in bf) = n" "length (live_out bf) = n" by (auto simp: facts_wf_def)
    then show ?thesis
      using Some card_slots_of_le [of "live_in bf"] card_slots_of_le [of "live_out bf"] by simp
  qed simp
  then show ?thesis
    unfolding weight_def using sum_bounded_above [of "set ids" _ "2 * n"] by (simp add: mult.commute)
qed

lemma flow_grows:
  assumes wf: "facts_wf n facts" and bf: "facts b = Some bf" and diff: "flow facts bf \<noteq> bf"
  shows "card (slots_of (live_in bf)) + card (slots_of (live_out bf))
    < card (slots_of (live_in (flow facts bf))) + card (slots_of (live_out (flow facts bf)))"
proof -
  note fl = flow_facts [OF wf bf]
  from wf bf have len: "length (live_in bf) = n" "length (live_out bf) = n"
    and inv: "slots_of (live_in bf) \<subseteq> slots_of (upward bf) \<union> (slots_of (live_out bf) - slots_of (defs bf))"
    by (auto simp: facts_wf_def)
  have out: "slots_of (live_out bf) \<subseteq> slots_of (live_out (flow facts bf))" by (auto simp: fl(3))
  moreover have inn: "slots_of (live_in bf) \<subseteq> slots_of (live_in (flow facts bf))"
    using inv out by (auto simp: fl(4))
  moreover have "slots_of (live_in bf) \<noteq> slots_of (live_in (flow facts bf)) \<or>
      slots_of (live_out bf) \<noteq> slots_of (live_out (flow facts bf))"
  proof (rule ccontr)
    assume "\<not> ?thesis"
    then have "live_in (flow facts bf) = live_in bf" "live_out (flow facts bf) = live_out bf"
      using len fl(1,2) by (auto intro!: slots_of_eqI)
    with fl(5-7) have "flow facts bf = bf" by (cases bf) (auto simp: flow_def Let_def)
    with diff show False by simp
  qed
  ultimately show ?thesis
    using card_mono [OF finite_slots_of inn] card_mono [OF finite_slots_of out]
      card_subset_eq [OF finite_slots_of inn] card_subset_eq [OF finite_slots_of out] by linarith
qed

lemma weight_update:
  assumes "b \<in> set ids" "facts b = Some bf"
  shows "weight ids (facts(b \<mapsto> bf')) + (card (slots_of (live_in bf)) + card (slots_of (live_out bf))) =
    weight ids facts + (card (slots_of (live_in bf')) + card (slots_of (live_out bf')))"
  unfolding weight_def using assms by (simp add: sum.remove [of "set ids" b])

lemma visit_fold:
  assumes "facts_wf n facts" "Inv facts" "set bs \<subseteq> set ids"
    and keep: "\<And>facts b bf. facts_wf n facts \<Longrightarrow> Inv facts \<Longrightarrow> facts b = Some bf \<Longrightarrow> Inv (facts(b \<mapsto> flow facts bf))"
    and "fold visit_block bs (facts, c) = (facts', c')"
  shows "facts_wf n facts' \<and> Inv facts' \<and> weight ids facts \<le> weight ids facts' \<and>
    (c' \<longrightarrow> c \<or> weight ids facts < weight ids facts') \<and>
    (\<not> c' \<longrightarrow> \<not> c \<and> facts' = facts \<and> (\<forall>b\<in>set bs. \<forall>bf. facts b = Some bf \<longrightarrow> flow facts bf = bf))"
  using assms(1-3,5)
proof (induction bs arbitrary: facts c)
  case (Cons b bs)
  show ?case
  proof (cases "facts b")
    case None
    then have "visit_block b (facts, c) = (facts, c)" by (simp add: visit_block_def)
    with Cons None show ?thesis by auto
  next
    case (Some bf)
    define g where "g = facts(b \<mapsto> flow facts bf)"
    note wf = Cons.prems(1)
    have visit: "visit_block b (facts, c) = (g, c \<or> flow facts bf \<noteq> bf)"
      unfolding g_def by (rule visit_block_flow [OF wf Some])
    with Cons.prems have rest: "fold visit_block bs (g, c \<or> flow facts bf \<noteq> bf) = (facts', c')" by simp
    have wg: "facts_wf n g" and ig: "Inv g"
      unfolding g_def by (rule facts_wf_flow [OF wf Some], rule keep [OF wf Cons.prems(2) Some])
    note IH = Cons.IH [OF wg ig _ rest]
    have grow: "flow facts bf \<noteq> bf \<Longrightarrow> weight ids facts < weight ids g"
      using weight_update [of b ids facts bf "flow facts bf"] flow_grows [OF wf Some] Some Cons.prems(3) by (simp add: g_def)
    have same: "flow facts bf = bf \<Longrightarrow> g = facts" using Some by (auto simp: g_def)
    show ?thesis using IH grow same Some Cons.prems(3) by (cases "flow facts bf = bf") auto
  qed
qed auto

lemma liveness_loop_total:
  assumes "facts_wf n facts" "Inv facts"
    and keep: "\<And>facts b bf. facts_wf n facts \<Longrightarrow> Inv facts \<Longrightarrow> facts b = Some bf \<Longrightarrow> Inv (facts(b \<mapsto> flow facts bf))"
  shows "\<exists>facts'. liveness_loop ids facts = Some facts' \<and> facts_wf n facts' \<and> Inv facts' \<and>
    (\<forall>b\<in>set ids. \<forall>bf. facts' b = Some bf \<longrightarrow> flow facts' bf = bf)"
  using assms(1,2)
proof (induction "2 * n * card (set ids) - weight ids facts" arbitrary: facts rule: less_induct)
  case less
  obtain facts' c' where v: "visit_blocks ids facts = (facts', c')" by (cases "visit_blocks ids facts")
  then have fold: "fold visit_block (rev ids) (facts, False) = (facts', c')" by (simp add: visit_blocks_def)
  have vf: "facts_wf n facts' \<and> Inv facts' \<and> weight ids facts \<le> weight ids facts' \<and>
    (c' \<longrightarrow> False \<or> weight ids facts < weight ids facts') \<and>
    (\<not> c' \<longrightarrow> \<not> False \<and> facts' = facts \<and>
      (\<forall>b\<in>set (rev ids). \<forall>bf. facts b = Some bf \<longrightarrow> flow facts bf = bf))"
    by (rule visit_fold [where Inv = Inv, OF less.prems _ keep fold]) simp_all
  show ?case
  proof (cases c')
    case True
    have "weight ids facts < weight ids facts'" "facts_wf n facts'" "Inv facts'" using vf True by simp_all
    moreover have "weight ids facts' \<le> 2 * n * card (set ids)" using calculation by (intro weight_bound)
    ultimately have "2 * n * card (set ids) - weight ids facts' < 2 * n * card (set ids) - weight ids facts"
      "facts_wf n facts'" "Inv facts'" by auto
    then have "\<exists>facts''. liveness_loop ids facts' = Some facts'' \<and> facts_wf n facts'' \<and> Inv facts'' \<and>
        (\<forall>b\<in>set ids. \<forall>bf. facts'' b = Some bf \<longrightarrow> flow facts'' bf = bf)"
      by (rule less.hyps)
    with True v show ?thesis by (simp add: liveness_loop.simps [of ids facts])
  next
    case False
    with vf have "facts' = facts" "\<forall>b\<in>set ids. \<forall>bf. facts b = Some bf \<longrightarrow> flow facts bf = bf" by simp_all
    with False v less.prems show ?thesis by (simp add: liveness_loop.simps [of ids facts])
  qed
qed


section \<open>Liveness is exact\<close>

text \<open>
  \<open>may_read prog b s\<close>: on some path that starts at block \<open>b\<close>, slot \<open>s\<close> is read before it is
  written.
\<close>

definition block_upward :: "block \<Rightarrow> slot_id set" where
  "block_upward blk = exposed {} (insts blk) \<union> (set (term_uses (blk_term blk)) - defs_of (insts blk))"

inductive may_read :: "bpf_program \<Rightarrow> block_id \<Rightarrow> slot_id \<Rightarrow> bool" for prog where
  here: "find_block prog b = Some blk \<Longrightarrow> s \<in> block_upward blk \<Longrightarrow> may_read prog b s"
| later: "find_block prog b = Some blk \<Longrightarrow> s \<notin> defs_of (insts blk) \<Longrightarrow>
    b' \<in> set (term_succs (blk_term blk)) \<Longrightarrow> may_read prog b' s \<Longrightarrow> may_read prog b s"

inductive_cases may_readE: "may_read prog b s"

definition distinct_labels :: "bpf_program \<Rightarrow> bool" where
  "distinct_labels prog \<longleftrightarrow> distinct (map block_label (blocks prog))"

lemma find_block_label: "find_block prog b = Some blk \<Longrightarrow> block_label blk = b \<and> blk \<in> set (blocks prog)"
  by (auto simp: find_block_def find_Some_iff)

lemma find_block_None: "find_block prog b = None \<longleftrightarrow> b \<notin> block_label ` set (blocks prog)"
  by (auto simp: find_block_def find_None_iff)

lemma find_block_mem:
  assumes "distinct_labels prog" "blk \<in> set (blocks prog)"
  shows "find_block prog (block_label blk) = Some blk"
proof (cases "find_block prog (block_label blk)")
  case None
  with assms show ?thesis by (auto simp: find_block_None)
next
  case (Some blk')
  from find_block_label [OF this] assms have "blk' = blk"
    by (auto simp: distinct_labels_def distinct_map dest: inj_onD)
  with Some show ?thesis by simp
qed

lemma initial_facts_eq:
  assumes "\<forall>b\<in>set bs. block_fact n b \<noteq> None" "distinct (map block_label bs)"
  shows "initial_facts n bs m = Some (\<lambda>l. case find (\<lambda>b. block_label b = l) bs of
    None \<Rightarrow> m l | Some b \<Rightarrow> block_fact n b)"
  using assms
proof (induction bs arbitrary: m)
  case (Cons b bs)
  then obtain f where f: "block_fact n b = Some f" by auto
  have none: "find (\<lambda>x. block_label x = block_label b) bs = None"
    using Cons.prems(2) by (auto simp: find_None_iff image_iff)
  have "(\<lambda>l. case find (\<lambda>x. block_label x = l) bs of None \<Rightarrow> (m(block_label b \<mapsto> f)) l | Some x \<Rightarrow> block_fact n x) =
      (\<lambda>l. case find (\<lambda>x. block_label x = l) (b # bs) of None \<Rightarrow> m l | Some x \<Rightarrow> block_fact n x)"
    using none by (auto simp: f fun_eq_iff split: option.splits)
  with Cons.IH [of "m(block_label b \<mapsto> f)"] Cons.prems show ?case by (simp add: f del: fun_upd_apply)
qed simp

definition live_ok :: "bpf_program \<Rightarrow> facts \<Rightarrow> bool" where
  "live_ok prog facts \<longleftrightarrow>
     (\<forall>b. (facts b = None \<longleftrightarrow> find_block prog b = None) \<and>
       (\<forall>blk bf. find_block prog b = Some blk \<longrightarrow> facts b = Some bf \<longrightarrow>
          slots_of (upward bf) = block_upward blk \<and> slots_of (defs bf) = defs_of (insts blk) \<and>
          succs bf = term_succs (blk_term blk) \<and>
          slots_of (live_in bf) \<subseteq> Collect (may_read prog b) \<and>
          slots_of (live_out bf) \<subseteq> {s. \<exists>b'\<in>set (term_succs (blk_term blk)). may_read prog b' s}))"

lemma live_okD:
  assumes "live_ok prog facts" "find_block prog b = Some blk" "facts b = Some bf"
  shows "slots_of (upward bf) = block_upward blk" "slots_of (defs bf) = defs_of (insts blk)"
    "succs bf = term_succs (blk_term blk)" "slots_of (live_in bf) \<subseteq> Collect (may_read prog b)"
    "slots_of (live_out bf) \<subseteq> {s. \<exists>b'\<in>set (term_succs (blk_term blk)). may_read prog b' s}"
  using assms unfolding live_ok_def by blast+

lemma live_ok_block: "live_ok prog facts \<Longrightarrow> facts b = Some bf \<Longrightarrow> \<exists>blk. find_block prog b = Some blk"
  unfolding live_ok_def by (metis not_Some_eq)

lemma may_read_fact: "live_ok prog facts \<Longrightarrow> may_read prog b s \<Longrightarrow> \<exists>bf. facts b = Some bf"
  unfolding live_ok_def by (metis not_Some_eq may_readE)

lemma live_ok_flow:
  assumes wf: "facts_wf n facts" and ok: "live_ok prog facts" and bf: "facts b = Some bf"
  shows "live_ok prog (facts(b \<mapsto> flow facts bf))"
proof -
  from live_ok_block [OF ok bf] obtain blk where blk: "find_block prog b = Some blk" by blast
  note old = live_okD [OF ok blk bf] and fl = flow_facts [OF wf bf]
  have sub: "slots_of (live_in f) \<subseteq> Collect (may_read prog s)" if "facts s = Some f" for s f
    using live_ok_block [OF ok that] live_okD(4) [OF ok _ that] by blast
  have out: "slots_of (live_out (flow facts bf)) \<subseteq> {s. \<exists>b'\<in>set (term_succs (blk_term blk)). may_read prog b' s}"
    unfolding fl(3) old(3) using old(5) sub by (fastforce split: option.splits)
  have "slots_of (live_in (flow facts bf)) \<subseteq> Collect (may_read prog b)"
    unfolding fl(4) old(1,2) using out blk by (auto intro: may_read.intros)
  with out ok blk bf old show ?thesis by (auto simp: live_ok_def fl(5-7))
qed

lemma solve_liveness_exact:
  assumes range: "slots_in_range prog" and dist: "distinct_labels prog" and n: "length (slot_types prog) \<le> 2 ^ 32"
  obtains facts where "solve_liveness prog (length (slot_types prog)) = Some facts"
    "facts_wf (length (slot_types prog)) facts" "live_ok prog facts"
    "\<And>b bf. facts b = Some bf \<Longrightarrow> slots_of (live_in bf) = Collect (may_read prog b)"
    "\<And>b bf. facts b = Some bf \<Longrightarrow> slots_of (live_out bf) = {s. \<exists>b'\<in>set (succs bf). may_read prog b' s}"
proof -
  let ?n = "length (slot_types prog)"
  let ?init = "\<lambda>l. case find_block prog l of None \<Rightarrow> None | Some b \<Rightarrow> block_fact ?n b"
  have bfact: "\<exists>f. block_fact ?n b = Some f \<and> length (upward f) = ?n \<and> length (defs f) = ?n \<and>
      live_in f = ss_new ?n \<and> live_out f = ss_new ?n \<and> succs f = term_succs (blk_term b) \<and>
      slots_of (defs f) = defs_of (insts b) \<and> slots_of (upward f) = block_upward b"
    if "b \<in> set (blocks prog)" for b
    using block_fact_iff [of b ?n] range that by (auto simp: slots_in_range_def block_upward_def)
  then have init: "initial_facts ?n (blocks prog) Map.empty = Some ?init"
    using dist by (subst initial_facts_eq) (fastforce simp: distinct_labels_def find_block_def)+
  have wf: "facts_wf ?n ?init"
    using n by (auto simp: facts_wf_def slot_sets split: option.splits dest!: find_block_label bfact)
  have ok: "live_ok prog ?init"
    unfolding live_ok_def
  proof (intro allI conjI impI)
    fix b blk bf
    show "(?init b = None) = (find_block prog b = None)"
      using bfact find_block_label by (fastforce split: option.splits)
    assume blk: "find_block prog b = Some blk" and "?init b = Some bf"
    with bfact [of blk] find_block_label [OF blk]
    show "slots_of (upward bf) = block_upward blk" "slots_of (defs bf) = defs_of (insts blk)"
      "succs bf = term_succs (blk_term blk)" "slots_of (live_in bf) \<subseteq> Collect (may_read prog b)"
      "slots_of (live_out bf) \<subseteq> {s. \<exists>b'\<in>set (term_succs (blk_term blk)). may_read prog b' s}"
      by (auto simp: slot_sets)
  qed
  from liveness_loop_total [where Inv = "live_ok prog" and ids = "map block_label (blocks prog)", OF wf ok live_ok_flow [where n = ?n]]
  obtain facts where facts: "liveness_loop (map block_label (blocks prog)) ?init = Some facts"
      "facts_wf ?n facts" "live_ok prog facts"
      "\<forall>b\<in>set (map block_label (blocks prog)). \<forall>bf. facts b = Some bf \<longrightarrow> flow facts bf = bf"
    by blast
  have fix1: "flow facts bf = bf" if "facts b = Some bf" for b bf
  proof -
    from live_ok_block [OF facts(3) that] obtain blk where "find_block prog b = Some blk" by blast
    with facts(4) that find_block_label [OF this] show ?thesis by auto
  qed
  have edge: "slots_of (live_in f) \<subseteq> slots_of (live_out bf)"
    if "facts b = Some bf" "b' \<in> set (succs bf)" "facts b' = Some f" for b bf b' f
    using flow_facts(3) [OF facts(2) that(1)] fix1 [OF that(1)] that by force
  have sound: "may_read prog b s \<Longrightarrow> facts b = Some bf \<Longrightarrow> s \<in> slots_of (live_in bf)" for b s bf
  proof (induction arbitrary: bf rule: may_read.induct)
    case (here b blk s)
    with flow_facts(4) [OF facts(2) here.prems] fix1 live_okD(1) [OF facts(3)] show ?case by auto
  next
    case (later b blk s b')
    note bf = later.prems
    have s': "b' \<in> set (succs bf)" using later live_okD(3) [OF facts(3)] by auto
    obtain bf' where bf': "facts b' = Some bf'" using may_read_fact [OF facts(3) later.hyps(4)] by blast
    have "s \<in> slots_of (live_out bf)"
      using edge [OF bf s' bf'] later.IH [OF bf'] by blast
    then show ?case
      using flow_facts(4) [OF facts(2) bf] fix1 [OF bf] later.hyps(2) live_okD(2) [OF facts(3) later.hyps(1) bf] by auto
  qed
  have inn: "slots_of (live_in bf) = Collect (may_read prog b)" if "facts b = Some bf" for b bf
    using sound [OF _ that] live_ok_block [OF facts(3) that] live_okD(4) [OF facts(3) _ that] by blast
  have out: "slots_of (live_out bf) = {s. \<exists>b'\<in>set (succs bf). may_read prog b' s}" if bf: "facts b = Some bf" for b bf
  proof -
    from live_ok_block [OF facts(3) bf] obtain blk where blk: "find_block prog b = Some blk" by blast
    have "s \<in> slots_of (live_out bf)" if "b' \<in> set (succs bf)" "may_read prog b' s" for b' s
      using that may_read_fact [OF facts(3) that(2)] inn edge [OF bf] by blast
    with live_okD(3,5) [OF facts(3) blk bf] show ?thesis by auto
  qed
  show ?thesis
    by (rule that [OF _ facts(2,3) inn out]) (simp_all add: solve_liveness_def init facts(1))
qed

end
