(* ===== verification/Ebpf_Verifier.thy ===== *)
theory Ebpf_Verifier
  imports Ebpf_Emit Bpf_Alloc
begin

text \<open>
  The structural verifier model, \<open>bpf-tcl-codegen/src/ebpf/verifier.rs\<close>, and the theorem that
  the code generator satisfies it: on every kernel object it emits for a well-formed program the
  model reports nothing but, possibly, the missing final \<open>exit\<close>, and that exactly when the block
  laid out last does not return.
\<close>

section \<open>The checks\<close>

datatype verify_error =
    NoExit
  | BadContextPrologue
  | UnprovenPacketLoad nat
  | MissingRelocation nat
  | StackOutOfRange nat

definition CLASS_MASK :: u8 where "CLASS_MASK = 0x07"
definition DW_MODE :: u8 where "DW_MODE = 0x18"
definition EXIT_OP :: u8 where "EXIT_OP = 0x95"
definition JMP_X :: u8 where "JMP_X = 0x08"

definition insn_class :: "insn \<Rightarrow> u8" where
  "insn_class i = and (i_op i) CLASS_MASK"

definition check_exit :: "insn list \<Rightarrow> verify_error list" where
  "check_exit is = (if is \<noteq> [] \<and> i_op (last is) = EXIT_OP then [] else [NoExit])"

definition is_packet_load :: "insn \<Rightarrow> bool" where
  "is_packet_load i = (insn_class i = LDX \<and> i_src i = R6)"

definition prologue_ok :: "i16 \<Rightarrow> i16 \<Rightarrow> insn list \<Rightarrow> bool" where
  "prologue_ok d e is =
     (case is of
        a # b # _ \<Rightarrow>
          insn_class a = LDX \<and> i_dst a = R6 \<and> i_src a = R1 \<and> i_off a = d \<and>
          insn_class b = LDX \<and> i_dst b = R7 \<and> i_src b = R1 \<and> i_off b = e
      | _ \<Rightarrow> False)"

definition check_prologue :: "ebpf_object \<Rightarrow> verify_error list" where
  "check_prologue obj =
     (if \<not> list_ex is_packet_load (insns obj) then []
      else
        (case obj_target obj of
           KernelXdp \<Rightarrow> if prologue_ok 0 4 (insns obj) then [] else [BadContextPrologue]
         | KernelSocketFilter \<Rightarrow> if prologue_ok 76 80 (insns obj) then [] else [BadContextPrologue]
         | KernelTc \<Rightarrow> if prologue_ok 76 80 (insns obj) then [] else [BadContextPrologue]
         | KernelCgroupSockAddr \<Rightarrow> []
         | RbpfFixedMbuff \<Rightarrow> []))"

definition is_map_fd_load :: "insn \<Rightarrow> bool" where
  "is_map_fd_load i = (insn_class i = LD \<and> and (i_op i) DW_MODE = DW_MODE \<and> i_src i = PSEUDO_MAP_FD)"

definition check_map_fd_relocations :: "ebpf_object \<Rightarrow> verify_error list" where
  "check_map_fd_relocations obj =
     concat (map (\<lambda>(i, ins).
       if is_map_fd_load ins \<and> \<not> list_ex (\<lambda>r. reloc_insn_index r = i) (relocations obj)
       then [MissingRelocation i] else []) (enumerate 0 (insns obj)))"

definition stack_base :: "insn \<Rightarrow> u8 option" where
  "stack_base i =
     (if insn_class i = LDX then Some (i_src i)
      else if insn_class i = STX \<or> insn_class i = ST then Some (i_dst i)
      else None)"

definition stack_bad :: "insn \<Rightarrow> bool" where
  "stack_bad i = (stack_base i = Some R10 \<and> (0 \<le> sint (i_off i) \<or> sint (i_off i) < - 512))"

definition check_stack_accesses :: "insn list \<Rightarrow> verify_error list" where
  "check_stack_accesses is =
     concat (map (\<lambda>(i, ins). if stack_bad ins then [StackOutOfRange i] else []) (enumerate 0 is))"

definition is_end_compare :: "insn \<Rightarrow> bool" where
  "is_end_compare w = (insn_class w = JMP \<and> and (i_op w) JMP_X \<noteq> 0 \<and> i_src w = R7)"

definition check_packet_loads :: "insn list \<Rightarrow> verify_error list" where
  "check_packet_loads is =
     concat (map (\<lambda>(i, ins).
       if is_packet_load ins \<and> \<not> list_ex is_end_compare (subslice (i - 4) i is)
       then [UnprovenPacketLoad i] else []) (enumerate 0 is))"

definition verify :: "ebpf_object \<Rightarrow> verify_error list" where
  "verify obj =
     (if \<not> is_kernel (obj_target obj) then []
      else check_exit (insns obj) @ check_prologue obj @ check_map_fd_relocations obj @
        check_stack_accesses (insns obj) @ check_packet_loads (insns obj))"



text \<open>Every map-fd load is relocated at the index it ends up at.\<close>

lemma resolve_all_relocs:
  assumes "resolve_all ix starts k ps = Some (Inr (is, rs))"
    and "\<forall>j\<le>length ps. ix ! (k + j) = base + sum_list (map pending_len (take j ps))"
    and "\<forall>p\<in>set ps. (\<exists>mp. p = MapFd mp) \<or> pend_all (\<lambda>i. \<not> is_map_fd_load i) p"
    and "base + length is \<le> 2 ^ 32" "i < length is" "is_map_fd_load (is ! i)"
  shows "\<exists>r\<in>set rs. reloc_insn_index r = base + i"
  using assms
proof (induction ps arbitrary: k base "is" rs i)
  case (Cons p ps)
  from Cons.prems(1) obtain is1 rs1 is2 rs2 where r: "resolve_one ix starts (ix ! k) p = Some (Inr (is1, rs1))"
    "resolve_all ix starts (Suc k) ps = Some (Inr (is2, rs2))" "is = is1 @ is2" "rs = rs1 @ rs2"
    by (auto simp: resolve_all_Cons)
  have len: "length is1 = pending_len p" by (rule resolve_one_facts(1) [OF r(1)])
  have ix: "ix ! k = base" using Cons.prems(2) by (auto dest: spec [of _ 0])
  show ?case
  proof (cases "i < length is1")
    case True
    then have load: "is_map_fd_load (is1 ! i)" using Cons.prems(6) r(3) by (simp add: nth_append)
    from Cons.prems(3) consider mp where "p = MapFd mp" | "pend_all (\<lambda>i. \<not> is_map_fd_load i) p" by auto
    then show ?thesis
    proof cases
      case 1
      with resolve_one_facts(3) [OF r(1)]
      have rs1: "is1 = [fst (lddw_src R1 PSEUDO_MAP_FD 0), snd (lddw_src R1 PSEUDO_MAP_FD 0)]"
        "rs1 = [\<lparr>reloc_insn_index = u32_or_max base, reloc_map_index = mp\<rparr>]" by (auto simp: ix)
      have "\<not> is_map_fd_load (snd (lddw_src R1 PSEUDO_MAP_FD 0))"
        by (simp add: is_map_fd_load_def builder_defs opcode_defs DW_MODE_def)
      with load rs1(1) True have "i = 0" by (cases i) auto
      with rs1 r Cons.prems(4) show ?thesis by simp
    next
      case 2
      with resolve_one_facts(2) [OF r(1)] load True show ?thesis by (auto simp: list_all_length)
    qed
  next
    case False
    have "\<exists>r\<in>set rs2. reloc_insn_index r = (base + pending_len p) + (i - length is1)"
    proof (rule Cons.IH [OF r(2)])
      show "\<forall>j\<le>length ps. ix ! (Suc k + j) = base + pending_len p + sum_list (map pending_len (take j ps))"
        using Cons.prems(2) by (auto dest: spec [of _ "Suc _"])
    qed (use Cons.prems False r len in \<open>auto simp: nth_append\<close>)
    with False len r(4) show ?thesis by auto
  qed
qed simp

section \<open>Classes of the emitted instructions\<close>

lemma insn_class_builders [simp]:
  "insn_class (mov64_imm d i) = ALU64" "insn_class (mov64_reg d s) = ALU64"
  "insn_class (alu64_imm ADD d i) = ALU64" "insn_class (alu64_imm XOR_op d i) = ALU64"
  "insn_class (alu64_reg SUB d s) = ALU64" "insn_class (neg64 d) = ALU64"
  "insn_class (ldx SZ_DW d b off) = LDX" "insn_class (ldx SZ_W d b off) = LDX"
  "insn_class (ldx SZ_H d b off) = LDX" "insn_class (ldx SZ_B d b off) = LDX"
  "insn_class (stx SZ_DW b r off) = STX" "insn_class (st_imm SZ_DW b off i) = ST"
  "insn_class (jmp_imm JEQ d i off) = JMP" "insn_class (jmp_imm JNE d i off) = JMP"
  "insn_class (jmp_reg JLE d s off) = JMP"
  "insn_class (ja off) = JMP" "insn_class exit_insn = JMP" "insn_class (call h) = JMP"
  "insn_class (bswap_be d w) = ALU" "insn_class (bswap_le d w) = ALU"
  "insn_class (fst (lddw_src d s v)) = LD" "insn_class (snd (lddw_src d s v)) = LD"
  "insn_class (fst (lddw d v)) = LD" "insn_class (snd (lddw d v)) = LD"
  by (simp_all add: insn_class_def CLASS_MASK_def builder_defs opcode_defs Let_def)

lemma insn_class_bin [simp]:
  "insn_class (alu64_reg_off (fst (bin_alu op)) d s (snd (bin_alu op))) = ALU64"
  "insn_class (jmp_reg (cmp_jop c) d s off) = JMP"
  by (cases op; simp add: insn_class_def CLASS_MASK_def builder_defs opcode_defs)
    (cases c; simp add: insn_class_def CLASS_MASK_def builder_defs opcode_defs)

lemma class_distinct [simp]:
  "LD \<noteq> LDX" "LDX \<noteq> LD" "ST \<noteq> LDX" "LDX \<noteq> ST" "STX \<noteq> LDX" "LDX \<noteq> STX" "ALU \<noteq> LDX" "JMP \<noteq> LDX" "ALU64 \<noteq> LDX"
  "ALU \<noteq> STX" "ALU \<noteq> ST" "JMP \<noteq> STX" "JMP \<noteq> ST" "ALU64 \<noteq> STX" "ALU64 \<noteq> ST" "LD \<noteq> STX" "LD \<noteq> ST"
  "ALU \<noteq> LD" "JMP \<noteq> LD" "ALU64 \<noteq> LD" "STX \<noteq> LD" "ST \<noteq> LD"
  by (simp_all add: opcode_defs)

lemma reg_distinct [simp]:
  "R10 \<noteq> R6" "R6 \<noteq> R10" "R1 \<noteq> R6" "R6 \<noteq> R1" "R0 \<noteq> R6" "R0 \<noteq> R10" "R1 \<noteq> R10"
  by (simp_all add: opcode_defs)

lemma mem_operands [simp]:
  "i_src (ldx sz d b off) = b" "i_off (ldx sz d b off) = off" "i_dst (ldx sz d b off) = d"
  "i_dst (stx sz b v off) = b" "i_off (stx sz b v off) = off"
  "i_dst (st_imm sz b off i) = b" "i_off (st_imm sz b off i) = off"
  by (simp_all add: builder_defs)

text \<open>Three facts about one emitted instruction: how it touches the stack, the packet and the maps.\<close>

definition frame_off :: "i16 \<Rightarrow> bool" where
  "frame_off off \<longleftrightarrow> - 512 \<le> sint off \<and> sint off < 0"

lemma slot_off_sint: "s < 64 \<Longrightarrow> sint (slot_off s) = - 8 * (int s + 1)"
proof -
  assume s: "s < 64"
  have "slot_off s = - word_of_int (int ((s + 1) * 8))"
    using s by (simp add: slot_off_def i16_try_from_def)
  also have "\<dots> = word_of_int (- int ((s + 1) * 8))" by simp
  finally have "i16_try_from (- int ((s + 1) * 8)) = Some (slot_off s)"
    using s by (simp add: i16_try_from_def)
  from i16_try_from_Some [OF this] show ?thesis by simp
qed

lemma frame_off_slot: "s < 64 \<Longrightarrow> frame_off (slot_off s)"
  by (simp add: frame_off_def slot_off_sint)

lemma frame_off_scratch:
  assumes "int n * 8 + 16 \<le> 512"
  shows "frame_off (map_key_off (emit_ctx_new t n))" "frame_off (map_value_off (emit_ctx_new t n))"
proof -
  have "i16_try_from (- (int n * 8) - 8) = Some (map_key_off (emit_ctx_new t n))"
    "i16_try_from (- (int n * 8) - 16) = Some (map_value_off (emit_ctx_new t n))"
    using assms by (simp_all add: emit_ctx_new_def i16_try_from_def Let_def)
  from this [THEN i16_try_from_Some] assms
  show "frame_off (map_key_off (emit_ctx_new t n))" "frame_off (map_value_off (emit_ctx_new t n))"
    by (simp_all add: frame_off_def)
qed

text \<open>Well-formed input of the code generator, as the allocator and the lowering leave it.\<close>

definition inst_map :: "inst \<Rightarrow> nat option" where
  "inst_map i = (case i of MapGet _ mp _ _ \<Rightarrow> Some mp | MapHas _ mp _ _ \<Rightarrow> Some mp | MapSet mp _ _ _ \<Rightarrow> Some mp | _ \<Rightarrow> None)"

definition load_off :: "inst \<Rightarrow> int option" where
  "load_off i = (case i of Load _ _ _ off _ _ _ \<Rightarrow> Some off | _ \<Rightarrow> None)"

definition codegen_ok :: "bpf_program \<Rightarrow> bool" where
  "codegen_ok p \<longleftrightarrow> num_slots p \<le> 64 \<and> list_all (\<lambda>s. s < num_slots p) (zero_init p) \<and>
     (\<forall>b\<in>set (blocks p). (\<forall>s\<in>block_slots b. s < num_slots p) \<and>
        (\<forall>i\<in>set (insts b). (\<forall>mp. inst_map i = Some mp \<longrightarrow> mp < length (maps p)) \<and>
           (\<forall>off. load_off i = Some off \<longrightarrow> 0 \<le> off)))"


section \<open>Stack accesses\<close>

lemma stack_bad_cases [simp]:
  "insn_class i = ALU64 \<Longrightarrow> \<not> stack_bad i" "insn_class i = ALU \<Longrightarrow> \<not> stack_bad i"
  "insn_class i = JMP \<Longrightarrow> \<not> stack_bad i" "insn_class i = LD \<Longrightarrow> \<not> stack_bad i"
  by (simp_all add: stack_bad_def stack_base_def)

lemma stack_bad_mem [simp]:
  "frame_off off \<Longrightarrow> \<not> stack_bad (ldx SZ_DW r R10 off)" "frame_off off \<Longrightarrow> \<not> stack_bad (stx SZ_DW R10 r off)"
  "frame_off off \<Longrightarrow> \<not> stack_bad (st_imm SZ_DW R10 off imm)"
  "b \<noteq> R10 \<Longrightarrow> \<not> stack_bad (ldx SZ_DW r b off)" "b \<noteq> R10 \<Longrightarrow> \<not> stack_bad (ldx SZ_W r b off)"
  "b \<noteq> R10 \<Longrightarrow> \<not> stack_bad (ldx SZ_H r b off)" "b \<noteq> R10 \<Longrightarrow> \<not> stack_bad (ldx SZ_B r b off)"
  by (auto simp: stack_bad_def stack_base_def frame_off_def)

lemma stack_bad_slot [simp]:
  "s < 64 \<Longrightarrow> pend_all (\<lambda>i. \<not> stack_bad i) (ld_slot r s)" "s < 64 \<Longrightarrow> pend_all (\<lambda>i. \<not> stack_bad i) (st_slot r s)"
  by (simp_all add: ld_slot_def st_slot_def frame_off_slot)

lemma pend_all_MapFd [simp]: "pend_all (\<lambda>i. \<not> stack_bad i) (MapFd mp)"
  by (simp add: pend_all_def)

lemma width_cases: "width_size w = SZ_B \<or> width_size w = SZ_H \<or> width_size w = SZ_W"
  by (cases w) auto

lemma emit_inst_stack:
  assumes "emit_inst ctx i = Inr code" "\<forall>s\<in>inst_slots i. s < 64"
    and "inst_map i \<noteq> None \<Longrightarrow> is_kernel (ctx_target ctx) \<Longrightarrow> frame_off (map_key_off ctx) \<and> frame_off (map_value_off ctx)"
  shows "list_all (pend_all (\<lambda>i. \<not> stack_bad i)) code"
proof (cases i)
  case (Load dst width ptr off order oob sp)
  with assms(1,2) show ?thesis
    using width_cases [of width]
    by (cases oob; cases order; cases width)
      (auto simp: emit_load_def Let_def inst_slots_def def_set_def split: option.splits if_splits)
next
  case (Bin dst op a b sp)
  obtain alu off where "bin_alu op = (alu, off)" by (cases "bin_alu op")
  with insn_class_bin(1) [of op R1 R2] assms Bin show ?thesis by (auto simp: inst_slots_def def_set_def)
next
  case (Const dst val sp)
  obtain a b where ab: "lddw R1 val = (a, b)" by (cases "lddw R1 val")
  with insn_class_builders(23,24) [of R1 val] have "insn_class a = LD" "insn_class b = LD" by simp_all
  with ab assms Const show ?thesis by (auto simp: inst_slots_def def_set_def split: option.splits)
next
  case (Unop dst op a sp)
  with assms show ?thesis by (cases op) (auto simp: emit_un_def inst_slots_def def_set_def)
qed (use assms in \<open>auto simp: inst_slots_def def_set_def inst_map_def emit_map_get_def emit_map_has_def
      emit_map_set_def emit_kernel_lookup_def\<close>)

lemma emit_term_stack:
  "\<forall>s\<in>set (term_uses t). s < 64 \<Longrightarrow> list_all (pend_all (\<lambda>i. \<not> stack_bad i)) (emit_term t)"
  by (cases t) auto

section \<open>Map loads\<close>

definition maps_relocated :: "pending \<Rightarrow> bool" where
  "maps_relocated p \<longleftrightarrow> (\<exists>mp. p = MapFd mp) \<or> pend_all (\<lambda>i. \<not> is_map_fd_load i) p"

lemma map_fd_cases [simp]:
  "insn_class i = ALU64 \<Longrightarrow> \<not> is_map_fd_load i" "insn_class i = ALU \<Longrightarrow> \<not> is_map_fd_load i"
  "insn_class i = JMP \<Longrightarrow> \<not> is_map_fd_load i" "insn_class i = LDX \<Longrightarrow> \<not> is_map_fd_load i"
  "insn_class i = STX \<Longrightarrow> \<not> is_map_fd_load i" "insn_class i = ST \<Longrightarrow> \<not> is_map_fd_load i"
  by (simp_all add: is_map_fd_load_def)

lemma map_fd_wide [simp]: "lddw d v = (a, b) \<Longrightarrow> \<not> is_map_fd_load a \<and> \<not> is_map_fd_load b"
  by (auto simp: is_map_fd_load_def builder_defs opcode_defs DW_MODE_def Let_def)

lemma maps_relocated_slot [simp]:
  "maps_relocated (ld_slot r s)" "maps_relocated (st_slot r s)" "maps_relocated (MapFd mp)"
  "maps_relocated (Ja t)" "maps_relocated (JmpNeZero r t)"
  by (simp_all add: maps_relocated_def ld_slot_def st_slot_def)

lemma maps_relocated_Ins: "maps_relocated (Ins i) \<longleftrightarrow> \<not> is_map_fd_load i"
  by (simp add: maps_relocated_def)

lemma emit_inst_maps:
  assumes "emit_inst ctx i = Inr code"
  shows "list_all maps_relocated code"
proof (cases i)
  case (Load dst width ptr off order oob sp)
  with assms show ?thesis
    using width_cases [of width]
    by (cases oob; cases order; cases width)
      (auto simp: emit_load_def Let_def maps_relocated_Ins split: option.splits if_splits)
next
  case (Bin dst op a b sp)
  obtain alu off where "bin_alu op = (alu, off)" by (cases "bin_alu op")
  with insn_class_bin(1) [of op R1 R2] assms Bin show ?thesis by (auto simp: maps_relocated_Ins)
next
  case (Const dst val sp)
  obtain a b where ab: "lddw R1 val = (a, b)" by (cases "lddw R1 val")
  with assms Const map_fd_wide [OF ab] show ?thesis
    by (auto simp: maps_relocated_Ins maps_relocated_def [of "Wide _ _"] split: option.splits)
next
  case (Unop dst op a sp)
  with assms show ?thesis by (cases op) (auto simp: emit_un_def maps_relocated_Ins)
qed (use assms in \<open>auto simp: maps_relocated_Ins emit_map_get_def emit_map_has_def
      emit_map_set_def emit_kernel_lookup_def\<close>)

lemma emit_term_maps: "list_all maps_relocated (emit_term t)"
  by (cases t) (auto simp: maps_relocated_Ins)


section \<open>Packet loads\<close>

text \<open>A packet load is guarded when a comparison with \<open>data_end\<close> stands at most four before it.\<close>

definition guarded :: "insn list \<Rightarrow> bool" where
  "guarded is \<longleftrightarrow> (\<forall>i<length is. is_packet_load (is ! i) \<longrightarrow> (\<exists>j<i. i \<le> j + 4 \<and> is_end_compare (is ! j)))"

lemma guarded_append: "guarded xs \<Longrightarrow> guarded ys \<Longrightarrow> guarded (xs @ ys)"
  unfolding guarded_def
proof (intro allI impI)
  fix i
  assume xs: "\<forall>i<length xs. is_packet_load (xs ! i) \<longrightarrow> (\<exists>j<i. i \<le> j + 4 \<and> is_end_compare (xs ! j))"
    and ys: "\<forall>i<length ys. is_packet_load (ys ! i) \<longrightarrow> (\<exists>j<i. i \<le> j + 4 \<and> is_end_compare (ys ! j))"
    and i: "i < length (xs @ ys)" "is_packet_load ((xs @ ys) ! i)"
  show "\<exists>j<i. i \<le> j + 4 \<and> is_end_compare ((xs @ ys) ! j)"
  proof (cases "i < length xs")
    case True
    with xs i obtain j where "j < i" "i \<le> j + 4" "is_end_compare (xs ! j)" by (auto simp: nth_append)
    with True show ?thesis by (intro exI [of _ j]) (auto simp: nth_append)
  next
    case False
    with i have "i - length xs < length ys" "is_packet_load (ys ! (i - length xs))" by (auto simp: nth_append)
    with ys obtain j where "j < i - length xs" "i - length xs \<le> j + 4" "is_end_compare (ys ! j)"
      by blast
    with False show ?thesis by (intro exI [of _ "length xs + j"]) (auto simp: nth_append)
  qed
qed

lemma guarded_none: "list_all (\<lambda>i. \<not> is_packet_load i) is \<Longrightarrow> guarded is"
  by (auto simp: guarded_def list_all_length)

lemma guarded_load:
  assumes "\<not> is_packet_load a" "\<not> is_packet_load b" "is_end_compare c" "\<not> is_packet_load c"
    "\<not> is_packet_load d" "\<not> is_packet_load e" "list_all (\<lambda>i. \<not> is_packet_load i) rest"
  shows "guarded (a # b # c # d # e # ld # rest)"
  unfolding guarded_def
proof (intro allI impI)
  fix i assume i: "i < length (a # b # c # d # e # ld # rest)" "is_packet_load ((a # b # c # d # e # ld # rest) ! i)"
  have "i = 5"
  proof (rule ccontr)
    assume "i \<noteq> 5"
    then have "i = 0 \<or> i = 1 \<or> i = 2 \<or> i = 3 \<or> i = 4 \<or> i = 6 + (i - 6)" by arith
    then consider "i = 0" | "i = 1" | "i = 2" | "i = 3" | "i = 4" | k where "i = 6 + k" by blast
    then show False using i assms by cases (auto simp: list_all_length)
  qed
  then show "\<exists>j<i. i \<le> j + 4 \<and> is_end_compare ((a # b # c # d # e # ld # rest) ! j)"
    using assms(3) by (intro exI [of _ 2]) auto
qed

lemma check_packet_loads_guarded: "guarded is \<Longrightarrow> check_packet_loads is = []"
proof -
  assume g: "guarded is"
  have "list_ex is_end_compare (subslice (i - 4) i is)" if "i < length is" "is_packet_load (is ! i)" for i
  proof -
    from g that obtain j where j: "j < i" "i \<le> j + 4" "is_end_compare (is ! j)" by (auto simp: guarded_def)
    then have "subslice (i - 4) i is ! (j - (i - 4)) = is ! j" "j - (i - 4) < length (subslice (i - 4) i is)"
      using that by (auto simp: subslice_def)
    with j(3) show ?thesis by (metis list_ex_length)
  qed
  then show ?thesis by (auto simp: check_packet_loads_def enumerate_eq_zip set_zip)
qed

lemma check_stack_none: "list_all (\<lambda>i. \<not> stack_bad i) is \<Longrightarrow> check_stack_accesses is = []"
  by (auto simp: check_stack_accesses_def enumerate_eq_zip set_zip list_all_length)

lemma packet_load_cases [simp]:
  "insn_class i \<noteq> LDX \<Longrightarrow> \<not> is_packet_load i" "b \<noteq> R6 \<Longrightarrow> \<not> is_packet_load (ldx sz d b off)"
  by (simp_all add: is_packet_load_def)

lemma packet_load_slot [simp]:
  "pend_all (\<lambda>i. \<not> is_packet_load i) (ld_slot r s)" "pend_all (\<lambda>i. \<not> is_packet_load i) (st_slot r s)"
  "pend_all (\<lambda>i. \<not> is_packet_load i) (MapFd mp)"
  by (simp_all add: ld_slot_def st_slot_def pend_all_def [of _ "MapFd mp"])

lemma emit_inst_no_packet:
  assumes "emit_inst ctx i = Inr code" "load_off i = None"
  shows "list_all (pend_all (\<lambda>i. \<not> is_packet_load i)) code"
proof (cases i)
  case (Bin dst op a b sp)
  obtain alu off where "bin_alu op = (alu, off)" by (cases "bin_alu op")
  with insn_class_bin(1) [of op R1 R2] assms Bin show ?thesis by auto
next
  case (Const dst val sp)
  obtain a b where ab: "lddw R1 val = (a, b)" by (cases "lddw R1 val")
  with insn_class_builders(23,24) [of R1 val] have "insn_class a = LD" "insn_class b = LD" by simp_all
  with ab assms Const show ?thesis by (auto split: option.splits)
next
  case (Unop dst op a sp)
  with assms show ?thesis by (cases op) (auto simp: emit_un_def)
qed (use assms in \<open>auto simp: load_off_def emit_map_get_def emit_map_has_def emit_map_set_def emit_kernel_lookup_def\<close>)

lemma emit_term_no_packet: "list_all (pend_all (\<lambda>i. \<not> is_packet_load i)) (emit_term t)"
  by (cases t) auto

lemma end_compare_JLE: "is_end_compare (jmp_reg JLE r R7 off)"
  by (simp add: is_end_compare_def) (simp add: builder_defs opcode_defs JMP_X_def)

lemma emit_inst_guarded:
  assumes "emit_inst ctx i = Inr code" "resolve_all ix starts k code = Some (Inr (is, rs))"
  shows "guarded is"
proof (cases "load_off i")
  case None
  from resolve_all_pred [OF assms(2) emit_inst_no_packet [OF assms(1) None]] show ?thesis by (rule guarded_none)
next
  case (Some off)
  then obtain dst width ptr order oob sp where i: "i = Load dst width ptr off order oob sp"
    by (auto simp: load_off_def split: inst.splits)
  with assms show ?thesis
    by (cases oob; cases order)
      (auto simp: emit_load_def Let_def st_slot_def resolve_all_Cons resolve_one_def end_compare_JLE
        intro!: guarded_load split: option.splits if_splits)
qed


section \<open>Whole programs\<close>

lemma emit_insts_guarded:
  assumes "emit_insts ctx is = Inr code" "resolve_all ix starts k code = Some (Inr (out, rs))"
  shows "guarded out"
  using assms
proof (induction "is" arbitrary: code k out rs)
  case Nil
  then show ?case by (simp add: guarded_def)
next
  case (Cons i "is")
  then obtain c rest where c: "emit_inst ctx i = Inr c" "emit_insts ctx is = Inr rest" "code = c @ rest"
    by (auto split: sum.splits)
  with Cons.prems(2) obtain o1 r1 o2 r2 where "resolve_all ix starts k c = Some (Inr (o1, r1))"
    "resolve_all ix starts (k + length c) rest = Some (Inr (o2, r2))" "out = o1 @ o2"
    by (auto simp: resolve_all_append)
  with c Cons.IH emit_inst_guarded show ?case by (metis guarded_append)
qed

lemma emitted_guarded:
  assumes "emitted ctx b code" "resolve_all ix starts k code = Some (Inr (out, rs))"
  shows "guarded out"
proof -
  from assms obtain c o1 r1 o2 r2 where c: "emit_insts ctx (insts b) = Inr c"
    "resolve_all ix starts k c = Some (Inr (o1, r1))"
    "resolve_all ix starts (k + length c) (emit_term (blk_term b)) = Some (Inr (o2, r2))" "out = o1 @ o2"
    by (auto simp: emitted_def resolve_all_append)
  from emit_insts_guarded [OF c(1,2)] guarded_none [OF resolve_all_pred [OF c(3) emit_term_no_packet]] c(4)
  show ?thesis by (simp add: guarded_append)
qed

lemma emitted_blocks_guarded:
  assumes "list_all2 (emitted ctx) bs codes" "resolve_all ix starts k (concat codes) = Some (Inr (out, rs))"
  shows "guarded out"
  using assms
proof (induction bs codes arbitrary: k out rs rule: list_all2_induct)
  case Nil
  then show ?case by (simp add: guarded_def)
next
  case (Cons b bs c cs)
  from Cons.prems obtain o1 r1 o2 r2 where "resolve_all ix starts k c = Some (Inr (o1, r1))"
    "resolve_all ix starts (k + length c) (concat cs) = Some (Inr (o2, r2))" "out = o1 @ o2"
    by (auto simp: resolve_all_append)
  with Cons.IH emitted_guarded [OF Cons.hyps(1)] show ?case by (metis guarded_append)
qed

definition returns_last :: "bpf_program \<Rightarrow> bool" where
  "returns_last p \<longleftrightarrow> block_order p \<noteq> [] \<and> (\<exists>v sp. blk_term (last (block_order p)) = Return v sp)"

text \<open>The prologue and the zeroing that precede the blocks.\<close>

definition lead :: "bpf_program \<Rightarrow> target_abi \<Rightarrow> pending list" where
  "lead p t = emit_prologue p t @ map (\<lambda>s. Ins (st_imm SZ_DW R10 (slot_off s) 0)) (zero_init p)"

lemma load_size_cases: "load_size (ctx_layout_of t) = SZ_DW \<or> load_size (ctx_layout_of t) = SZ_W"
  by (cases t) (simp_all add: ctx_layout_of_def)

lemma lead_stack: "codegen_ok p \<Longrightarrow> list_all (pend_all (\<lambda>i. \<not> stack_bad i)) (lead p t)"
  using load_size_cases [of t]
  by (auto simp: lead_def emit_prologue_def Let_def codegen_ok_def list_all_iff frame_off_slot)

lemma lead_maps: "list_all maps_relocated (lead p t)"
  using load_size_cases [of t]
  by (auto simp: lead_def emit_prologue_def Let_def list_all_iff maps_relocated_Ins)

lemma lead_no_packet: "list_all (pend_all (\<lambda>i. \<not> is_packet_load i)) (lead p t)"
  using load_size_cases [of t]
  by (auto simp: lead_def emit_prologue_def Let_def list_all_iff)

lemma kernel_scratch:
  assumes "codegen_ok p" "validate_target p t = Inr ()" "b \<in> set (blocks p)" "i \<in> set (insts b)"
    "inst_map i \<noteq> None" "is_kernel t"
  shows "frame_off (map_key_off (emit_ctx_new t (num_slots p))) \<and> frame_off (map_value_off (emit_ctx_new t (num_slots p)))"
proof -
  have "maps p \<noteq> []" using assms(1,3-5) by (force simp: codegen_ok_def)
  moreover have "num_slots p < 2 ^ 31" using assms(1) by (simp add: codegen_ok_def)
  ultimately have "int (num_slots p) * 8 + 16 \<le> 512"
    using assms(2,6) by (auto simp: validate_target_def MAX_STACK_def split: prod.splits if_splits)
  then show ?thesis by (simp add: frame_off_scratch)
qed

lemma emit_ctx_target [simp]: "ctx_target (emit_ctx_new t n) = t"
  by (simp add: emit_ctx_new_def Let_def)

lemma emitted_stack:
  assumes "codegen_ok p" "validate_target p t = Inr ()" "b \<in> set (blocks p)"
    "emitted (emit_ctx_new t (num_slots p)) b code"
  shows "list_all (pend_all (\<lambda>i. \<not> stack_bad i)) code"
proof (rule emitted_all [OF assms(4)])
  have slots: "s < 64" if "s \<in> block_slots b" for s using assms(1,3) that by (force simp: codegen_ok_def)
  show "list_all (pend_all (\<lambda>i. \<not> stack_bad i)) (emit_term (blk_term b))"
    by (rule emit_term_stack) (use slots in \<open>auto simp: block_slots_def\<close>)
  fix i c assume i: "i \<in> set (insts b)" "emit_inst (emit_ctx_new t (num_slots p)) i = Inr c"
  show "list_all (pend_all (\<lambda>i. \<not> stack_bad i)) c"
    by (rule emit_inst_stack [OF i(2)])
      (use slots i kernel_scratch [OF assms(1-3) i(1)] in \<open>auto simp: block_slots_def\<close>)
qed

lemma check_exit_emitted:
  assumes "list_all2 (emitted ctx) bs codes" "resolve_all ix starts k (concat codes) = Some (Inr (out, rs))"
  shows "bs \<noteq> [] \<Longrightarrow> out \<noteq> [] \<and> (i_op (last out) = EXIT_OP \<longleftrightarrow> (\<exists>v sp. blk_term (last bs) = Return v sp))"
proof -
  assume "bs \<noteq> []"
  then obtain bs' b where bs: "bs = bs' @ [b]" by (cases bs rule: rev_cases) auto
  with assms(1) obtain codes' code where bc: "bs = bs' @ [b]" "codes = codes' @ [code]" "emitted ctx b code"
    by (auto simp: list_all2_append1 list_all2_Cons1)
  then obtain c where code: "concat codes = (concat codes' @ c) @ emit_term (blk_term b)"
    by (auto simp: emitted_def)
  with assms(2) obtain o1 o2 r2 where o: "resolve_all ix starts (k + length (concat codes' @ c)) (emit_term (blk_term b)) = Some (Inr (o2, r2))"
    "out = o1 @ o2" unfolding code resolve_all_append [of ix starts k "concat codes' @ c"] by blast
  have "o2 \<noteq> [] \<and> (i_op (last o2) = EXIT_OP \<longleftrightarrow> (\<exists>v sp. blk_term b = Return v sp))"
    using o(1)
    by (cases "blk_term b")
      (auto simp: resolve_all_Cons resolve_one_def EXIT_OP_def builder_defs opcode_defs ld_slot_def
        split: option.splits sum.splits)
  with o(2) bc(1) show ?thesis by simp
qed


lemma check_relocations_emitted:
  assumes "resolve_all (insn_indices 0 pend) starts 0 pend = Some (Inr (is, rs))" "list_all maps_relocated pend"
    and "length is \<le> 2 ^ 32" "insns obj = is" "relocations obj = rs"
  shows "check_map_fd_relocations obj = []"
proof -
  have ix: "\<forall>j\<le>length pend. insn_indices 0 pend ! (0 + j) = 0 + sum_list (map pending_len (take j pend))"
    by (simp add: insn_indices_nth)
  have "\<exists>r\<in>set rs. reloc_insn_index r = 0 + i" if "i < length is" "is_map_fd_load (is ! i)" for i
    by (rule resolve_all_relocs [OF assms(1) ix _ _ that])
      (use assms in \<open>auto simp: list_all_iff maps_relocated_def\<close>)
  then show ?thesis
    using assms(4,5) by (fastforce simp: check_map_fd_relocations_def enumerate_eq_zip set_zip list_ex_iff)
qed

lemma check_prologue_emitted:
  assumes "resolve_all ix starts k (lead p t @ rest) = Some (Inr (is, rs))"
    and "list_ex is_packet_load is \<Longrightarrow> program_uses_context p"
    and "insns obj = is" "obj_target obj = t" "is_kernel t"
  shows "check_prologue obj = []"
proof (cases "list_ex is_packet_load is")
  case False
  then show ?thesis using assms(3) by (simp add: check_prologue_def)
next
  case True
  with assms(2) have ctx: "program_uses_context p" by simp
  show ?thesis
    using assms(1,3-5) ctx
    by (cases t) (auto simp: check_prologue_def lead_def emit_prologue_def Let_def ctx_layout_of_def
        resolve_all_Cons resolve_one_def prologue_ok_def is_kernel_def)
qed

lemma packet_load_context:
  assumes "list_all2 (emitted ctx) bs codes" "resolve_all ix starts k (lead p t @ concat codes) = Some (Inr (is, rs))"
    and "set bs \<subseteq> set (blocks p)" "list_ex is_packet_load is"
  shows "program_uses_context p"
proof (rule ccontr)
  assume no: "\<not> program_uses_context p"
  have "list_all (pend_all (\<lambda>i. \<not> is_packet_load i)) (concat codes)"
  proof (rule emitted_blocks_all [OF assms(1)])
    fix b c assume b: "b \<in> set bs" "emitted ctx b c"
    have none: "load_off i = None" if "i \<in> set (insts b)" for i
    proof -
      from b(1) assms(3) that no have "\<not> uses_context i"
        by (auto simp: program_uses_context_def list_ex_iff)
      then show ?thesis by (auto simp: uses_context_def load_off_def split: inst.splits)
    qed
    show "list_all (pend_all (\<lambda>i. \<not> is_packet_load i)) c"
      by (rule emitted_all [OF b(2)]) (use none emit_inst_no_packet emit_term_no_packet in blast)+
  qed
  with lead_no_packet [of p t] have "list_all (pend_all (\<lambda>i. \<not> is_packet_load i)) (lead p t @ concat codes)" by simp
  from resolve_all_pred [OF assms(2) this] assms(4) show False by (auto simp: list_all_iff list_ex_iff)
qed

lemma emit_verify:
  assumes ok: "codegen_ok p" and kernel: "is_kernel t" and emit: "emit_program_for_target p t = Some (Inr obj)"
    and small: "length (insns obj) \<le> 2 ^ 32"
  shows "verify obj = (if returns_last p then [] else [NoExit])"
proof -
  let ?ctx = "emit_ctx_new t (num_slots p)"
  obtain codes starts rs where valid: "validate_target p t = Inr ()"
    and codes: "list_all2 (emitted ?ctx) (block_order p) codes"
    and res: "resolve_all (insn_indices 0 (lead p t @ concat codes)) starts 0 (lead p t @ concat codes) = Some (Inr (insns obj, rs))"
    and obj: "obj = assemble t (prog_type p) (insns obj) (maps p) rs"
    by (rule emit_program_parts [OF emit]) (auto simp: lead_def)
  have sub: "set (block_order p) \<subseteq> set (blocks p)" using block_order_sub by blast
  have tgt: "obj_target obj = t" "relocations obj = rs" by (subst obj, simp add: assemble_def)+
  from res obtain is1 r1 is2 r2 where parts:
    "resolve_all (insn_indices 0 (lead p t @ concat codes)) starts 0 (lead p t) = Some (Inr (is1, r1))"
    "resolve_all (insn_indices 0 (lead p t @ concat codes)) starts (0 + length (lead p t)) (concat codes) = Some (Inr (is2, r2))"
    "insns obj = is1 @ is2" by (auto simp: resolve_all_append)
  have "list_all (pend_all (\<lambda>i. \<not> stack_bad i)) (lead p t @ concat codes)"
    unfolding list_all_append using sub
    by (intro conjI lead_stack [OF ok] emitted_blocks_all [OF codes] emitted_stack [OF ok valid]) auto
  then have stack: "check_stack_accesses (insns obj) = []"
    using resolve_all_pred [OF res] check_stack_none by blast
  have "list_all maps_relocated (concat codes)"
    by (rule emitted_blocks_all [OF codes], erule emitted_all) (auto intro: emit_inst_maps emit_term_maps)
  then have relocs: "check_map_fd_relocations obj = []"
    by (intro check_relocations_emitted [OF res]) (use lead_maps small tgt in auto)
  have "guarded (insns obj)"
    unfolding parts(3)
    using guarded_none [OF resolve_all_pred [OF parts(1) lead_no_packet]] emitted_blocks_guarded [OF codes parts(2)]
    by (rule guarded_append)
  then have packet: "check_packet_loads (insns obj) = []" by (rule check_packet_loads_guarded)
  have prologue: "check_prologue obj = []"
    by (rule check_prologue_emitted [OF res packet_load_context [OF codes res sub]]) (use tgt kernel in auto)
  have "check_exit (insns obj) = (if returns_last p then [] else [NoExit])"
  proof (cases "block_order p = []")
    case True
    with codes parts have "insns obj = is1" by auto
    moreover have "list_all (\<lambda>i. i_op i \<noteq> EXIT_OP) is1"
      by (rule resolve_all_pred [OF parts(1)])
        (use load_size_cases [of t] in \<open>auto simp: lead_def emit_prologue_def Let_def list_all_iff EXIT_OP_def builder_defs opcode_defs\<close>)
    ultimately show ?thesis using True
      by (cases is1 rule: rev_cases) (auto simp: check_exit_def returns_last_def)
  next
    case False
    from check_exit_emitted [OF codes parts(2) False] False parts(3) show ?thesis
      by (auto simp: check_exit_def returns_last_def)
  qed
  with stack relocs packet prologue kernel tgt show ?thesis by (simp add: verify_def)
qed

section \<open>Properties\<close>

text \<open>
  C26. On every kernel object the code generator emits for a well-formed program the verifier model
  raises no complaint about the prologue, the relocations, the stack or the packet loads; it accepts
  the object exactly when the block laid out last returns, and reports only \<open>NoExit\<close> otherwise.
\<close>

theorem emitted_objects_verify:
  assumes "codegen_ok p" "is_kernel t" "emit_program_for_target p t = Some (Inr obj)" "length (insns obj) \<le> 2 ^ 32"
  shows "verify obj = (if returns_last p then [] else [NoExit])"
  by (rule emit_verify [OF assms])

text \<open>An XDP program that reads the EtherType and returns it.\<close>

definition xdp_demo :: bpf_program where
  "xdp_demo = \<lparr>prog_type = Xdp, entry = 0,
     blocks = [\<lparr>block_label = 0, insts = [CtxPtr 0 (span_empty 0), Load 1 B16 0 12 Big (ReturnVerdict 2) (span_empty 0)],
       blk_term = Return 1 (span_empty 0)\<rparr>],
     num_slots = 2, slot_types = [TPtr Ctx, TInt], raw_slot_count = 2, zero_init = [], maps = []\<rparr>"

lemma xdp_demo_emits:
  "\<exists>obj. emit_program_for_target xdp_demo KernelXdp = Some (Inr obj) \<and> length (insns obj) = 13"
  by (simp add: xdp_demo_def emit_program_for_target_def validate_target_def is_kernel_def target_accepts_def
      block_order_def emit_load_def i16_try_from_def i32_try_from_def emit_prologue_def program_uses_context_def
      uses_context_def resolve_all.simps resolve_one_def st_slot_def ld_slot_def assemble_def Let_def)

lemma xdp_demo_ok: "codegen_ok xdp_demo"
  by (simp add: xdp_demo_def codegen_ok_def block_slots_def inst_slots_def def_set_def inst_map_def load_off_def)

theorem emitted_objects_verify_witness:
  "\<exists>obj. emit_program_for_target xdp_demo KernelXdp = Some (Inr obj) \<and> length (insns obj) = 13 \<and> verify obj = []"
proof -
  obtain obj where obj: "emit_program_for_target xdp_demo KernelXdp = Some (Inr obj)" "length (insns obj) = 13"
    using xdp_demo_emits by blast
  have "verify obj = (if returns_last xdp_demo then [] else [NoExit])"
    by (rule emitted_objects_verify [OF xdp_demo_ok _ obj(1)]) (simp_all add: is_kernel_def obj(2))
  then show ?thesis using obj by (auto simp: returns_last_def xdp_demo_def block_order_def)
qed

section \<open>The checks do not see widths\<close>

text \<open>A load or store with other width bits, and an object with other widths throughout.\<close>

definition set_width :: "u8 \<Rightarrow> insn \<Rightarrow> insn" where
  "set_width w i = (if stack_base i = None then i else i\<lparr>i_op := or (and (i_op i) (not DW_MODE)) (and w DW_MODE)\<rparr>)"

fun set_widths :: "(nat \<Rightarrow> u8) \<Rightarrow> insn list \<Rightarrow> insn list" where
  "set_widths w [] = []"
| "set_widths w (i # is) = set_width (w 0) i # set_widths (\<lambda>k. w (Suc k)) is"

lemma set_widths_length [simp]: "length (set_widths w is) = length is"
  by (induction w "is" rule: set_widths.induct) simp_all

lemma set_widths_nth [simp]: "k < length is \<Longrightarrow> set_widths w is ! k = set_width (w k) (is ! k)"
  by (induction w "is" arbitrary: k rule: set_widths.induct) (auto simp: nth_Cons split: nat.split)

lemma class_of_width: "and (or (and x (not DW_MODE)) (and w DW_MODE)) CLASS_MASK = and x CLASS_MASK"
proof -
  have "and (not DW_MODE) CLASS_MASK = CLASS_MASK" "and DW_MODE CLASS_MASK = 0" by (simp_all add: DW_MODE_def CLASS_MASK_def)
  then show ?thesis by (simp add: bit.conj_disj_distrib2 and.assoc)
qed

lemma set_width_sel [simp]:
  "i_dst (set_width w i) = i_dst i" "i_src (set_width w i) = i_src i" "i_off (set_width w i) = i_off i"
  "insn_class (set_width w i) = insn_class i"
  by (simp_all add: set_width_def insn_class_def class_of_width)

lemma memory_class: "stack_base i \<noteq> None \<Longrightarrow> insn_class i \<in> {LDX, ST, STX}"
  by (auto simp: stack_base_def split: if_splits)

lemma set_width_facts [simp]:
  "stack_bad (set_width w i) = stack_bad i" "is_packet_load (set_width w i) = is_packet_load i"
  "is_map_fd_load (set_width w i) = is_map_fd_load i" "is_end_compare (set_width w i) = is_end_compare i"
  "i_op (set_width w i) = EXIT_OP \<longleftrightarrow> i_op i = EXIT_OP"
proof -
  show "stack_bad (set_width w i) = stack_bad i" "is_packet_load (set_width w i) = is_packet_load i"
    by (simp_all add: stack_bad_def stack_base_def is_packet_load_def)
  have *: "is_map_fd_load (set_width w i) = is_map_fd_load i \<and> is_end_compare (set_width w i) = is_end_compare i \<and>
     (i_op (set_width w i) = EXIT_OP \<longleftrightarrow> i_op i = EXIT_OP)"
  proof (cases "stack_base i = None")
    case False
    then have c: "insn_class i \<in> {LDX, ST, STX}" by (rule memory_class)
    have "insn_class j \<notin> {LDX, ST, STX}" if "i_op j = EXIT_OP" for j
      using that by (simp add: insn_class_def EXIT_OP_def CLASS_MASK_def opcode_defs)
    with c set_width_sel(4) [of w i] have "i_op (set_width w i) \<noteq> EXIT_OP" "i_op i \<noteq> EXIT_OP" by metis+
    moreover have "insn_class i \<noteq> LD" "insn_class i \<noteq> JMP" using c by (auto simp: opcode_defs)
    ultimately show ?thesis by (simp add: is_map_fd_load_def is_end_compare_def)
  qed (simp add: set_width_def)
  then show "is_map_fd_load (set_width w i) = is_map_fd_load i" "is_end_compare (set_width w i) = is_end_compare i"
    "i_op (set_width w i) = EXIT_OP \<longleftrightarrow> i_op i = EXIT_OP" by blast+
qed

lemma enumerate_cong:
  "length xs = length ys \<Longrightarrow> (\<And>k. k < length ys \<Longrightarrow> f (k, xs ! k) = g (k, ys ! k)) \<Longrightarrow> map f (enumerate 0 xs) = map g (enumerate 0 ys)"
  by (intro nth_equalityI) (simp_all add: nth_enumerate_eq)

lemma widths_class:
  assumes "\<And>w i. p (set_width w i) = p i"
  shows "list_ex p (set_widths w is) = list_ex p is"
  using assms by (auto simp: list_ex_length)

lemma widths_packet [simp]: "list_ex is_packet_load (set_widths w is) = list_ex is_packet_load is"
  by (rule widths_class) simp

lemma widths_compare [simp]:
  "list_ex is_end_compare (subslice i j (set_widths w is)) = list_ex is_end_compare (subslice i j is)"
  by (auto simp: subslice_def list_ex_length)

lemma widths_Nil [simp]: "set_widths w is = [] \<longleftrightarrow> is = []"
  by (cases "is") simp_all

lemma widths_exit [simp]: "is \<noteq> [] \<Longrightarrow> i_op (last (set_widths w is)) = EXIT_OP \<longleftrightarrow> i_op (last is) = EXIT_OP"
  by (simp add: last_conv_nth)

lemma prologue_widths [simp]: "prologue_ok d e (set_widths w is) = prologue_ok d e is"
  by (cases "is"; cases "tl is"; simp add: prologue_ok_def)

lemma verify_widths: "verify (obj\<lparr>insns := set_widths w (insns obj), raw := bytes\<rparr>) = verify obj"
proof -
  let ?is = "insns obj" and ?js = "set_widths w (insns obj)"
  have "check_exit ?js = check_exit ?is" by (auto simp: check_exit_def)
  moreover have "check_prologue (obj\<lparr>insns := ?js, raw := bytes\<rparr>) = check_prologue obj" by (simp add: check_prologue_def)
  moreover have "check_map_fd_relocations (obj\<lparr>insns := ?js, raw := bytes\<rparr>) = check_map_fd_relocations obj"
    unfolding check_map_fd_relocations_def ebpf_object.simps by (intro arg_cong [of _ _ concat] enumerate_cong) simp_all
  moreover have "check_stack_accesses ?js = check_stack_accesses ?is"
    unfolding check_stack_accesses_def by (intro arg_cong [of _ _ concat] enumerate_cong) simp_all
  moreover have "check_packet_loads ?js = check_packet_loads ?is"
    unfolding check_packet_loads_def by (intro arg_cong [of _ _ concat] enumerate_cong) simp_all
  ultimately show ?thesis by (simp add: verify_def)
qed

text \<open>
  C40. The checks do not see how wide an access is. Giving the loads and stores of an object any other
  width bits changes nothing in what the verifier model reports, neither for the stack nor for the context
  and the packet. So an object that stores at any offset of the frame, with any width, passes it, also
  where part of the bytes stored lie above the frame pointer, outside the 512-byte frame.
\<close>

theorem verify_ignores_access_width:
  "verify (obj\<lparr>insns := set_widths w (insns obj), raw := bytes\<rparr>) = verify obj \<and>
   (- 512 \<le> sint off \<and> sint off < 0 \<longrightarrow>
      verify (assemble KernelXdp Xdp (set_widths w [stx SZ_B R10 R1 off, mov64_imm R0 2, exit_insn]) [] []) = [])"
proof (intro conjI impI verify_widths)
  let ?narrow = "[stx SZ_B R10 R1 off, mov64_imm R0 2, exit_insn]"
  assume "- 512 \<le> sint off \<and> sint off < 0"
  then have "verify (assemble KernelXdp Xdp ?narrow [] []) = []"
    by (simp add: verify_def assemble_def is_kernel_def check_exit_def check_prologue_def
      check_map_fd_relocations_def check_stack_accesses_def check_packet_loads_def is_map_fd_load_def
      is_packet_load_def stack_bad_def stack_base_def enumerate_eq_zip insn_class_def builder_defs
      opcode_defs CLASS_MASK_def EXIT_OP_def DW_MODE_def upt_rec)
  with verify_widths [where obj = "assemble KernelXdp Xdp ?narrow [] []" and w = w]
  show "verify (assemble KernelXdp Xdp (set_widths w ?narrow) [] []) = []" by (simp add: assemble_def)
qed

theorem verify_ignores_access_width_witness:
  "verify (assemble KernelXdp Xdp [stx SZ_DW R10 R1 (- 4), mov64_imm R0 2, exit_insn] [] []) = []"
proof -
  have "set_widths (\<lambda>_. SZ_DW) [stx SZ_B R10 R1 (- 4), mov64_imm R0 2, exit_insn] =
      [stx SZ_DW R10 R1 (- 4), mov64_imm R0 2, exit_insn]"
    by (simp add: set_width_def stack_base_def insn_class_def builder_defs opcode_defs CLASS_MASK_def DW_MODE_def)
  with verify_ignores_access_width [where w = "\<lambda>_. SZ_DW" and off = "- 4"] show ?thesis by simp
qed

end
