(* ===== verification/Ebpf_Machine.thy ===== *)
theory Ebpf_Machine
  imports Ebpf_Insn Bpf_Sem
begin

text \<open>
  The machine the emitted instructions run on. The virtual machine (\<open>rbpf\<close>, or a kernel) is
  not part of the repository, so it is a parameter \<open>step\<close>; the locale \<open>ebpf_vm\<close> states
  what the instruction set documents about the instructions the code generator uses: the comments of
  \<open>insn.rs\<close>, with 64-bit registers, byte-addressed memory in the host's byte order, accesses
  confined to the stack, the packet and the metadata buffer, and helper calls that return in
  \<open>r0\<close> and keep \<open>r6\<close> to \<open>r10\<close>. \<open>isa_step\<close> is an executable interpreter that
  satisfies the contract. The run harness of \<open>bpf-tcl/src/run.rs\<close> closes the theory.
\<close>

section \<open>Memory\<close>

definition le_bytes :: "nat \<Rightarrow> u64 \<Rightarrow> u8 list" where
  "le_bytes n v = map (\<lambda>i. ucast (drop_bit (8 * i) v)) [0..<n]"

definition host_bytes :: "bool \<Rightarrow> nat \<Rightarrow> u64 \<Rightarrow> u8 list" where
  "host_bytes big n v = (if big then rev (le_bytes n v) else le_bytes n v)"

definition read_mem :: "nat \<Rightarrow> u64 \<Rightarrow> (u64 \<Rightarrow> u8) \<Rightarrow> u8 list" where
  "read_mem n a m = map (\<lambda>i. m (a + of_nat i)) [0..<n]"

definition load_mem :: "bool \<Rightarrow> nat \<Rightarrow> u64 \<Rightarrow> (u64 \<Rightarrow> u8) \<Rightarrow> u64" where
  "load_mem big n a m = host_val big (read_mem n a m)"

definition write_mem :: "u8 list \<Rightarrow> u64 \<Rightarrow> (u64 \<Rightarrow> u8) \<Rightarrow> u64 \<Rightarrow> u8" where
  "write_mem bs a m = (\<lambda>x. if unat (x - a) < length bs then bs ! unat (x - a) else m x)"

definition store_mem :: "bool \<Rightarrow> nat \<Rightarrow> u64 \<Rightarrow> u64 \<Rightarrow> (u64 \<Rightarrow> u8) \<Rightarrow> u64 \<Rightarrow> u8" where
  "store_mem big n a v m = write_mem (host_bytes big n v) a m"

definition to_be :: "bool \<Rightarrow> nat \<Rightarrow> u64 \<Rightarrow> u64" where
  "to_be big n v = le_val (if big then le_bytes n v else rev (le_bytes n v))"

definition to_le :: "bool \<Rightarrow> nat \<Rightarrow> u64 \<Rightarrow> u64" where
  "to_le big n v = le_val (if big then rev (le_bytes n v) else le_bytes n v)"

lemma le_val_Cons_or: "le_val (b # bs) = or (ucast b) (push_bit 8 (le_val bs))"
proof -
  have "and (ucast b :: u64) (push_bit 8 (le_val bs)) = 0"
    by (rule bit_word_eqI) (auto simp: bit_simps dest: bit_imp_le_length)
  then show ?thesis by (simp add: push_bit_eq_mult mult.commute disjunctive_add_eq_or)
qed

lemma bit_le_val:
  "n < 64 \<Longrightarrow> length bs \<le> 8 \<Longrightarrow> bit (le_val bs) n \<longleftrightarrow> n div 8 < length bs \<and> bit (bs ! (n div 8)) (n mod 8)"
proof (induction bs arbitrary: n)
  case (Cons b bs)
  show ?case
  proof (cases "n < 8")
    case True
    with Cons.prems show ?thesis
      unfolding le_val_Cons_or by (auto simp: bit_simps)
  next
    case False
    then have "n div 8 = Suc ((n - 8) div 8)" "n mod 8 = (n - 8) mod 8"
      by (simp_all add: le_div_geq le_mod_geq)
    with False Cons.prems Cons.IH [of "n - 8"] show ?thesis
      unfolding le_val_Cons_or by (auto simp: bit_simps dest: bit_imp_le_length)
  qed
qed simp

lemma length_bytes [simp]: "length (le_bytes n v) = n" "length (host_bytes big n v) = n" "length (read_mem n a m) = n"
  by (simp_all add: le_bytes_def host_bytes_def read_mem_def)

lemma le_val_bytes: "n \<le> 8 \<Longrightarrow> le_val (le_bytes n v) = take_bit (8 * n) v"
proof (rule bit_word_eqI)
  fix k assume "n \<le> 8" "k < LENGTH(64)"
  moreover have "k div 8 < n \<longleftrightarrow> k < 8 * n" by (auto simp: less_mult_imp_div_less mult.commute)
  ultimately show "bit (le_val (le_bytes n v)) k \<longleftrightarrow> bit (take_bit (8 * n) v) k"
    by (auto simp: bit_le_val le_bytes_def bit_simps)
qed

lemma le_bytes_val: "length bs \<le> 8 \<Longrightarrow> n = length bs \<Longrightarrow> le_bytes n (le_val bs) = bs"
proof (intro nth_equalityI)
  fix i assume i: "length bs \<le> 8" "i < length (le_bytes n (le_val bs))" "n = length bs"
  show "le_bytes n (le_val bs) ! i = bs ! i"
  proof (rule bit_word_eqI)
    fix k assume "k < LENGTH(8)"
    with i show "bit (le_bytes n (le_val bs) ! i) k \<longleftrightarrow> bit (bs ! i) k"
      by (auto simp: le_bytes_def bit_simps bit_le_val)
  qed
qed simp

lemma host_val_bytes [simp]: "host_val big (host_bytes big 8 v) = v"
  by (simp add: host_val_def host_bytes_def le_val_bytes take_bit_word_eq_self)

text \<open>The documented byte-order conversions recover the field from its value in host order.\<close>

lemma to_be_host: "length bs = n \<Longrightarrow> n \<le> 8 \<Longrightarrow> to_be big n (host_val big bs) = host_val True bs"
  by (cases big) (simp_all add: to_be_def host_val_def le_bytes_val)

lemma to_le_host: "length bs = n \<Longrightarrow> n \<le> 8 \<Longrightarrow> to_le big n (host_val big bs) = host_val False bs"
  by (cases big) (simp_all add: to_le_def host_val_def le_bytes_val)

lemma read_write_same: "length bs < 2 ^ 64 \<Longrightarrow> read_mem (length bs) a (write_mem bs a m) = bs"
  by (intro nth_equalityI) (simp_all add: read_mem_def write_mem_def unsigned_of_nat take_bit_nat_eq_self)

lemma read_write_other:
  assumes "\<And>i. i < n \<Longrightarrow> length bs \<le> unat (b + of_nat i - a)"
  shows "read_mem n b (write_mem bs a m) = read_mem n b m"
  using assms by (auto simp: read_mem_def write_mem_def not_less [symmetric])

section \<open>Machine states\<close>

text \<open>An environment fixes the host's byte order and where the stack, packet and metadata buffer lie.\<close>

record vm_env =
  env_big :: bool
  stack_top :: u64
  pkt_addr :: u64
  pkt_len :: nat
  mbuff_addr :: u64

record vm_state =
  regs :: "u8 \<Rightarrow> u64"
  mem :: "u64 \<Rightarrow> u8"
  vmaps :: "emu_map list"
  pc :: nat

definition in_region :: "u64 \<Rightarrow> nat \<Rightarrow> u64 \<Rightarrow> nat \<Rightarrow> bool" where
  "in_region base len a n \<longleftrightarrow> unat (a - base) + n \<le> len"

definition in_stack :: "vm_env \<Rightarrow> u64 \<Rightarrow> nat \<Rightarrow> bool" where
  "in_stack env a n = in_region (stack_top env - 512) 512 a n"

definition accessible :: "vm_env \<Rightarrow> u64 \<Rightarrow> nat \<Rightarrow> bool" where
  "accessible env a n =
     (in_stack env a n \<or> in_region (pkt_addr env) (pkt_len env) a n \<or> in_region (mbuff_addr env) 16 a n)"

definition fetch :: "insn list \<Rightarrow> vm_state \<Rightarrow> insn option" where
  "fetch prog s = (if pc s < length prog then Some (prog ! pc s) else None)"

definition set_reg :: "u8 \<Rightarrow> u64 \<Rightarrow> vm_state \<Rightarrow> vm_state" where
  "set_reg d v s = s\<lparr>regs := (regs s)(d := v), pc := Suc (pc s)\<rparr>"

definition set_mem :: "(u64 \<Rightarrow> u8) \<Rightarrow> vm_state \<Rightarrow> vm_state" where
  "set_mem m s = s\<lparr>mem := m, pc := Suc (pc s)\<rparr>"

definition jump_if :: "bool \<Rightarrow> i16 \<Rightarrow> vm_state \<Rightarrow> vm_state" where
  "jump_if c off s = s\<lparr>pc := nat (int (pc s) + 1 + (if c then sint off else 0))\<rparr>"

section \<open>The documented operations\<close>

definition size_bytes :: "u8 \<Rightarrow> nat option" where
  "size_bytes sz =
     (if sz = SZ_B then Some 1 else if sz = SZ_H then Some 2 else if sz = SZ_W then Some 4
      else if sz = SZ_DW then Some 8 else None)"

definition alu_doc :: "u8 \<Rightarrow> i16 \<Rightarrow> u64 \<Rightarrow> u64 \<Rightarrow> u64 option" where
  "alu_doc op off a b =
     (if op = ADD then Some (a + b)
      else if op = SUB then Some (a - b)
      else if op = MUL then Some (a * b)
      else if op = DIV then
        Some (if off = 0 then a div b else word_of_int (if b = 0 then 0 else sint a sdiv sint b))
      else if op = MOD_op then
        Some (if off = 0 then (if b = 0 then a else a mod b)
              else (if b = 0 then a else word_of_int (sint a smod sint b)))
      else if op = OR_op then Some (or a b)
      else if op = AND_op then Some (and a b)
      else if op = XOR_op then Some (xor a b)
      else if op = LSH then Some (push_bit (unat (and b 63)) a)
      else if op = RSH then Some (drop_bit (unat (and b 63)) a)
      else if op = ARSH then Some (signed_drop_bit (unat (and b 63)) a)
      else None)"

definition jump_doc :: "u8 \<Rightarrow> u64 \<Rightarrow> u64 \<Rightarrow> bool option" where
  "jump_doc op a b =
     (if op = JEQ then Some (a = b)
      else if op = JNE then Some (a \<noteq> b)
      else if op = JGT then Some (b < a)
      else if op = JLE then Some (a \<le> b)
      else if op = JSGT then Some (sint b < sint a)
      else if op = JSGE then Some (sint b \<le> sint a)
      else if op = JSLT then Some (sint a < sint b)
      else if op = JSLE then Some (sint a \<le> sint b)
      else None)"

type_synonym helper = "u64 \<Rightarrow> u64 \<Rightarrow> u64 \<Rightarrow> u64 \<Rightarrow> u64 \<Rightarrow> emu_map list \<Rightarrow> u64 \<times> emu_map list"

text \<open>One step goes on, ends with the value of \<open>r0\<close>, or faults (\<open>None\<close>).\<close>

type_synonym vm_step = "(i32 \<rightharpoonup> helper) \<Rightarrow> vm_env \<Rightarrow> insn list \<Rightarrow> vm_state \<Rightarrow> (vm_state + u64) option"

text \<open>A finished run leaves the verdict, the maps and the packet.\<close>

type_synonym vm_result = "u64 \<times> emu_map list \<times> u8 list"

fun vm_run :: "vm_step \<Rightarrow> (i32 \<rightharpoonup> helper) \<Rightarrow> vm_env \<Rightarrow> insn list \<Rightarrow> nat \<Rightarrow> vm_state \<Rightarrow> vm_result option" where
  "vm_run step hs env prog 0 s = None"
| "vm_run step hs env prog (Suc n) s =
     (case step hs env prog s of
        None \<Rightarrow> None
      | Some (Inr v) \<Rightarrow> Some (v, vmaps s, read_mem (pkt_len env) (pkt_addr env) (mem s))
      | Some (Inl s') \<Rightarrow> vm_run step hs env prog n s')"

locale ebpf_vm =
  fixes step :: vm_step
  assumes mov_imm: "fetch prog s = Some (mov64_imm d imm) \<Longrightarrow> d < 10 \<Longrightarrow>
      step hs env prog s = Some (Inl (set_reg d (scast imm) s))"
    and mov_reg: "fetch prog s = Some (mov64_reg d r) \<Longrightarrow> d < 10 \<Longrightarrow> r \<le> 10 \<Longrightarrow>
      step hs env prog s = Some (Inl (set_reg d (regs s r) s))"
    and alu_imm: "fetch prog s = Some (alu64_imm op d imm) \<Longrightarrow> d < 10 \<Longrightarrow>
      alu_doc op 0 (regs s d) (scast imm) = Some v \<Longrightarrow> step hs env prog s = Some (Inl (set_reg d v s))"
    and alu_reg: "fetch prog s = Some (alu64_reg_off op d r off) \<Longrightarrow> d < 10 \<Longrightarrow> r \<le> 10 \<Longrightarrow>
      alu_doc op off (regs s d) (regs s r) = Some v \<Longrightarrow> step hs env prog s = Some (Inl (set_reg d v s))"
    and neg: "fetch prog s = Some (neg64 d) \<Longrightarrow> d < 10 \<Longrightarrow>
      step hs env prog s = Some (Inl (set_reg d (- regs s d) s))"
    and load: "fetch prog s = Some (ldx sz d r off) \<Longrightarrow> d < 10 \<Longrightarrow> r \<le> 10 \<Longrightarrow> size_bytes sz = Some n \<Longrightarrow>
      accessible env (regs s r + scast off) n \<Longrightarrow>
      step hs env prog s = Some (Inl (set_reg d (load_mem (env_big env) n (regs s r + scast off) (mem s)) s))"
    and store: "fetch prog s = Some (stx sz d r off) \<Longrightarrow> d \<le> 10 \<Longrightarrow> r \<le> 10 \<Longrightarrow> size_bytes sz = Some n \<Longrightarrow>
      accessible env (regs s d + scast off) n \<Longrightarrow>
      step hs env prog s = Some (Inl (set_mem (store_mem (env_big env) n (regs s d + scast off) (regs s r) (mem s)) s))"
    and store_imm: "fetch prog s = Some (st_imm sz d off imm) \<Longrightarrow> d \<le> 10 \<Longrightarrow> size_bytes sz = Some n \<Longrightarrow>
      accessible env (regs s d + scast off) n \<Longrightarrow>
      step hs env prog s = Some (Inl (set_mem (store_mem (env_big env) n (regs s d + scast off) (scast imm) (mem s)) s))"
    and jump_imm: "fetch prog s = Some (jmp_imm op d imm off) \<Longrightarrow> d \<le> 10 \<Longrightarrow>
      jump_doc op (regs s d) (scast imm) = Some c \<Longrightarrow> step hs env prog s = Some (Inl (jump_if c off s))"
    and jump_reg: "fetch prog s = Some (jmp_reg op d r off) \<Longrightarrow> d \<le> 10 \<Longrightarrow> r \<le> 10 \<Longrightarrow>
      jump_doc op (regs s d) (regs s r) = Some c \<Longrightarrow> step hs env prog s = Some (Inl (jump_if c off s))"
    and jump_always: "fetch prog s = Some (ja off) \<Longrightarrow> step hs env prog s = Some (Inl (jump_if True off s))"
    and exits: "fetch prog s = Some exit_insn \<Longrightarrow> step hs env prog s = Some (Inr (regs s R0))"
    and calls: "fetch prog s = Some (call h) \<Longrightarrow> hs h = Some f \<Longrightarrow>
      f (regs s 1) (regs s 2) (regs s 3) (regs s 4) (regs s 5) (vmaps s) = (v, ms) \<Longrightarrow>
      \<exists>s'. step hs env prog s = Some (Inl s') \<and> regs s' R0 = v \<and> (\<forall>r\<in>{6..10}. regs s' r = regs s r) \<and>
        mem s' = mem s \<and> vmaps s' = ms \<and> pc s' = Suc (pc s)"
    and wide: "fetch prog s = Some (fst (lddw d v)) \<Longrightarrow> Suc (pc s) < length prog \<Longrightarrow>
      prog ! Suc (pc s) = snd (lddw d v) \<Longrightarrow> d < 10 \<Longrightarrow>
      step hs env prog s = Some (Inl (s\<lparr>regs := (regs s)(d := v), pc := pc s + 2\<rparr>))"
    and swap_be: "fetch prog s = Some (bswap_be d w) \<Longrightarrow> d < 10 \<Longrightarrow> w \<in> {16, 32, 64} \<Longrightarrow>
      step hs env prog s = Some (Inl (set_reg d (to_be (env_big env) (unat w div 8) (regs s d)) s))"
    and swap_le: "fetch prog s = Some (bswap_le d w) \<Longrightarrow> d < 10 \<Longrightarrow> w \<in> {16, 32, 64} \<Longrightarrow>
      step hs env prog s = Some (Inl (set_reg d (to_le (env_big env) (unat w div 8) (regs s d)) s))"

section \<open>A reference interpreter\<close>

definition alu64_step :: "insn \<Rightarrow> vm_state \<Rightarrow> vm_state option" where
  "alu64_step i s =
     (let d = i_dst i; op = and (i_op i) 0xf0;
          rhs = (if and (i_op i) SRC_X = 0 then scast (i_imm i) else regs s (i_src i))
      in if \<not> (d < 10 \<and> i_src i \<le> 10) then None
         else if op = MOV then Some (set_reg d rhs s)
         else if op = NEG then Some (set_reg d (- regs s d) s)
         else map_option (\<lambda>v. set_reg d v s) (alu_doc op (i_off i) (regs s d) rhs))"

definition end_step :: "vm_env \<Rightarrow> insn \<Rightarrow> vm_state \<Rightarrow> vm_state option" where
  "end_step env i s =
     (let d = i_dst i; n = unat (i_imm i) div 8 in
      if \<not> d < 10 \<or> and (i_op i) 0xf0 \<noteq> END \<or> n \<notin> {2, 4, 8} then None
      else Some (set_reg d ((if and (i_op i) SRC_X = 0 then to_le else to_be) (env_big env) n (regs s d)) s))"

definition jmp_step :: "(i32 \<rightharpoonup> helper) \<Rightarrow> insn \<Rightarrow> vm_state \<Rightarrow> (vm_state + u64) option" where
  "jmp_step hs i s =
     (let op = and (i_op i) 0xf0;
          rhs = (if and (i_op i) SRC_X = 0 then scast (i_imm i) else regs s (i_src i))
      in if op = EXIT then Some (Inr (regs s R0))
         else if op = JA then Some (Inl (jump_if True (i_off i) s))
         else if op = CALL then
           (case hs (i_imm i) of
              None \<Rightarrow> None
            | Some f \<Rightarrow>
                (case f (regs s 1) (regs s 2) (regs s 3) (regs s 4) (regs s 5) (vmaps s) of (v, ms) \<Rightarrow>
                   Some (Inl ((set_reg R0 v s)\<lparr>vmaps := ms\<rparr>))))
         else map_option (\<lambda>c. Inl (jump_if c (i_off i) s)) (jump_doc op (regs s (i_dst i)) rhs))"

definition mem_step :: "vm_env \<Rightarrow> insn \<Rightarrow> vm_state \<Rightarrow> vm_state option" where
  "mem_step env i s =
     (case size_bytes (and (i_op i) 0x18) of
        None \<Rightarrow> None
      | Some n \<Rightarrow>
          (let cls = and (i_op i) 0x07;
               a = regs s (if cls = LDX then i_src i else i_dst i) + scast (i_off i)
           in if and (i_op i) 0xe0 \<noteq> MEM \<or> \<not> accessible env a n then None
              else if cls = LDX then
                (if \<not> i_dst i < 10 then None else Some (set_reg (i_dst i) (load_mem (env_big env) n a (mem s)) s))
              else Some (set_mem (store_mem (env_big env) n a
                     (if cls = STX then regs s (i_src i) else scast (i_imm i)) (mem s)) s)))"

definition isa_step :: vm_step where
  "isa_step hs env prog s =
     (case fetch prog s of
        None \<Rightarrow> None
      | Some i \<Rightarrow>
          (let cls = and (i_op i) 0x07 in
           if cls = ALU64 then map_option Inl (alu64_step i s)
           else if cls = ALU then map_option Inl (end_step env i s)
           else if cls = JMP then jmp_step hs i s
           else if cls = LD then
             (if i_op i = 0x18 \<and> i_dst i < 10 \<and> Suc (pc s) < length prog then
                Some (Inl (s\<lparr>regs := (regs s)(i_dst i :=
                  or (ucast (i_imm i)) (push_bit 32 (ucast (i_imm (prog ! Suc (pc s)))))), pc := pc s + 2\<rparr>))
              else None)
           else map_option Inl (mem_step env i s)))"

lemma lddw_value: "or (ucast (ucast (and v 0xffffffff) :: i32)) (push_bit 32 (ucast (ucast (and (signed_drop_bit 32 v) 0xffffffff) :: i32))) = (v :: u64)"
proof -
  have m: "(0xffffffff :: u64) = mask 32" by (simp add: mask_eq_exp_minus_1)
  show ?thesis
    unfolding m
    apply (rule bit_word_eqI)
    subgoal for n by (cases "n < 32") (auto simp: bit_simps)
    done
qed

lemma alu_doc_ops: "alu_doc op off a b = Some v \<Longrightarrow>
    op \<in> {0x00, 0x10, 0x20, 0x30, 0x40, 0x50, 0x60, 0x70, 0x90, 0xa0, 0xc0}"
  by (auto simp: alu_doc_def opcode_defs split: if_splits)

lemma jump_doc_ops: "jump_doc op a b = Some c \<Longrightarrow> op \<in> {0x10, 0x20, 0x50, 0x60, 0x70, 0xb0, 0xc0, 0xd0}"
  by (auto simp: jump_doc_def opcode_defs split: if_splits)

lemma size_bytes_ops: "size_bytes sz = Some n \<Longrightarrow> sz \<in> {0x00, 0x08, 0x10, 0x18}"
  by (auto simp: size_bytes_def opcode_defs split: if_splits)

interpretation isa: ebpf_vm isa_step
proof
  fix prog s d imm hs env r op off v
  show "fetch prog s = Some (mov64_imm d imm) \<Longrightarrow> d < 10 \<Longrightarrow> isa_step hs env prog s = Some (Inl (set_reg d (scast imm) s))"
    by (simp add: isa_step_def alu64_step_def builder_defs opcode_defs Let_def)
  show "fetch prog s = Some (mov64_reg d r) \<Longrightarrow> d < 10 \<Longrightarrow> r \<le> 10 \<Longrightarrow> isa_step hs env prog s = Some (Inl (set_reg d (regs s r) s))"
    by (simp add: isa_step_def alu64_step_def builder_defs opcode_defs Let_def)
  show "isa_step hs env prog s = Some (Inl (set_reg d v s))"
    if "fetch prog s = Some (alu64_imm op d imm)" "d < 10" "alu_doc op 0 (regs s d) (scast imm) = Some v"
    using that alu_doc_ops [OF that(3)] by (auto simp: isa_step_def alu64_step_def builder_defs opcode_defs Let_def)
  show "isa_step hs env prog s = Some (Inl (set_reg d v s))"
    if "fetch prog s = Some (alu64_reg_off op d r off)" "d < 10" "r \<le> 10" "alu_doc op off (regs s d) (regs s r) = Some v"
    using that alu_doc_ops [OF that(4)] by (auto simp: isa_step_def alu64_step_def builder_defs opcode_defs Let_def)
  show "fetch prog s = Some (neg64 d) \<Longrightarrow> d < 10 \<Longrightarrow> isa_step hs env prog s = Some (Inl (set_reg d (- regs s d) s))"
    by (simp add: isa_step_def alu64_step_def builder_defs opcode_defs Let_def)
next
  fix prog s sz d r off n imm hs env
  show "isa_step hs env prog s = Some (Inl (set_reg d (load_mem (env_big env) n (regs s r + scast off) (mem s)) s))"
    if "fetch prog s = Some (ldx sz d r off)" "d < 10" "r \<le> 10" "size_bytes sz = Some n" "accessible env (regs s r + scast off) n"
    using that size_bytes_ops [OF that(4)] by (auto simp: isa_step_def mem_step_def builder_defs opcode_defs Let_def)
  show "isa_step hs env prog s = Some (Inl (set_mem (store_mem (env_big env) n (regs s d + scast off) (regs s r) (mem s)) s))"
    if "fetch prog s = Some (stx sz d r off)" "d \<le> 10" "r \<le> 10" "size_bytes sz = Some n" "accessible env (regs s d + scast off) n"
    using that size_bytes_ops [OF that(4)] by (auto simp: isa_step_def mem_step_def builder_defs opcode_defs Let_def)
  show "isa_step hs env prog s = Some (Inl (set_mem (store_mem (env_big env) n (regs s d + scast off) (scast imm) (mem s)) s))"
    if "fetch prog s = Some (st_imm sz d off imm)" "d \<le> 10" "size_bytes sz = Some n" "accessible env (regs s d + scast off) n"
    using that size_bytes_ops [OF that(3)] by (auto simp: isa_step_def mem_step_def builder_defs opcode_defs Let_def)
next
  fix prog s op d imm off c hs env r
  show "isa_step hs env prog s = Some (Inl (jump_if c off s))"
    if "fetch prog s = Some (jmp_imm op d imm off)" "d \<le> 10" "jump_doc op (regs s d) (scast imm) = Some c"
    using jump_doc_ops [OF that(3)] that by (elim insertE emptyE) (simp_all add: isa_step_def jmp_step_def builder_defs opcode_defs Let_def)
  show "isa_step hs env prog s = Some (Inl (jump_if c off s))"
    if "fetch prog s = Some (jmp_reg op d r off)" "d \<le> 10" "r \<le> 10" "jump_doc op (regs s d) (regs s r) = Some c"
    using jump_doc_ops [OF that(4)] that by (elim insertE emptyE) (simp_all add: isa_step_def jmp_step_def builder_defs opcode_defs Let_def)
  show "fetch prog s = Some (ja off) \<Longrightarrow> isa_step hs env prog s = Some (Inl (jump_if True off s))"
    by (simp add: isa_step_def jmp_step_def builder_defs opcode_defs Let_def)
  show "fetch prog s = Some exit_insn \<Longrightarrow> isa_step hs env prog s = Some (Inr (regs s R0))"
    by (simp add: isa_step_def jmp_step_def builder_defs opcode_defs Let_def)
next
  fix prog s h v ms env and f :: helper and hs :: "i32 \<rightharpoonup> helper"
  assume "fetch prog s = Some (call h)" "hs h = Some f"
    "f (regs s 1) (regs s 2) (regs s 3) (regs s 4) (regs s 5) (vmaps s) = (v, ms)"
  then show "\<exists>s'. isa_step hs env prog s = Some (Inl s') \<and> regs s' R0 = v \<and> (\<forall>r\<in>{6..10}. regs s' r = regs s r) \<and>
        mem s' = mem s \<and> vmaps s' = ms \<and> pc s' = Suc (pc s)"
    by (auto simp: isa_step_def jmp_step_def builder_defs opcode_defs Let_def set_reg_def)
next
  fix prog s d v env and hs :: "i32 \<rightharpoonup> helper"
  assume "fetch prog s = Some (fst (lddw d v))" "Suc (pc s) < length prog" "prog ! Suc (pc s) = snd (lddw d v)" "d < 10"
  then show "isa_step hs env prog s = Some (Inl (s\<lparr>regs := (regs s)(d := v), pc := pc s + 2\<rparr>))"
    by (simp add: isa_step_def builder_defs opcode_defs Let_def lddw_value)
next
  fix prog s d w env and hs :: "i32 \<rightharpoonup> helper"
  assume "d < (10 :: u8)" "w \<in> {16, 32, 64 :: i32}"
  then show "fetch prog s = Some (bswap_be d w) \<Longrightarrow> isa_step hs env prog s = Some (Inl (set_reg d (to_be (env_big env) (unat w div 8) (regs s d)) s))"
    and "fetch prog s = Some (bswap_le d w) \<Longrightarrow> isa_step hs env prog s = Some (Inl (set_reg d (to_le (env_big env) (unat w div 8) (regs s d)) s))"
    by (auto simp: isa_step_def end_step_def builder_defs opcode_defs Let_def)
qed

section \<open>The helpers of the run harness\<close>

text \<open>The three \<open>register_helper\<close> calls of \<open>run_with_maps\<close>.\<close>

definition registered_helpers :: "i32 \<rightharpoonup> helper" where
  "registered_helpers =
     [1 \<mapsto> (\<lambda>mp key _ _ _ m. (map_get_helper m mp key, m)),
      2 \<mapsto> (\<lambda>mp key val _ _ m. map_set_helper m mp key val),
      3 \<mapsto> (\<lambda>mp key _ _ _ m. (map_has_helper m mp key, m))]"

end
