(* ===== verification/Ebpf_Exec.thy ===== *)
theory Ebpf_Exec
  imports Ebpf_Verifier Ebpf_Machine
begin

text \<open>
  Execution of emitted code in place. \<open>laid\<close> relates the pending stream to the resolved
  instructions; \<open>related\<close> an IR state to a machine state (slots in the stack frame, packet
  pointers in \<open>r6\<close> and \<open>r7\<close>, the packet and the maps); and \<open>goes ps s r\<close>, inside
  the locale of the machine, says that from a state standing at the code \<open>ps\<close> the machine halts
  with \<open>r\<close>. There is one \<open>goes\<close> rule per machine instruction.
\<close>

section \<open>Code in place\<close>

definition code_at :: "insn list \<Rightarrow> nat \<Rightarrow> insn \<Rightarrow> bool" where
  "code_at prog k i \<longleftrightarrow> k < length prog \<and> prog ! k = i"

definition jumps_to :: "(block_id \<rightharpoonup> nat) \<Rightarrow> nat \<Rightarrow> block_id \<Rightarrow> i16 \<Rightarrow> bool" where
  "jumps_to pos k t off \<longleftrightarrow> (\<exists>d. pos t = Some d \<and> int d = int k + 1 + sint off)"

fun laid_one :: "insn list \<Rightarrow> (block_id \<rightharpoonup> nat) \<Rightarrow> nat \<Rightarrow> pending \<Rightarrow> bool" where
  "laid_one prog pos k (Ins i) = code_at prog k i"
| "laid_one prog pos k (Wide a b) = (code_at prog k a \<and> code_at prog (Suc k) b)"
| "laid_one prog pos k (MapFd mp) =
     (code_at prog k (fst (lddw_src R1 PSEUDO_MAP_FD 0)) \<and> code_at prog (Suc k) (snd (lddw_src R1 PSEUDO_MAP_FD 0)))"
| "laid_one prog pos k (Ja t) = (\<exists>off. code_at prog k (ja off) \<and> jumps_to pos k t off)"
| "laid_one prog pos k (JmpNeZero r t) = (\<exists>off. code_at prog k (jmp_imm JNE r 0 off) \<and> jumps_to pos k t off)"

fun laid :: "insn list \<Rightarrow> (block_id \<rightharpoonup> nat) \<Rightarrow> nat \<Rightarrow> pending list \<Rightarrow> bool" where
  "laid prog pos k [] = True"
| "laid prog pos k (p # ps) = (laid_one prog pos k p \<and> laid prog pos (k + pending_len p) ps)"

lemma laid_append: "laid prog pos k (ps @ qs) \<longleftrightarrow> laid prog pos k ps \<and> laid prog pos (k + sum_list (map pending_len ps)) qs"
  by (induction ps arbitrary: k) (auto simp: add.assoc)

lemma resolve_one_laid:
  assumes "resolve_one ix starts here p = Some (Inr (is, rs))" "here = length pre"
  shows "laid_one (pre @ is @ post) (\<lambda>t. map_option ((!) ix) (starts t)) here p"
  using assms
  by (cases p)
    (auto simp: resolve_one_def jump_off_def rel_off_def jumps_to_def code_at_def nth_append
      dest!: i16_try_from_Some split: prod.splits option.splits sum.splits)

lemma resolve_all_laid:
  assumes "resolve_all ix starts k ps = Some (Inr (is, rs))"
    and "\<forall>j\<le>length ps. ix ! (k + j) = length pre + sum_list (map pending_len (take j ps))"
  shows "laid (pre @ is @ post) (\<lambda>t. map_option ((!) ix) (starts t)) (length pre) ps"
  using assms
proof (induction ps arbitrary: k "is" rs pre)
  case (Cons p ps)
  from Cons.prems(1) obtain is1 rs1 is2 rs2 where r: "resolve_one ix starts (ix ! k) p = Some (Inr (is1, rs1))"
    "resolve_all ix starts (Suc k) ps = Some (Inr (is2, rs2))" "is = is1 @ is2"
    by (auto simp: resolve_all_Cons)
  have len: "length is1 = pending_len p" by (rule resolve_one_facts(1) [OF r(1)])
  have "ix ! k = length pre" using Cons.prems(2) by (auto dest: spec [of _ 0])
  with resolve_one_laid [OF r(1), of pre "is2 @ post"]
  have "laid_one (pre @ is @ post) (\<lambda>t. map_option ((!) ix) (starts t)) (length pre) p" by (simp add: r(3))
  moreover have "laid ((pre @ is1) @ is2 @ post) (\<lambda>t. map_option ((!) ix) (starts t)) (length (pre @ is1)) ps"
    by (rule Cons.IH [OF r(2)]) (use Cons.prems(2) len in \<open>auto dest: spec [of _ "Suc _"]\<close>)
  ultimately show ?case by (simp add: r(3) len)
qed simp

text \<open>Where the blocks begin.\<close>

lemma emit_blocks_starts_other:
  "emit_blocks ctx bs pend starts = Inr (pend', starts') \<Longrightarrow> l \<notin> block_label ` set bs \<Longrightarrow> starts' l = starts l"
  by (induction bs arbitrary: pend starts) (auto split: sum.splits)

lemma emit_blocks_start:
  assumes "emit_blocks ctx bs pend starts = Inr (pend', starts')" "distinct (map block_label bs)" "b \<in> set bs"
  shows "\<exists>pre code post. pend' = pre @ code @ emit_term (blk_term b) @ post \<and> emit_insts ctx (insts b) = Inr code \<and>
    starts' (block_label b) = Some (length pre)"
  using assms
proof (induction bs arbitrary: pend starts)
  case (Cons c cs)
  then obtain code where code: "emit_insts ctx (insts c) = Inr code"
    "emit_blocks ctx cs (pend @ code @ emit_term (blk_term c)) (starts(block_label c \<mapsto> length pend)) = Inr (pend', starts')"
    by (auto split: sum.splits)
  show ?case
  proof (cases "b = c")
    case True
    from emit_blocks_codes [OF code(2)] obtain rest where "pend' = (pend @ code @ emit_term (blk_term c)) @ rest" by auto
    moreover have "starts' (block_label c) = Some (length pend)"
      using emit_blocks_starts_other [OF code(2), of "block_label c"] Cons.prems(2) by auto
    ultimately show ?thesis using code(1) True by auto
  next
    case False
    with Cons.IH [OF code(2)] Cons.prems show ?thesis by auto
  qed
qed simp

section \<open>Slots in memory\<close>

definition slot_addr :: "vm_env \<Rightarrow> slot_id \<Rightarrow> u64" where
  "slot_addr env k = stack_top env + word_of_int (- 8 * (int k + 1))"

lemma scast_of_sint: "(scast (w :: 'a :: len word) :: 'b :: len word) = word_of_int (sint w)"
  by (simp add: of_int_sint)

lemma slot_addr_eq: "k < 64 \<Longrightarrow> stack_top env + scast (slot_off k) = slot_addr env k"
  by (simp add: scast_of_sint slot_off_sint slot_addr_def)

lemma unat_small_int: "0 \<le> x \<Longrightarrow> x < 2 ^ 64 \<Longrightarrow> unat (word_of_int x :: u64) = nat x"
  by (simp add: unat_eq_nat_uint uint_word_of_int_eq take_bit_int_eq_self)

lemma unat_neg_int: "- (2 ^ 64) \<le> x \<Longrightarrow> x < 0 \<Longrightarrow> unat (word_of_int x :: u64) = nat (x + 2 ^ 64)"
proof -
  assume x: "- (2 ^ 64) \<le> x" "x < 0"
  have "x mod 2 ^ 64 = (x + 2 ^ 64) mod 2 ^ 64" by simp
  also have "\<dots> = x + 2 ^ 64" using x by (intro mod_pos_pos_trivial) auto
  finally show ?thesis by (simp add: unat_eq_nat_uint uint_word_of_int)
qed

lemma slot_in_stack: "k < 64 \<Longrightarrow> in_stack env (slot_addr env k) 8"
proof -
  assume "k < 64"
  have "slot_addr env k - (stack_top env - 512) = word_of_int (512 - 8 * (int k + 1))" by (simp add: slot_addr_def)
  moreover have "unat (word_of_int (512 - 8 * (int k + 1)) :: u64) = nat (512 - 8 * (int k + 1))"
    using \<open>k < 64\<close> by (intro unat_small_int) auto
  ultimately show ?thesis using \<open>k < 64\<close> by (simp only: in_stack_def in_region_def) simp
qed

lemma slots_apart:
  assumes "j < 64" "k < 64" "j \<noteq> k" "i < 8"
  shows "8 \<le> unat (slot_addr env j + of_nat i - slot_addr env k)"
proof -
  have e: "slot_addr env j + of_nat i - slot_addr env k = word_of_int (8 * (int k - int j) + int i)"
    by (simp add: slot_addr_def)
  show ?thesis
  proof (cases "j < k")
    case True
    with assms show ?thesis unfolding e by (subst unat_small_int) auto
  next
    case False
    with assms show ?thesis unfolding e by (subst unat_neg_int) auto
  qed
qed

lemma load_store_slot:
  assumes "j < 64" "k < 64"
  shows "load_mem big 8 (slot_addr env j) (store_mem big 8 (slot_addr env k) v m) =
    (if j = k then v else load_mem big 8 (slot_addr env j) m)"
proof (cases "j = k")
  case True
  have "read_mem 8 (slot_addr env k) (write_mem (host_bytes big 8 v) (slot_addr env k) m) = host_bytes big 8 v"
    using read_write_same [of "host_bytes big 8 v"] by simp
  with True show ?thesis by (simp add: load_mem_def store_mem_def)
next
  case False
  have "read_mem 8 (slot_addr env j) (write_mem (host_bytes big 8 v) (slot_addr env k) m) = read_mem 8 (slot_addr env j) m"
    by (rule read_write_other) (simp add: slots_apart [OF assms False])
  with False show ?thesis by (simp add: load_mem_def store_mem_def)
qed

section \<open>The invocation and the machine\<close>

definition env_ok :: "vm_env \<Rightarrow> invocation \<Rightarrow> bool" where
  "env_ok env ivk \<longleftrightarrow>
     host_big ivk = env_big env \<and> data_ptr ivk = pkt_addr env \<and> length (packet ivk) = pkt_len env \<and>
     unat (pkt_addr env) + pkt_len env + 2 ^ 16 \<le> 2 ^ 64 \<and>
     (\<forall>i<pkt_len env. 512 \<le> unat (pkt_addr env + of_nat i - (stack_top env - 512)))"

lemma packet_apart:
  assumes "env_ok env ivk" "i < pkt_len env" "k < 64"
  shows "8 \<le> unat (pkt_addr env + of_nat i - slot_addr env k)"
proof (rule ccontr)
  let ?d = "pkt_addr env + of_nat i - slot_addr env k"
  define u where "u = unat ?d"
  assume "\<not> 8 \<le> unat ?d"
  then have u: "u < 8" by (simp add: u_def)
  have "pkt_addr env + of_nat i - (stack_top env - 512) = ?d + word_of_int (512 - 8 * (int k + 1))"
    by (simp add: slot_addr_def)
  also have "?d = word_of_int (int u)" by (simp add: u_def)
  also have "word_of_int (int u) + word_of_int (512 - 8 * (int k + 1)) =
      (word_of_int (int u + (512 - 8 * (int k + 1))) :: u64)" by simp
  finally have e: "pkt_addr env + of_nat i - (stack_top env - 512) = word_of_int (int u + (512 - 8 * (int k + 1)))" .
  have "unat (pkt_addr env + of_nat i - (stack_top env - 512)) = nat (int u + (512 - 8 * (int k + 1)))"
    unfolding e using u assms(3) by (intro unat_small_int) auto
  then have "unat (pkt_addr env + of_nat i - (stack_top env - 512)) < 512" using u by simp
  with assms(1,2) show False by (auto simp: env_ok_def)
qed

lemma packet_store_slot:
  assumes "env_ok env ivk" "k < 64"
  shows "read_mem (pkt_len env) (pkt_addr env) (store_mem big 8 (slot_addr env k) v m) =
    read_mem (pkt_len env) (pkt_addr env) m"
  unfolding store_mem_def by (rule read_write_other) (simp add: packet_apart [OF assms(1) _ assms(2)])

definition related :: "vm_env \<Rightarrow> invocation \<Rightarrow> nat \<Rightarrow> ir_state \<Rightarrow> vm_state \<Rightarrow> bool" where
  "related env ivk n st s \<longleftrightarrow>
     regs s R10 = stack_top env \<and> regs s R6 = pkt_addr env \<and> regs s R7 = pkt_addr env + of_nat (pkt_len env) \<and>
     (\<forall>k<n. load_mem (env_big env) 8 (slot_addr env k) (mem s) = slots st k) \<and>
     read_mem (pkt_len env) (pkt_addr env) (mem s) = packet ivk \<and> vmaps s = emaps st"

lemma related_set_reg [simp]:
  "d \<notin> {R6, R7, R10} \<Longrightarrow> related env ivk n st (set_reg d v s) = related env ivk n st s"
  by (auto simp: related_def set_reg_def)

lemma related_store:
  assumes "related env ivk n st s" "env_ok env ivk" "k < n" "n \<le> 64"
  shows "related env ivk n (set_slot k v st) (set_mem (store_mem (env_big env) 8 (slot_addr env k) v (mem s)) s)"
  using assms by (auto simp: related_def set_mem_def set_slot_def load_store_slot packet_store_slot)

section \<open>Running code in place\<close>

context ebpf_vm
begin

definition halts :: "(i32 \<rightharpoonup> helper) \<Rightarrow> vm_env \<Rightarrow> insn list \<Rightarrow> vm_state \<Rightarrow> vm_result \<Rightarrow> bool" where
  "halts hs env prog s r \<longleftrightarrow> (\<exists>n. vm_run step hs env prog n s = Some r)"

lemma halts_step: "step hs env prog s = Some (Inl s') \<Longrightarrow> halts hs env prog s' r \<Longrightarrow> halts hs env prog s r"
  unfolding halts_def by (metis (no_types, lifting) option.simps(5) sum.simps(5) vm_run.simps(2))

lemma halts_exit: "step hs env prog s = Some (Inr v) \<Longrightarrow> halts hs env prog s (v, vmaps s, read_mem (pkt_len env) (pkt_addr env) (mem s))"
  unfolding halts_def by (rule exI [of _ "Suc 0"]) simp

text \<open>From a state standing at the code \<open>ps\<close> the machine halts with \<open>r\<close>.\<close>

definition goes :: "(i32 \<rightharpoonup> helper) \<Rightarrow> vm_env \<Rightarrow> insn list \<Rightarrow> (block_id \<rightharpoonup> nat) \<Rightarrow> pending list \<Rightarrow> vm_state \<Rightarrow> vm_result \<Rightarrow> bool" where
  "goes hs env prog pos ps s r \<longleftrightarrow> (laid prog pos (pc s) ps \<longrightarrow> halts hs env prog s r)"

lemma fetch_at: "code_at prog (pc s) i \<Longrightarrow> fetch prog s = Some i"
  by (simp add: code_at_def fetch_def)

lemma goes_next:
  assumes "code_at prog (pc s) j \<Longrightarrow> step hs env prog s = Some (Inl s')" "pc s' = Suc (pc s)"
    and "goes hs env prog pos ps s' r"
  shows "goes hs env prog pos (Ins j # ps) s r"
  using assms by (auto simp: goes_def intro: halts_step)

lemma pc_set [simp]: "pc (set_reg d v s) = Suc (pc s)" "pc (set_mem m s) = Suc (pc s)"
  by (simp_all add: set_reg_def set_mem_def)

lemma goes_mov_imm: "d < 10 \<Longrightarrow> goes hs env prog pos ps (set_reg d (scast imm) s) r \<Longrightarrow>
    goes hs env prog pos (Ins (mov64_imm d imm) # ps) s r"
  by (rule goes_next [where s' = "set_reg d (scast imm) s"]) (auto intro: mov_imm fetch_at)

lemma goes_mov_reg: "d < 10 \<Longrightarrow> q \<le> 10 \<Longrightarrow> goes hs env prog pos ps (set_reg d (regs s q) s) r \<Longrightarrow>
    goes hs env prog pos (Ins (mov64_reg d q) # ps) s r"
  by (rule goes_next [where s' = "set_reg d (regs s q) s"]) (auto intro: mov_reg fetch_at)

lemma goes_alu_imm: "d < 10 \<Longrightarrow> alu_doc op 0 (regs s d) (scast imm) = Some v \<Longrightarrow>
    goes hs env prog pos ps (set_reg d v s) r \<Longrightarrow> goes hs env prog pos (Ins (alu64_imm op d imm) # ps) s r"
  by (rule goes_next [where s' = "set_reg d v s"]) (auto intro: alu_imm fetch_at)

lemma goes_alu_reg: "d < 10 \<Longrightarrow> q \<le> 10 \<Longrightarrow> alu_doc op off (regs s d) (regs s q) = Some v \<Longrightarrow>
    goes hs env prog pos ps (set_reg d v s) r \<Longrightarrow> goes hs env prog pos (Ins (alu64_reg_off op d q off) # ps) s r"
  by (rule goes_next [where s' = "set_reg d v s"]) (auto intro: alu_reg fetch_at)

lemma goes_neg: "d < 10 \<Longrightarrow> goes hs env prog pos ps (set_reg d (- regs s d) s) r \<Longrightarrow>
    goes hs env prog pos (Ins (neg64 d) # ps) s r"
  by (rule goes_next [where s' = "set_reg d (- regs s d) s"]) (auto intro: neg fetch_at)

lemma goes_be: "d < 10 \<Longrightarrow> w \<in> {16, 32, 64} \<Longrightarrow>
    goes hs env prog pos ps (set_reg d (to_be (env_big env) (unat w div 8) (regs s d)) s) r \<Longrightarrow>
    goes hs env prog pos (Ins (bswap_be d w) # ps) s r"
  by (rule goes_next) (auto intro: swap_be fetch_at)

lemma goes_le: "d < 10 \<Longrightarrow> w \<in> {16, 32, 64} \<Longrightarrow>
    goes hs env prog pos ps (set_reg d (to_le (env_big env) (unat w div 8) (regs s d)) s) r \<Longrightarrow>
    goes hs env prog pos (Ins (bswap_le d w) # ps) s r"
  by (rule goes_next) (auto intro: swap_le fetch_at)

lemma goes_load: "d < 10 \<Longrightarrow> q \<le> 10 \<Longrightarrow> size_bytes sz = Some n \<Longrightarrow> accessible env (regs s q + scast off) n \<Longrightarrow>
    goes hs env prog pos ps (set_reg d (load_mem (env_big env) n (regs s q + scast off) (mem s)) s) r \<Longrightarrow>
    goes hs env prog pos (Ins (ldx sz d q off) # ps) s r"
  by (rule goes_next) (auto intro: load fetch_at)

lemma goes_store: "d \<le> 10 \<Longrightarrow> q \<le> 10 \<Longrightarrow> size_bytes sz = Some n \<Longrightarrow> accessible env (regs s d + scast off) n \<Longrightarrow>
    goes hs env prog pos ps (set_mem (store_mem (env_big env) n (regs s d + scast off) (regs s q) (mem s)) s) r \<Longrightarrow>
    goes hs env prog pos (Ins (stx sz d q off) # ps) s r"
  by (rule goes_next) (auto intro: store fetch_at)

lemma goes_store_imm: "d \<le> 10 \<Longrightarrow> size_bytes sz = Some n \<Longrightarrow> accessible env (regs s d + scast off) n \<Longrightarrow>
    goes hs env prog pos ps (set_mem (store_mem (env_big env) n (regs s d + scast off) (scast imm) (mem s)) s) r \<Longrightarrow>
    goes hs env prog pos (Ins (st_imm sz d off imm) # ps) s r"
  by (rule goes_next) (auto intro: store_imm fetch_at)

lemma goes_exit: "r = (regs s R0, vmaps s, read_mem (pkt_len env) (pkt_addr env) (mem s)) \<Longrightarrow> goes hs env prog pos (Ins exit_insn # ps) s r"
  by (auto simp: goes_def intro!: halts_exit exits fetch_at)

lemma goes_wide: "d < 10 \<Longrightarrow> goes hs env prog pos ps (s\<lparr>regs := (regs s)(d := v), pc := pc s + 2\<rparr>) r \<Longrightarrow>
    lddw d v = (a, b) \<Longrightarrow> goes hs env prog pos (Wide a b # ps) s r"
proof -
  assume d: "d < 10" and tail: "goes hs env prog pos ps (s\<lparr>regs := (regs s)(d := v), pc := pc s + 2\<rparr>) r"
    and ab: "lddw d v = (a, b)"
  have "halts hs env prog s r" if l: "code_at prog (pc s) a" "code_at prog (Suc (pc s)) b" "laid prog pos (pc s + 2) ps"
  proof (rule halts_step)
    show "step hs env prog s = Some (Inl (s\<lparr>regs := (regs s)(d := v), pc := pc s + 2\<rparr>))"
      by (rule wide) (use l ab d in \<open>auto simp: code_at_def fetch_def\<close>)
  qed (use tail l(3) in \<open>simp add: goes_def\<close>)
  then show ?thesis by (simp add: goes_def)
qed

lemma goes_call:
  assumes "hs h = Some f" "f (regs s 1) (regs s 2) (regs s 3) (regs s 4) (regs s 5) (vmaps s) = (v, ms)"
    and "\<And>s'. regs s' R0 = v \<Longrightarrow> \<forall>r\<in>{6..10}. regs s' r = regs s r \<Longrightarrow> mem s' = mem s \<Longrightarrow> vmaps s' = ms \<Longrightarrow>
      goes hs env prog pos ps s' r"
  shows "goes hs env prog pos (Ins (call h) # ps) s r"
proof -
  have "halts hs env prog s r" if l: "code_at prog (pc s) (call h)" "laid prog pos (Suc (pc s)) ps"
  proof -
    from calls [OF fetch_at [OF l(1)], of hs f v ms] assms(1,2) obtain s' where s': "step hs env prog s = Some (Inl s')"
      "regs s' R0 = v" "\<forall>r\<in>{6..10}. regs s' r = regs s r" "mem s' = mem s" "vmaps s' = ms" "pc s' = Suc (pc s)" by blast
    from assms(3) [OF s'(2-5)] s'(6) l(2) have "halts hs env prog s' r" by (simp add: goes_def)
    with s'(1) show ?thesis by (rule halts_step)
  qed
  then show ?thesis by (simp add: goes_def)
qed

text \<open>A forward branch over one or two plain instructions.\<close>

definition skip :: "nat \<Rightarrow> vm_state \<Rightarrow> vm_state" where
  "skip n s = s\<lparr>pc := pc s + n\<rparr>"

lemma jump_if_skip: "sint off = int k \<Longrightarrow> jump_if c off s = skip (if c then Suc k else 1) s"
  by (simp add: jump_if_def skip_def nat_add_distrib)

lemma goes_branch:
  assumes "code_at prog (pc s) j \<Longrightarrow> step hs env prog s = Some (Inl (jump_if c off s))"
    and "sint off = int (length is)" "c \<Longrightarrow> goes hs env prog pos ps (skip (Suc (length is)) s) r"
    and "\<not> c \<Longrightarrow> goes hs env prog pos (map Ins is @ ps) (skip 1 s) r"
  shows "goes hs env prog pos (Ins j # map Ins is @ ps) s r"
proof -
  have len: "sum_list (map (pending_len \<circ> Ins) is) = length is" by (induction "is") auto
  have "halts hs env prog s r" if l: "code_at prog (pc s) j" "laid prog pos (Suc (pc s)) (map Ins is @ ps)"
  proof (rule halts_step)
    show "step hs env prog s = Some (Inl (skip (if c then Suc (length is) else 1) s))"
      using assms(1) [OF l(1)] jump_if_skip [OF assms(2)] by simp
    show "halts hs env prog (skip (if c then Suc (length is) else 1) s) r"
      using assms(3,4) l(2) len by (auto simp: goes_def skip_def laid_append split: if_splits)
  qed
  then show ?thesis by (simp add: goes_def)
qed

lemma goes_branch_imm: "jump_doc op (regs s d) (scast imm) = Some c \<Longrightarrow> d \<le> 10 \<Longrightarrow>
    (c \<Longrightarrow> goes hs env prog pos ps (skip 2 s) r) \<Longrightarrow> (\<not> c \<Longrightarrow> goes hs env prog pos (Ins i # ps) (skip 1 s) r) \<Longrightarrow>
    goes hs env prog pos (Ins (jmp_imm op d imm 1) # Ins i # ps) s r"
  using goes_branch [of prog s "jmp_imm op d imm 1" hs env c 1 "[i]" pos ps r]
  by (simp add: jump_imm fetch_at numeral_2_eq_2)

lemma goes_branch_reg: "jump_doc op (regs s d) (regs s q) = Some c \<Longrightarrow> d \<le> 10 \<Longrightarrow> q \<le> 10 \<Longrightarrow>
    (c \<Longrightarrow> goes hs env prog pos ps (skip 2 s) r) \<Longrightarrow> (\<not> c \<Longrightarrow> goes hs env prog pos (Ins i # ps) (skip 1 s) r) \<Longrightarrow>
    goes hs env prog pos (Ins (jmp_reg op d q 1) # Ins i # ps) s r"
  using goes_branch [of prog s "jmp_reg op d q 1" hs env c 1 "[i]" pos ps r]
  by (simp add: jump_reg fetch_at numeral_2_eq_2)

lemma goes_branch_reg2: "jump_doc op (regs s d) (regs s q) = Some c \<Longrightarrow> d \<le> 10 \<Longrightarrow> q \<le> 10 \<Longrightarrow>
    (c \<Longrightarrow> goes hs env prog pos ps (skip 3 s) r) \<Longrightarrow> (\<not> c \<Longrightarrow> goes hs env prog pos (Ins i # Ins j # ps) (skip 1 s) r) \<Longrightarrow>
    goes hs env prog pos (Ins (jmp_reg op d q 2) # Ins i # Ins j # ps) s r"
  using goes_branch [of prog s "jmp_reg op d q 2" hs env c 2 "[i, j]" pos ps r]
  by (simp add: jump_reg fetch_at numeral_3_eq_3)

lemma skip_sel [simp]: "regs (skip n s) = regs s" "mem (skip n s) = mem s" "vmaps (skip n s) = vmaps s"
  by (simp_all add: skip_def)

lemma jump_target:
  assumes "jumps_to pos (pc s) t off"
  obtains d where "pos t = Some d" "jump_if True off s = s\<lparr>pc := d\<rparr>"
proof -
  from assms obtain d where d: "pos t = Some d" "int d = int (pc s) + 1 + sint off" by (auto simp: jumps_to_def)
  then have "jump_if True off s = s\<lparr>pc := d\<rparr>" by (simp add: jump_if_def flip: d(2))
  with d(1) that show ?thesis by blast
qed

lemma goes_ja:
  assumes "\<And>d. pos t = Some d \<Longrightarrow> halts hs env prog (s\<lparr>pc := d\<rparr>) r"
  shows "goes hs env prog pos (Ja t # ps) s r"
proof -
  have "halts hs env prog s r" if l: "code_at prog (pc s) (ja off)" "jumps_to pos (pc s) t off" for off
    by (rule jump_target [OF l(2)]) (metis assms halts_step jump_always [OF fetch_at [OF l(1)]])
  then show ?thesis by (auto simp: goes_def)
qed

lemma goes_jne:
  assumes "q \<le> 10" "\<And>d. regs s q \<noteq> 0 \<Longrightarrow> pos t = Some d \<Longrightarrow> halts hs env prog (s\<lparr>pc := d\<rparr>) r"
    and "regs s q = 0 \<Longrightarrow> goes hs env prog pos ps (skip 1 s) r"
  shows "goes hs env prog pos (JmpNeZero q t # ps) s r"
proof -
  have "halts hs env prog s r" if l: "code_at prog (pc s) (jmp_imm JNE q 0 off)" "jumps_to pos (pc s) t off"
    "laid prog pos (Suc (pc s)) ps" for off
  proof (rule halts_step)
    show "step hs env prog s = Some (Inl (jump_if (regs s q \<noteq> 0) off s))"
      by (rule jump_imm [OF fetch_at [OF l(1)] assms(1)]) (simp add: jump_doc_def opcode_defs)
    obtain d where d: "pos t = Some d" "jump_if True off s = s\<lparr>pc := d\<rparr>" by (rule jump_target [OF l(2)])
    with assms(2,3) l(3) d(1) show "halts hs env prog (jump_if (regs s q \<noteq> 0) off s) r"
      by (cases "regs s q = 0") (auto simp: goes_def skip_def jump_if_def nat_add_distrib)
  qed
  then show ?thesis by (auto simp: goes_def)
qed

end

end
