(* ===== verification/Ebpf_Total.thy ===== *)
theory Ebpf_Total
  imports Ebpf_Emit Bpf_Alloc
begin

text \<open>
  When code generation succeeds: a program whose jumps name existing blocks, whose packet offsets
  fit sixteen bits and whose code stays below the reach of a jump is emitted, on every target that
  accepts it. The source would panic on a jump to a missing block; that cannot happen here.
\<close>

section \<open>Emission succeeds\<close>

definition pend_target :: "pending \<Rightarrow> block_id option" where
  "pend_target p = (case p of Ja t \<Rightarrow> Some t | JmpNeZero _ t \<Rightarrow> Some t | _ \<Rightarrow> None)"

definition load_fits :: "inst \<Rightarrow> bool" where
  "load_fits i = (case i of Load _ _ _ off _ _ _ \<Rightarrow> - (2 ^ 15) \<le> off \<and> off < 2 ^ 15 | _ \<Rightarrow> True)"

definition targets_ok :: "bpf_program \<Rightarrow> bool" where
  "targets_ok p \<longleftrightarrow> (\<forall>b\<in>set (blocks p). \<forall>t\<in>set (term_succs (blk_term b)). t \<in> block_label ` set (blocks p))"

text \<open>A bound on the code of a program: no instruction takes more than fourteen machine words.\<close>

definition code_bound :: "bpf_program \<Rightarrow> nat" where
  "code_bound p = 2 + length (zero_init p) + sum_list (map (\<lambda>b. 14 * length (insts b) + 3) (blocks p))"

lemma jump_off_total:
  assumes "starts t = Some i" "ix ! i \<le> N" "here \<le> N" "N < 2 ^ 15"
  shows "\<exists>off. jump_off ix starts here t = Some (Inr off)"
  using assms by (simp add: jump_off_def rel_off_def i16_try_from_def)

lemma resolve_one_total:
  assumes "\<And>t. pend_target p = Some t \<Longrightarrow> \<exists>i. starts t = Some i \<and> ix ! i \<le> N" "here \<le> N" "N < 2 ^ 15"
  shows "\<exists>is rs. resolve_one ix starts here p = Some (Inr (is, rs))"
proof (cases "pend_target p")
  case None
  then show ?thesis by (cases p) (auto simp: resolve_one_def pend_target_def split: prod.splits)
next
  case (Some t)
  from assms(1) [OF Some] obtain i where "starts t = Some i" "ix ! i \<le> N" by blast
  with jump_off_total [of starts t i ix N here] assms(2,3) Some show ?thesis
    by (cases p) (auto simp: resolve_one_def pend_target_def)
qed

lemma resolve_all_total:
  assumes "\<And>p t. p \<in> set ps \<Longrightarrow> pend_target p = Some t \<Longrightarrow> \<exists>i. starts t = Some i \<and> ix ! i \<le> N"
    and "\<And>j. j < length ps \<Longrightarrow> ix ! (k + j) \<le> N" "N < 2 ^ 15"
  shows "\<exists>is rs. resolve_all ix starts k ps = Some (Inr (is, rs))"
  using assms
proof (induction ps arbitrary: k)
  case (Cons p ps)
  have "\<exists>is rs. resolve_one ix starts (ix ! k) p = Some (Inr (is, rs))"
    by (rule resolve_one_total) (use Cons.prems(1) [of p] Cons.prems(2) [of 0] Cons.prems(3) in auto)
  moreover have "\<exists>is rs. resolve_all ix starts (Suc k) ps = Some (Inr (is, rs))"
  proof (rule Cons.IH [OF _ _ Cons.prems(3)])
    show "ix ! (Suc k + j) \<le> N" if "j < length ps" for j using Cons.prems(2) [of "Suc j"] that by simp
  qed (use Cons.prems(1) in auto)
  ultimately show ?case by (auto simp: resolve_all.simps)
qed simp

lemma emit_insts_total:
  "list_all load_fits is \<Longrightarrow> \<exists>code. emit_insts ctx is = Inr code"
proof (induction "is")
  case (Cons i "is")
  then have "\<exists>c. emit_inst ctx i = Inr c"
    by (cases i) (auto simp: emit_load_def load_fits_def i16_try_from_def Let_def split: oob_action.splits)
  with Cons show ?case by auto
qed simp

lemma emit_blocks_total:
  "list_all (\<lambda>b. list_all load_fits (insts b)) bs \<Longrightarrow> \<exists>r. emit_blocks ctx bs pend starts = Inr r"
proof (induction bs arbitrary: pend starts)
  case (Cons b bs)
  then show ?case using emit_insts_total [of "insts b" ctx] by auto
qed simp

lemma emit_blocks_starts:
  "emit_blocks ctx bs pend starts = Inr (pend', starts') \<Longrightarrow> (\<And>l i. starts l = Some i \<Longrightarrow> i \<le> length pend) \<Longrightarrow>
     (\<forall>l i. starts' l = Some i \<longrightarrow> i \<le> length pend') \<and> block_label ` set bs \<union> dom starts \<subseteq> dom starts'"
proof (induction bs arbitrary: pend starts)
  case (Cons b bs)
  then obtain c where c: "emit_blocks ctx bs (pend @ c @ emit_term (blk_term b)) (starts(block_label b \<mapsto> length pend)) = Inr (pend', starts')"
    by (auto split: sum.splits)
  have "(\<forall>l i. starts' l = Some i \<longrightarrow> i \<le> length pend') \<and>
      block_label ` set bs \<union> dom (starts(block_label b \<mapsto> length pend)) \<subseteq> dom starts'"
    by (rule Cons.IH [OF c]) (use Cons.prems(2) in \<open>auto split: if_splits intro: trans_le_add1\<close>)
  then show ?case by auto
qed auto

definition plen :: "pending list \<Rightarrow> nat" where
  "plen ps = sum_list (map pending_len ps)"

lemma plen_simps [simp]: "plen [] = 0" "plen (p # ps) = pending_len p + plen ps" "plen (ps @ qs) = plen ps + plen qs"
  "pending_len (ld_slot r s) = 1" "pending_len (st_slot r s) = 1"
  by (simp_all add: plen_def ld_slot_def st_slot_def)

lemma emit_inst_plen: "emit_inst ctx i = Inr c \<Longrightarrow> plen c \<le> 14 \<and> list_all (\<lambda>p. pend_target p = None) c"
proof (cases i)
  case (Load dst width ptr off order oob sp)
  moreover assume "emit_inst ctx i = Inr c"
  ultimately show ?thesis
    by (cases oob; cases order) (auto simp: emit_load_def Let_def pend_target_def ld_slot_def st_slot_def split: option.splits if_splits)
next
  case (Unop dst op a sp)
  moreover assume "emit_inst ctx i = Inr c"
  ultimately show ?thesis by (cases op) (auto simp: emit_un_def pend_target_def ld_slot_def st_slot_def)
qed (auto simp: emit_map_get_def emit_map_has_def emit_map_set_def emit_kernel_lookup_def pend_target_def ld_slot_def st_slot_def
    split: prod.splits option.splits)

lemma emit_insts_plen:
  "emit_insts ctx is = Inr code \<Longrightarrow> plen code \<le> 14 * length is \<and> list_all (\<lambda>p. pend_target p = None) code"
proof (induction "is" arbitrary: code)
  case (Cons i "is")
  then obtain c rest where "emit_inst ctx i = Inr c" "emit_insts ctx is = Inr rest" "code = c @ rest" by (auto split: sum.splits)
  with Cons.IH [of rest] emit_inst_plen [of ctx i c] show ?case by auto
qed simp

lemma emit_term_plen: "plen (emit_term t) \<le> 3 \<and> (\<forall>p\<in>set (emit_term t). \<forall>l. pend_target p = Some l \<longrightarrow> l \<in> set (term_succs t))"
  by (cases t) (auto simp: pend_target_def ld_slot_def)

lemma emitted_plen:
  assumes "list_all2 (emitted ctx) bs codes"
  shows "plen (concat codes) \<le> sum_list (map (\<lambda>b. 14 * length (insts b) + 3) bs) \<and>
    (\<forall>p\<in>set (concat codes). \<forall>l. pend_target p = Some l \<longrightarrow> (\<exists>b\<in>set bs. l \<in> set (term_succs (blk_term b))))"
  using assms
proof (induction bs codes rule: list_all2_induct)
  case (Cons b bs c codes)
  then obtain d where d: "emit_insts ctx (insts b) = Inr d" "c = d @ emit_term (blk_term b)" by (auto simp: emitted_def)
  with emit_insts_plen [OF d(1)] emit_term_plen [of "blk_term b"] have
    "plen c \<le> 14 * length (insts b) + 3" "\<forall>p\<in>set c. \<forall>l. pend_target p = Some l \<longrightarrow> l \<in> set (term_succs (blk_term b))"
    by (auto simp: list_all_iff)
  with Cons show ?case by fastforce
qed simp

lemma block_order_labels: "block_label ` set (block_order p) = block_label ` set (blocks p)"
proof (cases "find (\<lambda>b. block_label b = entry p) (blocks p)")
  case None
  then have "\<forall>b\<in>set (blocks p). block_label b \<noteq> entry p" by (simp add: find_None_iff)
  with None show ?thesis by (auto simp: block_order_def simp del: find_None_iff find_None_iff2)
next
  case (Some b)
  with find_Some_mem [OF Some] show ?thesis by (force simp: block_order_def)
qed

lemma block_order_bound:
  fixes f :: "block \<Rightarrow> nat"
  shows "sum_list (map f (block_order p)) \<le> sum_list (map f (blocks p))"
proof (cases "find (\<lambda>b. block_label b = entry p) (blocks p)")
  case None
  then show ?thesis by (simp add: block_order_def sum_list_filter_le_nat)
next
  case (Some b)
  then obtain i where i: "i < length (blocks p)" "b = blocks p ! i" "block_label b = entry p" by (auto simp: find_Some_iff)
  let ?P = "\<lambda>b. block_label b \<noteq> entry p"
  have "blocks p = take i (blocks p) @ b # drop (Suc i) (blocks p)" using i by (simp add: id_take_nth_drop)
  then have "map f (filter ?P (blocks p)) = map f (filter ?P (take i (blocks p)) @ filter ?P (drop (Suc i) (blocks p)))"
    using i(3) by (metis (mono_tags, lifting) filter.simps(2) filter_append)
  moreover have "sum_list (map f (blocks p)) = sum_list (map f (take i (blocks p))) + f b + sum_list (map f (drop (Suc i) (blocks p)))"
    by (subst \<open>blocks p = _\<close>) simp
  ultimately show ?thesis
    using Some sum_list_filter_le_nat [of f ?P "take i (blocks p)"] sum_list_filter_le_nat [of f ?P "drop (Suc i) (blocks p)"]
    by (simp add: block_order_def)
qed

lemma emit_succeeds:
  assumes valid: "validate_target p t = Inr ()" and targets: "targets_ok p"
    and fits: "\<forall>b\<in>set (blocks p). list_all load_fits (insts b)" and small: "code_bound p < 2 ^ 15"
  shows "\<exists>obj. emit_program_for_target p t = Some (Inr obj) \<and> length (insns obj) \<le> code_bound p"
proof -
  let ?lead = "emit_prologue p t @ map (\<lambda>s. Ins (st_imm SZ_DW R10 (slot_off s) 0)) (zero_init p)"
  let ?ctx = "emit_ctx_new t (num_slots p)"
  have "list_all (\<lambda>b. list_all load_fits (insts b)) (block_order p)"
    using fits block_order_sub by (force simp: list_all_iff)
  from emit_blocks_total [OF this] obtain pend starts where
    pend: "emit_blocks ?ctx (block_order p) ?lead Map.empty = Inr (pend, starts)" by (metis surj_pair)
  from emit_blocks_codes [OF pend] obtain codes where codes: "list_all2 (emitted ?ctx) (block_order p) codes"
    "pend = ?lead @ concat codes" by auto
  have lead: "plen ?lead \<le> 2 + length (zero_init p)" "list_all (\<lambda>q. pend_target q = None) ?lead"
    by (auto simp: emit_prologue_def Let_def plen_def comp_def sum_list_triv pend_target_def list_all_iff)
  note code = emitted_plen [OF codes(1)]
  have total: "plen pend \<le> code_bound p"
    using lead(1) code block_order_bound [of "\<lambda>b. 14 * length (insts b) + 3" p] by (simp add: codes(2) code_bound_def)
  have ix: "insn_indices 0 pend ! i \<le> plen pend" if "i \<le> length pend" for i
    using that plen_simps(3) [of "take i pend" "drop i pend"] by (subst insn_indices_nth) (simp_all add: plen_def)
  have starts: "\<forall>l i. starts l = Some i \<longrightarrow> i \<le> length pend" "block_label ` set (blocks p) \<subseteq> dom starts"
    using emit_blocks_starts [OF pend] block_order_labels [of p] by auto
  have "\<exists>is rs. resolve_all (insn_indices 0 pend) starts 0 pend = Some (Inr (is, rs))"
  proof (rule resolve_all_total [where N = "plen pend"])
    fix q l assume q: "q \<in> set pend" "pend_target q = Some l"
    with lead(2) codes(2) have "q \<in> set (concat codes)" by (auto simp: list_all_iff)
    with code q(2) obtain b where "b \<in> set (blocks p)" "l \<in> set (term_succs (blk_term b))" using block_order_sub by blast
    with targets starts(2) have "l \<in> dom starts" unfolding targets_ok_def by blast
    with starts(1) ix show "\<exists>i. starts l = Some i \<and> insn_indices 0 pend ! i \<le> plen pend" by blast
  qed (use ix total small in auto)
  then obtain "is" rs where "resolve_all (insn_indices 0 pend) starts 0 pend = Some (Inr (is, rs))" by blast
  moreover from resolve_all_length [OF this] total have "length is \<le> code_bound p" by (simp add: plen_def)
  ultimately show ?thesis using valid pend by (simp add: emit_program_for_target_def Let_def assemble_def)
qed

section \<open>Properties\<close>

text \<open>
  Emission succeeds on every accepted program whose jump targets exist, whose load offsets fit
  sixteen bits and whose code bound is below 2 to the 15: no panic, no diagnostic, and the object is
  no longer than the bound.
\<close>

lemma emit_program_total:
  assumes "validate_target p t = Inr ()" "targets_ok p" "\<forall>b\<in>set (blocks p). list_all load_fits (insts b)"
    and "code_bound p < 2 ^ 15"
  shows "\<exists>obj. emit_program_for_target p t = Some (Inr obj) \<and> length (insns obj) \<le> code_bound p"
  by (rule emit_succeeds [OF assms])

text \<open>A two-block program that counts packets in an array map.\<close>

definition counter_demo :: bpf_program where
  "counter_demo = \<lparr>prog_type = Xdp, entry = 0,
     blocks = [\<lparr>block_label = 0,
         insts = [Const 0 0 (span_empty 0), MapGet 1 0 0 (span_empty 0), Const 2 1 (span_empty 0),
           Bin 1 Add 1 2 (span_empty 0), MapSet 0 0 1 (span_empty 0)],
         blk_term = Goto 1 (span_empty 0)\<rparr>,
       \<lparr>block_label = 1, insts = [Const 0 2 (span_empty 0)], blk_term = Return 0 (span_empty 0)\<rparr>],
     num_slots = 3, slot_types = [TInt, TInt, TInt], raw_slot_count = 3, zero_init = [],
     maps = [\<lparr>map_name = ''hits'', map_idx = 0, map_kind = Array, key_size = 4, value_size = 8,
       max_entries = 4, concurrency = Shared, map_span = span_empty 0\<rparr>]\<rparr>"

end
