(* ===== verification/Bpf_Alloc_Correct.thy ===== *)
theory Bpf_Alloc_Correct
  imports Bpf_Alloc
begin

text \<open>
  The slot allocator is correct: the interference graph holds every pair of slots that live
  together, the colouring separates them and keeps their types, and running the renamed program
  from a stack with arbitrary contents (zeroed at \<open>zero_init\<close>) gives what the original gives.
\<close>

section \<open>The interference graph\<close>

definition edges :: "slot_set list \<Rightarrow> (slot_id \<times> slot_id) set" where
  "edges g = {(a, b). a < length g \<and> b \<in> slots_of (g ! a)}"

definition graph_wf :: "nat \<Rightarrow> slot_set list \<Rightarrow> bool" where
  "graph_wf n g \<longleftrightarrow> length g = n \<and> (\<forall>bits\<in>set g. length bits = n) \<and> sym (edges g)"

lemma graph_wf_length: "graph_wf n g \<Longrightarrow> a < n \<Longrightarrow> length (g ! a) = n"
  by (simp add: graph_wf_def)

lemma add_edge_facts:
  assumes wf: "graph_wf n g" and lt: "a < n" "b < n"
  shows "graph_wf n (add_edge g a b)"
    and "edges (add_edge g a b) = edges g \<union> (if a = b then {} else {(a, b), (b, a)})"
proof -
  from wf have len: "length g = n" "\<And>i. i < n \<Longrightarrow> length (g ! i) = n" by (simp_all add: graph_wf_def)
  have nth: "add_edge g a b ! i =
      (if a = b then g ! i else if i = a then ss_insert (g ! a) b else if i = b then ss_insert (g ! b) a else g ! i)"
    if "i < n" for i
    using that len lt by (auto simp: add_edge_def Let_def nth_list_update)
  have length: "length (add_edge g a b) = n" using len by (simp add: add_edge_def Let_def)
  show e: "edges (add_edge g a b) = edges g \<union> (if a = b then {} else {(a, b), (b, a)})"
  proof (cases "a = b")
    case True
    then show ?thesis by (simp add: add_edge_def)
  next
    case False
    with lt len show ?thesis by (auto simp: edges_def length nth slot_sets split: if_splits)
  qed
  have "\<forall>i<n. length (add_edge g a b ! i) = n" using len lt by (auto simp: nth)
  then have "\<forall>bits\<in>set (add_edge g a b). length bits = n" using length by (auto simp: in_set_conv_nth)
  moreover have "sym (edges (add_edge g a b))"
    using wf unfolding e by (auto simp: graph_wf_def sym_def)
  ultimately show "graph_wf n (add_edge g a b)" using length by (simp add: graph_wf_def)
qed

lemma fold_add_edge_facts:
  assumes "graph_wf n g" "d < n" "\<forall>l\<in>set ls. l < n"
  shows "graph_wf n (fold (\<lambda>l g. add_edge g d l) ls g) \<and> edges g \<subseteq> edges (fold (\<lambda>l g. add_edge g d l) ls g) \<and>
    (\<forall>l\<in>set ls. l \<noteq> d \<longrightarrow> (d, l) \<in> edges (fold (\<lambda>l g. add_edge g d l) ls g))"
  using assms
proof (induction ls arbitrary: g)
  case (Cons l ls)
  note e = add_edge_facts [OF Cons.prems(1,2), of l]
  from Cons.IH [of "add_edge g d l"] Cons.prems e show ?case by auto
qed simp

text \<open>The pairs that must not share a slot: what an instruction writes, and what lives after it.\<close>

fun conflicts :: "inst list \<Rightarrow> slot_id set \<Rightarrow> (slot_id \<times> slot_id) set" where
  "conflicts [] T = {}"
| "conflicts (i # is) T = conflicts is T \<union> {(d, l). d \<in> def_set i \<and> l \<in> lives is T \<and> l \<noteq> d}"

lemma interfere_insts_facts:
  assumes "graph_wf n g" "length live = n" "n \<le> 2 ^ 32" "\<forall>i\<in>set is. \<forall>s\<in>inst_slots i. s < n"
    and "fold interfere_inst (rev is) (g, live) = (g', live')"
  shows "graph_wf n g' \<and> length live' = n \<and> slots_of live' = lives is (slots_of live) \<and>
    edges g \<subseteq> edges g' \<and> conflicts is (slots_of live) \<subseteq> edges g'"
  using assms(4,5)
proof (induction "is" arbitrary: g' live')
  case Nil
  with assms show ?case by simp
next
  case (Cons i "is")
  obtain g1 live1 where st: "fold interfere_inst (rev is) (g, live) = (g1, live1)"
    by (cases "fold interfere_inst (rev is) (g, live)")
  with Cons have IH: "graph_wf n g1" "length live1 = n" "slots_of live1 = lives is (slots_of live)"
    "edges g \<subseteq> edges g1" "conflicts is (slots_of live) \<subseteq> edges g1" by auto
  from Cons.prems(2) st have step: "interfere_inst i (g1, live1) = (g', live')" by simp
  have iter: "set (ss_iter live1) = slots_of live1" "\<forall>l\<in>set (ss_iter live1). l < n"
    using IH assms(3) by (auto simp: set_ss_iter dest: slots_of_bounded)
  have uses: "\<forall>s\<in>set (inst_uses i). s < n" using Cons.prems(1) by (simp add: inst_slots_def)
  show ?case
  proof (cases "inst_def i")
    case None
    with step have "g' = g1" "live' = fold (\<lambda>s live. ss_insert live s) (inst_uses i) live1"
      by (auto simp: interfere_inst_def)
    with fold_insert_facts [of "inst_uses i" live1] uses IH None show ?thesis
      by (auto simp: def_set_def)
  next
    case (Some d)
    then have d: "d < n" using Cons.prems(1) by (simp add: inst_slots_def def_set_def)
    note fa = fold_add_edge_facts [OF IH(1) d iter(2)]
    from Some step have "g' = fold (\<lambda>l g. add_edge g d l) (ss_iter live1) g1"
      "live' = fold (\<lambda>s live. ss_insert live s) (inst_uses i) (ss_remove live1 d)"
      by (auto simp: interfere_inst_def)
    with fold_insert_facts [of "inst_uses i" "ss_remove live1 d"] uses IH Some fa iter show ?thesis
      by (auto simp: def_set_def slot_sets)
  qed
qed

definition term_live :: "block \<Rightarrow> slot_id set \<Rightarrow> slot_id set" where
  "term_live b out = set (term_uses (blk_term b)) \<union> out"

lemma interfere_block_facts:
  assumes "graph_wf n g" "facts_wf n facts" "facts (block_label b) = Some bf" "\<forall>s\<in>block_slots b. s < n"
  shows "graph_wf n (interfere_block facts b g) \<and> edges g \<subseteq> edges (interfere_block facts b g) \<and>
    conflicts (insts b) (term_live b (slots_of (live_out bf))) \<subseteq> edges (interfere_block facts b g)"
proof -
  let ?live = "fold (\<lambda>s live. ss_insert live s) (term_uses (blk_term b)) (live_out bf)"
  from assms have len: "length (live_out bf) = n" "n \<le> 2 ^ 32" by (auto simp: facts_wf_def)
  have uses: "\<forall>s\<in>set (term_uses (blk_term b)). s < length (live_out bf)"
    and insts: "\<forall>i\<in>set (insts b). \<forall>s\<in>inst_slots i. s < n"
    using assms(4) len by (auto simp: block_slots_def)
  obtain g' live' where st: "fold interfere_inst (rev (insts b)) (g, ?live) = (g', live')"
    by (cases "fold interfere_inst (rev (insts b)) (g, ?live)")
  note live = fold_insert_facts [OF uses]
  from interfere_insts_facts [OF assms(1) _ len(2) insts st] live len st assms(3) show ?thesis
    by (simp add: interfere_block_def term_live_def)
qed

lemma interfere_blocks_facts:
  assumes "graph_wf n g" "facts_wf n facts"
    and "\<forall>b\<in>set bs. facts (block_label b) \<noteq> None \<and> (\<forall>s\<in>block_slots b. s < n)"
  shows "graph_wf n (fold (interfere_block facts) bs g) \<and> edges g \<subseteq> edges (fold (interfere_block facts) bs g) \<and>
    (\<forall>b\<in>set bs. conflicts (insts b) (term_live b (slots_of (live_out (the (facts (block_label b))))))
       \<subseteq> edges (fold (interfere_block facts) bs g))"
  using assms(1,3)
proof (induction bs arbitrary: g)
  case (Cons b bs)
  then obtain bf where bf: "facts (block_label b) = Some bf" by auto
  with interfere_block_facts [OF Cons.prems(1) assms(2) bf] Cons.IH [of "interfere_block facts b g"] Cons.prems
  show ?case by auto
qed simp

lemma interfere_all_facts:
  "graph_wf n g \<Longrightarrow> \<forall>s\<in>set zs. s < n \<Longrightarrow> graph_wf n (interfere_all zs g) \<and> edges g \<subseteq> edges (interfere_all zs g)"
proof (induction zs arbitrary: g)
  case (Cons z zs)
  with fold_add_edge_facts [of n g z zs] Cons.IH [of "fold (\<lambda>b g. add_edge g z b) zs g"] show ?case by auto
qed simp

lemma build_interference_facts:
  assumes "facts_wf n facts" "\<forall>s\<in>set zs. s < n"
    and "\<forall>b\<in>set (blocks prog). facts (block_label b) \<noteq> None \<and> (\<forall>s\<in>block_slots b. s < n)"
  shows "graph_wf n (build_interference prog facts zs n)"
    and "b \<in> set (blocks prog) \<Longrightarrow> facts (block_label b) = Some bf \<Longrightarrow>
      conflicts (insts b) (term_live b (slots_of (live_out bf))) \<subseteq> edges (build_interference prog facts zs n)"
proof -
  have "graph_wf n (replicate n (ss_new n))" by (auto simp: graph_wf_def edges_def sym_def slot_sets)
  note blk = interfere_blocks_facts [OF this assms(1,3)]
  with interfere_all_facts [of n _ zs] assms(2)
  have all: "graph_wf n (build_interference prog facts zs n)"
    "edges (fold (interfere_block facts) (blocks prog) (replicate n (ss_new n)))
      \<subseteq> edges (build_interference prog facts zs n)"
    by (simp_all add: build_interference_def)
  show "graph_wf n (build_interference prog facts zs n)" by (rule all)
  assume "b \<in> set (blocks prog)" "facts (block_label b) = Some bf"
  with blk all(2) show "conflicts (insts b) (term_live b (slots_of (live_out bf)))
      \<subseteq> edges (build_interference prog facts zs n)" by force
qed

section \<open>The colouring\<close>

text \<open>
  What holds of the colours handed out to the first \<open>v\<close> slots: each slot keeps its type, no two
  interfering slots share a colour, and an overflow is recorded exactly when more colours than the
  stack holds have been opened.
\<close>

definition coloured :: "ty list \<Rightarrow> (slot_id \<times> slot_id) set \<Rightarrow> nat \<Rightarrow> slot_id list \<Rightarrow> ty list \<Rightarrow> slot_id option \<Rightarrow> bool" where
  "coloured tys E v of' types over \<longleftrightarrow> length of' = v \<and> length types \<le> v \<and>
     (\<forall>i<v. of' ! i < length types \<and> types ! (of' ! i) = tys ! i) \<and>
     (\<forall>i<v. \<forall>j<v. (i, j) \<in> E \<longrightarrow> i \<noteq> j \<longrightarrow> of' ! i \<noteq> of' ! j) \<and>
     (over = None \<longleftrightarrow> length types \<le> MAX_SLOTS)"

lemma taken_iff:
  "c < k \<Longrightarrow> \<forall>i<v. of' ! i < k \<Longrightarrow> length tk = k \<Longrightarrow>
     fold (\<lambda>ni taken. if ni < v then taken[of' ! ni := True] else taken) ns tk ! c
       \<longleftrightarrow> tk ! c \<or> (\<exists>ni\<in>set ns. ni < v \<and> of' ! ni = c)"
  by (induction ns arbitrary: tk) (auto simp: nth_list_update)

lemma colour_step_coloured:
  assumes c: "coloured tys (edges g) v of' types over" and g: "graph_wf n g" "n \<le> 2 ^ 32" "v < n" "n = length tys"
    and step: "colour_step g (v, tys ! v) (of', types, over) = (of1, types1, over1)"
  shows "coloured tys (edges g) (Suc v) of1 types1 over1"
proof -
  let ?taken = "fold (\<lambda>ni taken. if ni < v then taken[of' ! ni := True] else taken)
     (ss_iter (g ! v)) (replicate (length types) False)"
  from c have len: "length of' = v" "length types \<le> v" and ok: "\<forall>i<v. of' ! i < length types \<and> types ! (of' ! i) = tys ! i"
    and sep: "\<And>i j. i < v \<Longrightarrow> j < v \<Longrightarrow> (i, j) \<in> edges g \<Longrightarrow> i \<noteq> j \<Longrightarrow> of' ! i \<noteq> of' ! j"
    and ov: "over = None \<longleftrightarrow> length types \<le> MAX_SLOTS"
    unfolding coloured_def by blast+
  have iter: "set (ss_iter (g ! v)) = slots_of (g ! v)"
    using graph_wf_length [OF g(1,3)] g(2) by (intro set_ss_iter) simp
  have taken: "?taken ! c \<longleftrightarrow> (\<exists>ni<v. (v, ni) \<in> edges g \<and> of' ! ni = c)" if "c < length types" for c
    using taken_iff [OF that, of v of' "replicate (length types) False" "ss_iter (g ! v)"] that ok g(1,3)
    by (auto simp: iter edges_def graph_wf_def)
  have symm: "(ni, v) \<in> edges g \<Longrightarrow> (v, ni) \<in> edges g" for ni
    using g(1) by (auto simp: graph_wf_def dest: symD)
  define p where "p = (case find (\<lambda>c. \<not> ?taken ! c \<and> types ! c = tys ! v) [0..<length types] of
      Some c \<Rightarrow> (c, types) | None \<Rightarrow> (length types, types @ [tys ! v]))"
  have fresh: "fst p < length (snd p) \<and> snd p ! fst p = tys ! v \<and> (\<forall>ni<v. (v, ni) \<in> edges g \<longrightarrow> of' ! ni \<noteq> fst p) \<and>
     (\<forall>c<length types. snd p ! c = types ! c) \<and> length types \<le> length (snd p) \<and> length (snd p) \<le> Suc (length types) \<and>
     (length (snd p) = length types \<or> fst p = length types)"
  proof (cases "find (\<lambda>c. \<not> ?taken ! c \<and> types ! c = tys ! v) [0..<length types]")
    case None
    with ok show ?thesis by (auto simp: p_def nth_append)
  next
    case (Some c)
    then have "c < length types" "\<not> ?taken ! c" "types ! c = tys ! v" by (auto simp: find_Some_iff)
    with taken [of c] Some show ?thesis by (auto simp: p_def)
  qed
  have small: "fst p < 2 ^ 32" using fresh len g by linarith
  from step have res: "of1 = of' @ [fst p]" "types1 = snd p"
      "over1 = (if MAX_SLOTS \<le> fst p \<and> over = None then Some (u32_or_max v) else over)"
    using small unfolding colour_step_def Let_def prod.case p_def [symmetric] by (cases p; simp)+
  show ?thesis unfolding coloured_def
  proof (intro conjI allI impI)
    show "length of1 = Suc v" "length types1 \<le> Suc v" using res len fresh by simp_all
    show "of1 ! i < length types1" "types1 ! (of1 ! i) = tys ! i" if "i < Suc v" for i
      using that ok fresh len res by (auto simp: nth_append less_Suc_eq intro: less_le_trans)
    show "of1 ! i \<noteq> of1 ! j" if "i < Suc v" "j < Suc v" "(i, j) \<in> edges g" "i \<noteq> j" for i j
      using that sep fresh symm len res by (auto simp: nth_append less_Suc_eq)
    show "over1 = None \<longleftrightarrow> length types1 \<le> MAX_SLOTS" using res fresh ov by auto
  qed
qed

lemma colour_fold:
  assumes "graph_wf n g" "n \<le> 2 ^ 32" "n = length tys" "v \<le> n"
  shows "\<exists>of' types over. fold (colour_step g) (zip [0..<v] (take v tys)) ([], [], None) = (of', types, over) \<and>
    coloured tys (edges g) v of' types over"
  using assms(4)
proof (induction v)
  case 0
  then show ?case by (simp add: coloured_def MAX_SLOTS_def)
next
  case (Suc v)
  then obtain of' types over where IH: "fold (colour_step g) (zip [0..<v] (take v tys)) ([], [], None) = (of', types, over)"
      "coloured tys (edges g) v of' types over" by auto
  obtain of1 types1 over1 where step: "colour_step g (v, tys ! v) (of', types, over) = (of1, types1, over1)"
    by (cases "colour_step g (v, tys ! v) (of', types, over)")
  have "zip [0..<Suc v] (take (Suc v) tys) = zip [0..<v] (take v tys) @ [(v, tys ! v)]"
    using Suc.prems assms(3) by (simp add: take_Suc_conv_app_nth)
  with IH step colour_step_coloured [OF IH(2) assms(1,2) _ assms(3) step] Suc.prems show ?case
    by (simp del: upt_Suc)
qed

lemma colour_spec:
  assumes "graph_wf n g" "n \<le> 2 ^ 32" "n = length (slot_types prog)"
  obtains (fits) c where "colour prog g n = Inr c" "coloured (slot_types prog) (edges g) n (col_of c) (col_types c) None"
  | (overflow) e where "colour prog g n = Inl e" "err_code e = StackOverflow" "MAX_SLOTS < n"
proof -
  have en: "enumerate 0 (slot_types prog) = zip [0..<n] (take n (slot_types prog))"
    using assms(3) by (simp add: enumerate_eq_zip)
  from colour_fold [OF assms order_refl] obtain of' types over where
    f: "fold (colour_step g) (enumerate 0 (slot_types prog)) ([], [], None) = (of', types, over)"
      "coloured (slot_types prog) (edges g) n of' types over" unfolding en by blast
  show ?thesis
  proof (cases over)
    case None
    with f have "colour prog g n = Inr \<lparr>col_of = of', col_types = types\<rparr>" by (simp add: colour_def)
    then show ?thesis by (rule fits) (use f(2) None in simp)
  next
    case (Some s)
    with f have "colour prog g n = Inl (colour_error prog (length types) n s)" by (simp add: colour_def)
    then show ?thesis
      by (rule overflow) (use f(2) Some in \<open>auto simp: colour_error_def bpf_error_new_def coloured_def\<close>)
  qed
qed

section \<open>Renaming preserves the meaning\<close>

definition agree :: "slot_id list \<Rightarrow> slot_id set \<Rightarrow> ir_state \<Rightarrow> ir_state \<Rightarrow> bool" where
  "agree m L st st' \<longleftrightarrow> emaps st = emaps st' \<and> (\<forall>s\<in>L. slots st s = slots st' (m ! s))"

lemma agree_mono: "agree m L st st' \<Longrightarrow> L' \<subseteq> L \<Longrightarrow> agree m L' st st'"
  by (auto simp: agree_def)

lemma agree_set_slot:
  "agree m L st st' \<Longrightarrow> T - {d} \<subseteq> L \<Longrightarrow> \<forall>l\<in>T. l \<noteq> d \<longrightarrow> m ! l \<noteq> m ! d \<Longrightarrow>
     agree m T (set_slot d v st) (set_slot (m ! d) v st')"
  by (auto simp: agree_def set_slot_def)

lemma agree_slots: "agree m L st st' \<Longrightarrow> s \<in> L \<Longrightarrow> slots st s = slots st' (m ! s)"
  by (simp add: agree_def)

lemma agree_emaps: "agree m L st st' \<Longrightarrow> emaps st = emaps st'"
  by (simp add: agree_def)

lemma exec_inst_remap:
  assumes "agree m ((T - def_set i) \<union> set (inst_uses i)) st st'"
    and "\<forall>d\<in>def_set i. \<forall>l\<in>T. l \<noteq> d \<longrightarrow> m ! l \<noteq> m ! d"
  shows "case exec_inst ivk i st of
      Inl st1 \<Rightarrow> \<exists>st1'. exec_inst ivk (remap_inst m i) st' = Inl st1' \<and> agree m T st1 st1'
    | Inr r \<Rightarrow> exec_inst ivk (remap_inst m i) st' = Inr r"
proof -
  note facts = agree_slots [OF assms(1)] agree_emaps [OF assms(1)]
  have set: "agree m T (set_slot d v st) (set_slot (m ! d) v st')" if "inst_def i = Some d" for d v
    by (rule agree_set_slot [OF assms(1)]) (use assms(2) that in \<open>auto simp: def_set_def\<close>)
  have keep: "agree m T (st\<lparr>emaps := e\<rparr>) (st'\<lparr>emaps := e\<rparr>)" if "inst_def i = None" for e
    using agree_mono [OF assms(1), of T] that by (auto simp: def_set_def agree_def)
  show ?thesis
    using facts set keep by (cases i) (auto split: oob_action.splits)
qed

lemma exec_insts_remap:
  assumes "agree m (lives is T) st st'"
    and "\<And>d l. (d, l) \<in> conflicts is T \<Longrightarrow> m ! l \<noteq> m ! d"
  shows "case exec_insts ivk is st of
      Inl st1 \<Rightarrow> \<exists>st1'. exec_insts ivk (map (remap_inst m) is) st' = Inl st1' \<and> agree m T st1 st1'
    | Inr r \<Rightarrow> exec_insts ivk (map (remap_inst m) is) st' = Inr r"
  using assms
proof (induction "is" arbitrary: st st')
  case (Cons i "is")
  have i: "case exec_inst ivk i st of
      Inl st1 \<Rightarrow> \<exists>st1'. exec_inst ivk (remap_inst m i) st' = Inl st1' \<and> agree m (lives is T) st1 st1'
    | Inr r \<Rightarrow> exec_inst ivk (remap_inst m i) st' = Inr r"
    by (rule exec_inst_remap) (use Cons.prems in auto)
  show ?case
  proof (cases "exec_inst ivk i st")
    case (Inl st1)
    with i obtain st1' where "exec_inst ivk (remap_inst m i) st' = Inl st1'" "agree m (lives is T) st1 st1'" by auto
    with Inl Cons.IH [of st1 st1'] Cons.prems(2) show ?thesis by (auto split: sum.splits)
  qed (use i in simp)
qed simp

lemma exec_term_remap:
  "agree m L st st' \<Longrightarrow> set (term_uses t) \<subseteq> L \<Longrightarrow> exec_term (remap_term m t) st' = exec_term t st"
  by (cases t) (auto simp: agree_def)


definition succ_live :: "bpf_program \<Rightarrow> block \<Rightarrow> slot_id set" where
  "succ_live prog blk = {s. \<exists>b'\<in>set (term_succs (blk_term blk)). may_read prog b' s}"

lemma may_read_lives:
  assumes "find_block prog b = Some blk"
  shows "Collect (may_read prog b) = lives (insts blk) (term_live blk (succ_live prog blk))"
proof -
  have "lives (insts blk) (term_live blk (succ_live prog blk)) =
      block_upward blk \<union> (succ_live prog blk - defs_of (insts blk))"
    using lives_exposed [of "insts blk" "term_live blk (succ_live prog blk)" "{}"]
    by (auto simp: block_upward_def term_live_def)
  moreover have "Collect (may_read prog b) = block_upward blk \<union> (succ_live prog blk - defs_of (insts blk))"
  proof (intro set_eqI iffI)
    fix s assume "s \<in> Collect (may_read prog b)"
    then have "may_read prog b s" by simp
    then show "s \<in> block_upward blk \<union> (succ_live prog blk - defs_of (insts blk))"
      by cases (use assms in \<open>auto simp: succ_live_def\<close>)
  qed (use assms in \<open>auto simp: succ_live_def intro: may_read.intros\<close>)
  ultimately show ?thesis by simp
qed

lemma find_block_remap:
  "blocks prog' = map (remap_block m) (blocks prog) \<Longrightarrow>
     find_block prog' b = map_option (remap_block m) (find_block prog b)"
proof -
  assume blocks: "blocks prog' = map (remap_block m) (blocks prog)"
  have "find (\<lambda>blk. block_label blk = b) (map (remap_block m) bs) =
      map_option (remap_block m) (find (\<lambda>blk. block_label blk = b) bs)" for bs
    by (induction bs) (auto simp: remap_block_def)
  then show ?thesis by (simp add: find_block_def blocks)
qed

definition separates :: "slot_id list \<Rightarrow> bpf_program \<Rightarrow> bool" where
  "separates m prog \<longleftrightarrow> (\<forall>blk\<in>set (blocks prog).
     \<forall>(d, l)\<in>conflicts (insts blk) (term_live blk (succ_live prog blk)). m ! l \<noteq> m ! d)"

lemma run_ir_remap:
  assumes blocks: "blocks prog' = map (remap_block m) (blocks prog)" and sep: "separates m prog"
    and "agree m (Collect (may_read prog b)) st st'"
  shows "run_ir fuel ivk prog' b st' = run_ir fuel ivk prog b st"
  using assms(3)
proof (induction fuel arbitrary: b st st')
  case (Suc fuel)
  show ?case
  proof (cases "find_block prog b")
    case None
    then show ?thesis by (simp add: find_block_remap [OF blocks])
  next
    case (Some blk)
    let ?T = "term_live blk (succ_live prog blk)"
    have ag: "agree m (lives (insts blk) ?T) st st'" using Suc.prems may_read_lives [OF Some] by simp
    have conf: "m ! l \<noteq> m ! d" if "(d, l) \<in> conflicts (insts blk) ?T" for d l
      using sep that find_block_label [OF Some] by (fastforce simp: separates_def)
    have ex: "case exec_insts ivk (insts blk) st of
        Inl st1 \<Rightarrow> \<exists>st1'. exec_insts ivk (map (remap_inst m) (insts blk)) st' = Inl st1' \<and> agree m ?T st1 st1'
      | Inr r \<Rightarrow> exec_insts ivk (map (remap_inst m) (insts blk)) st' = Inr r"
      by (rule exec_insts_remap [OF ag conf])
    have blk': "find_block prog' b = Some (remap_block m blk)" by (simp add: find_block_remap [OF blocks] Some)
    show ?thesis
    proof (cases "exec_insts ivk (insts blk) st")
      case (Inr r)
      with ex show ?thesis by (simp add: blk' Some remap_block_def)
    next
      case (Inl st1)
      with ex obtain st1' where st1': "exec_insts ivk (map (remap_inst m) (insts blk)) st' = Inl st1'"
        "agree m ?T st1 st1'" by auto
      have tm: "exec_term (remap_term m (blk_term blk)) st1' = exec_term (blk_term blk) st1"
        using st1'(2) by (rule exec_term_remap) (simp add: term_live_def)
      have nxt: "agree m (Collect (may_read prog b')) st1 st1'" if "exec_term (blk_term blk) st1 = Inl b'" for b'
      proof (rule agree_mono [OF st1'(2)])
        have "b' \<in> set (term_succs (blk_term blk))" using that by (cases "blk_term blk") (auto split: if_splits)
        then show "Collect (may_read prog b') \<subseteq> ?T" by (auto simp: term_live_def succ_live_def)
      qed
      show ?thesis
        using Inl st1' tm nxt Suc.IH agree_emaps [OF st1'(2)]
        by (auto simp: blk' Some remap_block_def split: sum.splits)
    qed
  qed
qed simp


section \<open>The pass as a whole\<close>

lemma exposed_slots: "exposed D is \<subseteq> \<Union> (inst_slots ` set is)"
  by (induction "is" arbitrary: D) (auto simp: inst_slots_def)

lemma may_read_slots: "may_read prog b s \<Longrightarrow> \<exists>blk\<in>set (blocks prog). s \<in> block_slots blk"
proof (induction rule: may_read.induct)
  case (here b blk s)
  then have "s \<in> block_slots blk"
    using exposed_slots [of "{}" "insts blk"] by (auto simp: block_upward_def block_slots_def)
  then show ?case using find_block_label [OF here(1)] by blast
qed

lemma block_slots_remap: "block_slots (remap_block m b) = (!) m ` block_slots b"
proof -
  have i: "inst_slots (remap_inst m i) = (!) m ` inst_slots i" for i
    by (cases i) (auto simp: inst_slots_def def_set_def)
  have t: "set (term_uses (remap_term m t)) = (!) m ` set (term_uses t)" for t by (cases t) auto
  show ?thesis by (auto simp: block_slots_def remap_block_def i t)
qed

text \<open>
  What a successful run of the pass establishes: the new program is the old one under a renaming
  \<open>m\<close> that keeps types, separates what lives together, and sends the slots that may be read
  before they are written to the zero-initialised ones.
\<close>

definition allocation :: "bpf_program \<Rightarrow> bpf_program \<Rightarrow> slot_id list \<Rightarrow> bool" where
  "allocation p q m \<longleftrightarrow>
     blocks q = map (remap_block m) (blocks p) \<and> entry q = entry p \<and> maps q = maps p \<and>
     prog_type q = prog_type p \<and> raw_slot_count q = length (slot_types p) \<and>
     num_slots q = length (slot_types q) \<and> length (slot_types q) \<le> MAX_SLOTS \<and>
     length (slot_types q) \<le> length (slot_types p) \<and>
     (\<forall>v<length (slot_types p). m ! v < length (slot_types q) \<and> slot_types q ! (m ! v) = slot_types p ! v) \<and>
     set (zero_init q) = (!) m ` Collect (may_read p (entry p)) \<and> sorted (zero_init q) \<and> distinct (zero_init q) \<and>
     separates m p"

lemma sorted_distinct_dedup: "sorted xs \<Longrightarrow> sorted (remdups_adj xs) \<and> distinct (remdups_adj xs)"
  for xs :: "nat list"
proof (induction xs rule: remdups_adj.induct)
  case (3 x y xs)
  then show ?case by (cases "x = y") (auto simp: order_le_less)
qed simp_all

lemma conflicts_irrefl: "(d, l) \<in> conflicts is T \<Longrightarrow> d \<noteq> l"
  by (induction "is") auto

lemma no_slots_block:
  assumes "block_slots b = {}"
  shows "insts b = [] \<and> remap_block m b = b"
proof -
  have "inst_slots i \<noteq> {}" for i by (cases i) (auto simp: inst_slots_def def_set_def)
  with assms have "insts b = []" by (cases "insts b") (auto simp: block_slots_def)
  moreover from assms have "remap_term m (blk_term b) = blk_term b" by (cases "blk_term b") (auto simp: block_slots_def)
  ultimately show ?thesis by (simp add: remap_block_def)
qed

lemma assign_slots_empty:
  assumes range: "slots_in_range p" and empty: "slot_types p = []"
  shows "\<exists>q. assign_slots p = Some (Inr q) \<and> allocation p q []"
proof -
  from assms have none: "block_slots b = {}" if "b \<in> set (blocks p)" for b
    using that by (auto simp: slots_in_range_def)
  have "Collect (may_read p b) = {}" for b using none may_read_slots by fastforce
  moreover have "map (remap_block []) (blocks p) = blocks p"
    using none no_slots_block by (intro map_idI) blast
  moreover have "separates [] p" using none no_slots_block by (auto simp: separates_def)
  ultimately have "allocation p (p\<lparr>raw_slot_count := u32_or_max (length (slot_types p)), num_slots := 0, zero_init := []\<rparr>) []"
    using empty by (simp add: allocation_def MAX_SLOTS_def u32_or_max_def)
  then show ?thesis using empty by (auto simp: assign_slots_def Let_def)
qed

lemma entry_zero_exact:
  assumes "facts_wf n facts" "live_ok p facts"
    and inn: "\<And>b bf. facts b = Some bf \<Longrightarrow> slots_of (live_in bf) = Collect (may_read p b)"
  shows "set (entry_zero_slots p facts n) = Collect (may_read p (entry p))"
proof (cases "facts (entry p)")
  case None
  then have "\<not> may_read p (entry p) s" for s using may_read_fact [OF assms(2)] by fastforce
  with None assms(1) show ?thesis by (simp add: entry_zero_slots_def set_ss_iter slots_of_new facts_wf_def)
next
  case (Some bf)
  with assms(1) inn [OF Some] show ?thesis by (auto simp: entry_zero_slots_def facts_wf_def set_ss_iter)
qed

text \<open>A colouring of a graph that holds all conflicts of the program separates its live slots.\<close>

lemma coloured_separates:
  assumes "coloured tys (edges g) n m types over" "graph_wf n g"
    and conf: "\<And>b. b \<in> set (blocks p) \<Longrightarrow> conflicts (insts b) (term_live b (succ_live p b)) \<subseteq> edges g"
  shows "separates m p"
  unfolding separates_def
proof (intro ballI, clarify)
  fix b d l
  assume b: "b \<in> set (blocks p)" and dl: "(d, l) \<in> conflicts (insts b) (term_live b (succ_live p b))"
    and eq: "m ! l = m ! d"
  have e: "(d, l) \<in> edges g" using conf [OF b] dl by blast
  then have "d < n" "l < n" using assms(2) by (auto simp: edges_def graph_wf_def dest!: slots_of_bounded)
  with e eq conflicts_irrefl [OF dl] assms(1) show False unfolding coloured_def by metis
qed

lemma interference_covers:
  assumes "distinct_labels p" "slots_in_range p" "facts_wf (length (slot_types p)) facts" "live_ok p facts"
    and out: "\<And>b bf. facts b = Some bf \<Longrightarrow> slots_of (live_out bf) = {s. \<exists>b'\<in>set (succs bf). may_read p b' s}"
    and z: "set z = Collect (may_read p (entry p))"
  defines "g \<equiv> build_interference p facts z (length (slot_types p))"
  shows "graph_wf (length (slot_types p)) g"
    and "b \<in> set (blocks p) \<Longrightarrow> conflicts (insts b) (term_live b (succ_live p b)) \<subseteq> edges g"
proof -
  have zlt: "\<forall>s\<in>set z. s < length (slot_types p)"
    using z may_read_slots assms(2) by (fastforce simp: slots_in_range_def)
  have dom: "\<forall>b\<in>set (blocks p). facts (block_label b) \<noteq> None \<and> (\<forall>s\<in>block_slots b. s < length (slot_types p))"
    using assms(2,4) find_block_mem [OF assms(1)] by (fastforce simp: live_ok_def slots_in_range_def)
  note bi = build_interference_facts [OF assms(3) zlt dom, folded g_def]
  show "graph_wf (length (slot_types p)) g" by (rule bi)
  assume b: "b \<in> set (blocks p)"
  with dom obtain bf where bf: "facts (block_label b) = Some bf" by auto
  from live_okD(3) [OF assms(4) find_block_mem [OF assms(1) b] bf] out [OF bf]
  have "slots_of (live_out bf) = succ_live p b" by (simp add: succ_live_def)
  with bi(2) [OF b bf] show "conflicts (insts b) (term_live b (succ_live p b)) \<subseteq> edges g" by simp
qed

lemma assign_slots_cases:
  assumes range: "slots_in_range p" and dist: "distinct_labels p" and n: "length (slot_types p) < 2 ^ 32"
  obtains (fits) q m where "assign_slots p = Some (Inr q)" "allocation p q m"
  | (overflow) e where "assign_slots p = Some (Inl e)" "err_code e = StackOverflow"
      "MAX_SLOTS < length (slot_types p)"
proof (cases "slot_types p = []")
  case True
  with assign_slots_empty [OF range] fits show ?thesis by blast
next
  case False
  let ?n = "length (slot_types p)"
  obtain facts where facts: "solve_liveness p ?n = Some facts" "facts_wf ?n facts" "live_ok p facts"
    and inn: "\<And>b bf. facts b = Some bf \<Longrightarrow> slots_of (live_in bf) = Collect (may_read p b)"
    and out: "\<And>b bf. facts b = Some bf \<Longrightarrow> slots_of (live_out bf) = {s. \<exists>b'\<in>set (succs bf). may_read p b' s}"
    by (rule solve_liveness_exact [OF range dist less_imp_le [OF n]]) blast
  define z where "z = entry_zero_slots p facts ?n"
  define g where "g = build_interference p facts z ?n"
  have z: "set z = Collect (may_read p (entry p))"
    unfolding z_def by (rule entry_zero_exact [OF facts(2,3) inn])
  have cov: "graph_wf ?n g"
    "\<And>b. b \<in> set (blocks p) \<Longrightarrow> conflicts (insts b) (term_live b (succ_live p b)) \<subseteq> edges g"
    unfolding g_def by (rule interference_covers [OF dist range facts(2,3) _ z]; (erule out | assumption))+
  consider (colours) c where "colour p g ?n = Inr c"
      "coloured (slot_types p) (edges g) ?n (col_of c) (col_types c) None"
    | (too_many) e where "colour p g ?n = Inl e" "err_code e = StackOverflow" "MAX_SLOTS < ?n"
    using colour_spec [OF cov(1) less_imp_le [OF n] refl] by blast
  then show ?thesis
  proof cases
    case (colours c)
    let ?q = "p\<lparr>raw_slot_count := u32_or_max ?n, blocks := map (remap_block (col_of c)) (blocks p),
      zero_init := remdups_adj (sort (map (\<lambda>s. col_of c ! s) z)), num_slots := u32_or_max (length (col_types c)),
      slot_types := col_types c\<rparr>"
    from colours(2) have cl: "length (col_types c) \<le> MAX_SLOTS" "length (col_types c) \<le> ?n"
      "\<forall>i<?n. col_of c ! i < length (col_types c) \<and> col_types c ! (col_of c ! i) = slot_types p ! i"
      by (auto simp: coloured_def)
    have "allocation p ?q (col_of c)"
      using cl n z coloured_separates [OF colours(2) cov] sorted_distinct_dedup [of "sort (map (\<lambda>s. col_of c ! s) z)"]
      by (simp add: allocation_def u32_or_max_def MAX_SLOTS_def)
    moreover have "assign_slots p = Some (Inr ?q)"
      using False facts(1) colours(1) by (simp add: assign_slots_def Let_def z_def g_def)
    ultimately show ?thesis using that(1) by blast
  next
    case (too_many e)
    with False facts(1) have "assign_slots p = Some (Inl e)" by (simp add: assign_slots_def Let_def z_def g_def)
    with too_many show ?thesis using that(2) by simp
  qed
qed

lemma allocation_range: "allocation p q m \<Longrightarrow> slots_in_range p \<Longrightarrow> slots_in_range q"
  by (auto simp: allocation_def slots_in_range_def block_slots_remap)

lemma allocation_run:
  assumes al: "allocation p q m" and zero: "\<forall>s\<in>set (zero_init q). st s = 0"
  shows "run_ir fuel ivk q (entry q) \<lparr>slots = st, emaps = mps\<rparr> =
    run_ir fuel ivk p (entry p) \<lparr>slots = (\<lambda>_. 0), emaps = mps\<rparr>"
proof -
  from al have "blocks q = map (remap_block m) (blocks p)" "separates m p" "entry q = entry p"
    and z: "set (zero_init q) = (!) m ` Collect (may_read p (entry p))" by (auto simp: allocation_def)
  moreover have "agree m (Collect (may_read p (entry p))) \<lparr>slots = (\<lambda>_. 0), emaps = mps\<rparr> \<lparr>slots = st, emaps = mps\<rparr>"
    using zero z by (auto simp: agree_def)
  ultimately show ?thesis by (simp add: run_ir_remap)
qed


section \<open>Properties\<close>

definition program_ok :: "bpf_program \<Rightarrow> bool" where
  "program_ok p \<longleftrightarrow> slots_in_range p \<and> distinct_labels p \<and> length (slot_types p) < 2 ^ 32"

text \<open>
  C4. The allocated program computes what the program it was given computes, for every packet, map
  state and number of blocks run: the source program from all-zero slots, the result from any stack
  contents whatever as long as the slots of its \<open>zero_init\<close> list are zeroed.
\<close>

theorem assign_slots_refines:
  assumes "program_ok p" "assign_slots p = Some (Inr q)" "\<forall>s\<in>set (zero_init q). st s = 0"
  shows "run_ir fuel ivk q (entry q) \<lparr>slots = st, emaps = mps\<rparr> =
    run_ir fuel ivk p (entry p) \<lparr>slots = (\<lambda>_. 0), emaps = mps\<rparr>"
proof -
  from assms(1) have ok: "slots_in_range p" "distinct_labels p" "length (slot_types p) < 2 ^ 32"
    by (simp_all add: program_ok_def)
  from ok obtain m where "allocation p q m"
    by (cases rule: assign_slots_cases) (use assms(2) in auto)
  then show ?thesis using assms(3) by (rule allocation_run)
qed

text \<open>
  C28. The pass always returns: the liveness loop settles and no index is out of range. It either
  gives a program with at most 64 slots (never more than before), all references and the sorted
  \<open>zero_init\<close> list inside them, or a stack-overflow diagnostic, the latter only for a program of
  more than 64 values.
\<close>

theorem assign_slots_total:
  assumes "program_ok p"
  shows "case assign_slots p of
      Some (Inr q) \<Rightarrow> slots_in_range q \<and> num_slots q = length (slot_types q) \<and> num_slots q \<le> 64 \<and>
        num_slots q \<le> length (slot_types p) \<and> sorted (zero_init q) \<and> distinct (zero_init q) \<and>
        list_all (\<lambda>s. s < num_slots q) (zero_init q)
    | Some (Inl e) \<Rightarrow> err_code e = StackOverflow \<and> 64 < length (slot_types p)
    | None \<Rightarrow> False"
proof -
  from assms have ok: "slots_in_range p" "distinct_labels p" "length (slot_types p) < 2 ^ 32"
    by (simp_all add: program_ok_def)
  then show ?thesis
  proof (cases rule: assign_slots_cases)
    case (fits q m)
    have "s < length (slot_types p)" if "may_read p (entry p) s" for s
      using may_read_slots [OF that] ok(1) by (auto simp: slots_in_range_def)
    then show ?thesis
      using fits allocation_range [OF fits(2) ok(1)]
      by (auto simp: allocation_def MAX_SLOTS_def list_all_iff)
  next
    case (overflow e)
    then show ?thesis by (simp add: MAX_SLOTS_def)
  qed
qed

text \<open>
  Slot sharing respects types: the result is the program under a renaming that sends every
  virtual slot to a stack slot of its own type.
\<close>

lemma assign_slots_types:
  assumes "program_ok p" "assign_slots p = Some (Inr q)"
  shows "\<exists>m. blocks q = map (remap_block m) (blocks p) \<and>
    (\<forall>v<length (slot_types p). m ! v < num_slots q \<and> slot_types q ! (m ! v) = slot_types p ! v)"
proof -
  from assms(1) have "slots_in_range p" "distinct_labels p" "length (slot_types p) < 2 ^ 32"
    by (simp_all add: program_ok_def)
  then obtain m where "allocation p q m"
    by (cases rule: assign_slots_cases) (use assms(2) in auto)
  then show ?thesis by (auto simp: allocation_def)
qed

text \<open>
  C29. The liveness analysis is exact: at the head of every block the computed live set holds a slot
  precisely when some path from there reads it before writing it.
\<close>

theorem liveness_exact:
  assumes "program_ok p"
  shows "\<exists>facts. solve_liveness p (length (slot_types p)) = Some facts \<and>
    (\<forall>blk\<in>set (blocks p). \<exists>bf. facts (block_label blk) = Some bf \<and>
       slots_of (live_in bf) = {s. may_read p (block_label blk) s})"
proof -
  from assms have ok: "slots_in_range p" "distinct_labels p" "length (slot_types p) \<le> 2 ^ 32"
    by (simp_all add: program_ok_def)
  obtain facts where facts: "solve_liveness p (length (slot_types p)) = Some facts" "live_ok p facts"
    "\<And>b bf. facts b = Some bf \<Longrightarrow> slots_of (live_in bf) = Collect (may_read p b)"
    by (rule solve_liveness_exact [OF ok]) blast
  have "\<exists>bf. facts (block_label blk) = Some bf" if "blk \<in> set (blocks p)" for blk
    using facts(2) find_block_mem [OF ok(2) that] unfolding live_ok_def by (metis not_Some_eq)
  with facts show ?thesis by fastforce
qed

text \<open>A counter-style program whose fourth value is read before it is ever written.\<close>

definition demo_program :: bpf_program where
  "demo_program = \<lparr>prog_type = SocketFilter, entry = 0,
     blocks = [\<lparr>block_label = 0,
       insts = [Const 0 5 (span_empty 0), Copy 1 0 (span_empty 0), Bin 2 Add 1 3 (span_empty 0)],
       blk_term = Return 2 (span_empty 0)\<rparr>],
     num_slots = 4, slot_types = [TInt, TInt, TInt, TInt], raw_slot_count = 4, zero_init = [], maps = []\<rparr>"

lemma demo_program_ok: "program_ok demo_program"
  by (simp add: program_ok_def demo_program_def slots_in_range_def distinct_labels_def block_slots_def
      inst_slots_def def_set_def)

lemma demo_program_fits: "\<exists>q. assign_slots demo_program = Some (Inr q)"
proof -
  have len: "length (slot_types demo_program) = 4" by (simp add: demo_program_def)
  from demo_program_ok have "slots_in_range demo_program" "distinct_labels demo_program"
      "length (slot_types demo_program) < 2 ^ 32" by (simp_all add: program_ok_def)
  then show ?thesis by (cases rule: assign_slots_cases) (use len in \<open>auto simp: MAX_SLOTS_def\<close>)
qed

theorem assign_slots_refines_witness:
  "\<exists>q. assign_slots demo_program = Some (Inr q) \<and>
     run_ir 3 \<lparr>host_big = False, data_ptr = 0, packet = []\<rparr> q (entry q) \<lparr>slots = (\<lambda>_. 0), emaps = []\<rparr> = Some (5, [])"
proof -
  obtain q where q: "assign_slots demo_program = Some (Inr q)" using demo_program_fits by blast
  let ?ivk = "\<lparr>host_big = False, data_ptr = 0, packet = []\<rparr>"
  have "run_ir 3 ?ivk q (entry q) \<lparr>slots = (\<lambda>_. 0), emaps = []\<rparr> =
      run_ir 3 ?ivk demo_program (entry demo_program) \<lparr>slots = (\<lambda>_. 0), emaps = []\<rparr>"
    by (rule assign_slots_refines [OF demo_program_ok q]) simp
  also have "\<dots> = Some (5, [])"
    by (simp add: demo_program_def numeral_3_eq_3 find_block_def set_slot_def)
  finally show ?thesis using q by blast
qed

theorem assign_slots_total_witness:
  "case assign_slots demo_program of
      Some (Inr q) \<Rightarrow> slots_in_range q \<and> num_slots q = length (slot_types q) \<and> num_slots q \<le> 64 \<and>
        num_slots q \<le> length (slot_types demo_program) \<and> sorted (zero_init q) \<and> distinct (zero_init q) \<and>
        list_all (\<lambda>s. s < num_slots q) (zero_init q)
    | Some (Inl e) \<Rightarrow> err_code e = StackOverflow \<and> 64 < length (slot_types demo_program)
    | None \<Rightarrow> False"
  by (rule assign_slots_total [OF demo_program_ok])

theorem liveness_exact_witness:
  "\<exists>facts. solve_liveness demo_program (length (slot_types demo_program)) = Some facts \<and>
    (\<forall>blk\<in>set (blocks demo_program). \<exists>bf. facts (block_label blk) = Some bf \<and>
       slots_of (live_in bf) = {s. may_read demo_program (block_label blk) s})"
  by (rule liveness_exact [OF demo_program_ok])

end
