(* ===== verification/Ebpf_Sim.thy ===== *)
theory Ebpf_Sim
  imports Ebpf_Exec Ebpf_Total Bpf_Alloc_Correct
begin

text \<open>
  Correctness of the code generator for the simulator target: the emitted instructions, run on any
  machine that satisfies the documented instruction set (locale \<open>ebpf_vm\<close>), compute what the
  IR computes.

  One lemma per IR instruction, then blocks, programs and the prologue, all by the rules of
  \<open>Ebpf_Exec\<close>.
\<close>

section \<open>IR instructions\<close>

text \<open>The result the machine delivers: the verdict and maps of the IR, and the packet untouched.\<close>

definition delivered :: "invocation \<Rightarrow> i64 \<times> emu_map list \<Rightarrow> vm_result" where
  "delivered ivk r = (fst r, snd r, packet ivk)"

text \<open>What the lowering guarantees of one instruction.\<close>

definition inst_ok :: "inst \<Rightarrow> bool" where
  "inst_ok i =
     (case i of
        Load _ _ _ off _ oob _ \<Rightarrow> 0 \<le> off \<and> (case oob of ReturnVerdict v \<Rightarrow> - (2 ^ 31) \<le> sint v \<and> sint v < 2 ^ 31)
      | MapGet _ mp _ _ \<Rightarrow> mp < 2 ^ 31
      | MapHas _ mp _ _ \<Rightarrow> mp < 2 ^ 31
      | MapSet mp _ _ _ \<Rightarrow> mp < 2 ^ 31
      | _ \<Rightarrow> True)"

lemma scast_i32: "i32_try_from (sint (v :: i64)) = Some w \<Longrightarrow> (scast w :: u64) = v"
  by (frule i32_try_from_Some) (simp add: scast_of_sint)

lemma scast_map_imm: "mp < 2 ^ 31 \<Longrightarrow> (scast (map_imm mp) :: u64) = of_nat mp"
proof -
  assume "mp < 2 ^ 31"
  then have "i32_try_from (int mp) = Some (map_imm mp)" by (simp add: map_imm_def i32_try_from_def)
  then have "sint (map_imm mp) = int mp" by (rule i32_try_from_Some)
  then show ?thesis by (simp add: scast_of_sint)
qed

lemma regs_set [simp]: "regs (set_reg d v s) q = (if q = d then v else regs s q)" "mem (set_reg d v s) = mem s"
  "vmaps (set_reg d v s) = vmaps s" "regs (set_mem m s) = regs s"
  by (simp_all add: set_reg_def set_mem_def)

lemma reg_facts [simp]: "R0 < 10" "R1 < 10" "R2 < 10" "R3 < 10" "R4 < 10" "R6 < 10" "R7 < 10"
  "R0 \<le> 10" "R1 \<le> 10" "R2 \<le> 10" "R3 \<le> 10" "R6 \<le> 10" "R7 \<le> 10" "R10 \<le> 10"
  "R0 \<noteq> R6" "R0 \<noteq> R7" "R0 \<noteq> R10" "R1 \<noteq> R6" "R1 \<noteq> R7" "R1 \<noteq> R10" "R2 \<noteq> R6" "R2 \<noteq> R7" "R2 \<noteq> R10"
  "R3 \<noteq> R6" "R3 \<noteq> R7" "R3 \<noteq> R10" "R1 \<noteq> R2" "R1 \<noteq> R3" "R2 \<noteq> R3" "R2 \<noteq> R1" "R3 \<noteq> R1" "R3 \<noteq> R2"
  "R6 \<noteq> R1" "R6 \<noteq> R2" "R7 \<noteq> R1" "R7 \<noteq> R2" "R10 \<noteq> R1" "R10 \<noteq> R2" "R7 \<noteq> R6" "R6 \<noteq> R7"
  by (simp_all add: opcode_defs)

lemma size_bytes_simps [simp]:
  "size_bytes SZ_B = Some 1" "size_bytes SZ_H = Some 2" "size_bytes SZ_W = Some 4" "size_bytes SZ_DW = Some 8"
  by (simp_all add: size_bytes_def opcode_defs)

lemma unat_and_63 [simp]: "unat (and b 63 :: u64) = unat b mod 64"
proof -
  have "and b 63 = take_bit 6 b" by (simp add: take_bit_eq_mask mask_eq_exp_minus_1)
  then show ?thesis by (simp add: take_bit_eq_mod unat_mod)
qed

lemma alu_doc_bin: "bin_alu op = (alu, off) \<Longrightarrow> alu_doc alu off x y = Some (bin_val op x y)"
  by (cases op) (auto simp: alu_doc_def opcode_defs)

lemma related_regs:
  "related env ivk n st s \<Longrightarrow> regs s R10 = stack_top env \<and> regs s R6 = pkt_addr env \<and>
     regs s R7 = pkt_addr env + of_nat (pkt_len env) \<and> vmaps s = emaps st \<and>
     read_mem (pkt_len env) (pkt_addr env) (mem s) = packet ivk"
  by (simp add: related_def)

context ebpf_vm
begin

lemma related_skip [simp]: "related env ivk n st (skip k s) = related env ivk n st s"
  by (simp add: related_def)

lemma goes_ld_slot:
  assumes "related env ivk n st s" "k < n" "n \<le> 64" "d < 10"
    and "goes hs env prog pos ps (set_reg d (slots st k) s) r"
  shows "goes hs env prog pos (ld_slot d k # ps) s r"
proof -
  have a: "regs s R10 + scast (slot_off k) = slot_addr env k"
    using assms(1,2,3) by (simp add: related_def slot_addr_eq)
  have "load_mem (env_big env) 8 (slot_addr env k) (mem s) = slots st k" using assms(1,2) by (simp add: related_def)
  with assms show ?thesis
    unfolding ld_slot_def
    by (intro goes_load [where n = 8]) (simp_all add: a accessible_def slot_in_stack)
qed

lemma goes_st_slot:
  assumes "related env ivk n st s" "env_ok env ivk" "k < n" "n \<le> 64" "q \<le> 10"
    and "\<And>s'. related env ivk n (set_slot k (regs s q) st) s' \<Longrightarrow> goes hs env prog pos ps s' r"
  shows "goes hs env prog pos (st_slot q k # ps) s r"
proof -
  have a: "regs s R10 + scast (slot_off k) = slot_addr env k"
    using assms(1,3,4) by (simp add: related_def slot_addr_eq)
  show ?thesis
    unfolding st_slot_def
    using assms related_store [OF assms(1-4), of "regs s q"]
    by (intro goes_store [where n = 8]) (simp_all add: a accessible_def slot_in_stack)
qed

definition resumes :: "(i32 \<rightharpoonup> helper) \<Rightarrow> vm_env \<Rightarrow> insn list \<Rightarrow> (block_id \<rightharpoonup> nat) \<Rightarrow> invocation \<Rightarrow> nat \<Rightarrow> pending list \<Rightarrow>
    ir_state + i64 \<times> emu_map list \<Rightarrow> vm_result \<Rightarrow> bool" where
  "resumes hs env prog pos ivk n ps x r \<longleftrightarrow>
     (case x of Inl st \<Rightarrow> \<forall>s. related env ivk n st s \<longrightarrow> goes hs env prog pos ps s r | Inr r' \<Rightarrow> r = delivered ivk r')"

lemma sim_bin:
  assumes rel: "related env ivk n st s" "env_ok env ivk" "n \<le> 64" "d < n" "a < n" "b < n"
    and k: "\<And>s'. related env ivk n (set_slot d (bin_val op (slots st a) (slots st b)) st) s' \<Longrightarrow> goes hs env prog pos ps s' r"
  shows "goes hs env prog pos (ld_slot R1 a # ld_slot R2 b #
          (case bin_alu op of (alu_op, off) \<Rightarrow> Ins (alu64_reg_off alu_op R1 R2 off)) # st_slot R1 d # ps) s r"
proof (cases "bin_alu op")
  case (Pair alu off)
  note ld = goes_ld_slot [where st = st and n = n and ivk = ivk] and sv = goes_st_slot [where st = st and n = n and ivk = ivk]
  show ?thesis
    unfolding Pair prod.case
    by (intro ld goes_alu_reg [where v = "bin_val op (slots st a) (slots st b)"] sv)
      (simp_all add: rel k alu_doc_bin [OF Pair])
qed

lemma sim_cmp:
  assumes rel: "related env ivk n st s" "env_ok env ivk" "n \<le> 64" "d < n" "a < n" "b < n"
    and k: "\<And>s'. related env ivk n (set_slot d (if cmp_val op (slots st a) (slots st b) then 1 else 0) st) s' \<Longrightarrow> goes hs env prog pos ps s' r"
  shows "goes hs env prog pos ([ld_slot R1 a, ld_slot R2 b, Ins (mov64_imm R3 1), Ins (jmp_reg (cmp_jop op) R1 R2 1),
          Ins (mov64_imm R3 0), st_slot R3 d] @ ps) s r"
proof -
  note ld = goes_ld_slot [where st = st and n = n and ivk = ivk] and sv = goes_st_slot [where st = st and n = n and ivk = ivk]
  have c: "jump_doc (cmp_jop op) x y = Some (cmp_val op x y)" for x y
    by (cases op) (auto simp: jump_doc_def opcode_defs)
  show ?thesis
    unfolding append.simps
    by (intro ld goes_mov_imm goes_branch_reg [where c = "cmp_val op (slots st a) (slots st b)"] sv)
      (simp_all add: rel k c)
qed

lemma sim_un:
  assumes rel: "related env ivk n st s" "env_ok env ivk" "n \<le> 64" "d < n" "a < n"
    and k: "\<And>s'. related env ivk n (set_slot d (un_val op (slots st a)) st) s' \<Longrightarrow> goes hs env prog pos ps s' r"
  shows "goes hs env prog pos (ld_slot R1 a # emit_un op @ st_slot R1 d # ps) s r"
proof -
  note ld = goes_ld_slot [where st = st and n = n and ivk = ivk] and sv = goes_st_slot [where st = st and n = n and ivk = ivk]
  show ?thesis
  proof (cases op)
    case Neg
    then show ?thesis unfolding emit_un_def Neg un_op.case append.simps
      by (intro ld goes_neg sv) (simp_all add: rel k [unfolded Neg])
  next
    case LNot
    then show ?thesis unfolding emit_un_def LNot un_op.case append.simps
      by (intro ld goes_mov_imm goes_mov_reg goes_branch_imm [where c = "slots st a = 0"] sv)
        (simp_all add: rel k [unfolded LNot] jump_doc_def)
  next
    case BitNot
    have "alu_doc XOR_op 0 x (- 1) = Some (not x)" for x by (simp add: alu_doc_def opcode_defs)
    then show ?thesis unfolding emit_un_def BitNot un_op.case append.simps
      by (intro ld goes_alu_imm [where v = "not (slots st a)"] sv) (simp_all add: rel k [unfolded BitNot])
  qed
qed

lemma sim_const:
  assumes rel: "related env ivk n st s" "env_ok env ivk" "n \<le> 64" "d < n"
    and k: "\<And>s'. related env ivk n (set_slot d v st) s' \<Longrightarrow> goes hs env prog pos ps s' r"
  shows "goes hs env prog pos ((case i32_try_from (sint v) of
             Some imm \<Rightarrow> [Ins (mov64_imm R1 imm)]
           | None \<Rightarrow> (case lddw R1 v of (a, b) \<Rightarrow> [Wide a b]))
          @ st_slot R1 d # ps) s r"
proof -
  note sv = goes_st_slot [where st = st and n = n and ivk = ivk]
  show ?thesis
  proof (cases "i32_try_from (sint v)")
    case None
    obtain a b where ab: "lddw R1 v = (a, b)" by (cases "lddw R1 v")
    have "related env ivk n st (s\<lparr>regs := (regs s)(R1 := v), pc := pc s + 2\<rparr>)"
      using rel(1) by (simp add: related_def)
    then show ?thesis
      unfolding None option.case ab prod.case append.simps
      by (intro goes_wide [OF _ _ ab] sv) (simp_all add: rel k)
  next
    case (Some imm)
    then show ?thesis
      unfolding Some option.case append.simps
      by (intro goes_mov_imm sv) (simp_all add: rel k scast_i32 [OF Some])
  qed
qed

lemma sim_ctx_len:
  assumes rel: "related env ivk n st s" "env_ok env ivk" "n \<le> 64" "d < n"
    and k: "\<And>s'. related env ivk n (set_slot d (of_nat (length (packet ivk))) st) s' \<Longrightarrow> goes hs env prog pos ps s' r"
  shows "goes hs env prog pos ([Ins (mov64_reg R1 REND), Ins (alu64_reg SUB R1 RPTR), st_slot R1 d] @ ps) s r"
proof -
  note sv = goes_st_slot [where st = st and n = n and ivk = ivk]
  have "alu_doc SUB 0 x y = Some (x - y)" for x y by (simp add: alu_doc_def opcode_defs)
  moreover have "length (packet ivk) = pkt_len env" using rel(2) by (simp add: env_ok_def)
  ultimately show ?thesis
    unfolding append.simps alu64_reg_def
    by (intro goes_mov_reg goes_alu_reg [where v = "of_nat (pkt_len env)"] sv)
      (simp_all add: rel k related_regs [OF rel(1)])
qed

end

lemma registered [simp]:
  "registered_helpers RBPF_MAP_GET_ID = Some (\<lambda>mp key _ _ _ m. (map_get_helper m mp key, m))"
  "registered_helpers RBPF_MAP_SET_ID = Some (\<lambda>mp key val _ _ m. map_set_helper m mp key val)"
  "registered_helpers RBPF_MAP_HAS_ID = Some (\<lambda>mp key _ _ _ m. (map_has_helper m mp key, m))"
  by (simp_all add: registered_helpers_def RBPF_MAP_GET_ID_def RBPF_MAP_SET_ID_def RBPF_MAP_HAS_ID_def)

lemma related_call:
  "related env ivk n st s \<Longrightarrow> \<forall>r\<in>{6..10}. regs s' r = regs s r \<Longrightarrow> mem s' = mem s \<Longrightarrow>
     related env ivk n (st\<lparr>emaps := vmaps s'\<rparr>) s'"
  by (simp add: related_def R6_def R7_def R10_def)

lemma related_call_same:
  "related env ivk n st s \<Longrightarrow> \<forall>r\<in>{6..10}. regs s' r = regs s r \<Longrightarrow> mem s' = mem s \<Longrightarrow> vmaps s' = vmaps s \<Longrightarrow>
     related env ivk n st s'"
  by (simp add: related_def R6_def R7_def R10_def)

context ebpf_vm
begin

lemma sim_map_read:
  assumes rel: "related env ivk n st s" "env_ok env ivk" "n \<le> 64" "d < n" "key < n" "mp < 2 ^ 31"
    and h: "registered_helpers hid = Some (\<lambda>mp key _ _ _ m. (f m mp key, m))"
    and k: "\<And>s'. related env ivk n (set_slot d (f (emaps st) (of_nat mp) (slots st key)) st) s' \<Longrightarrow>
      goes registered_helpers env prog pos ps s' r"
  shows "goes registered_helpers env prog pos
    ([Ins (mov64_imm R1 (map_imm mp)), ld_slot R2 key, Ins (call hid), st_slot R0 d] @ ps) s r"
proof -
  note ld = goes_ld_slot [where st = st and n = n and ivk = ivk] and sv = goes_st_slot [where st = st and n = n and ivk = ivk]
  let ?s2 = "set_reg R2 (slots st key) (set_reg R1 (scast (map_imm mp)) s)"
  have args: "regs ?s2 1 = of_nat mp" "regs ?s2 2 = slots st key"
    using scast_map_imm [OF rel(6)] by (simp_all add: R1_def R2_def)
  have maps: "vmaps s = emaps st" "vmaps ?s2 = emaps st" using related_regs [OF rel(1)] by simp_all
  have "goes registered_helpers env prog pos (st_slot R0 d # ps) s' r"
    if "regs s' R0 = f (emaps st) (of_nat mp) (slots st key)" "\<forall>r\<in>{6..10}. regs s' r = regs ?s2 r" "mem s' = mem ?s2"
      "vmaps s' = emaps st" for s'
  proof (rule sv)
    show "related env ivk n st s'"
      by (rule related_call_same [of _ _ _ _ ?s2]) (use that rel maps in simp_all)
  qed (use that rel k in simp_all)
  then have "goes registered_helpers env prog pos (Ins (call hid) # st_slot R0 d # ps) ?s2 r"
    using h
    by (intro goes_call [where f = "\<lambda>mp key _ _ _ m. (f m mp key, m)" and v = "f (emaps st) (of_nat mp) (slots st key)" and ms = "emaps st"])
      (simp_all only: args maps(2))
  then show ?thesis
    unfolding append.simps by (intro ld goes_mov_imm) (simp_all add: rel)
qed

lemma sim_map_set:
  assumes rel: "related env ivk n st s" "n \<le> 64" "key < n" "val < n" "mp < 2 ^ 31"
    and k: "\<And>s'. related env ivk n (st\<lparr>emaps := map_put (emaps st) (of_nat mp) (slots st key) (slots st val)\<rparr>) s' \<Longrightarrow>
      goes registered_helpers env prog pos ps s' r"
  shows "goes registered_helpers env prog pos
    ([Ins (mov64_imm R1 (map_imm mp)), ld_slot R2 key, ld_slot R3 val, Ins (call RBPF_MAP_SET_ID)] @ ps) s r"
proof -
  note ld = goes_ld_slot [where st = st and n = n and ivk = ivk]
  let ?s2 = "set_reg R3 (slots st val) (set_reg R2 (slots st key) (set_reg R1 (scast (map_imm mp)) s))"
  have args: "regs ?s2 1 = of_nat mp" "regs ?s2 2 = slots st key" "regs ?s2 3 = slots st val"
    using scast_map_imm [OF rel(5)] by (simp_all add: R1_def R2_def R3_def)
  have maps: "vmaps s = emaps st" "vmaps ?s2 = emaps st" using related_regs [OF rel(1)] by simp_all
  have put: "map_set_helper m a b c = (0, map_put m a b c)" for m a b c by (simp add: map_put_def map_set_helper_def)
  have "goes registered_helpers env prog pos ps s' r"
    if "\<forall>r\<in>{6..10}. regs s' r = regs ?s2 r" "mem s' = mem ?s2"
      "vmaps s' = map_put (emaps st) (of_nat mp) (slots st key) (slots st val)" for s'
    using related_call [of env ivk n st ?s2 s'] that rel by (intro k) simp
  then have "goes registered_helpers env prog pos (Ins (call RBPF_MAP_SET_ID) # ps) ?s2 r"
    using registered(2)
    by (intro goes_call [where f = "\<lambda>mp key val _ _ m. map_set_helper m mp key val" and v = 0 and ms = "map_put (emaps st) (of_nat mp) (slots st key) (slots st val)"])
      (simp_all only: args maps(2) put)
  then show ?thesis
    unfolding append.simps by (intro ld goes_mov_imm) (simp_all add: rel)
qed

end

section \<open>Checked packet reads\<close>

lemma packet_in_bounds:
  assumes "env_ok env ivk" "0 \<le> off" "off < 2 ^ 15" "w \<le> 8"
  shows "pkt_addr env + word_of_int (int w + off) \<le> pkt_addr env + of_nat (pkt_len env) \<longleftrightarrow> nat off + w \<le> pkt_len env"
proof -
  from assms have b: "unat (pkt_addr env) + pkt_len env + 2 ^ 16 \<le> 2 ^ 64" by (simp add: env_ok_def)
  have e: "unat (pkt_addr env + word_of_nat m) = unat (pkt_addr env) + m" if "unat (pkt_addr env) + m < 2 ^ 64" for m
    using that by (simp add: unat_word_ariths unsigned_of_nat take_bit_nat_eq_self)
  have "int w + off = int (w + nat off)" using assms(2) by simp
  then have o: "(word_of_int (int w + off) :: u64) = word_of_nat (w + nat off)" by (simp only: of_int_of_nat_eq)
  have "unat (pkt_addr env + word_of_nat (w + nat off)) = unat (pkt_addr env) + (w + nat off)"
    using b assms by (intro e) auto
  moreover have "unat (pkt_addr env + word_of_nat (pkt_len env)) = unat (pkt_addr env) + pkt_len env"
    using b by (intro e) auto
  ultimately show ?thesis unfolding o word_le_nat_alt by auto
qed

lemma packet_field:
  assumes "env_ok env ivk" "k + w \<le> pkt_len env" "read_mem (pkt_len env) (pkt_addr env) m = packet ivk"
  shows "read_mem w (pkt_addr env + of_nat k) m = subslice k (k + w) (packet ivk)"
proof -
  have "subslice k (k + w) (read_mem (pkt_len env) (pkt_addr env) m) = read_mem w (pkt_addr env + of_nat k) m"
    using assms(2) by (intro nth_equalityI) (auto simp: subslice_def read_mem_def add.assoc)
  with assms(3) show ?thesis by simp
qed

lemma packet_accessible:
  assumes "env_ok env ivk" "k + w \<le> pkt_len env"
  shows "accessible env (pkt_addr env + of_nat k) w"
proof -
  from assms have "k < 2 ^ 64" by (auto simp: env_ok_def)
  with assms(2) show ?thesis by (simp add: accessible_def in_region_def unsigned_of_nat take_bit_nat_eq_self)
qed

lemma width_size_bytes [simp]: "size_bytes (width_size w) = Some (width_bytes w)"
  by (cases w) simp_all

lemma width_bytes_cases: "width_bytes w \<in> {1, 2, 4}"
  by (cases w) simp_all

lemma host_val_single: "length bs = 1 \<Longrightarrow> host_val big bs = host_val b' bs"
  by (cases bs) (auto simp: host_val_def)

text \<open>The byte-order instruction after a packet load, if any.\<close>

definition swap_code :: "width \<Rightarrow> byte_order \<Rightarrow> pending list" where
  "swap_code width order =
     (let bits = word_of_nat (width_bytes width * 8) :: i32 in
      if width \<noteq> B8 then
        (case order of Big \<Rightarrow> [Ins (bswap_be R2 bits)] | Little \<Rightarrow> [Ins (bswap_le R2 bits)] | Native \<Rightarrow> [])
      else [])"

context ebpf_vm
begin

lemma sim_swap:
  assumes v: "regs s R2 = host_val (env_big env) bs" "length bs = width_bytes w"
    and rel: "related env ivk n st s"
    and k: "\<And>s'. related env ivk n st s' \<Longrightarrow> regs s' R2 = field_val (env_big env) order bs \<Longrightarrow> goes hs env prog pos ps s' r"
  shows "goes hs env prog pos (swap_code w order @ ps) s r"
proof (cases "w = B8")
  case True
  then have "field_val (env_big env) order bs = host_val (env_big env) bs"
    using v(2) host_val_single unfolding field_val_def by auto
  with True v(1) rel show ?thesis by (simp add: swap_code_def Let_def k)
next
  case False
  let ?bits = "word_of_nat (width_bytes w * 8) :: i32"
  have bits: "?bits \<in> {16, 32, 64}" "unat ?bits div 8 = width_bytes w" using False by (cases w; simp)+
  have len: "width_bytes w \<le> 8" using width_bytes_cases [of w] by auto
  show ?thesis
  proof (cases order)
    case Native
    with v(1) rel show ?thesis by (simp add: swap_code_def Let_def k field_val_def)
  next
    case Big
    have "goes hs env prog pos (Ins (bswap_be R2 ?bits) # ps) s r"
      by (rule goes_be, simp, rule bits(1), rule k)
        (use rel Big v bits(2) in \<open>simp_all add: to_be_host len field_val_def\<close>)
    with Big False show ?thesis by (simp add: swap_code_def Let_def)
  next
    case Little
    have "goes hs env prog pos (Ins (bswap_le R2 ?bits) # ps) s r"
      by (rule goes_le, simp, rule bits(1), rule k)
        (use rel Little v bits(2) in \<open>simp_all add: to_le_host len field_val_def\<close>)
    with Little False show ?thesis by (simp add: swap_code_def Let_def)
  qed
qed

lemma sim_load:
  assumes rel: "related env ivk n st s" "env_ok env ivk" "n \<le> 64" "dst < n"
    and ok: "inst_ok (Load dst w ptr off order oob sp)" and emit: "emit_load dst w off order oob sp = Inr code"
    and k: "resumes hs env prog pos ivk n ps (exec_inst ivk (Load dst w ptr off order oob sp) st) r"
  shows "goes hs env prog pos (code @ ps) s r"
proof -
  obtain v where oob: "oob = ReturnVerdict v" by (cases oob)
  from emit obtain off16 where off16: "i16_try_from off = Some off16" by (auto simp: emit_load_def split: option.splits)
  have off: "0 \<le> off" "off < 2 ^ 15" using ok off16 by (auto simp: inst_ok_def i16_try_from_def split: if_splits)
  obtain vimm where vimm: "i32_try_from (sint v) = Some vimm" using ok oob by (simp add: inst_ok_def i32_try_from_def)
  let ?fe = "word_of_int (int (width_bytes w) + off) :: i32"
  have w8: "width_bytes w \<le> 8" using width_bytes_cases [of w] by auto
  have "i32_try_from (int (width_bytes w) + off) = Some ?fe" using off w8 by (simp add: i32_try_from_def)
  then have fe: "(scast ?fe :: u64) = word_of_int (int (width_bytes w) + off)"
    by (simp only: scast_of_sint i32_try_from_Some)
  have so: "(scast off16 :: u64) = of_nat (nat off)"
    using off i16_try_from_Some [OF off16] by (simp add: scast_of_sint)
  have code: "code = [Ins (mov64_reg R2 R6), Ins (alu64_imm ADD R2 ?fe), Ins (jmp_reg JLE R2 R7 2), Ins (mov64_imm R0 vimm),
      Ins exit_insn, Ins (ldx (width_size w) R2 R6 off16)] @ swap_code w order @ [st_slot R2 dst]"
    using emit off16 vimm oob by (simp add: emit_load_def swap_code_def Let_def)
  let ?in = "nat off + width_bytes w \<le> pkt_len env"
  let ?bs = "subslice (nat off) (nat off + width_bytes w) (packet ivk)"
  have len: "length (packet ivk) = pkt_len env" "host_big ivk = env_big env" using rel(2) by (simp_all add: env_ok_def)
  note regs = related_regs [OF rel(1)]
  let ?s2 = "set_reg R2 (pkt_addr env + word_of_int (int (width_bytes w) + off)) (set_reg R2 (pkt_addr env) s)"
  have inside: "goes hs env prog pos (Ins (ldx (width_size w) R2 R6 off16) # swap_code w order @ st_slot R2 dst # ps) (skip 3 ?s2) r"
    if ?in
  proof (rule goes_load [OF _ _ width_size_bytes])
    have a: "regs (skip 3 ?s2) R6 + scast off16 = pkt_addr env + of_nat (nat off)" using regs so by simp
    show "accessible env (regs (skip 3 ?s2) R6 + scast off16) (width_bytes w)"
      unfolding a by (rule packet_accessible [OF rel(2) that])
    have "read_mem (width_bytes w) (pkt_addr env + of_nat (nat off)) (mem s) = ?bs"
      by (rule packet_field [OF rel(2) that]) (use rel(1) in \<open>simp add: related_def\<close>)
    then have ld: "load_mem (env_big env) (width_bytes w) (regs (skip 3 ?s2) R6 + scast off16) (mem (skip 3 ?s2)) =
        host_val (env_big env) ?bs" unfolding a by (simp add: load_mem_def)
    show "goes hs env prog pos (swap_code w order @ st_slot R2 dst # ps)
        (set_reg R2 (load_mem (env_big env) (width_bytes w) (regs (skip 3 ?s2) R6 + scast off16) (mem (skip 3 ?s2))) (skip 3 ?s2)) r"
      unfolding ld
    proof (rule sim_swap [of _ _ ?bs _ ivk n st])
      show "length ?bs = width_bytes w" using that len by (simp add: subslice_def)
      fix s' assume s': "related env ivk n st s'" "regs s' R2 = field_val (env_big env) order ?bs"
      show "goes hs env prog pos (st_slot R2 dst # ps) s' r"
        by (rule goes_st_slot [OF s'(1) rel(2,4,3)]) (use k s'(2) that off len in \<open>simp_all add: resumes_def\<close>)
    qed (use rel in simp_all)
  qed simp_all
  have outside: "r = (scast vimm, vmaps s, packet ivk)" if "\<not> ?in"
    using k that len oob scast_i32 [OF vimm] regs by (auto simp: resumes_def delivered_def)
  have "jump_doc JLE (regs ?s2 R2) (regs ?s2 R7) = Some ?in"
    using packet_in_bounds [OF rel(2) off w8] regs by (simp add: jump_doc_def opcode_defs)
  moreover have "alu_doc ADD 0 (pkt_addr env) (scast ?fe) = Some (pkt_addr env + word_of_int (int (width_bytes w) + off))"
    unfolding fe by (simp add: alu_doc_def)
  ultimately show ?thesis
    unfolding code append.simps append_assoc
    using inside outside regs
    by (intro goes_mov_reg goes_alu_imm [where v = "pkt_addr env + word_of_int (int (width_bytes w) + off)"]
        goes_branch_reg2 [where c = ?in] goes_mov_imm goes_exit) simp_all
qed

end

context ebpf_vm
begin

lemma resumes_Inl [simp]:
  "resumes hs env prog pos ivk n ps (Inl st) r = (\<forall>s. related env ivk n st s \<longrightarrow> goes hs env prog pos ps s r)"
  by (simp add: resumes_def)

lemma resumes_Inr [simp]: "resumes hs env prog pos ivk n ps (Inr r') r = (r = delivered ivk r')"
  by (simp add: resumes_def)

lemma sim_inst:
  assumes rel: "related env ivk n st s" "env_ok env ivk" "n \<le> 64" "\<forall>k\<in>inst_slots i. k < n" "inst_ok i"
    and emit: "emit_inst (emit_ctx_new RbpfFixedMbuff n') i = Inr code"
    and k: "resumes registered_helpers env prog pos ivk n ps (exec_inst ivk i st) r"
  shows "goes registered_helpers env prog pos (code @ ps) s r"
proof -
  note slots = rel(4) [unfolded inst_slots_def def_set_def]
  have rb: "\<not> is_kernel (ctx_target (emit_ctx_new RbpfFixedMbuff n'))" by (simp add: is_kernel_def emit_ctx_new_def Let_def)
  note ld = goes_ld_slot [OF rel(1) _ rel(3)] and sv = goes_st_slot [where st = st, OF _ rel(2) _ rel(3)]
  show ?thesis
  proof (cases i)
    case (Const d v sp)
    with emit have "code @ ps = (case i32_try_from (sint v) of Some imm \<Rightarrow> [Ins (mov64_imm R1 imm)]
           | None \<Rightarrow> (case lddw R1 v of (a, b) \<Rightarrow> [Wide a b])) @ st_slot R1 d # ps" by auto
    moreover have "goes registered_helpers env prog pos ((case i32_try_from (sint v) of Some imm \<Rightarrow> [Ins (mov64_imm R1 imm)]
           | None \<Rightarrow> (case lddw R1 v of (a, b) \<Rightarrow> [Wide a b])) @ st_slot R1 d # ps) s r"
      by (rule sim_const [OF rel(1-3)]) (use Const slots k in simp_all)
    ultimately show ?thesis by simp
  next
    case (Copy d a sp)
    with emit have "code = [ld_slot R1 a, st_slot R1 d]" by auto
    with Copy slots k rel show ?thesis by (auto intro!: ld sv)
  next
    case (Bin d op a b sp)
    with emit have code: "code @ ps = ld_slot R1 a # ld_slot R2 b #
          (case bin_alu op of (alu_op, off) \<Rightarrow> Ins (alu64_reg_off alu_op R1 R2 off)) # st_slot R1 d # ps" by auto
    show ?thesis unfolding code by (rule sim_bin [OF rel(1-3)]) (use Bin slots k in simp_all)
  next
    case (Unop d op a sp)
    with emit have code: "code @ ps = ld_slot R1 a # emit_un op @ st_slot R1 d # ps" by auto
    show ?thesis unfolding code by (rule sim_un [OF rel(1-3)]) (use Unop slots k in simp_all)
  next
    case (Cmp d op a b sp)
    with emit have code: "code = [ld_slot R1 a, ld_slot R2 b, Ins (mov64_imm R3 1), Ins (jmp_reg (cmp_jop op) R1 R2 1),
          Ins (mov64_imm R3 0), st_slot R3 d]" by auto
    show ?thesis unfolding code by (rule sim_cmp [OF rel(1-3)]) (use Cmp slots k in simp_all)
  next
    case (CtxPtr d sp)
    with emit have "code = [st_slot R6 d]" by auto
    moreover have "regs s R6 = data_ptr ivk" using rel(1,2) by (simp add: related_def env_ok_def)
    ultimately show ?thesis using CtxPtr slots k rel by (auto intro!: sv)
  next
    case (CtxLen d sp)
    with emit have code: "code = [Ins (mov64_reg R1 REND), Ins (alu64_reg SUB R1 RPTR), st_slot R1 d]" by auto
    show ?thesis unfolding code by (rule sim_ctx_len [OF rel(1-3)]) (use CtxLen slots k in simp_all)
  next
    case (Load d w ptr off order oob sp)
    show ?thesis
      by (rule sim_load [OF rel(1-3)]) (use Load slots k rel(5) emit in simp_all)
  next
    case (MapGet d mp key sp)
    with emit rb have code: "code = [Ins (mov64_imm R1 (map_imm mp)), ld_slot R2 key, Ins (call RBPF_MAP_GET_ID), st_slot R0 d]"
      by (auto simp: emit_map_get_def)
    show ?thesis
      unfolding code by (rule sim_map_read [OF rel(1-3), where f = map_get_helper]) (use MapGet slots k rel(5) in \<open>simp_all add: inst_ok_def\<close>)
  next
    case (MapHas d mp key sp)
    with emit rb have code: "code = [Ins (mov64_imm R1 (map_imm mp)), ld_slot R2 key, Ins (call RBPF_MAP_HAS_ID), st_slot R0 d]"
      by (auto simp: emit_map_has_def)
    show ?thesis
      unfolding code by (rule sim_map_read [OF rel(1-3), where f = map_has_helper]) (use MapHas slots k rel(5) in \<open>simp_all add: inst_ok_def\<close>)
  next
    case (MapSet mp key val sp)
    with emit rb have code: "code = [Ins (mov64_imm R1 (map_imm mp)), ld_slot R2 key, ld_slot R3 val, Ins (call RBPF_MAP_SET_ID)]"
      by (auto simp: emit_map_set_def)
    show ?thesis
      unfolding code by (rule sim_map_set [OF rel(1,3)]) (use MapSet slots k rel(5) in \<open>simp_all add: inst_ok_def\<close>)
  qed
qed

lemma sim_insts:
  assumes "related env ivk n st s" "env_ok env ivk" "n \<le> 64" "\<forall>i\<in>set is. (\<forall>k\<in>inst_slots i. k < n) \<and> inst_ok i"
    and "emit_insts (emit_ctx_new RbpfFixedMbuff n') is = Inr code"
    and "resumes registered_helpers env prog pos ivk n ps (exec_insts ivk is st) r"
  shows "goes registered_helpers env prog pos (code @ ps) s r"
  using assms
proof (induction "is" arbitrary: st s code)
  case (Cons i "is")
  then obtain c rest where c: "emit_inst (emit_ctx_new RbpfFixedMbuff n') i = Inr c"
    "emit_insts (emit_ctx_new RbpfFixedMbuff n') is = Inr rest" "code = c @ rest" by (auto split: sum.splits)
  have "goes registered_helpers env prog pos (c @ rest @ ps) s r"
  proof (rule sim_inst [OF Cons.prems(1-3) _ _ c(1)])
    show "resumes registered_helpers env prog pos ivk n (rest @ ps) (exec_inst ivk i st) r"
      using Cons.IH [OF _ Cons.prems(2,3) _ c(2)] Cons.prems(4,6) by (cases "exec_inst ivk i st") auto
  qed (use Cons.prems(4) in auto)
  with c(3) show ?case by simp
qed simp

lemma sim_term:
  assumes rel: "related env ivk n st s" "n \<le> 64" "\<forall>k\<in>set (term_uses t). k < n"
    and jump: "\<And>b d. exec_term t st = Inl b \<Longrightarrow> pos b = Some d \<Longrightarrow> (\<And>s. related env ivk n st s \<Longrightarrow> pc s = d \<Longrightarrow> halts hs env prog s r)"
    and ret: "\<And>v. exec_term t st = Inr v \<Longrightarrow> r = delivered ivk (v, emaps st)"
  shows "goes hs env prog pos (emit_term t) s r"
proof (cases t)
  case (Goto target sp)
  have "related env ivk n st (s\<lparr>pc := d\<rparr>)" for d using rel(1) by (simp add: related_def)
  with Goto jump show ?thesis by (auto intro!: goes_ja)
next
  case (BranchNz cond tt ff sp)
  let ?s1 = "set_reg R1 (slots st cond) s"
  have moved: "related env ivk n st (?s1\<lparr>pc := d\<rparr>)" "related env ivk n st ((skip 1 ?s1)\<lparr>pc := d\<rparr>)" for d
    using rel(1) by (simp_all add: related_def)
  have "goes hs env prog pos [JmpNeZero R1 tt, Ja ff] ?s1 r"
    by (intro goes_jne goes_ja) (use BranchNz jump moved in \<open>auto split: if_splits\<close>)
  with BranchNz rel show ?thesis by (auto intro!: goes_ld_slot)
next
  case (Return v sp)
  have "r = (slots st v, emaps st, packet ivk)" using ret Return by (simp add: delivered_def)
  with Return rel related_regs [OF rel(1)] show ?thesis by (auto intro!: goes_ld_slot goes_exit)
qed

end

section \<open>Programs\<close>

definition vm_start :: "vm_env \<Rightarrow> invocation \<Rightarrow> emu_map list \<Rightarrow> vm_state \<Rightarrow> bool" where
  "vm_start env ivk ms s \<longleftrightarrow>
     pc s = 0 \<and> regs s R1 = mbuff_addr env \<and> regs s R10 = stack_top env \<and>
     load_mem (env_big env) 8 (mbuff_addr env) (mem s) = pkt_addr env \<and>
     load_mem (env_big env) 8 (mbuff_addr env + 8) (mem s) = pkt_addr env + of_nat (pkt_len env) \<and>
     read_mem (pkt_len env) (pkt_addr env) (mem s) = packet ivk \<and> vmaps s = ms"

definition initial_slots :: "vm_env \<Rightarrow> bpf_program \<Rightarrow> vm_state \<Rightarrow> slot_id \<Rightarrow> i64" where
  "initial_slots env p s k =
     (if k \<in> set (zero_init p) then 0 else load_mem (env_big env) 8 (slot_addr env k) (mem s))"

definition insts_ok :: "bpf_program \<Rightarrow> bool" where
  "insts_ok p \<longleftrightarrow> (\<forall>b\<in>set (blocks p). list_all inst_ok (insts b))"

text \<open>At most 64 slots, every reference and the \<open>zero_init\<close> list inside them.\<close>

definition frame_ok :: "bpf_program \<Rightarrow> bool" where
  "frame_ok p \<longleftrightarrow> num_slots p \<le> 64 \<and> list_all (\<lambda>z. z < num_slots p) (zero_init p) \<and>
     (\<forall>b\<in>set (blocks p). \<forall>k\<in>block_slots b. k < num_slots p)"

lemma distinct_block_order:
  assumes "distinct_labels p"
  shows "distinct (map block_label (block_order p))"
proof -
  have "distinct (map block_label (filter (\<lambda>b. block_label b \<noteq> entry p) (blocks p)))"
    using assms by (simp add: distinct_labels_def distinct_map_filter)
  then show ?thesis
    by (cases "find (\<lambda>b. block_label b = entry p) (blocks p)") (auto simp: block_order_def dest: find_Some_mem)
qed

lemma find_block_in_order: "find_block p b = Some blk \<Longrightarrow> blk \<in> set (block_order p)"
  using find_block_label [of p b blk] by (cases "b = entry p") (auto simp: find_block_def block_order_def)

lemma entry_first: "find_block p (entry p) = Some blk \<Longrightarrow> \<exists>bs. block_order p = blk # bs"
  by (simp add: find_block_def block_order_def)

lemma fold_zero:
  "slots (fold (\<lambda>z. set_slot z 0) zs st) k = (if k \<in> set zs then 0 else slots st k)"
  "emaps (fold (\<lambda>z. set_slot z 0) zs st) = emaps st"
  by (induction zs arbitrary: st) (auto simp: set_slot_def)

lemma related_cong:
  "related env ivk n st s \<Longrightarrow> (\<And>k. k < n \<Longrightarrow> slots st k = slots st' k) \<Longrightarrow> emaps st = emaps st' \<Longrightarrow> related env ivk n st' s"
  by (simp add: related_def)

text \<open>The instruction index each block begins at.\<close>

definition block_pos :: "pending list \<Rightarrow> (block_id \<rightharpoonup> nat) \<Rightarrow> block_id \<rightharpoonup> nat" where
  "block_pos pend starts = (\<lambda>t. map_option ((!) (insn_indices 0 pend)) (starts t))"

lemma resolved_laid:
  "resolve_all (insn_indices 0 pend) starts 0 pend = Some (Inr (is, rs)) \<Longrightarrow> laid is (block_pos pend starts) 0 pend"
  using resolve_all_laid [of "insn_indices 0 pend" starts 0 pend "is" rs "[]" "[]"]
  by (simp add: insn_indices_nth block_pos_def)

lemma block_laid:
  assumes "laid prog (block_pos pend starts) 0 pend" "emit_blocks ctx bs pend0 Map.empty = Inr (pend, starts)"
    and "distinct (map block_label bs)" "blk \<in> set bs"
  shows "\<exists>d code. block_pos pend starts (block_label blk) = Some d \<and> emit_insts ctx (insts blk) = Inr code \<and>
    laid prog (block_pos pend starts) d (code @ emit_term (blk_term blk))"
proof -
  from emit_blocks_start [OF assms(2-4)] obtain pre code post where p:
    "pend = pre @ code @ emit_term (blk_term blk) @ post" "emit_insts ctx (insts blk) = Inr code"
    "starts (block_label blk) = Some (length pre)" by auto
  have "insn_indices 0 pend ! length pre = sum_list (map pending_len pre)"
    by (subst insn_indices_nth) (simp_all add: p(1))
  with p assms(1) show ?thesis by (auto simp: block_pos_def laid_append)
qed

lemma entry_code:
  assumes "emit_blocks ctx (block_order p) pend0 st = Inr (pend, starts)" "find_block p (entry p) = Some blk"
  obtains code post where "emit_insts ctx (insts blk) = Inr code" "pend = pend0 @ (code @ emit_term (blk_term blk)) @ post"
proof -
  from entry_first [OF assms(2)] obtain bs where "block_order p = blk # bs" by blast
  with assms(1) obtain code where code: "emit_insts ctx (insts blk) = Inr code"
    "emit_blocks ctx bs (pend0 @ code @ emit_term (blk_term blk)) (st(block_label blk \<mapsto> length pend0)) = Inr (pend, starts)"
    by (auto split: sum.splits)
  from emit_blocks_codes [OF code(2)] that [OF code(1)] show ?thesis by auto
qed

context ebpf_vm
begin

lemma sim_block:
  assumes rel: "related env ivk n st s" "env_ok env ivk" "n \<le> 64"
    and ok: "\<forall>k\<in>block_slots blk. k < n" "list_all inst_ok (insts blk)"
    and emit: "emit_insts (emit_ctx_new RbpfFixedMbuff n') (insts blk) = Inr code"
    and k: "case exec_insts ivk (insts blk) st of
         Inr r' \<Rightarrow> r = delivered ivk r'
       | Inl st' \<Rightarrow> (case exec_term (blk_term blk) st' of
            Inr v \<Rightarrow> r = delivered ivk (v, emaps st')
          | Inl b \<Rightarrow> \<forall>s. related env ivk n st' s \<longrightarrow> pos b = Some (pc s) \<longrightarrow> halts registered_helpers env prog s r)"
  shows "goes registered_helpers env prog pos (code @ emit_term (blk_term blk)) s r"
proof (rule sim_insts [OF rel _ emit])
  show "\<forall>i\<in>set (insts blk). (\<forall>k\<in>inst_slots i. k < n) \<and> inst_ok i"
    using ok by (auto simp: block_slots_def list_all_iff)
  have "goes registered_helpers env prog pos (emit_term (blk_term blk)) s' r"
    if "exec_insts ivk (insts blk) st = Inl st'" "related env ivk n st' s'" for st' s'
    by (rule sim_term [OF that(2) rel(3)]) (use ok(1) k that in \<open>auto simp: block_slots_def split: sum.splits\<close>)
  with k show "resumes registered_helpers env prog pos ivk n (emit_term (blk_term blk)) (exec_insts ivk (insts blk) st) r"
    by (cases "exec_insts ivk (insts blk) st") auto
qed

lemma sim_run:
  assumes env: "env_ok env ivk" "num_slots p \<le> 64"
    and ok: "\<forall>b\<in>set (blocks p). \<forall>k\<in>block_slots b. k < num_slots p" "insts_ok p"
    and laid: "\<And>b blk. find_block p b = Some blk \<Longrightarrow> \<exists>d code. pos b = Some d \<and>
      emit_insts (emit_ctx_new RbpfFixedMbuff n') (insts blk) = Inr code \<and> laid prog pos d (code @ emit_term (blk_term blk))"
  shows "run_ir fuel ivk p b st = Some r \<Longrightarrow> related env ivk (num_slots p) st s \<Longrightarrow> pos b = Some (pc s) \<Longrightarrow>
    halts registered_helpers env prog s (delivered ivk r)"
proof (induction fuel arbitrary: b st s)
  case (Suc fuel)
  then obtain blk where blk: "find_block p b = Some blk" by (auto split: option.splits)
  then have mem: "blk \<in> set (blocks p)" using find_block_label by blast
  from laid [OF blk] Suc.prems(3) obtain code where code:
    "emit_insts (emit_ctx_new RbpfFixedMbuff n') (insts blk) = Inr code"
    "laid prog pos (pc s) (code @ emit_term (blk_term blk))" by auto
  have "goes registered_helpers env prog pos (code @ emit_term (blk_term blk)) s (delivered ivk r)"
    by (rule sim_block [OF Suc.prems(2) env _ _ code(1)])
      (use ok mem Suc.prems(1) Suc.IH blk in \<open>auto simp: insts_ok_def split: sum.splits\<close>)
  with code(2) show ?case by (simp add: goes_def)
qed simp

lemma goes_zero_init:
  assumes "related env ivk n st s" "env_ok env ivk" "n \<le> 64" "list_all (\<lambda>z. z < n) zs"
    and "\<And>s'. related env ivk n (fold (\<lambda>z. set_slot z 0) zs st) s' \<Longrightarrow> goes hs env prog pos ps s' r"
  shows "goes hs env prog pos (map (\<lambda>z. Ins (st_imm SZ_DW R10 (slot_off z) 0)) zs @ ps) s r"
  using assms
proof (induction zs arbitrary: st s)
  case (Cons z zs)
  have a: "regs s R10 + scast (slot_off z) = slot_addr env z" "z < n" "z < 64"
    using Cons.prems(1,3,4) by (simp_all add: related_def slot_addr_eq)
  let ?s1 = "set_mem (store_mem (env_big env) 8 (slot_addr env z) 0 (mem s)) s"
  have "related env ivk n (set_slot z 0 st) ?s1" by (rule related_store [OF Cons.prems(1,2) a(2) Cons.prems(3)])
  then have "goes hs env prog pos (map (\<lambda>z. Ins (st_imm SZ_DW R10 (slot_off z) 0)) zs @ ps) ?s1 r"
    using Cons.prems by (intro Cons.IH) simp_all
  then show ?case
    unfolding list.map append.simps
    by (intro goes_store_imm [where n = 8]) (simp_all add: a accessible_def slot_in_stack)
qed simp

lemma goes_prologue:
  assumes "vm_start env ivk ms s"
    and "\<And>s'. related env ivk n \<lparr>slots = (\<lambda>k. load_mem (env_big env) 8 (slot_addr env k) (mem s)), emaps = ms\<rparr> s' \<Longrightarrow>
      goes hs env prog pos ps s' r"
  shows "goes hs env prog pos (emit_prologue p RbpfFixedMbuff @ ps) s r"
proof -
  have acc: "accessible env (mbuff_addr env) 8" "accessible env (mbuff_addr env + 8) 8"
    by (simp_all add: accessible_def in_region_def)
  have "goes hs env prog pos (Ins (ldx SZ_DW R6 R1 0) # Ins (ldx SZ_DW R7 R1 8) # ps) s r"
    by (intro goes_load [where n = 8] assms(2))
      (use assms(1) acc in \<open>simp_all add: vm_start_def related_def R6_def R7_def R10_def R1_def\<close>)
  then show ?thesis by (simp add: emit_prologue_def ctx_layout_of_def Let_def)
qed

lemma sim_program:
  assumes env: "env_ok env ivk" "vm_start env ivk ms s"
    and ok: "frame_ok p" "insts_ok p" "distinct_labels p" and emit: "emit_program p = Some (Inr obj)"
    and run: "run_ir fuel ivk p (entry p) \<lparr>slots = initial_slots env p s, emaps = ms\<rparr> = Some r"
  shows "halts registered_helpers env (insns obj) s (delivered ivk r)"
proof -
  let ?t = RbpfFixedMbuff and ?n = "num_slots p"
  let ?zero = "map (\<lambda>s. Ins (st_imm SZ_DW R10 (slot_off s) 0)) (zero_init p)"
  let ?lead = "emit_prologue p ?t @ ?zero"
  obtain codes starts rs where
    codes: "emit_blocks (emit_ctx_new ?t ?n) (block_order p) ?lead Map.empty = Inr (?lead @ concat codes, starts)"
    and res: "resolve_all (insn_indices 0 (?lead @ concat codes)) starts 0 (?lead @ concat codes) = Some (Inr (insns obj, rs))"
    by (rule emit_program_parts [OF emit [unfolded emit_program_def]]) simp
  define pos where "pos = block_pos (?lead @ concat codes) starts"
  have n: "?n \<le> 64" and slots: "\<forall>b\<in>set (blocks p). \<forall>k\<in>block_slots b. k < ?n" and zero: "list_all (\<lambda>z. z < ?n) (zero_init p)"
    using ok(1) by (auto simp: frame_ok_def)
  have laid: "laid (insns obj) pos 0 (?lead @ concat codes)" unfolding pos_def by (rule resolved_laid [OF res])
  have all_laid: "\<exists>d code. pos b = Some d \<and> emit_insts (emit_ctx_new ?t ?n) (insts blk) = Inr code \<and>
      laid (insns obj) pos d (code @ emit_term (blk_term blk))" if "find_block p b = Some blk" for b blk
    using block_laid [OF laid [unfolded pos_def] codes distinct_block_order [OF ok(3)] find_block_in_order [OF that]]
      find_block_label [OF that] by (simp add: pos_def)
  note rec = sim_run [of env ivk p pos ?n "insns obj", OF env(1) n slots ok(2) all_laid]
  from run obtain fuel' blk where f: "fuel = Suc fuel'" and blk: "find_block p (entry p) = Some blk"
    by (cases fuel) (auto split: option.splits)
  obtain code post where code: "emit_insts (emit_ctx_new ?t ?n) (insts blk) = Inr code"
    and all: "?lead @ concat codes = ?lead @ (code @ emit_term (blk_term blk)) @ post"
    by (rule entry_code [OF codes blk])
  let ?st0 = "\<lparr>slots = \<lambda>k. load_mem (env_big env) 8 (slot_addr env k) (mem s), emaps = ms\<rparr>"
  have st: "fold (\<lambda>z. set_slot z 0) (zero_init p) ?st0 = \<lparr>slots = initial_slots env p s, emaps = ms\<rparr>"
    by (rule ir_state.equality) (auto simp: fold_zero initial_slots_def)
  have "goes registered_helpers env (insns obj) pos (code @ emit_term (blk_term blk)) s' (delivered ivk r)"
    if "related env ivk ?n \<lparr>slots = initial_slots env p s, emaps = ms\<rparr> s'" for s'
    by (rule sim_block [OF that env(1) n _ _ code])
      (use slots blk ok(2) run f find_block_label [OF blk] in \<open>auto simp: insts_ok_def split: sum.splits intro: rec\<close>)
  then have "goes registered_helpers env (insns obj) pos (emit_prologue p ?t @ ?zero @ code @ emit_term (blk_term blk)) s (delivered ivk r)"
    by (intro goes_prologue [OF env(2), where n = ?n] goes_zero_init [where st = ?st0, OF _ env(1) n zero]) (simp_all add: st)
  moreover have "laid (insns obj) pos 0 (?lead @ code @ emit_term (blk_term blk))"
    using laid unfolding all by (simp add: laid_append)
  ultimately show ?thesis using env(2) by (simp add: goes_def vm_start_def)
qed

end

section \<open>After slot allocation\<close>

lemma remap_inst_facts [simp]: "inst_ok (remap_inst m i) = inst_ok i"
  by (cases i) (simp_all add: inst_ok_def)

lemma allocation_frame:
  assumes "allocation p q m" "slots_in_range p"
  shows "frame_ok q"
proof -
  have "s < length (slot_types p)" if "may_read p (entry p) s" for s
    using may_read_slots [OF that] assms(2) by (auto simp: slots_in_range_def)
  with assms allocation_range [OF assms] show ?thesis
    by (auto simp: frame_ok_def allocation_def slots_in_range_def MAX_SLOTS_def list_all_iff)
qed

lemma allocation_insts_ok: "allocation p q m \<Longrightarrow> insts_ok p \<Longrightarrow> insts_ok q"
  by (auto simp: allocation_def insts_ok_def remap_block_def list_all_iff)

lemma allocation_labels: "allocation p q m \<Longrightarrow> distinct_labels p \<Longrightarrow> distinct_labels q"
  by (simp add: allocation_def distinct_labels_def comp_def remap_block_def)

lemma remap_inst_fits [simp]: "load_fits (remap_inst m i) = load_fits i"
  by (cases i) (simp_all add: load_fits_def)

lemma remap_term_succs [simp]: "term_succs (remap_term m t) = term_succs t"
  by (cases t) simp_all

definition code_size :: "bpf_program \<Rightarrow> nat" where
  "code_size p = sum_list (map (\<lambda>b. 14 * length (insts b) + 3) (blocks p))"

lemma allocation_emits:
  assumes al: "allocation p q m" "slots_in_range p" and "targets_ok p"
    and "\<forall>b\<in>set (blocks p). list_all load_fits (insts b)" "code_size p + 66 < 2 ^ 15"
  shows "\<exists>obj. emit_program q = Some (Inr obj)"
proof -
  have blocks: "blocks q = map (remap_block m) (blocks p)" using al(1) by (simp add: allocation_def)
  have "distinct (zero_init q)" "set (zero_init q) \<subseteq> {..<64}"
    using al(1) allocation_frame [OF al] by (auto simp: allocation_def frame_ok_def list_all_iff)
  then have "length (zero_init q) \<le> 64" by (metis card_lessThan card_mono distinct_card finite_lessThan)
  moreover have "code_bound q = 2 + length (zero_init q) + code_size p"
    by (simp add: code_bound_def code_size_def blocks comp_def remap_block_def)
  ultimately have "code_bound q < 2 ^ 15" using assms(5) by simp
  moreover have "targets_ok q" using assms(3) by (auto simp: targets_ok_def blocks remap_block_def image_image)
  moreover have "\<forall>b\<in>set (blocks q). list_all load_fits (insts b)"
    using assms(4) by (auto simp: blocks remap_block_def list_all_iff)
  moreover have "validate_target q RbpfFixedMbuff = Inr ()" by (simp add: validate_target_def is_kernel_def)
  ultimately show ?thesis unfolding emit_program_def using emit_succeeds by blast
qed

lemma compiles:
  assumes "program_ok p" "targets_ok p" "\<forall>b\<in>set (blocks p). list_all load_fits (insts b)"
    and "length (slot_types p) \<le> 64" "code_size p + 66 < 2 ^ 15"
  shows "\<exists>q obj. assign_slots p = Some (Inr q) \<and> emit_program q = Some (Inr obj)"
proof -
  from assms(1) have ok: "slots_in_range p" "distinct_labels p" "length (slot_types p) < 2 ^ 32"
    by (simp_all add: program_ok_def)
  then obtain q m where q: "assign_slots p = Some (Inr q)" "allocation p q m"
    by (cases rule: assign_slots_cases) (use assms(4) in \<open>auto simp: MAX_SLOTS_def\<close>)
  with allocation_emits [OF q(2) ok(1) assms(2,3,5)] show ?thesis by blast
qed

section \<open>Properties\<close>

text \<open>
  C10. The code generator preserves meaning. On every machine that implements the documented
  instruction set, an object emitted for the simulator target, decoded from its raw bytes and started
  on a packet with any stack contents, halts with the verdict and the map contents of the IR program and leaves the packet
  as it was.
\<close>

theorem emit_program_correct:
  assumes "ebpf_vm step" "frame_ok p" "insts_ok p" "distinct_labels p" "emit_program p = Some (Inr obj)"
    and "env_ok env ivk" "vm_start env ivk ms s"
    and "run_ir fuel ivk p (entry p) \<lparr>slots = initial_slots env p s, emaps = ms\<rparr> = Some r"
  shows "\<exists>n. vm_run step registered_helpers env (decode_insns (raw obj)) n s = Some (delivered ivk r)"
  using ebpf_vm.sim_program [OF assms(1,6,7,2,3,4,5,8)] emitted_decodes(1) [OF assms(5) [unfolded emit_program_def]]
  by (simp add: ebpf_vm.halts_def [OF assms(1)])

text \<open>A socket filter that returns the first two bytes of the packet.\<close>

definition sock_demo :: bpf_program where
  "sock_demo = \<lparr>prog_type = SocketFilter, entry = 0,
     blocks = [\<lparr>block_label = 0, insts = [CtxPtr 0 (span_empty 0), Load 1 B16 0 0 Big (ReturnVerdict 0) (span_empty 0)],
       blk_term = Return 1 (span_empty 0)\<rparr>],
     num_slots = 2, slot_types = [TPtr Ctx, TInt], raw_slot_count = 2, zero_init = [], maps = []\<rparr>"

definition demo_env :: vm_env where
  "demo_env = \<lparr>env_big = False, stack_top = 4096, pkt_addr = 8192, pkt_len = 2, mbuff_addr = 12288\<rparr>"

definition demo_invocation :: invocation where
  "demo_invocation = \<lparr>host_big = False, data_ptr = 8192, packet = [0x12, 0x34]\<rparr>"

definition demo_state :: vm_state where
  "demo_state = \<lparr>regs = (\<lambda>r. if r = R1 then 12288 else if r = R10 then 4096 else 0),
     mem = write_mem [0x12, 0x34] 8192 (store_mem False 8 12288 8192 (store_mem False 8 12296 8194 (\<lambda>_. 0))),
     vmaps = [], pc = 0\<rparr>"

lemma demo_env_ok: "env_ok demo_env demo_invocation"
proof -
  have "i = 0 \<or> i = 1" if "i < 2" for i :: nat using that by auto
  then show ?thesis by (fastforce simp: env_ok_def demo_env_def demo_invocation_def)
qed

lemma demo_start: "vm_start demo_env demo_invocation [] demo_state"
  unfolding vm_start_def demo_env_def demo_invocation_def demo_state_def
  by (simp add: load_mem_def read_mem_def write_mem_def store_mem_def host_bytes_def le_bytes_def host_val_def upt_rec opcode_defs)

lemma sock_demo_emits: "\<exists>obj. emit_program sock_demo = Some (Inr obj)"
  by (simp add: sock_demo_def emit_program_def emit_program_for_target_def validate_target_def is_kernel_def
      block_order_def emit_load_def i16_try_from_def i32_try_from_def emit_prologue_def
      resolve_all.simps resolve_one_def st_slot_def ld_slot_def Let_def)

lemma sock_demo_ok: "frame_ok sock_demo" "insts_ok sock_demo" "distinct_labels sock_demo"
  by (simp_all add: sock_demo_def frame_ok_def insts_ok_def inst_ok_def distinct_labels_def block_slots_def inst_slots_def def_set_def)

lemma sock_demo_run: "run_ir 1 demo_invocation sock_demo (entry sock_demo) \<lparr>slots = sl, emaps = []\<rparr> = Some (0x1234, [])"
  by (simp add: sock_demo_def demo_invocation_def find_block_def set_slot_def field_val_def host_val_def subslice_def)

lemma sock_demo_compiles:
  "program_ok sock_demo" "targets_ok sock_demo" "\<forall>b\<in>set (blocks sock_demo). list_all load_fits (insts b)"
  "length (slot_types sock_demo) \<le> 64" "code_size sock_demo + 66 < 2 ^ 15"
  using sock_demo_ok(3)
  by (simp_all add: sock_demo_def program_ok_def slots_in_range_def block_slots_def inst_slots_def def_set_def
      targets_ok_def load_fits_def code_size_def)

theorem emit_program_correct_witness:
  "\<exists>obj n. emit_program sock_demo = Some (Inr obj) \<and>
     vm_run isa_step registered_helpers demo_env (decode_insns (raw obj)) n demo_state = Some (0x1234, [], [0x12, 0x34])"
proof -
  obtain obj where obj: "emit_program sock_demo = Some (Inr obj)" using sock_demo_emits by blast
  from emit_program_correct [OF isa.ebpf_vm_axioms sock_demo_ok obj demo_env_ok demo_start sock_demo_run] obj
  show ?thesis by (auto simp: delivered_def demo_invocation_def)
qed

end
