(* ===== verification/Bpf_Run.thy ===== *)
theory Bpf_Run
  imports Ebpf_Sim
begin

text \<open>
  The run harness of \<open>bpf-tcl/src/run.rs\<close>: a fresh virtual machine per run over one packet, the
  maps shared between runs. The machine, \<open>rbpf\<close>, is a parameter: its constructor, the
  registration of a helper, and \<open>execute_program\<close>, which may write the packet it borrows.
\<close>

section \<open>The harness\<close>

record rbpf =
  vm_new :: "u8 list \<Rightarrow> nat \<Rightarrow> nat \<Rightarrow> string + unit"
  register_helper :: "i32 \<Rightarrow> string + unit"
  execute_program :: "u8 list \<Rightarrow> (i32 \<rightharpoonup> helper) \<Rightarrow> u8 list \<Rightarrow> emu_map list \<Rightarrow> string + vm_result"

fun register_all :: "rbpf \<Rightarrow> i32 list \<Rightarrow> string + unit" where
  "register_all rb [] = Inr ()"
| "register_all rb (i # is) = (case register_helper rb i of Inl e \<Rightarrow> Inl e | Inr _ \<Rightarrow> register_all rb is)"

definition run_once :: "rbpf \<Rightarrow> u8 list \<Rightarrow> u8 list \<Rightarrow> emu_map list \<Rightarrow> string + vm_result" where
  "run_once rb prog pkt ms =
     (case vm_new rb prog 0 8 of
        Inl e \<Rightarrow> Inl e
      | Inr _ \<Rightarrow>
          (case register_all rb [1, 2, 3] of
             Inl e \<Rightarrow> Inl e
           | Inr _ \<Rightarrow> execute_program rb prog registered_helpers pkt ms))"

fun run_loop :: "rbpf \<Rightarrow> u8 list \<Rightarrow> nat \<Rightarrow> u64 \<Rightarrow> u8 list \<Rightarrow> emu_map list \<Rightarrow> string + vm_result" where
  "run_loop rb prog 0 prev pkt ms = Inr (prev, ms, pkt)"
| "run_loop rb prog (Suc n) prev pkt ms =
     (case run_once rb prog pkt ms of
        Inl e \<Rightarrow> Inl e
      | Inr (v, ms', pkt') \<Rightarrow> run_loop rb prog n v pkt' ms')"

definition run_with_maps ::
    "rbpf \<Rightarrow> ebpf_object \<Rightarrow> u8 list \<Rightarrow> nat \<Rightarrow> string + u64 \<times> (u64 \<times> u64) list list \<times> u8 list" where
  "run_with_maps rb obj pkt count =
     (case run_loop rb (raw obj) count 0 pkt (map emu_map_new (obj_maps obj)) of
        Inl e \<Rightarrow> Inl e
      | Inr (v, ms, pkt') \<Rightarrow> Inr (v, map store ms, pkt'))"

definition run_socket_filter :: "rbpf \<Rightarrow> ebpf_object \<Rightarrow> u8 list \<Rightarrow> string + u64 \<times> u8 list" where
  "run_socket_filter rb obj pkt =
     (case run_with_maps rb obj pkt 1 of Inl e \<Rightarrow> Inl e | Inr (v, _, pkt') \<Rightarrow> Inr (v, pkt'))"

definition run_socket_filter_repeated ::
    "rbpf \<Rightarrow> ebpf_object \<Rightarrow> u8 list \<Rightarrow> nat \<Rightarrow> string + u64 \<times> (u64 \<times> u64) list list \<times> u8 list" where
  "run_socket_filter_repeated rb obj pkt count = run_with_maps rb obj pkt count"

section \<open>The contract of the machine\<close>

text \<open>
  \<open>execute_program\<close> runs the decoded program with the packet in memory, its bounds in the metadata
  buffer and any stack contents, and returns what the run leaves.
\<close>

locale rbpf_vm = ebpf_vm +
  fixes rb :: rbpf
  assumes registers: "register_helper rb i = Inr ()"
    and executes: "length pkt < 2 ^ 32 \<Longrightarrow>
      \<exists>env ivk s. env_ok env ivk \<and> packet ivk = pkt \<and> vm_start env ivk ms s \<and>
        (\<forall>n r. vm_run step hs env (decode_insns prog) n s = Some r \<longrightarrow> execute_program rb prog hs pkt ms = Inr r)"
begin

lemma run_once_program:
  assumes "frame_ok p" "insts_ok p" "distinct_labels p" "emit_program p = Some (Inr obj)" "vm_new rb (raw obj) 0 8 = Inr ()"
    and "length pkt < 2 ^ 32"
    and run: "\<And>ivk sl. packet ivk = pkt \<Longrightarrow> \<forall>z\<in>set (zero_init p). sl z = 0 \<Longrightarrow>
      run_ir fuel ivk p (entry p) \<lparr>slots = sl, emaps = ms\<rparr> = Some r"
  shows "run_once rb (raw obj) pkt ms = Inr (fst r, snd r, pkt)"
proof -
  from executes [OF assms(6), of ms registered_helpers "raw obj"] obtain env ivk s where
    e: "env_ok env ivk" "packet ivk = pkt" "vm_start env ivk ms s"
    "\<forall>n r. vm_run step registered_helpers env (decode_insns (raw obj)) n s = Some r \<longrightarrow>
        execute_program rb (raw obj) registered_helpers pkt ms = Inr r" by auto
  have "run_ir fuel ivk p (entry p) \<lparr>slots = initial_slots env p s, emaps = ms\<rparr> = Some r"
    by (rule run [OF e(2)]) (simp add: initial_slots_def)
  from sim_program [OF e(1,3) assms(1-4) this] obtain n where
    "vm_run step registered_helpers env (insns obj) n s = Some (delivered ivk r)" by (auto simp: halts_def)
  with e(4) emitted_decodes(1) [OF assms(4) [unfolded emit_program_def]]
  have "execute_program rb (raw obj) registered_helpers pkt ms = Inr (delivered ivk r)" by metis
  then show ?thesis using assms(5) e(2) by (simp add: run_once_def registers delivered_def)
qed

lemma run_loop_program:
  assumes "\<And>ms. run_once rb prog pkt ms = Inr (V ms, F ms, pkt)"
  shows "run_loop rb prog (Suc n) prev pkt ms = Inr (V ((F ^^ n) ms), (F ^^ Suc n) ms, pkt)"
  by (induction n arbitrary: prev ms) (simp_all add: assms funpow_swap1)

end

section \<open>A reference machine\<close>

partial_function (option) vm_exec :: "(i32 \<rightharpoonup> helper) \<Rightarrow> vm_env \<Rightarrow> insn list \<Rightarrow> vm_state \<Rightarrow> vm_result option" where
  "vm_exec hs env prog s =
     (case isa_step hs env prog s of
        None \<Rightarrow> None
      | Some x \<Rightarrow>
          (case x of
             Inr v \<Rightarrow> Some (v, vmaps s, read_mem (pkt_len env) (pkt_addr env) (mem s))
           | Inl s' \<Rightarrow> vm_exec hs env prog s'))"

lemma vm_exec_run: "vm_run isa_step hs env prog n s = Some r \<Longrightarrow> vm_exec hs env prog s = Some r"
proof (induction n arbitrary: s)
  case (Suc n)
  then show ?case by (subst vm_exec.simps) (auto split: option.splits sum.splits)
qed simp

definition ref_env :: "u8 list \<Rightarrow> vm_env" where
  "ref_env pkt = \<lparr>env_big = False, stack_top = 4096, pkt_addr = 1048576, pkt_len = length pkt, mbuff_addr = 8192\<rparr>"

definition ref_state :: "u8 list \<Rightarrow> emu_map list \<Rightarrow> vm_state" where
  "ref_state pkt ms =
     \<lparr>regs = (\<lambda>r. if r = R1 then 8192 else if r = R10 then 4096 else 0),
      mem = write_mem pkt 1048576
        (store_mem False 8 8192 1048576 (store_mem False 8 8200 (1048576 + of_nat (length pkt)) (\<lambda>_. 0))),
      vmaps = ms, pc = 0\<rparr>"

definition ref_rbpf :: rbpf where
  "ref_rbpf = \<lparr>vm_new = (\<lambda>_ _ _. Inr ()), register_helper = (\<lambda>_. Inr ()),
     execute_program = (\<lambda>prog hs pkt ms.
       case vm_exec hs (ref_env pkt) (decode_insns prog) (ref_state pkt ms) of
         None \<Rightarrow> Inl ''error'' | Some r \<Rightarrow> Inr r)\<rparr>"

lemma mbuff_before_packet:
  assumes "length pkt < 2 ^ 32" "i < 16"
  shows "length pkt \<le> unat (8192 + of_nat i - 1048576 :: u64)"
proof -
  have "(8192 + of_nat i - 1048576 :: u64) = word_of_int (int i - 1040384)" by simp
  moreover have "unat (word_of_int (int i - 1040384) :: u64) = nat (int i - 1040384 + 2 ^ 64)"
    using assms(2) by (intro unat_neg_int) auto
  ultimately show ?thesis using assms by simp
qed

lemma ref_start:
  assumes "length pkt < 2 ^ 32"
  shows "vm_start (ref_env pkt) \<lparr>host_big = False, data_ptr = 1048576, packet = pkt\<rparr> ms (ref_state pkt ms)"
proof -
  let ?m1 = "store_mem False 8 8200 (1048576 + of_nat (length pkt)) (\<lambda>_. 0)"
  let ?m = "store_mem False 8 8192 1048576 ?m1"
  have before: "read_mem 8 8192 (write_mem pkt 1048576 m) = read_mem 8 8192 m"
    "read_mem 8 8200 (write_mem pkt 1048576 m) = read_mem 8 8200 m" for m
    using mbuff_before_packet [OF assms] mbuff_before_packet [OF assms, of "_ + 8"]
    by (auto intro!: read_write_other simp: algebra_simps)
  have "read_mem 8 8200 ?m = read_mem 8 8200 ?m1"
    unfolding store_mem_def
  proof (rule read_write_other)
    fix i :: nat assume "i < 8"
    moreover have "(8200 + of_nat i - 8192 :: u64) = of_nat (i + 8)" by simp
    ultimately show "length (host_bytes False 8 1048576) \<le> unat (8200 + of_nat i - 8192 :: u64)"
      by (simp only: unsigned_of_nat) (simp add: take_bit_nat_eq_self)
  qed
  moreover have "read_mem 8 a (store_mem False 8 a v m) = host_bytes False 8 v" for a v m
    using read_write_same [of "host_bytes False 8 v"] by (simp add: store_mem_def)
  moreover have "read_mem (length pkt) 1048576 (write_mem pkt 1048576 ?m) = pkt"
    using read_write_same [of pkt] assms by simp
  ultimately show ?thesis by (simp add: vm_start_def ref_env_def ref_state_def load_mem_def before)
qed

lemma ref_env_ok:
  assumes "length pkt < 2 ^ 32"
  shows "env_ok (ref_env pkt) \<lparr>host_big = False, data_ptr = 1048576, packet = pkt\<rparr>"
proof -
  have "512 \<le> unat (1048576 + of_nat i - (4096 - 512) :: u64)" if "i < length pkt" for i
  proof -
    have "(1048576 + of_nat i - (4096 - 512) :: u64) = of_nat (i + 1044992)" by simp
    then show ?thesis using that assms by (simp only: unsigned_of_nat) (simp add: take_bit_nat_eq_self)
  qed
  then show ?thesis using assms by (simp add: env_ok_def ref_env_def)
qed

interpretation ref: rbpf_vm isa_step ref_rbpf
proof
  show "register_helper ref_rbpf i = Inr ()" for i by (simp add: ref_rbpf_def)
  fix pkt :: "u8 list" and ms hs prog
  assume "length pkt < 2 ^ 32"
  then show "\<exists>env ivk s. env_ok env ivk \<and> packet ivk = pkt \<and> vm_start env ivk ms s \<and>
      (\<forall>n r. vm_run isa_step hs env (decode_insns prog) n s = Some r \<longrightarrow> execute_program ref_rbpf prog hs pkt ms = Inr r)"
    using ref_env_ok ref_start [of pkt ms]
    by (intro exI [of _ "ref_env pkt"] exI [of _ "\<lparr>host_big = False, data_ptr = 1048576, packet = pkt\<rparr>"] exI [of _ "ref_state pkt ms"])
      (auto simp: ref_rbpf_def dest: vm_exec_run)
qed

section \<open>Properties\<close>

text \<open>
  C27. The harness runs compiled programs faithfully. If the IR program gives verdict \<open>V ms\<close> and
  maps \<open>F ms\<close> on the packet from every map state \<open>ms\<close>, wherever the packet lies, then
  \<open>n + 1\<close> runs of the compiled object return the verdict of the last run and the contents of the
  maps after iterating \<open>F\<close> from the declared maps, and leave the packet as it was.
\<close>

theorem run_with_maps_iterates:
  assumes vm: "rbpf_vm step rb" "vm_new rb (raw obj) 0 8 = Inr ()" "length pkt < 2 ^ 32"
    and p: "program_ok p" "insts_ok p" "assign_slots p = Some (Inr q)" "emit_program q = Some (Inr obj)"
    and run: "\<forall>ivk ms. packet ivk = pkt \<longrightarrow>
      run_ir fuel ivk p (entry p) \<lparr>slots = (\<lambda>_. 0), emaps = ms\<rparr> = Some (V ms, F ms)"
  shows "run_with_maps rb obj pkt (Suc n) =
    Inr (V ((F ^^ n) (map emu_map_new (maps p))), map store ((F ^^ Suc n) (map emu_map_new (maps p))), pkt)"
proof -
  from p(1) have ok: "slots_in_range p" "distinct_labels p" "length (slot_types p) < 2 ^ 32"
    by (simp_all add: program_ok_def)
  from ok obtain m where al: "allocation p q m"
    by (cases rule: assign_slots_cases) (use p(3) in auto)
  have once: "run_once rb (raw obj) pkt ms = Inr (fst (V ms, F ms), snd (V ms, F ms), pkt)" for ms
    using allocation_frame [OF al ok(1)] allocation_insts_ok [OF al p(2)] allocation_labels [OF al ok(2)] p(4) vm(2,3)
  proof (rule rbpf_vm.run_once_program [OF vm(1)])
    fix ivk :: invocation and sl :: "slot_id \<Rightarrow> i64"
    assume "packet ivk = pkt" "\<forall>z\<in>set (zero_init q). sl z = 0"
    with allocation_run [OF al this(2)] run
    show "run_ir fuel ivk q (entry q) \<lparr>slots = sl, emaps = ms\<rparr> = Some (V ms, F ms)" by simp
  qed
  have "obj_maps obj = maps p"
    by (rule emit_program_parts [OF p(4) [unfolded emit_program_def]]) (use al in \<open>metis allocation_def assemble_def ebpf_object.select_convs(5)\<close>)
  with rbpf_vm.run_loop_program [OF vm(1), of "raw obj" pkt V F n] once show ?thesis
    by (simp add: run_with_maps_def)
qed

lemma counter_demo_run:
  "run_ir 2 ivk counter_demo (entry counter_demo) \<lparr>slots = (\<lambda>_. 0), emaps = ms\<rparr> =
     Some (2, map_put ms 0 0 (map_get_helper ms 0 0 + 1))"
  by (simp add: counter_demo_def numeral_2_eq_2 find_block_def set_slot_def)

lemma counter_demo_compiles:
  "program_ok counter_demo" "targets_ok counter_demo" "\<forall>b\<in>set (blocks counter_demo). list_all load_fits (insts b)"
  "length (slot_types counter_demo) \<le> 64" "code_size counter_demo + 66 < 2 ^ 15" "insts_ok counter_demo"
  by (simp_all add: counter_demo_def program_ok_def slots_in_range_def distinct_labels_def block_slots_def inst_slots_def
      def_set_def targets_ok_def load_fits_def code_size_def insts_ok_def inst_ok_def)

theorem run_with_maps_iterates_witness:
  "\<exists>q obj. assign_slots counter_demo = Some (Inr q) \<and> emit_program q = Some (Inr obj) \<and>
     run_with_maps ref_rbpf obj [0x45] 3 = Inr (2, [[(0, 3), (1, 0), (2, 0), (3, 0)]], [0x45])"
proof -
  obtain q obj where q: "assign_slots counter_demo = Some (Inr q)" "emit_program q = Some (Inr obj)"
    using compiles [OF counter_demo_compiles(1-5)] by blast
  have "run_with_maps ref_rbpf obj [0x45] (Suc 2) =
      Inr (2, map store (((\<lambda>ms. map_put ms 0 0 (map_get_helper ms 0 0 + 1)) ^^ Suc 2) (map emu_map_new (maps counter_demo))), [0x45])"
    by (rule run_with_maps_iterates [OF ref.rbpf_vm_axioms _ _ counter_demo_compiles(1,6) q, of "[0x45]" 2 "\<lambda>_. 2"])
      (simp_all add: ref_rbpf_def counter_demo_run)
  also have "map store (((\<lambda>ms. map_put ms 0 0 (map_get_helper ms 0 0 + 1)) ^^ Suc 2) (map emu_map_new (maps counter_demo))) =
      [[(0, 3), (1, 0), (2, 0), (3, 0)]]"
    by (simp add: counter_demo_def emu_map_new_def map_put_def map_set_helper_def map_get_helper_def emu_insert_def
        key_in_range_def upt_rec numeral_2_eq_2)
  finally show ?thesis using q by (auto simp: numeral_3_eq_3 numeral_2_eq_2)
qed

end
