(* ===== verification/Line_Index.thy ===== *)
theory Line_Index
  imports Prelude
begin

text \<open>
  Lines and positions: \<open>tcl-lexer/src/line_index.rs\<close>. The sorted index of line starts under the
  lexer's line-feed rule and under the LSP rule (line feed, CRLF and lone carriage return), its
  incremental update for an edit, and the conversions between byte offsets and UTF-16 positions.

  Offsets are naturals with the 32-bit budget written out: \<open>None\<close> is a panic of the source.
\<close>

section \<open>Lone carriage returns\<close>

definition lone_cr_at :: "string \<Rightarrow> nat \<Rightarrow> bool" where
  "lone_cr_at b i \<longleftrightarrow> byte_at b i = Some CR \<and> byte_at b (i + 1) \<noteq> Some LF"

definition contains_bare_cr :: "string \<Rightarrow> bool" where
  "contains_bare_cr source = list_ex (\<lambda>i. lone_cr_at source i) [0..<length source]"

function normalise_loop :: "string \<Rightarrow> nat \<Rightarrow> nat \<Rightarrow> string \<Rightarrow> string" where
  "normalise_loop source i prev out =
     (if i < length source then
        (if lone_cr_at source i
         then normalise_loop source (Suc i) (Suc i) (out @ subslice prev i source @ [LF])
         else normalise_loop source (Suc i) prev out)
      else out @ subslice prev (length source) source)"
  by pat_completeness auto
termination
  by (relation "measure (\<lambda>(source, i, prev, out). length source - i)") auto

declare normalise_loop.simps [simp del]

definition normalise_lone_cr :: "string \<Rightarrow> string" where
  "normalise_lone_cr source = (if \<not> contains_bare_cr source then source else normalise_loop source 0 0 [])"

section \<open>The index\<close>

type_synonym line_index = "nat list"

definition line_index_new :: "string \<Rightarrow> line_index option" where
  "line_index_new source =
     (if length source < 2 ^ 32
      then Some (0 # map (\<lambda>(i, b). i + 1) (filter (\<lambda>(i, b). b = LF) (enumerate 0 source)))
      else None)"

function lsp_loop :: "string \<Rightarrow> nat \<Rightarrow> nat list \<Rightarrow> nat list" where
  "lsp_loop bytes i starts =
     (if i < length bytes then
        (if bytes ! i = LF then lsp_loop bytes (i + 1) (starts @ [i + 1])
         else if bytes ! i = CR then
           (if byte_at bytes (i + 1) = Some LF then lsp_loop bytes (i + 2) (starts @ [i + 2])
            else lsp_loop bytes (i + 1) (starts @ [i + 1]))
         else lsp_loop bytes (i + 1) starts)
      else starts)"
  by pat_completeness auto
termination
  by (relation "measure (\<lambda>(bytes, i, starts). length bytes - i)") auto

declare lsp_loop.simps [simp del]

definition line_index_new_lsp :: "string \<Rightarrow> line_index option" where
  "line_index_new_lsp source = (if length source < 2 ^ 32 then Some (lsp_loop source 0 [0]) else None)"

text \<open>
  \<open>apply_edit\<close>: the starts up to the edit, one per inserted line feed, and the starts after the
  replaced span shifted by the difference in length. The sum in the second region is a \<open>u32\<close> sum.
\<close>

fun shift_starts :: "int \<Rightarrow> nat list \<Rightarrow> nat list option" where
  "shift_starts delta [] = Some []"
| "shift_starts delta (s # rest) =
     (let shifted = int s + delta in
      if 0 \<le> shifted \<and> shifted < 2 ^ 32
      then (case shift_starts delta rest of None \<Rightarrow> None | Some r \<Rightarrow> Some (nat shifted # r))
      else None)"

definition apply_edit :: "line_index \<Rightarrow> nat \<Rightarrow> nat \<Rightarrow> string \<Rightarrow> line_index option" where
  "apply_edit idx start old_end new_text =
     (if length new_text < 2 ^ 32 then
        (let delta = int (length new_text) - int (old_end - start);
             region1 = takeWhile (\<lambda>s. s \<le> start) idx;
             region2 = map (\<lambda>(j, b). (start + (j + 1)) mod 2 ^ 32) (filter (\<lambda>(j, b). b = LF) (enumerate 0 new_text));
             rest = dropWhile (\<lambda>s. s \<le> old_end) (dropWhile (\<lambda>s. s \<le> start) idx)
         in case shift_starts delta rest of None \<Rightarrow> None | Some region3 \<Rightarrow> Some (region1 @ region2 @ region3))
      else None)"

definition line_count :: "line_index \<Rightarrow> nat" where
  "line_count idx = length idx"

definition line_start :: "line_index \<Rightarrow> nat \<Rightarrow> nat option" where
  "line_start idx line = byte_at idx line"

section \<open>Positions\<close>

record source_position =
  pos_line :: nat
  pos_character :: nat
  pos_offset :: nat

text \<open>\<open>partition_point\<close> of a sorted slice: the length of the prefix that satisfies the predicate.\<close>

definition partition_point :: "('a \<Rightarrow> bool) \<Rightarrow> 'a list \<Rightarrow> nat" where
  "partition_point p xs = length (takeWhile p xs)"

definition line_at :: "line_index \<Rightarrow> nat \<Rightarrow> nat" where
  "line_at idx offset = partition_point (\<lambda>s. s \<le> offset) idx - 1"

definition position_at :: "line_index \<Rightarrow> nat \<Rightarrow> source_position option" where
  "position_at idx offset =
     (let line_idx = partition_point (\<lambda>s. s \<le> offset) idx - 1 in
      case byte_at idx line_idx of
        None \<Rightarrow> None
      | Some start \<Rightarrow>
          if start \<le> offset then Some \<lparr>pos_line = line_idx, pos_character = offset - start, pos_offset = offset\<rparr>
          else None)"

definition len_utf16 :: "nat \<Rightarrow> nat" where
  "len_utf16 ch = (if ch < 0x10000 then 1 else 2)"

text \<open>\<open>encode_utf16().count()\<close>.\<close>

function utf16_count :: "string \<Rightarrow> nat" where
  "utf16_count s =
     (case first_char s of
        None \<Rightarrow> 0
      | Some ch \<Rightarrow> len_utf16 ch + utf16_count (drop (len_utf8 ch) s))"
  by pat_completeness auto
termination
  by (relation "measure length")
    (auto simp: first_char_def split: option.splits dest!: byte_at_SomeD)

declare utf16_count.simps [simp del]

fun snap_down :: "string \<Rightarrow> nat \<Rightarrow> nat \<Rightarrow> nat" where
  "snap_down source lo 0 = 0"
| "snap_down source lo (Suc e) =
     (if lo < Suc e \<and> \<not> is_char_boundary source (Suc e) then snap_down source lo e else Suc e)"

definition position_at_utf16 :: "line_index \<Rightarrow> nat \<Rightarrow> string \<Rightarrow> source_position option" where
  "position_at_utf16 idx offset source =
     (let line_idx = partition_point (\<lambda>s. s \<le> offset) idx - 1 in
      case byte_at idx line_idx of
        None \<Rightarrow> None
      | Some prefix_start \<Rightarrow>
          (let prefix_end = snap_down source prefix_start (min offset (length source)) in
           case str_get source prefix_start prefix_end of
             None \<Rightarrow> None
           | Some line_prefix \<Rightarrow>
               Some \<lparr>pos_line = line_idx, pos_character = utf16_count line_prefix, pos_offset = offset\<rparr>))"

text \<open>The walk over \<open>line_text.char_indices()\<close>; \<open>None\<close> when it reaches the end.\<close>

function walk_utf16 :: "string \<Rightarrow> nat \<Rightarrow> nat \<Rightarrow> nat \<Rightarrow> nat option" where
  "walk_utf16 s byte_off utf16 character =
     (case first_char s of
        None \<Rightarrow> None
      | Some ch \<Rightarrow>
          if character \<le> utf16 then Some byte_off
          else walk_utf16 (drop (len_utf8 ch) s) (byte_off + len_utf8 ch) (utf16 + len_utf16 ch) character)"
  by pat_completeness auto
termination
  by (relation "measure (\<lambda>(s, _). length s)")
    (auto simp: first_char_def split: option.splits dest!: byte_at_SomeD)

declare walk_utf16.simps [simp del]

text \<open>
  The end of a line's content: its end less a line feed and less a carriage return, the two reads of
  \<open>bytes[content_end - 1]\<close> being the ones that panic out of range.
\<close>

definition content_end :: "string \<Rightarrow> nat \<Rightarrow> nat \<Rightarrow> nat" where
  "content_end source first raw_end =
     (let e1 = (if first < raw_end \<and> byte_at source (raw_end - 1) = Some LF then raw_end - 1 else raw_end)
      in if first < e1 \<and> byte_at source (e1 - 1) = Some CR then e1 - 1 else e1)"

definition offset_at_utf16 :: "line_index \<Rightarrow> nat \<Rightarrow> nat \<Rightarrow> string \<Rightarrow> nat option" where
  "offset_at_utf16 idx line character source =
     (if length idx \<le> line then Some (length source)
      else
        (let start = idx ! line;
             raw_end = (if line + 1 < length idx then idx ! (line + 1) else length source);
             e = content_end source start raw_end
         in if start < raw_end \<and> length source < raw_end then None
            else
              (case str_get source start e of
                 None \<Rightarrow> None
               | Some line_text \<Rightarrow>
                   (case walk_utf16 line_text 0 0 character of
                      Some byte_off \<Rightarrow> Some (start + byte_off)
                    | None \<Rightarrow> Some e))))"

section \<open>Line starts as suffix functions\<close>

text \<open>The starts after position \<open>k\<close>, and the normalised text, by recursion on the suffix.\<close>

fun nl_starts :: "nat \<Rightarrow> string \<Rightarrow> nat list" where
  "nl_starts k [] = []"
| "nl_starts k (c # s) = (if c = LF then [Suc k] else []) @ nl_starts (Suc k) s"

fun norm_cr :: "string \<Rightarrow> string" where
  "norm_cr [] = []"
| "norm_cr (c # s) = (if c = CR \<and> byte_at s 0 \<noteq> Some LF then LF else c) # norm_cr s"

fun lsp_starts :: "nat \<Rightarrow> string \<Rightarrow> nat list" where
  "lsp_starts k [] = []"
| "lsp_starts k (c # s) =
     (if c = LF \<or> c = CR \<and> byte_at s 0 \<noteq> Some LF then [Suc k] else []) @ lsp_starts (Suc k) s"

lemma nl_starts_enumerate:
  "map (\<lambda>(i, b). i + 1) (filter (\<lambda>(i, b). b = LF) (enumerate k s)) = nl_starts k s"
  by (induction s arbitrary: k) auto

lemma line_index_new_eq: "length s < 2 ^ 32 \<Longrightarrow> line_index_new s = Some (0 # nl_starts 0 s)"
  unfolding line_index_new_def nl_starts_enumerate by simp

lemma drop_byte_at: "i < length s \<Longrightarrow> drop i s = s ! i # drop (Suc i) s \<and> byte_at (drop (Suc i) s) 0 = byte_at s (i + 1)"
  by (simp add: Cons_nth_drop_Suc byte_at_drop)

lemma lsp_loop_eq: "i \<le> length s \<Longrightarrow> lsp_loop s i starts = starts @ lsp_starts i (drop i s)"
proof (induction s i starts rule: lsp_loop.induct)
  case (1 s i starts)
  show ?case
  proof (cases "i < length s")
    case True
    note d = drop_byte_at [OF True]
    show ?thesis
    proof (cases "s ! i = CR \<and> byte_at s (i + 1) = Some LF")
      case pair: True
      then have i1: "Suc i < length s" "s ! Suc i = LF" by (auto simp: byte_at_def split: if_splits)
      with "1.IH"(2) True pair have "lsp_loop s (i + 2) (starts @ [i + 2]) = (starts @ [i + 2]) @ lsp_starts (i + 2) (drop (i + 2) s)"
        by simp
      with True pair d drop_byte_at [OF i1(1)] i1(2) show ?thesis by (simp add: lsp_loop.simps [of s i])
    next
      case False
      with 1 True d show ?thesis by (auto simp: lsp_loop.simps [of s i])
    qed
  next
    case False
    with "1.prems" show ?thesis by (subst lsp_loop.simps) simp
  qed
qed

lemma line_index_new_lsp_eq: "length s < 2 ^ 32 \<Longrightarrow> line_index_new_lsp s = Some (0 # lsp_starts 0 s)"
  by (simp add: line_index_new_lsp_def lsp_loop_eq)

lemma normalise_loop_eq:
  "prev \<le> i \<Longrightarrow> i \<le> length s \<Longrightarrow> normalise_loop s i prev out = out @ subslice prev i s @ norm_cr (drop i s)"
proof (induction s i prev out rule: normalise_loop.induct)
  case (1 s i prev out)
  show ?case
  proof (cases "i < length s")
    case True
    note d = drop_byte_at [OF True]
    show ?thesis
    proof (cases "lone_cr_at s i")
      case lone: True
      with d True have "norm_cr (drop i s) = LF # norm_cr (drop (Suc i) s)" by (auto simp: lone_cr_at_def byte_at_def)
      with 1 True lone show ?thesis by (simp add: normalise_loop.simps [of s i])
    next
      case False
      with d True have "norm_cr (drop i s) = s ! i # norm_cr (drop (Suc i) s)" by (auto simp: lone_cr_at_def byte_at_def)
      with 1 True False show ?thesis by (simp add: normalise_loop.simps [of s i] subslice_Suc)
    qed
  next
    case False
    with "1.prems" show ?thesis by (subst normalise_loop.simps) simp
  qed
qed

lemma bare_cr_iff: "contains_bare_cr s \<longleftrightarrow> (\<exists>i. lone_cr_at s i)"
  by (auto simp: contains_bare_cr_def list_ex_iff lone_cr_at_def)
    (metis atLeastLessThan_iff byte_at_SomeD zero_le)

lemma bare_cr_Cons: "contains_bare_cr (c # s) \<longleftrightarrow> (c = CR \<and> byte_at s 0 \<noteq> Some LF) \<or> contains_bare_cr s"
proof -
  have "lone_cr_at (c # s) (Suc i) = lone_cr_at s i" "lone_cr_at (c # s) 0 \<longleftrightarrow> c = CR \<and> byte_at s 0 \<noteq> Some LF" for i
    by (simp_all add: lone_cr_at_def)
  then show ?thesis unfolding bare_cr_iff by (metis not0_implies_Suc)
qed

lemma bare_cr_Nil [simp]: "\<not> contains_bare_cr []"
  by (simp add: contains_bare_cr_def)

lemma norm_cr_clean: "\<not> contains_bare_cr s \<Longrightarrow> norm_cr s = s"
  by (induction s) (auto simp: bare_cr_Cons)

lemma normalise_lone_cr_eq: "normalise_lone_cr s = norm_cr s"
  by (auto simp: normalise_lone_cr_def normalise_loop_eq norm_cr_clean subslice_def)

lemma length_norm_cr [simp]: "length (norm_cr s) = length s"
  by (induction s) auto

lemma norm_cr_head: "byte_at (norm_cr s) 0 = Some LF \<longleftrightarrow> byte_at s 0 = Some LF \<or> (byte_at s 0 = Some CR \<and> byte_at s 1 \<noteq> Some LF)"
  by (cases s) (auto simp: byte_at_def)

lemma norm_cr_bare: "\<not> contains_bare_cr (norm_cr s)"
  by (induction s) (auto simp: bare_cr_Cons norm_cr_head)

lemma norm_starts: "nl_starts k (norm_cr s) = lsp_starts k s"
  by (induction s arbitrary: k) auto

lemma clean_starts: "\<not> contains_bare_cr s \<Longrightarrow> lsp_starts k s = nl_starts k s"
  by (induction s arbitrary: k) (auto simp: bare_cr_Cons)

section \<open>Incremental update\<close>

lemma nl_starts_append: "nl_starts k (s @ t) = nl_starts k s @ nl_starts (k + length s) t"
  by (induction s arbitrary: k) auto

lemma nl_starts_range: "x \<in> set (nl_starts k s) \<Longrightarrow> k < x \<and> x \<le> k + length s"
  by (induction s arbitrary: k) (fastforce split: if_splits)+

lemma nl_starts_shift: "map (\<lambda>x. x + d) (nl_starts k s) = nl_starts (k + d) s"
  by (induction s arbitrary: k) auto

lemma shift_starts_eq:
  "(\<And>x. x \<in> set xs \<Longrightarrow> 0 \<le> int x + d \<and> int x + d < 2 ^ 32) \<Longrightarrow>
     shift_starts d xs = Some (map (\<lambda>x. nat (int x + d)) xs)"
  by (induction xs) (auto simp: Let_def)

lemma apply_edit_rebuild:
  assumes "length (A @ ins @ C) < 2 ^ 32"
  shows "apply_edit (0 # nl_starts 0 (A @ B @ C)) (length A) (length A + length B) ins = Some (0 # nl_starts 0 (A @ ins @ C))"
proof -
  let ?a = "length A" and ?b = "length B" and ?n = "length ins"
  let ?idx = "(0 # nl_starts 0 A) @ nl_starts ?a B @ nl_starts (?a + ?b) C"
  have idx: "0 # nl_starts 0 (A @ B @ C) = ?idx" by (simp add: nl_starts_append)
  have r1: "takeWhile (\<lambda>s. s \<le> ?a) ?idx = 0 # nl_starts 0 A \<and>
      dropWhile (\<lambda>s. s \<le> ?a) ?idx = nl_starts ?a B @ nl_starts (?a + ?b) C"
    by (rule takeWhile_split) (auto dest!: nl_starts_range)
  have r2: "dropWhile (\<lambda>s. s \<le> ?a + ?b) (nl_starts ?a B @ nl_starts (?a + ?b) C) = nl_starts (?a + ?b) C"
    by (rule takeWhile_split [THEN conjunct2]) (auto dest!: nl_starts_range)
  have ins: "map (\<lambda>(j, b). (?a + (j + 1)) mod 2 ^ 32) (filter (\<lambda>(j, b). b = LF) (enumerate 0 ins)) = nl_starts ?a ins"
  proof -
    have "map (\<lambda>(j, b). (?a + (j + 1)) mod 2 ^ 32) (filter (\<lambda>(j, b). b = LF) (enumerate 0 ins)) =
        map (\<lambda>x. (x + ?a) mod 2 ^ 32) (nl_starts 0 ins)"
      by (simp add: comp_def split_def add.commute flip: nl_starts_enumerate)
    also have "\<dots> = map (\<lambda>x. x + ?a) (nl_starts 0 ins)"
      using assms by (intro map_cong refl mod_less) (auto dest!: nl_starts_range)
    finally show ?thesis by (simp add: nl_starts_shift)
  qed
  have r3: "shift_starts (int ?n - int ?b) (nl_starts (?a + ?b) C) = Some (nl_starts (?a + ?n) C)"
  proof -
    have "0 \<le> int x + (int ?n - int ?b) \<and> int x + (int ?n - int ?b) < 2 ^ 32" if "x \<in> set (nl_starts (?a + ?b) C)" for x
      using nl_starts_range [OF that] assms by simp
    then have "shift_starts (int ?n - int ?b) (nl_starts (?a + ?b) C) =
        Some (map (\<lambda>x. nat (int x + (int ?n - int ?b))) (nl_starts (?a + ?b) C))" by (rule shift_starts_eq)
    also have "nl_starts (?a + ?b) C = map (\<lambda>x. x + ?b) (nl_starts ?a C)" by (simp add: nl_starts_shift)
    also have "map (\<lambda>x. nat (int x + (int ?n - int ?b))) (map (\<lambda>x. x + ?b) (nl_starts ?a C)) = map (\<lambda>x. x + ?n) (nl_starts ?a C)"
      by (simp add: comp_def nat_int_add)
    finally show ?thesis by (simp add: nl_starts_shift)
  qed
  show ?thesis
    unfolding idx apply_edit_def Let_def r1 [THEN conjunct1] r1 [THEN conjunct2] r2 ins
    using assms r3 by (simp add: nl_starts_append)
qed

section \<open>Positions and offsets\<close>

text \<open>Where LSP lines begin: after a line feed or a lone carriage return.\<close>

definition breaks_after :: "string \<Rightarrow> nat \<Rightarrow> bool" where
  "breaks_after s i \<longleftrightarrow> byte_at s i = Some LF \<or> lone_cr_at s i"

lemma lsp_starts_set: "set (lsp_starts k s) = {k + Suc i | i. breaks_after s i}"
proof (induction s arbitrary: k)
  case Nil
  then show ?case by (simp add: breaks_after_def lone_cr_at_def)
next
  case (Cons c s)
  have "breaks_after (c # s) (Suc i) = breaks_after s i"
    "breaks_after (c # s) 0 \<longleftrightarrow> c = LF \<or> c = CR \<and> byte_at s 0 \<noteq> Some LF" for i
    by (simp_all add: breaks_after_def lone_cr_at_def)
  then have "{k + Suc i | i. breaks_after (c # s) i} =
      (if c = LF \<or> c = CR \<and> byte_at s 0 \<noteq> Some LF then {Suc k} else {}) \<union> {Suc k + Suc i | i. breaks_after s i}"
    by (auto simp: gr0_conv_Suc) (metis add_Suc_right add_Suc not0_implies_Suc)+
  with Cons show ?case by auto
qed

lemma lsp_starts_sorted: "sorted_wrt (<) (lsp_starts k s)"
proof (induction s arbitrary: k)
  case (Cons c s)
  have "x \<in> set (lsp_starts (Suc k) s) \<Longrightarrow> Suc k < x" for x by (auto simp: lsp_starts_set)
  with Cons show ?case by auto
qed simp

lemma breaks_after_lt: "breaks_after s i \<Longrightarrow> i < length s"
  by (auto simp: breaks_after_def lone_cr_at_def dest: byte_at_SomeD)

text \<open>The line of an offset in a strictly sorted index that starts at zero.\<close>

lemma line_of_offset:
  fixes off :: nat
  assumes "sorted_wrt (<) (0 # xs)" "l = partition_point (\<lambda>s. s \<le> off) (0 # xs) - 1"
  shows "l < length (0 # xs)" "(0 # xs) ! l \<le> off" "Suc l < length (0 # xs) \<Longrightarrow> off < (0 # xs) ! Suc l"
proof -
  let ?tw = "takeWhile (\<lambda>s. s \<le> off) (0 # xs)"
  have tw: "?tw = take (length ?tw) (0 # xs)" by (metis takeWhile_eq_take)
  have pos: "0 < length ?tw" by simp
  have len: "length ?tw \<le> length (0 # xs)" by (rule length_takeWhile_le)
  have l: "l = length ?tw - 1" using assms(2) by (simp add: partition_point_def)
  show "l < length (0 # xs)" using l pos len by linarith
  have "?tw ! l \<in> set ?tw" using l pos by (intro nth_mem) linarith
  then have "?tw ! l \<le> off" using set_takeWhileD by fastforce
  moreover have "?tw ! l = (0 # xs) ! l" using l pos by (subst tw, subst nth_take) linarith+
  ultimately show "(0 # xs) ! l \<le> off" by simp
  assume "Suc l < length (0 # xs)"
  moreover have "Suc l = length ?tw" using l pos by linarith
  ultimately show "off < (0 # xs) ! Suc l" using nth_length_takeWhile [of "\<lambda>s. s \<le> off" "0 # xs"] by simp
qed

lemma utf16_count_append:
  "utf8_valid s \<Longrightarrow> utf16_count (s @ t) = utf16_count s + utf16_count t"
proof (induction s rule: utf8_valid_induct)
  case Nil
  then show ?case by (simp add: utf16_count.simps [of "[]"])
next
  case (Char ch s)
  have "utf16_count (utf8_encode ch @ u) = len_utf16 ch + utf16_count u" for u
    by (subst utf16_count.simps) (simp add: first_char_encode [OF is_scalar_lt [OF Char.hyps(1)]])
  from this [of "s @ t"] this [of s] Char.IH show ?case by simp
qed

lemma walk_finds:
  assumes "utf8_valid p" "utf8_valid q"
  shows "walk_utf16 (p @ q) b u (u + utf16_count p) = (if q = [] then None else Some (b + length p))"
  using assms(1)
proof (induction p arbitrary: b u rule: utf8_valid_induct)
  case Nil
  show ?case
  proof (cases "q = []")
    case False
    then obtain ch where "first_char q = Some ch" by (cases "first_char q") auto
    with False show ?thesis by (simp add: walk_utf16.simps [of q] utf16_count.simps [of "[]"])
  qed (simp add: walk_utf16.simps [of "[]"])
next
  case (Char ch p)
  have c: "first_char (utf8_encode ch @ v) = Some ch" for v by (rule first_char_encode [OF is_scalar_lt [OF Char.hyps(1)]])
  have n: "utf16_count (utf8_encode ch @ p) = len_utf16 ch + utf16_count p"
    by (subst utf16_count.simps) (simp add: c)
  have "0 < len_utf16 ch" by (simp add: len_utf16_def)
  then have "walk_utf16 ((utf8_encode ch @ p) @ q) b u (u + utf16_count (utf8_encode ch @ p)) =
      walk_utf16 (p @ q) (b + len_utf8 ch) (u + len_utf16 ch) (u + len_utf16 ch + utf16_count p)"
    by (subst walk_utf16.simps) (simp add: c n add.assoc)
  with Char.IH [of "b + len_utf8 ch" "u + len_utf16 ch"] show ?case by (simp add: add.assoc)
qed

lemma snap_down_boundary: "is_char_boundary s e \<Longrightarrow> snap_down s lo e = e"
  by (cases e) auto

lemma walk_splits:
  "utf8_valid t \<Longrightarrow> walk_utf16 t b u c = Some r \<Longrightarrow> \<exists>p q. t = p @ q \<and> utf8_valid q \<and> r = b + length p"
proof (induction t arbitrary: b u rule: utf8_valid_induct)
  case Nil
  then show ?case by (simp add: walk_utf16.simps [of "[]"])
next
  case (Char ch t)
  show ?case
  proof (cases "c \<le> u")
    case True
    with Char.prems have "r = b"
      by (subst (asm) walk_utf16.simps) (simp add: first_char_encode [OF is_scalar_lt [OF Char.hyps(1)]])
    moreover have "utf8_valid (utf8_encode ch @ t)" using Char.hyps by simp
    ultimately show ?thesis by (intro exI [of _ "[]"] exI [of _ "utf8_encode ch @ t"]) simp
  next
    case False
    with Char.prems have "walk_utf16 t (b + len_utf8 ch) (u + len_utf16 ch) c = Some r"
      by (subst (asm) walk_utf16.simps) (simp add: first_char_encode [OF is_scalar_lt [OF Char.hyps(1)]])
    from Char.IH [OF this] obtain p q where "t = p @ q" "utf8_valid q" "r = b + len_utf8 ch + length p" by blast
    then show ?thesis by (intro exI [of _ "utf8_encode ch @ p"] exI [of _ q]) simp
  qed
qed

lemma breaks_ascii: "breaks_after s i \<Longrightarrow> of_char (s ! i) < (0x80::nat)"
  by (auto simp: breaks_after_def lone_cr_at_def dest!: byte_at_SomeD)

lemma line_start_boundary:
  assumes "utf8_valid s" "start \<in> set (0 # lsp_starts 0 s)"
  shows "is_char_boundary s start \<and> start \<le> length s"
proof (cases "start = 0")
  case False
  with assms(2) obtain i where i: "start = Suc i" "breaks_after s i" by (auto simp: lsp_starts_set)
  with boundary_after_ascii [OF assms(1) breaks_after_lt [OF i(2)] breaks_ascii [OF i(2)]] breaks_after_lt [OF i(2)]
  show ?thesis by simp
qed (simp add: is_char_boundary_def)

lemma last_line_unbroken:
  fixes xs :: "nat list"
  assumes "sorted_wrt (<) xs" "l < length xs" "\<not> Suc l < length xs" "x \<in> set xs"
  shows "x \<le> xs ! l"
proof -
  from assms(4) obtain j where j: "j < length xs" "x = xs ! j" by (auto simp: in_set_conv_nth)
  with assms(2,3) have "j < l \<or> j = l" by linarith
  with sorted_wrt_nth_less [OF assms(1), of j l] assms(2) j show ?thesis by auto
qed

text \<open>The content of a line ends at or after every offset of the line outside a CRLF pair.\<close>

lemma content_end_bounds:
  assumes off: "first \<le> off" "\<not> (0 < off \<and> byte_at s (off - 1) = Some CR \<and> byte_at s off = Some LF)"
    and line: "(\<exists>i. raw_end = Suc i \<and> breaks_after s i \<and> off \<le> i) \<or>
      (raw_end = length s \<and> off \<le> length s \<and> (\<forall>i. breaks_after s i \<longrightarrow> Suc i \<le> first))"
  shows "off \<le> content_end s first raw_end \<and> content_end s first raw_end \<le> length s"
  using line
proof (elim disjE exE conjE)
  fix i assume i: "raw_end = Suc i" "breaks_after s i" "off \<le> i"
  have lt: "i < length s" by (rule breaks_after_lt [OF i(2)])
  from i(2) consider "byte_at s i = Some LF" | "byte_at s i = Some CR"
    by (auto simp: breaks_after_def lone_cr_at_def)
  then show ?thesis
  proof cases
    case 1
    then have "off \<noteq> i \<or> \<not> (0 < i \<and> byte_at s (i - 1) = Some CR)" using off(2) by auto
    with 1 i off(1) lt show ?thesis by (auto simp: content_end_def Let_def)
  next
    case 2
    with i off(1) lt show ?thesis by (auto simp: content_end_def Let_def)
  qed
next
  assume e: "raw_end = length s" "off \<le> length s" "\<forall>i. breaks_after s i \<longrightarrow> Suc i \<le> first"
  have "byte_at s (length s - 1) \<noteq> Some LF \<and> byte_at s (length s - 1) \<noteq> Some CR" if "first < length s"
  proof -
    from that obtain n where n: "length s = Suc n" by (cases "length s") auto
    with e(3) [rule_format, of n] that show ?thesis by (auto simp: breaks_after_def lone_cr_at_def byte_at_def)
  qed
  with e show ?thesis by (auto simp: content_end_def Let_def)
qed

text \<open>One line of a well-formed text under its own index.\<close>

lemma line_geometry:
  assumes s: "utf8_valid s" and idx: "idx = 0 # lsp_starts 0 s" and l: "l < length idx"
    and d: "start = idx ! l" "raw_end = (if l + 1 < length idx then idx ! (l + 1) else length s)"
    "e = content_end s start raw_end"
  shows "start \<le> e" "e \<le> raw_end" "raw_end \<le> length s" "is_char_boundary s start" "is_char_boundary s e"
    "offset_at_utf16 idx l c s =
       Some (case walk_utf16 (subslice start e s) 0 0 c of Some b \<Rightarrow> start + b | None \<Rightarrow> e)"
proof -
  have srt: "sorted_wrt (<) idx" using lsp_starts_sorted [of 0 s] by (auto simp: idx lsp_starts_set)
  have b: "is_char_boundary s x \<and> x \<le> length s" if "x \<in> set idx" for x
    using line_start_boundary [OF s] that idx by blast
  have bs: "is_char_boundary s start \<and> start \<le> length s" using b l by (simp add: d(1))
  then show "is_char_boundary s start" by simp
  have br: "is_char_boundary s raw_end \<and> raw_end \<le> length s" using b by (simp add: d(2) is_char_boundary_def)
  then show rl: "raw_end \<le> length s" by simp
  have sr: "start \<le> raw_end"
    using sorted_wrt_nth_less [OF srt, of l "l + 1"] bs by (auto simp: d(1,2))
  have asc: "is_char_boundary s k" if "byte_at s k = Some c" "c = LF \<or> c = CR" for k c
    using that by (auto simp: is_char_boundary_def byte_at_def split: if_splits)
  show se: "start \<le> e" "e \<le> raw_end" using sr by (auto simp: d(3) content_end_def Let_def)
  show be: "is_char_boundary s e"
    using br asc by (simp add: d(3) content_end_def Let_def)
  have g: "str_get s start e = Some (subslice start e s)"
    using bs be se rl by (simp add: str_get_def)
  show "offset_at_utf16 idx l c s =
       Some (case walk_utf16 (subslice start e s) 0 0 c of Some b \<Rightarrow> start + b | None \<Rightarrow> e)"
    using l rl g unfolding offset_at_utf16_def Let_def d(3) [symmetric] d(2) [symmetric] d(1) [symmetric]
    by (simp split: option.splits)
qed

lemma content_end_strict:
  assumes "idx = 0 # lsp_starts 0 s" "Suc l < length idx"
  shows "content_end s (idx ! l) (idx ! Suc l) < idx ! Suc l"
proof -
  have "sorted_wrt (<) idx" using lsp_starts_sorted [of 0 s] by (auto simp: assms(1) lsp_starts_set)
  then have lt: "idx ! l < idx ! Suc l" using assms(2) by (simp add: sorted_wrt_nth_less)
  have "idx ! Suc l \<in> set (lsp_starts 0 s)" using assms by simp
  then obtain i where i: "idx ! Suc l = Suc i" "breaks_after s i" by (auto simp: lsp_starts_set)
  then have "byte_at s i = Some LF \<or> byte_at s i = Some CR" by (auto simp: breaks_after_def lone_cr_at_def)
  with lt i(1) show ?thesis by (auto simp: content_end_def Let_def)
qed

lemma offset_at_ok:
  assumes s: "utf8_valid s" and idx: "idx = 0 # lsp_starts 0 s"
  obtains a where "offset_at_utf16 idx l c s = Some a" "a \<le> length s" "is_char_boundary s a"
    "l < length idx \<Longrightarrow> idx ! l \<le> a"
    "Suc l < length idx \<Longrightarrow> a < idx ! Suc l"
proof (cases "l < length idx")
  case False
  then show ?thesis using that [of "length s"] by (simp add: offset_at_utf16_def is_char_boundary_def)
next
  case True
  define start where "start = idx ! l"
  define raw_end where "raw_end = (if l + 1 < length idx then idx ! (l + 1) else length s)"
  define e where "e = content_end s start raw_end"
  note g = line_geometry [OF s idx True start_def raw_end_def e_def]
  have el: "e \<le> length s" using g(2,3) by simp
  have er: "Suc l < length idx \<Longrightarrow> e < idx ! Suc l"
    using content_end_strict [OF idx, of l] by (simp add: e_def start_def raw_end_def)
  show ?thesis
  proof (cases "walk_utf16 (subslice start e s) 0 0 c")
    case None
    with g el er show ?thesis by (intro that [of e]) (auto simp: start_def)
  next
    case (Some b)
    have "utf8_valid (subslice start e s)" by (rule utf8_valid_subslice [OF s g(4,5,1) el])
    from walk_splits [OF this Some] obtain p q where pq: "subslice start e s = p @ q" "utf8_valid q" "b = length p" by auto
    have len: "start + length p + length q = e" using arg_cong [OF pq(1), of length] g(1) el by simp
    have sp: "drop start s = p @ q @ drop e s"
      using pq(1) g(1) by (metis append.assoc append_take_drop_id drop_drop le_add_diff_inverse2 subslice_def)
    have "drop (start + length p) s = q @ drop e s"
      using arg_cong [OF sp, of "drop (length p)"] by (simp add: add.commute)
    moreover have "utf8_valid (drop e s)" using utf8_valid_cut [OF s el g(5)] by simp
    ultimately have "is_char_boundary s (start + b)"
      using pq len el by (intro boundary_of_valid_drop) (simp_all add: utf8_valid_append)
    moreover have be: "start + b \<le> e" using len pq(3) by simp
    moreover have "Suc l < length idx \<Longrightarrow> start + b < idx ! Suc l" using er be by linarith
    ultimately show ?thesis using Some g(6) el by (intro that [of "start + b"]) (simp_all add: start_def)
  qed
qed

lemma position_roundtrip:
  assumes s: "utf8_valid s" and idx: "idx = 0 # lsp_starts 0 s"
    and off: "off \<le> length s" "is_char_boundary s off" "\<not> (0 < off \<and> byte_at s (off - 1) = Some CR \<and> byte_at s off = Some LF)"
  obtains p where "position_at_utf16 idx off s = Some p" "offset_at_utf16 idx (pos_line p) (pos_character p) s = Some off"
proof -
  have srt: "sorted_wrt (<) (0 # lsp_starts 0 s)" using lsp_starts_sorted [of 0 s] by (auto simp: lsp_starts_set)
  define l where "l = partition_point (\<lambda>x. x \<le> off) idx - 1"
  note line = line_of_offset [OF srt l_def [unfolded idx], folded idx]
  define start where "start = idx ! l"
  define raw_end where "raw_end = (if l + 1 < length idx then idx ! (l + 1) else length s)"
  define e where "e = content_end s start raw_end"
  note g = line_geometry [OF s idx line(1) start_def raw_end_def e_def]
  have start: "start \<le> off" using line(2) by (simp add: start_def)
  have "(\<exists>i. raw_end = Suc i \<and> breaks_after s i \<and> off \<le> i) \<or>
      (raw_end = length s \<and> off \<le> length s \<and> (\<forall>i. breaks_after s i \<longrightarrow> Suc i \<le> start))"
  proof (cases "Suc l < length idx")
    case True
    then have "raw_end \<in> set (lsp_starts 0 s)" by (simp add: raw_end_def idx)
    with line(3) [OF True] True show ?thesis by (auto simp: lsp_starts_set raw_end_def)
  next
    case False
    have "Suc i \<le> start" if "breaks_after s i" for i
      unfolding start_def using that
      by (intro last_line_unbroken [OF srt [folded idx] line(1) False]) (auto simp: idx lsp_starts_set)
    with False off(1) show ?thesis by (simp add: raw_end_def)
  qed
  from content_end_bounds [OF start off(3) this]
  have e: "off \<le> e" "e \<le> length s" by (simp_all add: e_def)
  have pre: "utf8_valid (subslice start off s)" by (rule utf8_valid_subslice [OF s g(4) off(2) start off(1)])
  have post: "utf8_valid (subslice off e s)" by (rule utf8_valid_subslice [OF s off(2) g(5) e])
  have "walk_utf16 (subslice start e s) 0 0 (utf16_count (subslice start off s)) =
      (if off = e then None else Some (off - start))"
    using walk_finds [OF pre post, of 0 0] subslice_append_subslice [OF start e(1), of s] off(1) e
    by (auto simp: subslice_def)
  with start have "offset_at_utf16 idx l (utf16_count (subslice start off s)) s = Some off"
    by (simp add: g(6))
  moreover have "position_at_utf16 idx off s =
      Some \<lparr>pos_line = l, pos_character = utf16_count (subslice start off s), pos_offset = off\<rparr>"
    using off(1,2) line(1) start g(4) unfolding position_at_utf16_def Let_def l_def [symmetric]
    by (simp add: snap_down_boundary start_def byte_at_def str_get_def)
  ultimately show ?thesis by (intro that) auto
qed

lemma walk_ascii [simp]:
  "walk_utf16 [] b u c = None"
  "of_char a < (0x80::nat) \<Longrightarrow>
     walk_utf16 (a # s) b u c = (if c \<le> u then Some b else walk_utf16 s (b + 1) (u + 1) c)"
  by (subst walk_utf16.simps, simp)
    (subst walk_utf16.simps, simp add: first_char_ascii len_utf8_def len_utf16_def)

section \<open>Properties\<close>

text \<open>
  Rewriting every lone carriage return to a line feed keeps the length of the text, leaves no
  lone carriage return, and makes the lexer's line model of the result coincide with the editor's
  line model of the original, on every text (and both refuse the same oversized ones).
\<close>

lemma normalised_index_agrees:
  "length (normalise_lone_cr source) = length source \<and>
   \<not> contains_bare_cr (normalise_lone_cr source) \<and>
   line_index_new (normalise_lone_cr source) = line_index_new_lsp source"
proof (cases "length source < 2 ^ 32")
  case True
  then show ?thesis
    using line_index_new_eq [of "norm_cr source"] line_index_new_lsp_eq [of source]
    by (simp add: normalise_lone_cr_eq norm_cr_bare norm_starts)
next
  case False
  then show ?thesis by (simp add: normalise_lone_cr_eq norm_cr_bare line_index_new_def line_index_new_lsp_def)
qed

text \<open>
  C14. Patching the index in place equals rebuilding it: for a document split at the ends of the
  replaced span, \<open>apply_edit\<close> on the index of the old text returns, without a panic, exactly the
  index \<open>LineIndex::new\<close> builds from the edited text.
\<close>

theorem apply_edit_matches_rebuild:
  assumes "line_index_new (before @ removed @ after) = Some idx"
    and "length (before @ new_text @ after) < 2 ^ 32"
  shows "apply_edit idx (length before) (length before + length removed) new_text =
    line_index_new (before @ new_text @ after)"
proof -
  have "length (before @ removed @ after) < 2 ^ 32" using assms(1) by (simp add: line_index_new_def split: if_splits)
  from line_index_new_eq [OF this] assms(1) have "idx = 0 # nl_starts 0 (before @ removed @ after)" by simp
  with apply_edit_rebuild [OF assms(2)] line_index_new_eq [OF assms(2)] show ?thesis by simp
qed

lemma apply_edit_matches_rebuild_witness:
  "apply_edit [0, 2, 4] (length ''a'') (length ''a'' + length [LF, CHR ''b'']) [LF, LF] = line_index_new [CHR ''a'', LF, LF, LF]"
  using apply_edit_matches_rebuild [of "''a''" "[LF, CHR ''b'']" "[LF]" "[0, 2, 4]" "[LF, LF]"]
  by (simp add: line_index_new_def)

text \<open>
  C25. Offsets and editor positions round-trip: in a well-formed text, the UTF-16 position computed
  for a character boundary, resolved back through the same index, is that offset, for every boundary
  but the one inside a CRLF pair; neither conversion panics.
\<close>

theorem utf16_position_roundtrip:
  assumes "utf8_valid source" "line_index_new_lsp source = Some idx"
    and "offset \<le> length source" "is_char_boundary source offset"
    and "\<not> (0 < offset \<and> byte_at source (offset - 1) = Some CR \<and> byte_at source offset = Some LF)"
  shows "\<exists>p. position_at_utf16 idx offset source = Some p \<and>
    offset_at_utf16 idx (pos_line p) (pos_character p) source = Some offset"
proof -
  have "length source < 2 ^ 32" using assms(2) by (simp add: line_index_new_lsp_def split: if_splits)
  from line_index_new_lsp_eq [OF this] assms(2) have "idx = 0 # lsp_starts 0 source" by simp
  from position_roundtrip [OF assms(1) this assms(3-5)] show ?thesis by blast
qed

lemma utf16_position_roundtrip_witness:
  "\<exists>p. position_at_utf16 [0, 1, 3] 2 [CR, CHR ''x'', LF, CHR ''y''] = Some p \<and>
    offset_at_utf16 [0, 1, 3] (pos_line p) (pos_character p) [CR, CHR ''x'', LF, CHR ''y''] = Some 2"
  by (rule utf16_position_roundtrip)
    (simp_all add: line_index_new_lsp_eq is_char_boundary_def byte_at_def)

end
