(* ===== verification/Rust_Str.thy ===== *)
theory Rust_Str
  imports Prelude
begin

text \<open>
  The operations of Rust's \<open>str\<close> the dialect detector calls (\<open>find\<close>, \<open>contains\<close>,
  \<open>starts_with\<close>, \<open>lines\<close>, \<open>trim_start\<close>, \<open>to_ascii_lowercase\<close>,
  \<open>split_ascii_whitespace\<close>) as functions on byte strings, with the lemmas that split them at a
  line break.
\<close>

section \<open>Searching\<close>

definition starts_with :: "string \<Rightarrow> string \<Rightarrow> bool" where
  "starts_with m s \<longleftrightarrow> take (length m) s = m"

fun str_find :: "string \<Rightarrow> string \<Rightarrow> nat option" where
  "str_find [] m = (if m = [] then Some 0 else None)"
| "str_find (c # s) m = (if starts_with m (c # s) then Some 0 else map_option Suc (str_find s m))"

definition str_contains :: "string \<Rightarrow> string \<Rightarrow> bool" where
  "str_contains s m \<longleftrightarrow> str_find s m \<noteq> None"

definition to_ascii_lowercase :: "string \<Rightarrow> string" where
  "to_ascii_lowercase s =
     map (\<lambda>c. if (65::nat) \<le> of_char c \<and> of_char c \<le> (90::nat) then char_of (of_char c + 32 :: nat) else c) s"

lemma starts_with_append [simp]: "starts_with m (m @ t)"
  by (simp add: starts_with_def)

lemma starts_with_iff: "starts_with m s \<longleftrightarrow> (\<exists>t. s = m @ t)"
  by (auto simp: starts_with_def) (metis append_take_drop_id)

lemma starts_with_Nil [simp]: "starts_with [] s" "starts_with m [] \<longleftrightarrow> m = []"
  by (auto simp: starts_with_def)

lemma starts_with_Cons [simp]: "starts_with (d # m) (c # s) \<longleftrightarrow> c = d \<and> starts_with m s"
  by (auto simp: starts_with_def)

lemma str_find_SomeD:
  "str_find s m = Some i \<Longrightarrow> i \<le> length s \<and> starts_with m (drop i s) \<and> (\<forall>j<i. \<not> starts_with m (drop j s))"
proof (induction s arbitrary: i)
  case (Cons c s)
  show ?case
  proof (cases "starts_with m (c # s)")
    case False
    with Cons.prems obtain k where k: "i = Suc k" "str_find s m = Some k" by auto
    have "\<not> starts_with m (drop j (c # s))" if "j < i" for j
      using that False k Cons.IH [OF k(2)] by (cases j) auto
    with k Cons.IH [OF k(2)] show ?thesis by simp
  qed (use Cons.prems in simp)
qed (auto split: if_splits)

lemma str_find_NoneD: "str_find s m = None \<Longrightarrow> \<not> starts_with m (drop i s)"
proof (induction s arbitrary: i)
  case (Cons c s)
  then show ?case by (cases i) (auto split: if_splits)
qed (auto split: if_splits)

lemma str_contains_iff: "str_contains s m \<longleftrightarrow> (\<exists>p q. s = p @ m @ q)"
proof
  assume "str_contains s m"
  then obtain i where "str_find s m = Some i" by (auto simp: str_contains_def)
  from str_find_SomeD [OF this] obtain t where "drop i s = m @ t" by (auto simp: starts_with_iff)
  then show "\<exists>p q. s = p @ m @ q" by (metis append_take_drop_id)
next
  assume "\<exists>p q. s = p @ m @ q"
  then obtain p q where "s = p @ m @ q" by blast
  then have "starts_with m (drop (length p) s)" by simp
  then show "str_contains s m" using str_find_NoneD [of s m "length p"] by (auto simp: str_contains_def)
qed

lemma str_contains_mono: "str_contains t m \<Longrightarrow> str_contains (p @ t @ q) m"
proof -
  assume "str_contains t m"
  then obtain a b where "t = a @ m @ b" by (auto simp: str_contains_iff)
  then have "p @ t @ q = (p @ a) @ m @ (b @ q)" by simp
  then show ?thesis unfolding str_contains_iff by blast
qed

lemma str_contains_lower: "str_contains s m \<Longrightarrow> str_contains (to_ascii_lowercase s) (to_ascii_lowercase m)"
proof -
  assume "str_contains s m"
  then obtain p q where "s = p @ m @ q" by (auto simp: str_contains_iff)
  then have "to_ascii_lowercase s = to_ascii_lowercase p @ to_ascii_lowercase m @ to_ascii_lowercase q"
    by (simp add: to_ascii_lowercase_def)
  then show ?thesis unfolding str_contains_iff by blast
qed

section \<open>Whitespace\<close>

text \<open>\<open>char::is_whitespace\<close>: the Unicode property White_Space.\<close>

definition char_is_whitespace :: "nat \<Rightarrow> bool" where
  "char_is_whitespace ch \<longleftrightarrow>
     0x09 \<le> ch \<and> ch \<le> 0x0D \<or> ch = 0x20 \<or> ch = 0x85 \<or> ch = 0xA0 \<or> ch = 0x1680 \<or>
     0x2000 \<le> ch \<and> ch \<le> 0x200A \<or> ch = 0x2028 \<or> ch = 0x2029 \<or> ch = 0x202F \<or> ch = 0x205F \<or> ch = 0x3000"

function trim_start :: "string \<Rightarrow> string" where
  "trim_start s =
     (case first_char s of
        None \<Rightarrow> []
      | Some ch \<Rightarrow> if char_is_whitespace ch then trim_start (drop (len_utf8 ch) s) else s)"
  by pat_completeness auto
termination
  by (relation "measure length")
    (auto simp: first_char_def split: option.splits dest!: byte_at_SomeD)

declare trim_start.simps [simp del]

lemma trim_start_ascii [simp]:
  "trim_start [] = []"
  "of_char a < (0x80::nat) \<Longrightarrow>
     trim_start (a # s) = (if char_is_whitespace (of_char a) then trim_start s else a # s)"
  by (subst trim_start.simps, simp)
    (subst trim_start.simps, simp add: first_char_ascii len_utf8_def)

definition is_ascii_whitespace :: "char \<Rightarrow> bool" where
  "is_ascii_whitespace c \<longleftrightarrow> c \<in> {SP, TAB, LF, FF, CR}"

function split_ascii_whitespace :: "string \<Rightarrow> string list" where
  "split_ascii_whitespace s =
     (let t = dropWhile is_ascii_whitespace s in
      if t = [] then []
      else takeWhile (\<lambda>c. \<not> is_ascii_whitespace c) t #
           split_ascii_whitespace (dropWhile (\<lambda>c. \<not> is_ascii_whitespace c) t))"
  by pat_completeness auto
termination
proof (relation "measure length", simp)
  fix s t :: string
  assume t: "t = dropWhile is_ascii_whitespace s" "t \<noteq> []"
  then have h: "\<not> is_ascii_whitespace (hd t)" by (simp add: hd_dropWhile)
  with t(2) have "length (dropWhile (\<lambda>c. \<not> is_ascii_whitespace c) t) < length t"
    by (cases t) (simp_all add: length_dropWhile_le le_imp_less_Suc)
  also have "length t \<le> length s" unfolding t(1) by (rule length_dropWhile_le)
  finally show "(dropWhile (\<lambda>c. \<not> is_ascii_whitespace c) t, s) \<in> measure length" by simp
qed

declare split_ascii_whitespace.simps [simp del]

lemma trim_start_suffix: "\<exists>p. s = p @ trim_start s"
proof (induction s rule: trim_start.induct)
  case (1 s)
  show ?case
  proof (cases "first_char s")
    case None
    then show ?thesis by (simp add: trim_start.simps [of "[]"])
  next
    case (Some ch)
    show ?thesis
    proof (cases "char_is_whitespace ch")
      case True
      from "1" [OF Some True] obtain p where "drop (len_utf8 ch) s = p @ trim_start (drop (len_utf8 ch) s)" by blast
      then have "s = (take (len_utf8 ch) s @ p) @ trim_start (drop (len_utf8 ch) s)"
        by (metis append.assoc append_take_drop_id)
      moreover have "trim_start s = trim_start (drop (len_utf8 ch) s)"
        using Some True by (simp add: trim_start.simps [of s])
      ultimately show ?thesis by metis
    next
      case False
      with Some show ?thesis by (simp add: trim_start.simps [of s])
    qed
  qed
qed

section \<open>Lines\<close>

text \<open>\<open>str::lines\<close>: split after every line feed, dropping it and one carriage return before it.\<close>

definition strip_cr :: "string \<Rightarrow> string" where
  "strip_cr l = (if l \<noteq> [] \<and> last l = CR then butlast l else l)"

function str_lines :: "string \<Rightarrow> string list" where
  "str_lines s =
     (if s = [] then []
      else (case dropWhile (\<lambda>c. c \<noteq> LF) s of
              [] \<Rightarrow> [s]
            | _ # t \<Rightarrow> strip_cr (takeWhile (\<lambda>c. c \<noteq> LF) s) # str_lines t))"
  by pat_completeness auto
termination
proof (relation "measure length", simp)
  fix s t :: string and c
  assume "dropWhile (\<lambda>c. c \<noteq> LF) s = c # t"
  then have "Suc (length t) \<le> length s" by (metis length_Cons length_dropWhile_le)
  then show "(t, s) \<in> measure length" by simp
qed

declare str_lines.simps [simp del]

lemma str_lines_Nil [simp]: "str_lines [] = []"
  by (simp add: str_lines.simps)

lemma str_lines_line: "LF \<notin> set l \<Longrightarrow> str_lines (l @ LF # t) = strip_cr l # str_lines t"
  by (subst str_lines.simps) (auto simp: dropWhile_append takeWhile_append)

lemma str_lines_last: "LF \<notin> set l \<Longrightarrow> str_lines l = (if l = [] then [] else [l])"
  by (subst str_lines.simps, subst dropWhile_eq_Nil_conv [THEN iffD2]) auto

lemma line_split_cases:
  obtains "LF \<notin> set s" | l t where "s = l @ LF # t" "LF \<notin> set l"
proof (cases "LF \<in> set s")
  case True
  from split_list_first [OF this] that(2) show ?thesis by blast
qed (rule that(1))

lemma str_lines_append: "str_lines (s @ LF # t) = str_lines (s @ [LF]) @ str_lines t"
proof (induction "length s" arbitrary: s rule: less_induct)
  case less
  show ?case
  proof (cases s rule: line_split_cases)
    case 1
    then show ?thesis by (simp add: str_lines_line)
  next
    case (2 l u)
    with less [of u] str_lines_line [of l] show ?thesis by simp
  qed
qed

text \<open>A text that is empty or ends with a line feed, so that whatever follows starts a line.\<close>

definition whole_lines :: "string \<Rightarrow> bool" where
  "whole_lines s \<longleftrightarrow> s = [] \<or> last s = LF"

lemma str_lines_whole: "whole_lines s \<Longrightarrow> str_lines (s @ t) = str_lines s @ str_lines t"
proof (cases s rule: rev_cases)
  case (snoc u c)
  moreover assume "whole_lines s"
  ultimately have "s = u @ [LF]" by (simp add: whole_lines_def)
  then show ?thesis using str_lines_append [of u t] by simp
qed simp

lemma str_lines_within: "l \<in> set (str_lines s) \<Longrightarrow> \<exists>p q. s = p @ l @ q"
proof (induction "length s" arbitrary: s rule: less_induct)
  case less
  show ?case
  proof (cases s rule: line_split_cases)
    case 1
    with less.prems show ?thesis by (auto simp: str_lines_last split: if_splits intro: exI [of _ "[]"])
  next
    case (2 k u)
    with less.prems consider "l = strip_cr k" | "l \<in> set (str_lines u)" by (auto simp: str_lines_line)
    then show ?thesis
    proof cases
      case 1
      then have "\<exists>q. k = l @ q" by (auto simp: strip_cr_def) (metis append_butlast_last_id)
      with 2 show ?thesis by (metis append.assoc append_Nil)
    next
      case c: 2
      with less.hyps [of u] 2 obtain p q where "u = p @ l @ q" by auto
      with 2 have "s = (k @ LF # p) @ l @ q" by simp
      then show ?thesis by blast
    qed
  qed
qed

lemma str_lines_no_LF: "l \<in> set (str_lines s) \<Longrightarrow> LF \<notin> set l"
proof (induction "length s" arbitrary: s rule: less_induct)
  case less
  show ?case
  proof (cases s rule: line_split_cases)
    case 1
    with less.prems show ?thesis by (auto simp: str_lines_last split: if_splits)
  next
    case (2 k u)
    with less.prems consider "l = strip_cr k" | "l \<in> set (str_lines u)" by (auto simp: str_lines_line)
    then show ?thesis
    proof cases
      case 1
      with 2 show ?thesis by (auto simp: strip_cr_def dest: in_set_butlastD split: if_splits)
    next
      case c: 2
      with less.hyps [of u] 2 show ?thesis by auto
    qed
  qed
qed

end
