(* ===== verification/Dialect_Hints.thy ===== *)
theory Dialect_Hints
  imports Rust_Str
begin

text \<open>
  The content tiers of the dialect detector, \<open>tcl-registry/src/dialects.rs\<close>: the shebang, the
  word-boundary searches, the content signatures with their table and the textual markers of a hint.
  The lemmas decide each tier line by line.

  Not modelled here: the directive's environment lookup and the tokenised version guard, which need
  the environment registry and the lexer.
\<close>

section \<open>Words and versions\<close>

definition tcl_version_dialect :: "string \<Rightarrow> string option" where
  "tcl_version_dialect ver =
     (if ver = ''8.4'' then Some ''tcl8.4''
      else if ver = ''8.5'' then Some ''tcl8.5''
      else if ver = ''8.6'' then Some ''tcl8.6''
      else if ver = ''9.0'' then Some ''tcl9.0''
      else if ver = ''9.1'' then Some ''tcl9.1''
      else None)"

abbreviation byte_val :: "char \<Rightarrow> nat" where "byte_val c \<equiv> of_char c"

definition is_ascii_uppercase :: "char \<Rightarrow> bool" where
  "is_ascii_uppercase c \<longleftrightarrow> 65 \<le> byte_val c \<and> byte_val c \<le> 90"

definition is_ascii_digit :: "char \<Rightarrow> bool" where
  "is_ascii_digit c \<longleftrightarrow> 48 \<le> byte_val c \<and> byte_val c \<le> 57"

definition is_word_byte :: "char \<Rightarrow> bool" where
  "is_word_byte b \<longleftrightarrow>
     is_ascii_digit b \<or> is_ascii_uppercase b \<or> 97 \<le> byte_val b \<and> byte_val b \<le> 122 \<or> b = CHR ''_''"

text \<open>
  The search loops restart one byte after a failed match. A match begins with an ASCII byte of a
  non-empty literal, so the restart is inside the text and on a character boundary; the first test
  only makes the functions total.
\<close>

function has_word_from :: "string \<Rightarrow> string \<Rightarrow> nat \<Rightarrow> bool" where
  "has_word_from haystack word i =
     (if length haystack < i then False
      else (case str_find (drop i haystack) word of
              None \<Rightarrow> False
            | Some off \<Rightarrow>
                (let start = i + off; stop = start + length word;
                     before = (start = 0 \<or> \<not> is_word_byte (haystack ! (start - 1)));
                     after = (stop = length haystack \<or> \<not> is_word_byte (haystack ! stop))
                 in if before \<and> after then True else has_word_from haystack word (start + 1))))"
  by pat_completeness auto
termination
  by (relation "measure (\<lambda>(h, w, i). Suc (length h) - i)") auto

declare has_word_from.simps [simp del]

definition has_word :: "string \<Rightarrow> string \<Rightarrow> bool" where
  "has_word haystack word = has_word_from haystack word 0"

function shebang_shell_version_from :: "string \<Rightarrow> string \<Rightarrow> nat \<Rightarrow> string option" where
  "shebang_shell_version_from lower shell i =
     (if length lower < i then None
      else (case str_find (drop i lower) shell of
              None \<Rightarrow> None
            | Some off \<Rightarrow>
                (let start = i + off;
                     before = (start = 0 \<or> \<not> is_word_byte (lower ! (start - 1)));
                     d1 = start + length shell;
                     j1 = skip_while is_ascii_digit lower d1;
                     d2 = j1 + 1;
                     j2 = skip_while is_ascii_digit lower d2
                 in if before \<and> d1 < j1 \<and> byte_at lower j1 = Some (CHR ''.'') \<and> d2 < j2 \<and>
                       (j2 = length lower \<or> \<not> is_word_byte (lower ! j2))
                    then Some (subslice d1 j2 lower)
                    else shebang_shell_version_from lower shell (start + 1))))"
  by pat_completeness auto
termination
  by (relation "measure (\<lambda>(h, w, i). Suc (length h) - i)") auto

declare shebang_shell_version_from.simps [simp del]

definition shebang_shell_version :: "string \<Rightarrow> string \<Rightarrow> string option" where
  "shebang_shell_version lower shell = shebang_shell_version_from lower shell 0"

definition SHEBANG_TCL_SHELLS :: "string list" where
  "SHEBANG_TCL_SHELLS = [''tclsh'', ''wish'']"

fun find_map :: "('a \<Rightarrow> 'b option) \<Rightarrow> 'a list \<Rightarrow> 'b option" where
  "find_map f [] = None"
| "find_map f (x # xs) = (case f x of Some y \<Rightarrow> Some y | None \<Rightarrow> find_map f xs)"

definition shebang_tclsh_version :: "string \<Rightarrow> string option" where
  "shebang_tclsh_version lower = find_map (shebang_shell_version lower) SHEBANG_TCL_SHELLS"

definition shebang_dialect :: "string \<Rightarrow> string option" where
  "shebang_dialect source =
     (case str_lines source of
        [] \<Rightarrow> None
      | first # _ \<Rightarrow>
          (if \<not> starts_with ''#!'' first then None
           else (let lower = to_ascii_lowercase first in
                 if has_word lower ''expect'' then Some ''expect''
                 else Option.bind (shebang_tclsh_version lower) tcl_version_dialect)))"

section \<open>Content signatures\<close>

datatype header_arg = Integer

definition admits :: "header_arg \<Rightarrow> string \<Rightarrow> bool" where
  "admits arg word = (case arg of Integer \<Rightarrow> word \<noteq> [] \<and> list_all is_ascii_digit word)"

datatype signature = Words "string list" | Header string header_arg

function contains_token_from :: "string \<Rightarrow> string \<Rightarrow> nat \<Rightarrow> bool" where
  "contains_token_from haystack marker i =
     (if length haystack < i then False
      else (case str_find (drop i haystack) marker of
              None \<Rightarrow> False
            | Some off \<Rightarrow>
                (let whole_word = (marker \<noteq> [] \<and> is_word_byte (last marker) \<and> last marker \<noteq> CHR ''_'');
                     start = i + off;
                     left_ok = (start = 0 \<or> \<not> is_word_byte (haystack ! (start - 1)));
                     stop = start + length marker;
                     right_ok = (\<not> whole_word \<or> length haystack \<le> stop \<or> \<not> is_word_byte (haystack ! stop))
                 in if left_ok \<and> right_ok then True else contains_token_from haystack marker (start + 1))))"
  by pat_completeness auto
termination
  by (relation "measure (\<lambda>(h, w, i). Suc (length h) - i)") auto

declare contains_token_from.simps [simp del]

definition contains_token :: "string \<Rightarrow> string \<Rightarrow> bool" where
  "contains_token haystack marker = contains_token_from haystack marker 0"

definition header_line :: "string \<Rightarrow> header_arg \<Rightarrow> string \<Rightarrow> bool" where
  "header_line head arg line =
     (case split_ascii_whitespace line of
        w1 # w2 # _ \<Rightarrow> w1 = head \<and> admits arg w2
      | _ \<Rightarrow> False)"

definition signature_matches :: "string \<Rightarrow> signature \<Rightarrow> bool" where
  "signature_matches code sig =
     (case sig of
        Words markers \<Rightarrow> list_ex (contains_token code) markers
      | Header head arg \<Rightarrow> list_ex (header_line head arg) (str_lines code))"

definition CONTENT_SIGNATURES :: "(string \<times> signature) list" where
  "CONTENT_SIGNATURES =
    [(''sslictcl'', Header ''sslictcl'' Integer),
     (''spectcl'', Words [''speclib'']),
     (''f5-iapps'', Words [''iapp::'', ''tmsh::create_app'', ''sys application template'']),
     (''f5-tmsh'', Words [''tmsh::'', ''tmsh create'', ''tmsh modify'', ''tmsh list'']),
     (''xilinx-eda-tcl'',
      Words [''synth_design'', ''launch_runs'', ''create_bd_design'', ''write_bitstream'', ''create_project'',
             ''read_xdc'']),
     (''synopsys-eda-tcl'',
      Words [''compile_ultra'', ''dc_shell'', ''pt_shell'', ''icc2_shell'', ''fm_shell'', ''set_svf'',
             ''set_app_var'']),
     (''cadence-eda-tcl'',
      Words [''set_db'', ''get_db'', ''syn_generic'', ''place_opt_design'', ''innovus'', ''genus'',
             ''init_design'']),
     (''intel-quartus-eda-tcl'',
      Words [''quartus_'', ''::quartus::'', ''project_new'', ''set_global_assignment'',
             ''set_location_assignment'', ''execute_flow'']),
     (''mentor-eda-tcl'', Words [''vsim'', ''vlog'', ''vcom'', ''vlib'', ''vmap'', ''vopt'', ''questa'']),
     (''microchip-libero-eda-tcl'',
      Words [''run_designer'', ''select_libero_design_device'', ''smartpower_report_power'', ''export_prog_job'',
             ''pin_fix_all'', ''configure_tool'']),
     (''expect'', Words [''spawn'', ''expect_before'', ''send_user'', ''interact''])]"

definition signature_markers :: "signature \<Rightarrow> string list" where
  "signature_markers sig = (case sig of Words markers \<Rightarrow> markers | Header head arg \<Rightarrow> [head])"

definition dialect_hint_markers :: "string list" where
  "dialect_hint_markers =
     [''tcl-dialect:'', ''#!'', ''package'', ''vsatisfies'', ''when''] @
     concat (map (\<lambda>(_, sig). signature_markers sig) CONTENT_SIGNATURES)"

definition is_when_ident :: "char \<Rightarrow> bool" where
  "is_when_ident c \<longleftrightarrow> is_ascii_uppercase c \<or> is_ascii_digit c \<or> c = CHR ''_''"

definition irules_when_line :: "string \<Rightarrow> bool" where
  "irules_when_line line =
     (let t = trim_start line in
      if \<not> starts_with ''when'' t then False
      else (let rest = drop 4 t in
            case first_char rest of
              None \<Rightarrow> False
            | Some ch \<Rightarrow>
                if \<not> char_is_whitespace ch then False
                else (let name = trim_start rest in
                      if name = [] \<or> \<not> is_ascii_uppercase (hd name) then False
                      else (let ident = takeWhile is_when_ident name in
                            3 \<le> length ident \<and> starts_with ''{'' (trim_start (drop (length ident) name))))))"

definition has_irules_when :: "string \<Rightarrow> bool" where
  "has_irules_when head = list_ex irules_when_line (str_lines head)"

definition is_comment_line :: "string \<Rightarrow> bool" where
  "is_comment_line line \<longleftrightarrow> starts_with ''#'' (trim_start line)"

fun join_lines :: "string list \<Rightarrow> string" where
  "join_lines [] = []"
| "join_lines [l] = l"
| "join_lines (l # ls) = l @ LF # join_lines ls"

definition strip_comment_lines :: "string \<Rightarrow> string" where
  "strip_comment_lines source = join_lines (filter (\<lambda>line. \<not> is_comment_line line) (str_lines source))"

definition detect_from_content :: "string \<Rightarrow> string option" where
  "detect_from_content head =
     (if has_irules_when head then Some ''f5-irules''
      else (let code = strip_comment_lines head in
            find_map (\<lambda>(dialect, sig). if signature_matches code sig then Some dialect else None)
              CONTENT_SIGNATURES))"

definition DETECT_SCAN_BYTES :: nat where
  "DETECT_SCAN_BYTES = 8192"

fun scan_end :: "string \<Rightarrow> nat \<Rightarrow> nat" where
  "scan_end source 0 = 0"
| "scan_end source (Suc e) = (if \<not> is_char_boundary source (Suc e) then scan_end source e else Suc e)"

definition scan_head :: "string \<Rightarrow> string" where
  "scan_head source =
     (if length source \<le> DETECT_SCAN_BYTES then source else take (scan_end source DETECT_SCAN_BYTES) source)"

text \<open>The filter of the language server, \<open>tcl-lsp-server/src/lib.rs\<close>.\<close>

definition contains_dialect_hint_marker :: "string \<Rightarrow> bool" where
  "contains_dialect_hint_marker s =
     (let lower = to_ascii_lowercase s in list_ex (str_contains lower) dialect_hint_markers)"

section \<open>Tokens\<close>

definition token_in :: "string \<Rightarrow> string \<Rightarrow> bool" where
  "token_in h m \<longleftrightarrow> (\<exists>p q. h = p @ m @ q \<and> (p = [] \<or> \<not> is_word_byte (last p)) \<and>
     (is_word_byte (last m) \<and> last m \<noteq> CHR ''_'' \<longrightarrow> q = [] \<or> \<not> is_word_byte (hd q)))"

lemma token_inI:
  "h = p @ m @ q \<Longrightarrow> p = [] \<or> \<not> is_word_byte (last p) \<Longrightarrow>
   is_word_byte (last m) \<and> last m \<noteq> CHR ''_'' \<longrightarrow> q = [] \<or> \<not> is_word_byte (hd q) \<Longrightarrow> token_in h m"
  unfolding token_in_def by blast

definition token_at :: "string \<Rightarrow> string \<Rightarrow> nat \<Rightarrow> bool" where
  "token_at h m k \<longleftrightarrow> k \<le> length h \<and> starts_with m (drop k h) \<and> (k = 0 \<or> \<not> is_word_byte (h ! (k - 1))) \<and>
     (is_word_byte (last m) \<and> last m \<noteq> CHR ''_'' \<longrightarrow>
        length h \<le> k + length m \<or> \<not> is_word_byte (h ! (k + length m)))"

lemma token_at_prefix: "token_at (p @ m @ q) m (length p) \<longleftrightarrow>
    (p = [] \<or> \<not> is_word_byte (last p)) \<and>
    (is_word_byte (last m) \<and> last m \<noteq> CHR ''_'' \<longrightarrow> q = [] \<or> \<not> is_word_byte (hd q))"
proof -
  have "p \<noteq> [] \<Longrightarrow> (p @ m @ q) ! (length p - 1) = last p" by (simp add: nth_append last_conv_nth)
  moreover have "q \<noteq> [] \<Longrightarrow> (p @ m @ q) ! (length p + length m) = hd q" by (simp add: nth_append hd_conv_nth)
  ultimately show ?thesis by (auto simp: token_at_def)
qed

lemma token_at_iff: "(\<exists>k. token_at h m k) \<longleftrightarrow> token_in h m"
proof
  assume "\<exists>k. token_at h m k"
  then obtain k where k: "token_at h m k" by blast
  then obtain q where "drop k h = m @ q" by (auto simp: token_at_def starts_with_iff)
  then have h: "h = take k h @ m @ q" by (metis append_take_drop_id)
  moreover have "length (take k h) = k" using k by (simp add: token_at_def)
  ultimately show "token_in h m" unfolding token_in_def
    using k token_at_prefix [of "take k h" m q] by metis
next
  assume "token_in h m"
  then obtain p q where pq: "h = p @ m @ q" "p = [] \<or> \<not> is_word_byte (last p)"
    "is_word_byte (last m) \<and> last m \<noteq> CHR ''_'' \<longrightarrow> q = [] \<or> \<not> is_word_byte (hd q)"
    unfolding token_in_def by blast
  then have "token_at h m (length p)" using token_at_prefix [of p m q] by simp
  then show "\<exists>k. token_at h m k" ..
qed

lemma contains_token_from_iff:
  "m \<noteq> [] \<Longrightarrow> contains_token_from h m i \<longleftrightarrow> (\<exists>k\<ge>i. token_at h m k)"
proof (induction h m i rule: contains_token_from.induct)
  case (1 h m i)
  show ?case
  proof (cases "length h < i \<or> str_find (drop i h) m = None")
    case True
    have "\<not> token_at h m k" if "i \<le> k" for k
    proof (cases "length h < i")
      case False
      with True have "str_find (drop i h) m = None" by blast
      from str_find_NoneD [OF this, of "k - i"] that show ?thesis by (simp add: token_at_def)
    qed (use that in \<open>simp add: token_at_def\<close>)
    with True show ?thesis by (subst contains_token_from.simps) auto
  next
    case False
    then obtain off where off: "str_find (drop i h) m = Some off" and i: "\<not> length h < i" by auto
    from str_find_SomeD [OF off] i
    have s: "i + off \<le> length h" "starts_with m (drop (i + off) h)" "\<And>j. j < off \<Longrightarrow> \<not> starts_with m (drop (i + j) h)"
      by (auto simp: add.commute)
    have least: "i + off \<le> k" if "token_at h m k" "i \<le> k" for k
      using that s(3) [of "k - i"] by (force simp: token_at_def)
    let ?ok = "(i + off = 0 \<or> \<not> is_word_byte (h ! (i + off - 1))) \<and>
        (\<not> (m \<noteq> [] \<and> is_word_byte (last m) \<and> last m \<noteq> CHR ''_'') \<or> length h \<le> i + off + length m \<or>
         \<not> is_word_byte (h ! (i + off + length m)))"
    have ok: "?ok \<longleftrightarrow> token_at h m (i + off)"
      using s(1,2) "1.prems" by (auto simp: token_at_def)
    have u: "contains_token_from h m i \<longleftrightarrow> (if ?ok then True else contains_token_from h m (i + off + 1))"
      using off i by (subst contains_token_from.simps) (simp add: Let_def)
    show ?thesis
    proof (cases ?ok)
      case True
      with ok have "token_at h m (i + off)" by blast
      then have "\<exists>k\<ge>i. token_at h m k" by (metis le_add1)
      with True u show ?thesis by simp
    next
      case bad: False
      have "contains_token_from h m i \<longleftrightarrow> contains_token_from h m (i + off + 1)" by (rule u [unfolded if_not_P [OF bad]])
      also have "\<dots> \<longleftrightarrow> (\<exists>k\<ge>i + off + 1. token_at h m k)"
        by (rule "1.IH" [OF i off refl refl refl refl refl bad "1.prems"])
      also have "\<dots> \<longleftrightarrow> (\<exists>k\<ge>i. token_at h m k)"
      proof -
        have nb: "\<not> token_at h m (i + off)" using bad unfolding ok .
        have "i + off + 1 \<le> k" if "token_at h m k" "i \<le> k" for k
          using least [OF that] that(1) nb by (cases "k = i + off") auto
        moreover have "i \<le> k" if "i + off + 1 \<le> k" for k using that by simp
        ultimately show ?thesis by blast
      qed
      finally show ?thesis .
    qed
  qed
qed

lemma contains_token_iff: "m \<noteq> [] \<Longrightarrow> contains_token h m \<longleftrightarrow> token_in h m"
  by (simp add: contains_token_def contains_token_from_iff flip: token_at_iff)

lemma token_in_contains: "token_in h m \<Longrightarrow> str_contains h m"
  by (auto simp: token_in_def str_contains_iff)

lemma token_in_Nil [simp]: "m \<noteq> [] \<Longrightarrow> \<not> token_in [] m"
  by (simp add: token_in_def)

lemma LF_no_word [simp]: "\<not> is_word_byte LF"
  by (simp add: is_word_byte_def is_ascii_digit_def is_ascii_uppercase_def)

lemma token_in_split:
  assumes "m \<noteq> []" "LF \<notin> set m"
  shows "token_in (l @ LF # t) m \<longleftrightarrow> token_in l m \<or> token_in t m"
proof
  assume "token_in (l @ LF # t) m"
  then obtain p q where eq: "l @ LF # t = p @ m @ q" and p: "p = [] \<or> \<not> is_word_byte (last p)"
    and q: "is_word_byte (last m) \<and> last m \<noteq> CHR ''_'' \<longrightarrow> q = [] \<or> \<not> is_word_byte (hd q)"
    unfolding token_in_def by blast
  from eq consider u where "l = p @ u" "u @ LF # t = m @ q" | u where "p = l @ u" "LF # t = u @ m @ q"
    by (auto simp: append_eq_append_conv2)
  then show "token_in l m \<or> token_in t m"
  proof cases
    case 1
    obtain v where v: "u = m @ v" "q = v @ LF # t"
    proof -
      from 1(2) have "\<exists>v. (u = m @ v \<and> v @ LF # t = q) \<or> (u @ v = m \<and> LF # t = v @ q)"
        by (simp add: append_eq_append_conv2)
      then consider v where "u = m @ v" "v @ LF # t = q" | v where "u @ v = m" "LF # t = v @ q" by blast
      then show thesis
      proof cases
        case b: 2
        with assms(2) have "v = []" by (cases v) auto
        with b that [of "[]"] show thesis by simp
      qed (use that in blast)
    qed
    have "q \<noteq> []" "v = [] \<or> hd v = hd q" by (cases v; simp add: v(2))+
    with q have "is_word_byte (last m) \<and> last m \<noteq> CHR ''_'' \<longrightarrow> v = [] \<or> \<not> is_word_byte (hd v)" by metis
    moreover have "l = p @ m @ v" using 1(1) v(1) by simp
    moreover note p
    ultimately have "token_in l m" by (rule token_inI [rotated 2])
    then show ?thesis ..
  next
    case 2
    obtain v where v: "u = LF # v" "t = v @ m @ q"
    proof (cases u)
      case Nil
      with 2(2) assms show thesis by (cases m) auto
    qed (use 2(2) that in auto)
    have "v = [] \<or> last v = last p" by (simp add: 2(1) v(1))
    with 2(1) v(1) p have "v = [] \<or> \<not> is_word_byte (last v)" by auto
    with v(2) q have "token_in t m" by (intro token_inI)
    then show ?thesis ..
  qed
next
  assume "token_in l m \<or> token_in t m"
  then show "token_in (l @ LF # t) m"
  proof
    assume "token_in l m"
    then obtain p q where l: "l = p @ m @ q" "p = [] \<or> \<not> is_word_byte (last p)"
      "is_word_byte (last m) \<and> last m \<noteq> CHR ''_'' \<longrightarrow> q = [] \<or> \<not> is_word_byte (hd q)"
      unfolding token_in_def by blast
    from l(1) have "l @ LF # t = p @ m @ (q @ LF # t)" by simp
    moreover from l(3) have "is_word_byte (last m) \<and> last m \<noteq> CHR ''_'' \<longrightarrow> \<not> is_word_byte (hd (q @ LF # t))"
      by (cases q) simp_all
    ultimately show ?thesis using l(2) by (intro token_inI) auto
  next
    assume "token_in t m"
    then obtain p q where t: "t = p @ m @ q" "p = [] \<or> \<not> is_word_byte (last p)"
      "is_word_byte (last m) \<and> last m \<noteq> CHR ''_'' \<longrightarrow> q = [] \<or> \<not> is_word_byte (hd q)"
      unfolding token_in_def by blast
    from t(1) have "l @ LF # t = (l @ LF # p) @ m @ q" by simp
    moreover from t(2) have "\<not> is_word_byte (last (l @ LF # p))" by auto
    ultimately show ?thesis using t(3) by (intro token_inI) auto
  qed
qed

lemma contains_token_join:
  assumes "m \<noteq> []" "LF \<notin> set m"
  shows "contains_token (join_lines ls) m \<longleftrightarrow> list_ex (\<lambda>l. contains_token l m) ls"
  unfolding contains_token_iff [OF assms(1)]
  by (induction ls rule: join_lines.induct) (simp_all add: assms token_in_split)

section \<open>Header lines\<close>

lemma split_ascii_whitespace_step:
  "dropWhile is_ascii_whitespace s = t \<Longrightarrow> t \<noteq> [] \<Longrightarrow>
   split_ascii_whitespace s = takeWhile (\<lambda>c. \<not> is_ascii_whitespace c) t #
     split_ascii_whitespace (dropWhile (\<lambda>c. \<not> is_ascii_whitespace c) t)"
  by (subst split_ascii_whitespace.simps) (simp only: Let_def if_False)

lemma split_ascii_whitespace_snoc:
  "is_ascii_whitespace w \<Longrightarrow> split_ascii_whitespace (s @ [w]) = split_ascii_whitespace s"
proof (induction s rule: split_ascii_whitespace.induct)
  case (1 s)
  let ?t = "dropWhile is_ascii_whitespace s"
  show ?case
  proof (cases "?t = []")
    case True
    then have "\<forall>c\<in>set s. is_ascii_whitespace c" by (simp add: dropWhile_eq_Nil_conv)
    with "1.prems" have "dropWhile is_ascii_whitespace (s @ [w]) = []" by (simp add: dropWhile_eq_Nil_conv)
    with True show ?thesis by (simp add: split_ascii_whitespace.simps [of s] split_ascii_whitespace.simps [of "s @ [w]"])
  next
    case False
    then have d: "dropWhile is_ascii_whitespace (s @ [w]) = ?t @ [w]" by (metis dropWhile_append3 dropWhile_append1 dropWhile_eq_Nil_conv)
    have tw: "takeWhile (\<lambda>c. \<not> is_ascii_whitespace c) (?t @ [w]) = takeWhile (\<lambda>c. \<not> is_ascii_whitespace c) ?t"
      using "1.prems" by (simp add: takeWhile_tail)
    have snoc: "?t @ [w] \<noteq> []" by simp
    have dw: "dropWhile (\<lambda>c. \<not> is_ascii_whitespace c) (?t @ [w]) = dropWhile (\<lambda>c. \<not> is_ascii_whitespace c) ?t @ [w]"
      using "1.prems" by (simp add: dropWhile_append dropWhile_eq_Nil_conv)
    show ?thesis
      using "1.IH" [OF refl False "1.prems"]
      unfolding split_ascii_whitespace_step [OF refl False] split_ascii_whitespace_step [OF d snoc] tw dw by simp
  qed
qed

lemma header_line_strip_cr: "header_line head arg (strip_cr l) = header_line head arg l"
proof (cases "l \<noteq> [] \<and> last l = CR")
  case True
  then have "l = butlast l @ [CR]" by (metis append_butlast_last_id)
  with True split_ascii_whitespace_snoc [of CR "butlast l"] show ?thesis
    by (simp add: header_line_def strip_cr_def is_ascii_whitespace_def)
qed (auto simp: strip_cr_def)

lemma header_line_Nil [simp]: "\<not> header_line head arg []"
  by (simp add: header_line_def split_ascii_whitespace.simps)

lemma list_ex_join_lines:
  assumes "\<And>l. P (strip_cr l) = P l" "\<not> P []"
  shows "\<forall>l\<in>set ls. LF \<notin> set l \<Longrightarrow> list_ex P (str_lines (join_lines ls)) = list_ex P ls"
  by (induction ls rule: join_lines.induct) (auto simp: assms str_lines_last str_lines_line)

lemma split_ascii_whitespace_within: "w \<in> set (split_ascii_whitespace s) \<Longrightarrow> str_contains s w"
proof (induction s rule: split_ascii_whitespace.induct)
  case (1 s)
  let ?t = "dropWhile is_ascii_whitespace s"
  let ?d = "dropWhile (\<lambda>c. \<not> is_ascii_whitespace c) ?t"
  have s: "s = takeWhile is_ascii_whitespace s @ takeWhile (\<lambda>c. \<not> is_ascii_whitespace c) ?t @ ?d" by simp
  have t: "?t \<noteq> []" using "1.prems" by (subst (asm) split_ascii_whitespace.simps) (auto simp only: Let_def list.set split: if_splits)
  from "1.prems" consider "w = takeWhile (\<lambda>c. \<not> is_ascii_whitespace c) ?t" | "w \<in> set (split_ascii_whitespace ?d)"
    unfolding split_ascii_whitespace_step [OF refl t] by auto
  then show ?case
  proof cases
    case 1
    with s show ?thesis unfolding str_contains_iff by blast
  next
    case 2
    from "1.IH" [OF refl t this] show ?thesis
      using str_contains_mono [of ?d w "takeWhile is_ascii_whitespace s @ takeWhile (\<lambda>c. \<not> is_ascii_whitespace c) ?t" "[]"] s
      by (metis append.assoc append_Nil2)
  qed
qed

section \<open>Detection line by line\<close>

definition signature_line :: "signature \<Rightarrow> string \<Rightarrow> bool" where
  "signature_line sig line \<longleftrightarrow> \<not> is_comment_line line \<and>
     (case sig of
        Words markers \<Rightarrow> list_ex (contains_token line) markers
      | Header head arg \<Rightarrow> header_line head arg line)"

definition literal_markers :: "string list \<Rightarrow> bool" where
  "literal_markers = list_all (\<lambda>m. m \<noteq> [] \<and> LF \<notin> set m \<and> to_ascii_lowercase m = m)"

lemma markers_literal: "literal_markers dialect_hint_markers"
  unfolding literal_markers_def dialect_hint_markers_def CONTENT_SIGNATURES_def signature_markers_def
  by (simp add: to_ascii_lowercase_def)

lemma signature_markers_literal:
  "(d, sig) \<in> set CONTENT_SIGNATURES \<Longrightarrow> m \<in> set (signature_markers sig) \<Longrightarrow>
     m \<in> set dialect_hint_markers \<and> m \<noteq> [] \<and> LF \<notin> set m"
proof -
  assume "(d, sig) \<in> set CONTENT_SIGNATURES" "m \<in> set (signature_markers sig)"
  then have m: "m \<in> set dialect_hint_markers" by (force simp: dialect_hint_markers_def)
  with markers_literal show ?thesis by (auto simp: literal_markers_def list_all_iff)
qed

lemma list_ex_swap: "list_ex (\<lambda>x. list_ex (P x) ys) xs = list_ex (\<lambda>y. list_ex (\<lambda>x. P x y) xs) ys"
  by (auto simp: list_ex_iff)

lemma signature_matches_lines:
  assumes "(d, sig) \<in> set CONTENT_SIGNATURES"
  shows "signature_matches (strip_comment_lines s) sig \<longleftrightarrow> list_ex (signature_line sig) (str_lines s)"
proof (cases sig)
  case (Words ms)
  then have ms: "\<forall>m\<in>set ms. m \<noteq> [] \<and> LF \<notin> set m"
    using signature_markers_literal [OF assms] by (simp add: signature_markers_def)
  have "signature_matches (strip_comment_lines s) sig \<longleftrightarrow>
      list_ex (\<lambda>m. list_ex (\<lambda>l. contains_token l m) (filter (\<lambda>line. \<not> is_comment_line line) (str_lines s))) ms"
    using ms by (auto simp: signature_matches_def Words strip_comment_lines_def list_ex_iff contains_token_join)
  also have "\<dots> \<longleftrightarrow> list_ex (signature_line sig) (str_lines s)"
    by (auto simp: signature_line_def Words list_ex_iff)
  finally show ?thesis .
next
  case (Header head arg)
  have "list_ex (header_line head arg) (str_lines (strip_comment_lines s)) =
      list_ex (header_line head arg) (filter (\<lambda>line. \<not> is_comment_line line) (str_lines s))"
    unfolding strip_comment_lines_def
    by (rule list_ex_join_lines) (auto simp: header_line_strip_cr dest: str_lines_no_LF)
  then show ?thesis by (auto simp: signature_matches_def signature_line_def Header list_ex_iff)
qed

lemma find_map_cong:
  "(\<And>x. x \<in> set xs \<Longrightarrow> f x = g x) \<Longrightarrow> find_map f xs = find_map g xs"
  by (induction xs) (auto split: option.splits)

text \<open>The detector's answer depends only on which kinds of line occur.\<close>

lemma detect_from_content_lines:
  assumes "list_ex irules_when_line (str_lines s) = list_ex irules_when_line (str_lines t)"
    and "\<And>d sig. (d, sig) \<in> set CONTENT_SIGNATURES \<Longrightarrow>
      list_ex (signature_line sig) (str_lines s) = list_ex (signature_line sig) (str_lines t)"
  shows "detect_from_content s = detect_from_content t"
proof -
  have "find_map (\<lambda>(dialect, sig). if signature_matches (strip_comment_lines s) sig then Some dialect else None)
      CONTENT_SIGNATURES =
    find_map (\<lambda>(dialect, sig). if signature_matches (strip_comment_lines t) sig then Some dialect else None)
      CONTENT_SIGNATURES"
    by (rule find_map_cong) (auto simp: signature_matches_lines assms(2))
  with assms(1) show ?thesis by (simp add: detect_from_content_def has_irules_when_def Let_def)
qed

text \<open>A line that matches a signature holds one of its markers.\<close>

lemma signature_line_marker:
  "(d, sig) \<in> set CONTENT_SIGNATURES \<Longrightarrow> signature_line sig l \<Longrightarrow>
     \<exists>m\<in>set (signature_markers sig). m \<in> set dialect_hint_markers \<and> str_contains l m"
proof -
  assume sig: "(d, sig) \<in> set CONTENT_SIGNATURES" and l: "signature_line sig l"
  note lit = signature_markers_literal [OF sig]
  have "\<exists>m\<in>set (signature_markers sig). str_contains l m"
  proof (cases sig)
    case (Words ms)
    with l lit token_in_contains show ?thesis
      by (fastforce simp: signature_line_def signature_markers_def list_ex_iff contains_token_iff)
  next
    case (Header head arg)
    with l have "head \<in> set (split_ascii_whitespace l)"
      by (auto simp: signature_line_def header_line_def split: list.splits)
    with Header split_ascii_whitespace_within [of head l] show ?thesis by (simp add: signature_markers_def)
  qed
  with lit show ?thesis by blast
qed

text \<open>A line without a marker decides nothing.\<close>

lemma markerless_line:
  assumes "\<not> contains_dialect_hint_marker s" "l \<in> set (str_lines s)"
  shows "\<not> irules_when_line l" "(d, sig) \<in> set CONTENT_SIGNATURES \<Longrightarrow> \<not> signature_line sig l"
proof -
  have no: "\<not> str_contains l m" if "m \<in> set dialect_hint_markers" for m
  proof
    assume "str_contains l m"
    from str_lines_within [OF assms(2)] obtain p q where "s = p @ l @ q" by blast
    with str_contains_mono [OF \<open>str_contains l m\<close>] have "str_contains s m" by simp
    from str_contains_lower [OF this] markers_literal that
    have "str_contains (to_ascii_lowercase s) m" by (auto simp: literal_markers_def list_all_iff)
    with assms(1) that show False by (auto simp: contains_dialect_hint_marker_def Let_def list_ex_iff)
  qed
  have w: "''when'' \<in> set dialect_hint_markers" by (simp add: dialect_hint_markers_def)
  show "\<not> irules_when_line l"
  proof
    assume "irules_when_line l"
    then have "starts_with ''when'' (trim_start l)" by (auto simp: irules_when_line_def Let_def split: if_splits)
    then obtain t where "trim_start l = ''when'' @ t" unfolding starts_with_iff by blast
    moreover obtain p where "l = p @ trim_start l" using trim_start_suffix by blast
    ultimately have "str_contains l ''when''" unfolding str_contains_iff by metis
    with no [OF w] show False by blast
  qed
  assume sig: "(d, sig) \<in> set CONTENT_SIGNATURES"
  show "\<not> signature_line sig l" using signature_line_marker [OF sig] no by blast
qed

lemma markerless_lines:
  assumes "\<not> contains_dialect_hint_marker s"
  shows "\<not> list_ex irules_when_line (str_lines s)"
    "(d, sig) \<in> set CONTENT_SIGNATURES \<Longrightarrow> \<not> list_ex (signature_line sig) (str_lines s)"
  using markerless_line [OF assms] by (auto simp: list_ex_iff)

lemma find_map_None: "(\<And>x. x \<in> set xs \<Longrightarrow> f x = None) \<Longrightarrow> find_map f xs = None"
  by (induction xs) auto

text \<open>A text of empty lines and comments decides nothing.\<close>

lemma quiet_lines:
  "\<forall>l\<in>set (str_lines s). l = [] \<or> is_comment_line l \<and> \<not> starts_with ''when'' (trim_start l) \<Longrightarrow> detect_from_content s = None"
proof -
  assume q: "\<forall>l\<in>set (str_lines s). l = [] \<or> is_comment_line l \<and> \<not> starts_with ''when'' (trim_start l)"
  have e: "\<not> irules_when_line []" by (simp add: irules_when_line_def trim_start.simps)
  have "\<not> signature_line sig []" if "(d, sig) \<in> set CONTENT_SIGNATURES" for d sig
    using signature_markers_literal [OF that]
    by (cases sig) (auto simp: signature_line_def signature_markers_def list_ex_iff contains_token_iff)
  with q have "\<not> list_ex (signature_line sig) (str_lines s)" if "(d, sig) \<in> set CONTENT_SIGNATURES" for d sig
    using that by (auto simp: list_ex_iff signature_line_def)
  moreover have "\<not> list_ex irules_when_line (str_lines s)"
    using q e by (fastforce simp: list_ex_iff irules_when_line_def Let_def)
  moreover have "str_lines [] = []" by simp
  ultimately have "detect_from_content s = detect_from_content []"
    by (intro detect_from_content_lines) auto
  also have "\<dots> = None"
    by (auto simp: detect_from_content_def has_irules_when_def signature_matches_lines intro!: find_map_None)
  finally show ?thesis .
qed

lemma str_lines_middle:
  assumes "whole_lines a" "whole_lines m \<or> c = []"
  shows "str_lines (a @ m @ c) = str_lines a @ str_lines m @ str_lines c"
  using assms by (auto simp: str_lines_whole)

lemma markerless_edit:
  assumes "whole_lines a" "whole_lines m \<and> whole_lines n \<or> c = []"
    and "\<not> contains_dialect_hint_marker m" "\<not> contains_dialect_hint_marker n"
  shows "detect_from_content (a @ m @ c) = detect_from_content (a @ n @ c)"
proof -
  have "str_lines (a @ m @ c) = str_lines a @ str_lines m @ str_lines c"
    "str_lines (a @ n @ c) = str_lines a @ str_lines n @ str_lines c"
    using assms(1,2) by (auto intro: str_lines_middle)
  then show ?thesis
    by (intro detect_from_content_lines)
      (simp_all add: markerless_lines [OF assms(3)] markerless_lines [OF assms(4)])
qed

end
