(* ===== verification/Document_Sync.thy ===== *)
theory Document_Sync
  imports Line_Index Dialect_Hints
begin

text \<open>
  The document store of the language server, \<open>tcl-lsp-server/src/lib.rs\<close>: the state kept per
  open document, incremental content changes through the persisted line index, the filter that decides
  whether an edit can touch a dialect hint, and the critical sections of the notification handlers and
  of deferred publication, each a function on the map of open documents.

  \<open>None\<close> is a panic of the source. Byte-level decoding evidence is an opaque value of type
  \<open>'r\<close>. The dialect a handler resolves, and the results of disk reads, are arguments.
\<close>

section \<open>Document state\<close>

datatype document_publication = Pending | Salsa | Indexed

definition salsa_ready :: "document_publication \<Rightarrow> bool" where
  "salsa_ready p \<longleftrightarrow> p \<noteq> Pending"

definition indexed :: "document_publication \<Rightarrow> bool" where
  "indexed p \<longleftrightarrow> p = Indexed"

record 'r document_state =
  doc_text :: string
  raw_text :: "string option"
  doc_index :: line_index
  has_bare_cr :: bool
  decode_report :: "'r option"
  doc_dialect :: string
  language_id :: string
  revision :: nat
  doc_version :: "i32 option"
  backing_file_deleted :: bool
  publication :: document_publication
  dialect_resolution_generation :: nat
  resolved_dialect_generation :: nat

text \<open>\<open>u64::saturating_add(1)\<close>.\<close>

definition saturating_inc :: "nat \<Rightarrow> nat" where
  "saturating_inc n = (if n < 2 ^ 64 - 1 then n + 1 else 2 ^ 64 - 1)"

definition document_new :: "string \<Rightarrow> string \<Rightarrow> 'r document_state option" where
  "document_new src dialect =
     map_option (\<lambda>idx.
       \<lparr>doc_text = src, raw_text = None, doc_index = idx, has_bare_cr = contains_bare_cr src,
        decode_report = None, doc_dialect = dialect, language_id = [], revision = 0, doc_version = None,
        backing_file_deleted = False, publication = Indexed, dialect_resolution_generation = 0,
        resolved_dialect_generation = 0\<rparr>) (line_index_new_lsp src)"

definition document_with_version :: "string \<Rightarrow> string \<Rightarrow> i32 \<Rightarrow> 'r document_state option" where
  "document_with_version src dialect version =
     map_option (\<lambda>idx.
       \<lparr>doc_text = src, raw_text = None, doc_index = idx, has_bare_cr = contains_bare_cr src,
        decode_report = None, doc_dialect = dialect, language_id = [], revision = 0, doc_version = Some version,
        backing_file_deleted = False, publication = Indexed, dialect_resolution_generation = 0,
        resolved_dialect_generation = 0\<rparr>) (line_index_new_lsp src)"

definition with_language_id :: "string \<Rightarrow> 'r document_state \<Rightarrow> 'r document_state" where
  "with_language_id lang d = d\<lparr>language_id := lang\<rparr>"

definition with_publication_pending :: "'r document_state \<Rightarrow> 'r document_state" where
  "with_publication_pending d = d\<lparr>publication := Pending\<rparr>"

definition doc_raw :: "'r document_state \<Rightarrow> string" where
  "doc_raw d = (case raw_text d of Some r \<Rightarrow> r | None \<Rightarrow> doc_text d)"

definition normalised_for_analysis :: "'r document_state \<Rightarrow> 'r document_state" where
  "normalised_for_analysis d =
     (if \<not> has_bare_cr d then d
      else d\<lparr>doc_text := normalise_lone_cr (doc_text d), raw_text := Some (doc_text d)\<rparr>)"

definition bump_revision :: "i32 \<Rightarrow> 'r document_state \<Rightarrow> 'r document_state" where
  "bump_revision version d =
     d\<lparr>revision := saturating_inc (revision d), doc_version := Some version, publication := Pending\<rparr>"

definition bump_analysis_generation :: "'r document_state \<Rightarrow> 'r document_state" where
  "bump_analysis_generation d = d\<lparr>revision := saturating_inc (revision d), publication := Pending\<rparr>"

definition matches_open_publication :: "string \<Rightarrow> string \<Rightarrow> i32 \<Rightarrow> 'r document_state \<Rightarrow> bool" where
  "matches_open_publication src dialect version d \<longleftrightarrow>
     doc_version d = Some version \<and> doc_text d = src \<and> doc_dialect d = dialect \<and> \<not> backing_file_deleted d"

definition matches_live_publication :: "string \<Rightarrow> string \<Rightarrow> nat \<Rightarrow> 'r document_state \<Rightarrow> bool" where
  "matches_live_publication src dialect at_rev d \<longleftrightarrow>
     revision d = at_rev \<and> doc_text d = src \<and> doc_dialect d = dialect \<and> \<not> backing_file_deleted d"

definition matches_live_source_publication :: "string \<Rightarrow> string \<Rightarrow> nat \<Rightarrow> 'r document_state \<Rightarrow> bool" where
  "matches_live_source_publication src dialect at_rev d \<longleftrightarrow>
     revision d = at_rev \<and> doc_text d = src \<and> doc_dialect d = dialect"

definition mark_dialect_resolution_dirty :: "'r document_state \<Rightarrow> 'r document_state" where
  "mark_dialect_resolution_dirty d =
     d\<lparr>dialect_resolution_generation := saturating_inc (dialect_resolution_generation d)\<rparr>"

definition dialect_resolution_pending :: "'r document_state \<Rightarrow> bool" where
  "dialect_resolution_pending d \<longleftrightarrow> dialect_resolution_generation d \<noteq> resolved_dialect_generation d"

section \<open>Content changes\<close>

record lsp_position =
  lsp_line :: nat
  lsp_character :: nat

record lsp_range =
  range_start :: lsp_position
  range_end :: lsp_position

text \<open>\<open>a.or_else(|| b)\<close>.\<close>

definition or_else :: "'a option \<Rightarrow> 'a option \<Rightarrow> 'a option" where
  "or_else a b = (case a of None \<Rightarrow> b | Some _ \<Rightarrow> a)"

definition edit_introduces_bare_cr :: "string \<Rightarrow> nat \<Rightarrow> nat \<Rightarrow> string \<Rightarrow> bool" where
  "edit_introduces_bare_cr src start stop new_text \<longleftrightarrow>
     (0 < start \<and> byte_at src (start - 1) = Some CR \<and> or_else (byte_at new_text 0) (byte_at src stop) \<noteq> Some LF) \<or>
     list_ex (\<lambda>i. new_text ! i = CR \<and> or_else (byte_at new_text (i + 1)) (byte_at src stop) \<noteq> Some LF)
       [0..<length new_text]"

definition offset_of :: "line_index \<Rightarrow> string \<Rightarrow> lsp_position \<Rightarrow> nat option" where
  "offset_of idx src p = offset_at_utf16 idx (lsp_line p) (lsp_character p) src"

definition apply_content_change_indexed ::
    "string \<Rightarrow> lsp_range option \<Rightarrow> string \<Rightarrow> line_index \<Rightarrow> bool \<Rightarrow> (string \<times> line_index \<times> bool) option" where
  "apply_content_change_indexed src rng new_text idx bare =
     (case rng of
        None \<Rightarrow> map_option (\<lambda>i. (new_text, i, contains_bare_cr new_text)) (line_index_new_lsp new_text)
      | Some r \<Rightarrow>
          (case (offset_of idx src (range_start r), offset_of idx src (range_end r)) of
             (Some a, Some b) \<Rightarrow>
               (let len = length src;
                    start = min (min a b) len;
                    stop = min (max a b) len
                in case (str_get src 0 start, str_get src stop len) of
                     (Some before, Some after) \<Rightarrow>
                       (let out = before @ new_text @ after in
                        if bare \<or> edit_introduces_bare_cr src start stop new_text
                        then map_option (\<lambda>i. (out, i, contains_bare_cr out)) (line_index_new_lsp out)
                        else if start < 2 ^ 32 \<and> stop < 2 ^ 32
                        then map_option (\<lambda>i. (out, i, bare)) (apply_edit idx start stop new_text)
                        else None)
                   | _ \<Rightarrow> None)
           | _ \<Rightarrow> None))"

definition DIALECT_HINT_LINE_MARGIN :: nat where
  "DIALECT_HINT_LINE_MARGIN = 20"

text \<open>The two differences of the capacity hint are \<open>usize\<close> subtractions, and can panic.\<close>

definition change_could_affect_dialect_hint ::
    "string \<Rightarrow> lsp_range option \<Rightarrow> string \<Rightarrow> line_index \<Rightarrow> bool option" where
  "change_could_affect_dialect_hint src rng new_text idx =
     (case rng of
        None \<Rightarrow> Some True
      | Some r \<Rightarrow>
          (if lsp_line (range_start r) < DIALECT_HINT_LINE_MARGIN then Some True
           else
             (let len = length src;
                  off = (\<lambda>l c. map_option (\<lambda>a. min a len) (offset_at_utf16 idx l c src));
                  first_line = min (lsp_line (range_start r)) (lsp_line (range_end r));
                  last_line = max (lsp_line (range_start r)) (lsp_line (range_end r))
              in case (off first_line 0, if last_line + 1 < line_count idx then off (last_line + 1) 0 else Some len) of
                   (Some line_from, Some line_to) \<Rightarrow>
                     (case str_get src line_from (max line_to line_from) of
                        None \<Rightarrow> None
                      | Some touched \<Rightarrow>
                          if contains_dialect_hint_marker touched then Some True
                          else
                            (case (off (lsp_line (range_start r)) (lsp_character (range_start r)),
                                   off (lsp_line (range_end r)) (lsp_character (range_end r))) of
                               (Some a, Some b) \<Rightarrow>
                                 (let cut_from = min a b; cut_to = max a b in
                                  if cut_from < line_from \<or> line_to < cut_to then None
                                  else (case (str_get src line_from cut_from, str_get src cut_to (max line_to cut_to)) of
                                          (Some p, Some q) \<Rightarrow> Some (contains_dialect_hint_marker (p @ new_text @ q))
                                        | _ \<Rightarrow> None))
                             | _ \<Rightarrow> None))
                 | _ \<Rightarrow> None)))"

record content_change =
  change_range :: "lsp_range option"
  change_text :: string

text \<open>The loop of \<open>did_change\<close> over the changes: the buffer, its index, the flags.\<close>

fun apply_changes ::
    "bool \<Rightarrow> content_change list \<Rightarrow> string \<times> line_index \<times> bool \<times> bool \<Rightarrow> (string \<times> line_index \<times> bool \<times> bool) option" where
  "apply_changes watch [] s = Some s"
| "apply_changes watch (c # cs) (src, idx, bare, hint) =
     (case (if watch \<and> \<not> hint then change_could_affect_dialect_hint src (change_range c) (change_text c) idx
            else Some False) of
        None \<Rightarrow> None
      | Some touched \<Rightarrow>
          (case apply_content_change_indexed src (change_range c) (change_text c) idx bare of
             None \<Rightarrow> None
           | Some (src', idx', bare') \<Rightarrow> apply_changes watch cs (src', idx', bare', hint \<or> touched)))"

section \<open>Content changes keep the document in step\<close>

lemma byte_at_append: "byte_at (xs @ ys) i = (if i < length xs then byte_at xs i else byte_at ys (i - length xs))"
  by (auto simp: byte_at_def nth_append)

lemma edit_keeps_clean:
  assumes "\<not> contains_bare_cr (a @ b @ c)"
    and "\<not> edit_introduces_bare_cr (a @ b @ c) (length a) (length a + length b) n"
  shows "\<not> contains_bare_cr (a @ n @ c)"
proof
  assume "contains_bare_cr (a @ n @ c)"
  then obtain i where i: "lone_cr_at (a @ n @ c) i" by (auto simp: bare_cr_iff)
  have clean: "\<not> lone_cr_at (a @ b @ c) j" for j using assms(1) by (simp add: bare_cr_iff)
  have after: "byte_at (a @ b @ c) (length a + length b) = byte_at c 0" by (simp add: byte_at_append)
  have next_n: "byte_at (n @ c) k = or_else (byte_at n k) (byte_at c 0)" if "k \<le> length n" for k
    using that by (auto simp: or_else_def byte_at_def nth_append)
  have seam: "\<not> (0 < length a \<and> byte_at (a @ b @ c) (length a - 1) = Some CR \<and> byte_at (n @ c) 0 \<noteq> Some LF)"
    and inner: "\<And>k. k < length n \<Longrightarrow> n ! k = CR \<Longrightarrow> byte_at (n @ c) (k + 1) = Some LF"
    using assms(2) next_n [of 0] by (auto simp: edit_introduces_bare_cr_def after next_n list_ex_iff)
  consider "i + 1 < length a" | "i + 1 = length a" | k where "i = length a + k" "k < length n"
    | k where "i = length a + length n + k"
  proof -
    have "i + 1 < length a \<or> i + 1 = length a \<or> (length a \<le> i \<and> i - length a < length n) \<or>
        length a + length n \<le> i" by linarith
    then show thesis using that le_Suc_ex [of "length a" i] le_Suc_ex [of "length a + length n" i] by auto
  qed
  then show False
  proof cases
    case 1
    with i clean [of i] show False by (auto simp: lone_cr_at_def byte_at_append)
  next
    case 2
    then have "byte_at (a @ n @ c) (i + 1) = byte_at (n @ c) 0" "byte_at (a @ n @ c) i = byte_at (a @ b @ c) i"
      by (auto simp: byte_at_append)
    moreover have "i = length a - 1" "0 < length a" using 2 by auto
    ultimately show False using i seam 2 by (auto simp: lone_cr_at_def)
  next
    case 3
    then have "byte_at (a @ n @ c) (i + 1) = byte_at (n @ c) (k + 1)" "byte_at (a @ n @ c) i = Some (n ! k)"
      by (auto simp: byte_at_append byte_at_def [of n])
    with i inner 3 show False by (auto simp: lone_cr_at_def)
  next
    case 4
    then have "lone_cr_at (a @ n @ c) i = lone_cr_at (a @ b @ c) (length a + length b + k)"
      by (simp add: lone_cr_at_def byte_at_append add.assoc)
    with i clean show False by simp
  qed
qed

text \<open>The index and the flag belong to the text.\<close>

definition synced :: "string \<Rightarrow> line_index \<Rightarrow> bool \<Rightarrow> bool" where
  "synced src idx bare \<longleftrightarrow> utf8_valid src \<and> line_index_new_lsp src = Some idx \<and> bare = contains_bare_cr src"

lemma line_index_new_lspD: "line_index_new_lsp s = Some idx \<Longrightarrow> length s < 2 ^ 32 \<and> idx = 0 # lsp_starts 0 s"
  using line_index_new_lsp_eq [of s] by (simp add: line_index_new_lsp_def split: if_splits)

lemma synced_offset:
  assumes "synced src idx bare"
  obtains a where "offset_of idx src p = Some a" "a \<le> length src" "is_char_boundary src a"
    "lsp_line p < length idx \<longrightarrow> idx ! lsp_line p \<le> a"
    "Suc (lsp_line p) < length idx \<longrightarrow> a < idx ! Suc (lsp_line p)"
    "length idx \<le> lsp_line p \<longrightarrow> a = length src"
proof -
  from assms have u: "utf8_valid src" and i: "idx = 0 # lsp_starts 0 src"
    by (auto simp: synced_def dest: line_index_new_lspD)
  obtain a where a: "offset_at_utf16 idx (lsp_line p) (lsp_character p) src = Some a" "a \<le> length src"
    "is_char_boundary src a" "lsp_line p < length idx \<Longrightarrow> idx ! lsp_line p \<le> a"
    "Suc (lsp_line p) < length idx \<Longrightarrow> a < idx ! Suc (lsp_line p)"
    using offset_at_ok [OF u i, of "lsp_line p" "lsp_character p"] by blast
  have "a = length src" if "length idx \<le> lsp_line p"
    using a(1) that by (simp add: offset_at_utf16_def)
  with a that show thesis unfolding offset_of_def by blast
qed

text \<open>The specification of one change: splice at the offsets a fresh index gives.\<close>

definition content_splice :: "string \<Rightarrow> lsp_range option \<Rightarrow> string \<Rightarrow> string option" where
  "content_splice src rng new_text =
     (case rng of
        None \<Rightarrow> Some new_text
      | Some r \<Rightarrow>
          Option.bind (line_index_new_lsp src) (\<lambda>idx.
            Option.bind (offset_of idx src (range_start r)) (\<lambda>a.
              map_option (\<lambda>b. take (min a b) src @ new_text @ drop (max a b) src)
                (offset_of idx src (range_end r)))))"

lemma splice_valid:
  assumes "utf8_valid src" "utf8_valid new_text" "is_char_boundary src a" "is_char_boundary src b"
    "a \<le> length src" "b \<le> length src"
  shows "utf8_valid (take a src @ new_text @ drop b src)"
  using assms utf8_valid_cut [of src a] utf8_valid_cut [of src b] by (simp add: utf8_valid_append)

lemma str_get_ends:
  "a \<le> length src \<Longrightarrow> is_char_boundary src a \<Longrightarrow> str_get src 0 a = Some (take a src)"
  "a \<le> length src \<Longrightarrow> is_char_boundary src a \<Longrightarrow> str_get src a (length src) = Some (drop a src)"
  by (simp_all add: str_get_def subslice_def is_char_boundary_def)

lemma patched_index:
  assumes "line_index_new_lsp src = Some idx" "\<not> contains_bare_cr src"
    and "start \<le> stop" "stop \<le> length src" "\<not> edit_introduces_bare_cr src start stop new_text"
    and "length src + length new_text < 2 ^ 32"
  shows "apply_edit idx start stop new_text = line_index_new_lsp (take start src @ new_text @ drop stop src)"
    "\<not> contains_bare_cr (take start src @ new_text @ drop stop src)"
proof -
  define a where "a = take start src"
  define b where "b = subslice start stop src"
  define c where "c = drop stop src"
  have src: "src = a @ b @ c" unfolding a_def b_def c_def
    using assms(3) subslice_append_subslice [of 0 start stop src]
    by (metis append.assoc append_take_drop_id drop0 minus_nat.diff_0 subslice_def zero_le)
  have len: "length a = start" "length b = stop - start" using assms(3,4) by (simp_all add: a_def b_def)
  have "\<not> contains_bare_cr (a @ new_text @ c)"
    using edit_keeps_clean [of a b c new_text] assms(2,3,5) len by (simp add: src [symmetric])
  then show clean: "\<not> contains_bare_cr (take start src @ new_text @ drop stop src)" by (simp add: a_def c_def)
  have bound: "length (a @ new_text @ c) < 2 ^ 32" using assms(3,4,6) by (simp add: a_def c_def)
  have "idx = 0 # nl_starts 0 (a @ b @ c)"
    using line_index_new_lspD [OF assms(1)] clean_starts [OF assms(2)] by (simp add: src [symmetric])
  with apply_edit_rebuild [OF bound, of b] len assms(3)
  have "apply_edit idx start stop new_text = Some (0 # nl_starts 0 (a @ new_text @ c))" by simp
  with line_index_new_lsp_eq [OF bound] clean_starts [of "a @ new_text @ c" 0] clean
  show "apply_edit idx start stop new_text = line_index_new_lsp (take start src @ new_text @ drop stop src)"
    by (simp add: a_def c_def)
qed

lemma content_change_splices:
  assumes s: "synced src idx bare" and n: "utf8_valid new_text" "length src + length new_text < 2 ^ 32"
  obtains out idx' where "apply_content_change_indexed src rng new_text idx bare = Some (out, idx', contains_bare_cr out)"
    "content_splice src rng new_text = Some out" "synced out idx' (contains_bare_cr out)"
    "length out \<le> length src + length new_text"
proof (cases rng)
  case None
  from n(2) have "line_index_new_lsp new_text = Some (0 # lsp_starts 0 new_text)" by (intro line_index_new_lsp_eq) simp
  with None n(1) show ?thesis
    by (intro that [of new_text "0 # lsp_starts 0 new_text"])
      (simp_all add: apply_content_change_indexed_def content_splice_def synced_def)
next
  case (Some r)
  obtain a where a: "offset_of idx src (range_start r) = Some a" "a \<le> length src" "is_char_boundary src a"
    using synced_offset [OF s] by metis
  obtain b where b: "offset_of idx src (range_end r) = Some b" "b \<le> length src" "is_char_boundary src b"
    using synced_offset [OF s] by metis
  define start where "start = min a b"
  define stop where "stop = max a b"
  define out where "out = take start src @ new_text @ drop stop src"
  have ss: "start \<le> stop" "stop \<le> length src" "is_char_boundary src start" "is_char_boundary src stop"
    using a b by (auto simp: start_def stop_def min_def max_def)
  have mm: "min start (length src) = start" "min stop (length src) = stop" using ss by auto
  have len: "length out \<le> length src + length new_text" using ss by (simp add: out_def)
  then have idx': "line_index_new_lsp out = Some (0 # lsp_starts 0 out)" using n(2) by (intro line_index_new_lsp_eq) simp
  from s have src: "utf8_valid src" "line_index_new_lsp src = Some idx" "bare = contains_bare_cr src" by (auto simp: synced_def)
  have u32: "start < 2 ^ 32" "stop < 2 ^ 32" using ss n(2) by auto
  have "apply_content_change_indexed src rng new_text idx bare =
      (if bare \<or> edit_introduces_bare_cr src start stop new_text
       then map_option (\<lambda>i. (out, i, contains_bare_cr out)) (line_index_new_lsp out)
       else map_option (\<lambda>i. (out, i, bare)) (apply_edit idx start stop new_text))"
    using ss u32 unfolding apply_content_change_indexed_def Some
    by (simp add: a(1) b(1) Let_def mm str_get_ends flip: start_def stop_def out_def)
  also have "\<dots> = Some (out, 0 # lsp_starts 0 out, contains_bare_cr out)"
    using patched_index [OF src(2) _ ss(1,2) _ n(2)] by (auto simp: idx' src(3) simp flip: out_def)
  finally have ap: "apply_content_change_indexed src rng new_text idx bare = Some (out, 0 # lsp_starts 0 out, contains_bare_cr out)" .
  have sp: "content_splice src rng new_text = Some out"
    using a(1) b(1) src(2) by (simp add: content_splice_def Some out_def start_def stop_def)
  have "utf8_valid out" unfolding out_def using splice_valid [OF src(1) n(1) ss(3,4)] ss by simp
  with idx' have "synced out (0 # lsp_starts 0 out) (contains_bare_cr out)" by (simp add: synced_def)
  with ap sp len show ?thesis by (intro that)
qed

section \<open>The hint filter\<close>

lemma walk_zero: "walk_utf16 s b 0 0 = (if s = [] then None else Some b)"
  by (subst walk_utf16.simps) (cases "first_char s"; auto)

lemma synced_line_offset:
  assumes "synced src idx bare"
  shows "l < length idx \<Longrightarrow> offset_at_utf16 idx l 0 src = Some (idx ! l)"
    "length idx \<le> l \<Longrightarrow> offset_at_utf16 idx l 0 src = Some (length src)"
proof -
  from assms have u: "utf8_valid src" and i: "idx = 0 # lsp_starts 0 src"
    by (auto simp: synced_def dest: line_index_new_lspD)
  show "offset_at_utf16 idx l 0 src = Some (idx ! l)" if l: "l < length idx"
  proof -
    note g = line_geometry [OF u i l refl refl refl]
    from g(1) g(2,3) have "subslice (idx ! l) (content_end src (idx ! l) (if l + 1 < length idx then idx ! (l + 1) else length src)) src = []
        \<Longrightarrow> content_end src (idx ! l) (if l + 1 < length idx then idx ! (l + 1) else length src) = idx ! l"
      using length_subslice [of "content_end src (idx ! l) (if l + 1 < length idx then idx ! (l + 1) else length src)" src "idx ! l"] by simp
    then show ?thesis unfolding g(6) walk_zero by simp
  qed
qed (simp add: offset_at_utf16_def)

lemma synced_lines:
  assumes "synced src idx bare"
  shows "0 < length idx" "x \<in> set idx \<Longrightarrow> is_char_boundary src x \<and> x \<le> length src"
    "i \<le> j \<Longrightarrow> j < length idx \<Longrightarrow> idx ! i \<le> idx ! j"
proof -
  from assms have u: "utf8_valid src" and i: "idx = 0 # lsp_starts 0 src"
    by (auto simp: synced_def dest: line_index_new_lspD)
  show "0 < length idx" by (simp add: i)
  show "x \<in> set idx \<Longrightarrow> is_char_boundary src x \<and> x \<le> length src"
    using line_start_boundary [OF u] i by blast
  have "sorted_wrt (<) idx" using lsp_starts_sorted [of 0 src] by (auto simp: i lsp_starts_set)
  then show "idx ! i \<le> idx ! j" if "i \<le> j" "j < length idx"
    using sorted_wrt_nth_less [of "(<)" idx i j] that by (cases "i = j") auto
qed

text \<open>The lines an edit touches: where they begin and end, and the edit inside them.\<close>

lemma touched_lines:
  fixes r :: lsp_range
  assumes s: "synced src idx bare"
  defines "fl \<equiv> min (lsp_line (range_start r)) (lsp_line (range_end r))"
    and "ll \<equiv> max (lsp_line (range_start r)) (lsp_line (range_end r))"
  obtains lo hi a b where
    "offset_at_utf16 idx fl 0 src = Some lo"
    "(if ll + 1 < line_count idx then offset_at_utf16 idx (ll + 1) 0 src else Some (length src)) = Some hi"
    "offset_of idx src (range_start r) = Some a" "offset_of idx src (range_end r) = Some b"
    "lo \<le> min a b" "max a b \<le> hi" "ll + 1 < length idx \<longrightarrow> max a b < hi" "hi \<le> length src"
    "is_char_boundary src lo" "is_char_boundary src hi" "is_char_boundary src a" "is_char_boundary src b"
    "fl < length idx \<longrightarrow> lo = idx ! fl"
    "ll + 1 < length idx \<longrightarrow> hi = idx ! (ll + 1)" "length idx \<le> ll + 1 \<longrightarrow> hi = length src"
proof -
  obtain a where a: "offset_of idx src (range_start r) = Some a" "a \<le> length src" "is_char_boundary src a"
    "lsp_line (range_start r) < length idx \<longrightarrow> idx ! lsp_line (range_start r) \<le> a"
    "Suc (lsp_line (range_start r)) < length idx \<longrightarrow> a < idx ! Suc (lsp_line (range_start r))"
    "length idx \<le> lsp_line (range_start r) \<longrightarrow> a = length src"
    by (rule synced_offset [OF s, of "range_start r"])
  obtain b where b: "offset_of idx src (range_end r) = Some b" "b \<le> length src" "is_char_boundary src b"
    "lsp_line (range_end r) < length idx \<longrightarrow> idx ! lsp_line (range_end r) \<le> b"
    "Suc (lsp_line (range_end r)) < length idx \<longrightarrow> b < idx ! Suc (lsp_line (range_end r))"
    "length idx \<le> lsp_line (range_end r) \<longrightarrow> b = length src"
    by (rule synced_offset [OF s, of "range_end r"])
  define lo where "lo = (if fl < length idx then idx ! fl else length src)"
  define hi where "hi = (if ll + 1 < length idx then idx ! (ll + 1) else length src)"
  note mono = synced_lines(3) [OF s]
  note inside = synced_lines(2) [OF s]
  have f: "offset_at_utf16 idx fl 0 src = Some lo" using synced_line_offset [OF s, of fl] by (auto simp: lo_def)
  have t: "(if ll + 1 < line_count idx then offset_at_utf16 idx (ll + 1) 0 src else Some (length src)) = Some hi"
    using synced_line_offset(1) [OF s, of "ll + 1"] by (auto simp: hi_def line_count_def)
  have len: "is_char_boundary src (length src)" by (simp add: is_char_boundary_def)
  have low: "lo \<le> x" if "l < length idx \<longrightarrow> idx ! l \<le> x" "length idx \<le> l \<longrightarrow> x = length src" "fl \<le> l" for l x
  proof (cases "l < length idx")
    case True
    with that mono [of fl l] show ?thesis by (auto simp: lo_def)
  next
    case False
    with that inside [of "idx ! fl"] show ?thesis by (auto simp: lo_def)
  qed
  have high: "x \<le> hi \<and> (ll + 1 < length idx \<longrightarrow> x < hi)"
    if "Suc l < length idx \<longrightarrow> x < idx ! Suc l" "x \<le> length src" "l \<le> ll" for l x
  proof (cases "ll + 1 < length idx")
    case True
    with that mono [of "Suc l" "ll + 1"] show ?thesis by (auto simp: hi_def)
  qed (use that in \<open>simp add: hi_def\<close>)
  have "fl \<le> lsp_line (range_start r)" "fl \<le> lsp_line (range_end r)" by (simp_all add: fl_def)
  with low [OF a(4,6)] low [OF b(4,6)] have 1: "lo \<le> min a b" by simp
  have "lsp_line (range_start r) \<le> ll" "lsp_line (range_end r) \<le> ll" by (simp_all add: ll_def)
  with high [OF a(5,2)] high [OF b(5,2)] have 2: "max a b \<le> hi" "ll + 1 < length idx \<longrightarrow> max a b < hi" by simp_all
  show thesis
    using that [OF f t a(1) b(1) 1 2] inside [of "idx ! fl"] inside [of "idx ! (ll + 1)"] len a(3) b(3)
    by (auto simp: lo_def hi_def)
qed

text \<open>What the filter computes: whether the touched lines hold a marker before or after the splice.\<close>

lemma filter_eval:
  fixes r :: lsp_range
  assumes s: "synced src idx bare" and m: "DIALECT_HINT_LINE_MARGIN \<le> lsp_line (range_start r)"
  obtains lo hi a b where
    "change_could_affect_dialect_hint src (Some r) new_text idx =
       Some (contains_dialect_hint_marker (subslice lo hi src) \<or>
         contains_dialect_hint_marker (subslice lo (min a b) src @ new_text @ subslice (max a b) hi src))"
    "content_splice src (Some r) new_text = Some (take (min a b) src @ new_text @ drop (max a b) src)"
    "lo \<le> min a b" "max a b \<le> hi" "hi \<le> length src"
    "lsp_line (range_start r) < length idx \<longrightarrow> lo = idx ! min (lsp_line (range_start r)) (lsp_line (range_end r))"
    "max a b < hi \<and> hi \<in> set (tl idx) \<or> hi = length src"
proof -
  define fl where "fl = min (lsp_line (range_start r)) (lsp_line (range_end r))"
  define ll where "ll = max (lsp_line (range_start r)) (lsp_line (range_end r))"
  obtain lo hi a b where
    1: "offset_at_utf16 idx fl 0 src = Some lo" and
    2: "(if ll + 1 < line_count idx then offset_at_utf16 idx (ll + 1) 0 src else Some (length src)) = Some hi" and
    3: "offset_of idx src (range_start r) = Some a" "offset_of idx src (range_end r) = Some b" and
    4: "lo \<le> min a b" "max a b \<le> hi" "ll + 1 < length idx \<longrightarrow> max a b < hi" "hi \<le> length src" and
    5: "is_char_boundary src lo" "is_char_boundary src hi" "is_char_boundary src a" "is_char_boundary src b" and
    6: "fl < length idx \<longrightarrow> lo = idx ! fl" "ll + 1 < length idx \<longrightarrow> hi = idx ! (ll + 1)"
       "length idx \<le> ll + 1 \<longrightarrow> hi = length src"
    by (rule touched_lines [OF s, of r, folded fl_def ll_def])
  have lh: "lo \<le> hi" "a \<le> length src" "b \<le> length src" "lo \<le> length src" using 4 by auto
  have mx: "max hi lo = hi" "max hi (max a b) = hi" using 4 by auto
  have mins: "min lo (length src) = lo" "min a (length src) = a" "min b (length src) = b" "min hi (length src) = hi"
    using 4 lh by auto
  have bd: "is_char_boundary src (min a b)" "is_char_boundary src (max a b)"
    using 5 by (auto simp: min_def max_def)
  have g: "str_get src lo hi = Some (subslice lo hi src)"
    "str_get src lo (min a b) = Some (subslice lo (min a b) src)"
    "str_get src (max a b) hi = Some (subslice (max a b) hi src)"
    using 4 5 lh bd by (auto simp: str_get_def)
  have h: "(if ll + 1 < line_count idx then map_option (\<lambda>a. min a (length src)) (offset_at_utf16 idx (ll + 1) 0 src)
      else Some (length src)) = Some hi"
    using 2 mins by (auto split: if_splits)
  have o: "offset_at_utf16 idx (lsp_line (range_start r)) (lsp_character (range_start r)) src = Some a"
    "offset_at_utf16 idx (lsp_line (range_end r)) (lsp_character (range_end r)) src = Some b"
    using 3 by (simp_all add: offset_of_def)
  have flags: "(lsp_line (range_start r) < DIALECT_HINT_LINE_MARGIN) = False"
    "(min a b < lo \<or> hi < max a b) = False"
    using m 4 by auto
  have "change_could_affect_dialect_hint src (Some r) new_text idx =
       Some (contains_dialect_hint_marker (subslice lo hi src) \<or>
         contains_dialect_hint_marker (subslice lo (min a b) src @ new_text @ subslice (max a b) hi src))"
    by (simp only: change_could_affect_dialect_hint_def Let_def option.case prod.case option.map fl_def [symmetric]
        ll_def [symmetric] 1 h o mins mx g flags if_False) (simp split: if_splits)
  moreover have "content_splice src (Some r) new_text = Some (take (min a b) src @ new_text @ drop (max a b) src)"
    using s 3 by (simp add: content_splice_def synced_def)
  moreover have "lsp_line (range_start r) < length idx \<longrightarrow> lo = idx ! min (lsp_line (range_start r)) (lsp_line (range_end r))"
    using 6(1) by (auto simp: fl_def)
  moreover have "max a b < hi \<and> hi \<in> set (tl idx) \<or> hi = length src"
  proof (cases "ll + 1 < length idx")
    case True
    with 4(3) 6(2) show ?thesis by (cases idx) auto
  qed (use 6(3) in auto)
  ultimately show thesis using 4 by (intro that)
qed

lemma filter_total:
  assumes "synced src idx bare"
  shows "\<exists>h. change_could_affect_dialect_hint src rng new_text idx = Some h"
proof (cases rng)
  case (Some r)
  show ?thesis
  proof (cases "lsp_line (range_start r) < DIALECT_HINT_LINE_MARGIN")
    case False
    then show ?thesis using filter_eval [OF assms, of r new_text] Some by (metis linorder_not_less)
  qed (auto simp: Some change_could_affect_dialect_hint_def)
qed (auto simp: change_could_affect_dialect_hint_def)

lemma str_lines_eq_Nil [simp]: "str_lines s = [] \<longleftrightarrow> s = []"
  by (subst str_lines.simps) (simp split: list.splits)








section \<open>Properties\<close>

text \<open>
  C5. One content change is the splice the protocol means. From a well-formed buffer with its own
  index and flag, every change (a full replacement or a ranged edit, in or out of range, in either
  order, patched or rebuilt) returns without a panic the text spliced at the offsets a fresh index
  gives, with the index and the flag a rebuild from that text would give.
\<close>

theorem content_change_matches_rebuild:
  assumes "utf8_valid src" "line_index_new_lsp src = Some idx" "utf8_valid new_text"
    and "length src + length new_text < 2 ^ 32"
  shows "\<exists>out idx'. apply_content_change_indexed src rng new_text idx (contains_bare_cr src) =
      Some (out, idx', contains_bare_cr out) \<and>
    content_splice src rng new_text = Some out \<and> line_index_new_lsp out = Some idx' \<and> utf8_valid out"
proof -
  have "synced src idx (contains_bare_cr src)" using assms(1,2) by (simp add: synced_def)
  from content_change_splices [OF this assms(3,4), of rng] obtain out idx' where
    "apply_content_change_indexed src rng new_text idx (contains_bare_cr src) = Some (out, idx', contains_bare_cr out)"
    "content_splice src rng new_text = Some out" "synced out idx' (contains_bare_cr out)" by blast
  then show ?thesis by (auto simp: synced_def)
qed

lemma content_change_matches_rebuild_witness:
  "\<exists>out idx'. apply_content_change_indexed [CHR ''a'', CR, LF, CHR ''b'']
       (Some \<lparr>range_start = \<lparr>lsp_line = 1, lsp_character = 1\<rparr>, range_end = \<lparr>lsp_line = 0, lsp_character = 1\<rparr>\<rparr>)
       [CR] [0, 3] (contains_bare_cr [CHR ''a'', CR, LF, CHR ''b'']) = Some (out, idx', contains_bare_cr out) \<and>
     content_splice [CHR ''a'', CR, LF, CHR ''b'']
       (Some \<lparr>range_start = \<lparr>lsp_line = 1, lsp_character = 1\<rparr>, range_end = \<lparr>lsp_line = 0, lsp_character = 1\<rparr>\<rparr>)
       [CR] = Some out \<and> line_index_new_lsp out = Some idx' \<and> utf8_valid out"
  by (rule content_change_matches_rebuild) (simp_all add: line_index_new_lsp_eq)


text \<open>Twenty empty lines, a comment that a lone carriage return ends, and an Expect command.\<close>

abbreviation lone_cr_doc :: string where
  "lone_cr_doc \<equiv> replicate 20 LF @ ''#'' @ [CR] @ ''spawn x''"

abbreviation on_line_20 :: "nat \<Rightarrow> lsp_range" where
  "on_line_20 n \<equiv> \<lparr>range_start = \<lparr>lsp_line = 20, lsp_character = 0\<rparr>, range_end = \<lparr>lsp_line = 20, lsp_character = n\<rparr>\<rparr>"

lemmas edit_eval = offset_at_utf16_def content_end_def byte_at_def str_get_def is_char_boundary_def subslice_def
  nth_append line_count_def Let_def offset_of_def

lemmas marker_eval = contains_dialect_hint_marker_def to_ascii_lowercase_def dialect_hint_markers_def
  CONTENT_SIGNATURES_def signature_markers_def str_contains_def


text \<open>
  The condition on carriage returns is needed. In the document above the filter answers no for the
  edit that uncomments the line, and the edit makes it an Expect script, because the editor ends the
  edited line where the detector does not.
\<close>

lemma lone_cr_starts: "lsp_starts 0 lone_cr_doc = [1,2,3,4,5,6,7,8,9,10,11,12,13,14,15,16,17,18,19,20,22]"
  by (simp add: numeral_eq_Suc)

lemma lone_cr_lines: "str_lines lone_cr_doc = replicate 20 [] @ [''#'' @ [CR] @ ''spawn x'']"
  by (simp add: numeral_eq_Suc str_lines_line [where l = "[]", simplified] str_lines_last strip_cr_def)

lemma uncommented_lines: "str_lines (replicate 20 LF @ [CR] @ ''spawn x'') = replicate 20 [] @ [[CR] @ ''spawn x'']"
  by (simp add: numeral_eq_Suc str_lines_line [where l = "[]", simplified] str_lines_last strip_cr_def)

lemma uncommented_expect: "detect_from_content (replicate 20 LF @ [CR] @ ''spawn x'') = Some ''expect''"
proof -
  let ?l = "[CR] @ ''spawn x''"
  have e: "\<not> irules_when_line []" "\<not> irules_when_line ?l" by (simp_all add: irules_when_line_def char_is_whitespace_def)
  have n: "\<not> signature_line sig []" if "(d, sig) \<in> set CONTENT_SIGNATURES" for d sig
    using signature_markers_literal [OF that]
    by (cases sig) (auto simp: signature_line_def signature_markers_def list_ex_iff contains_token_iff)
  have "list_all (\<lambda>m. str_contains ?l m \<longrightarrow> m = ''spawn'') dialect_hint_markers"
    by (simp add: dialect_hint_markers_def CONTENT_SIGNATURES_def signature_markers_def str_contains_def)
  then have only: "m = ''spawn''" if "m \<in> set dialect_hint_markers" "str_contains ?l m" for m
    using that by (simp add: list_all_iff)
  have l: "d = ''expect''" if "(d, sig) \<in> set CONTENT_SIGNATURES" "signature_line sig ?l" for d sig
  proof -
    from signature_line_marker [OF that] only have "''spawn'' \<in> set (signature_markers sig)" by blast
    with that(1) show ?thesis by (auto simp: CONTENT_SIGNATURES_def signature_markers_def)
  qed
  have "token_in ?l ''spawn''" by (rule token_inI [of _ "[CR]" _ "'' x''"]) (simp_all add: is_word_byte_def is_ascii_digit_def is_ascii_uppercase_def)
  then have y: "signature_line (Words [''spawn'', ''expect_before'', ''send_user'', ''interact'']) ?l"
    by (simp add: signature_line_def is_comment_line_def char_is_whitespace_def contains_token_iff)
  have m: "signature_matches (strip_comment_lines (replicate 20 LF @ ?l)) sig \<longleftrightarrow> d = ''expect''"
    if "(d, sig) \<in> set CONTENT_SIGNATURES" for d sig
  proof -
    have "signature_matches (strip_comment_lines (replicate 20 LF @ ?l)) sig \<longleftrightarrow> signature_line sig ?l"
      unfolding signature_matches_lines [OF that] uncommented_lines using n [OF that] by (auto simp: list_ex_iff)
    moreover have "d = ''expect'' \<Longrightarrow> sig = Words [''spawn'', ''expect_before'', ''send_user'', ''interact'']"
      using that by (auto simp: CONTENT_SIGNATURES_def)
    ultimately show ?thesis using l [OF that] y by blast
  qed
  have "\<not> has_irules_when (replicate 20 LF @ ?l)" unfolding has_irules_when_def uncommented_lines using e by (auto simp: list_ex_iff)
  moreover have "find_map (\<lambda>(d, sig). if signature_matches (strip_comment_lines (replicate 20 LF @ ?l)) sig then Some d else None)
      CONTENT_SIGNATURES = find_map (\<lambda>(d, sig). if d = ''expect'' then Some d else None) CONTENT_SIGNATURES"
    using m by (intro find_map_cong) auto
  moreover have "\<dots> = Some ''expect''" by (simp add: CONTENT_SIGNATURES_def)
  ultimately show ?thesis by (simp only: detect_from_content_def Let_def if_False)
qed

text \<open>
  C34. The hint filter can miss a dialect change. There is a document with a lone carriage return and an
  edit of its line 20, removing a hash sign, for which the filter answers no although the content
  signatures detect nothing before the edit and Expect after it.
\<close>

theorem lone_cr_hint_missed:
  "\<exists>idx. line_index_new_lsp lone_cr_doc = Some idx \<and>
     change_could_affect_dialect_hint lone_cr_doc (Some (on_line_20 1)) [] idx = Some False \<and>
     content_splice lone_cr_doc (Some (on_line_20 1)) [] = Some (replicate 20 LF @ [CR] @ ''spawn x'') \<and>
     detect_from_content lone_cr_doc = None \<and>
     detect_from_content (replicate 20 LF @ [CR] @ ''spawn x'') = Some ''expect''"
proof (intro exI conjI)
  show "line_index_new_lsp lone_cr_doc = Some (0 # lsp_starts 0 lone_cr_doc)" by (simp add: line_index_new_lsp_eq)
  show "change_could_affect_dialect_hint lone_cr_doc (Some (on_line_20 1)) [] (0 # lsp_starts 0 lone_cr_doc) = Some False"
    unfolding lone_cr_starts
    by (simp add: change_could_affect_dialect_hint_def DIALECT_HINT_LINE_MARGIN_def edit_eval marker_eval)
  show "content_splice lone_cr_doc (Some (on_line_20 1)) [] = Some (replicate 20 LF @ [CR] @ ''spawn x'')"
    using lone_cr_starts by (simp add: content_splice_def line_index_new_lsp_eq edit_eval)
  show "detect_from_content lone_cr_doc = None"
    by (rule quiet_lines, unfold lone_cr_lines) (auto simp: is_comment_line_def char_is_whitespace_def)
qed (rule uncommented_expect)

end
