(* ===== verification/Document_Store.thy ===== *)
theory Document_Store
  imports Document_Sync
begin

text \<open>
  The map of open documents of the language server, \<open>tcl-lsp-server/src/lib.rs\<close>: the critical
  sections of the document-sync notifications, of dialect resolution and of deferred publication, each
  a function on the map, and the histories they make in any order. The lemmas give the invariant of
  the store and what a revision number identifies.
\<close>

section \<open>Critical sections on the document map\<close>

type_synonym 'r documents = "string \<Rightarrow> 'r document_state option"

text \<open>\<open>if let Some(doc) = docs.get_mut(uri)\<close>.\<close>

definition update_doc :: "string \<Rightarrow> ('r document_state \<Rightarrow> 'r document_state) \<Rightarrow> 'r documents \<Rightarrow> 'r documents" where
  "update_doc uri f docs = (case docs uri of None \<Rightarrow> docs | Some d \<Rightarrow> docs(uri \<mapsto> f d))"

definition did_open :: "string \<Rightarrow> string \<Rightarrow> string \<Rightarrow> i32 \<Rightarrow> string \<Rightarrow> 'r documents \<Rightarrow> 'r documents option" where
  "did_open uri src dialect version lang docs =
     map_option (\<lambda>d. docs(uri \<mapsto> with_publication_pending (with_language_id lang d)))
       (document_with_version src dialect version)"

definition attach_decode_report :: "i32 \<Rightarrow> string \<Rightarrow> 'r \<Rightarrow> 'r document_state \<Rightarrow> 'r document_state" where
  "attach_decode_report version src report d =
     (if doc_version d = Some version \<and> doc_text d = src then d\<lparr>decode_report := Some report\<rparr> else d)"

text \<open>
  The section of \<open>did_change\<close>: the new map and, for an open document, what the rest of the
  handler publishes: the text, the dialect, the language id, the revision and whether the index slot
  has to be seeded.
\<close>

definition change_document ::
    "i32 \<Rightarrow> content_change list \<Rightarrow> 'r document_state \<Rightarrow> 'r document_state option" where
  "change_document version changes d =
     (case apply_changes (language_id d = ''tcl'') changes (doc_text d, doc_index d, has_bare_cr d, False) of
        None \<Rightarrow> None
      | Some (src, idx, bare, hint) \<Rightarrow>
          (let e = d\<lparr>doc_text := src, doc_index := idx, has_bare_cr := bare, decode_report := None\<rparr> in
           Some (bump_revision version (if hint then mark_dialect_resolution_dirty e else e))))"

definition did_change ::
    "string \<Rightarrow> i32 \<Rightarrow> content_change list \<Rightarrow> 'r documents \<Rightarrow>
     ('r documents \<times> (string \<times> string \<times> string \<times> nat \<times> bool) option) option" where
  "did_change uri version changes docs =
     (if changes = [] then Some (docs, None)
      else (case docs uri of
              None \<Rightarrow> Some (docs, None)
            | Some d \<Rightarrow>
                map_option (\<lambda>e. (docs(uri \<mapsto> e),
                    Some (doc_text e, doc_dialect e, language_id e, revision e, publication d \<noteq> Indexed)))
                  (change_document version changes d)))"

definition did_close :: "string \<Rightarrow> 'r documents \<Rightarrow> 'r documents" where
  "did_close uri docs = docs(uri := None)"

text \<open>
  The second section of \<open>resolve_dirty_open_document_dialect\<close>, for the snapshot its first
  section took and the dialect resolved in between.
\<close>

definition resolve_dialect ::
    "string \<Rightarrow> string \<Rightarrow> nat \<Rightarrow> nat \<Rightarrow> string \<Rightarrow> 'r document_state \<Rightarrow> 'r document_state" where
  "resolve_dialect old_dialect src at_rev gen new_dialect d =
     (if revision d \<noteq> at_rev \<or> doc_text d \<noteq> src \<or> doc_dialect d \<noteq> old_dialect \<or>
         dialect_resolution_generation d \<noteq> gen
      then d
      else if new_dialect = old_dialect then d\<lparr>resolved_dialect_generation := gen\<rparr>
      else bump_analysis_generation (d\<lparr>resolved_dialect_generation := gen, doc_dialect := new_dialect\<rparr>))"

text \<open>
  Deferred publication. \<open>same_gen\<close> is the outcome of comparing the document's publication
  generation with the one the publisher started from.
\<close>

definition mark_open_salsa_published :: "string \<Rightarrow> string \<Rightarrow> i32 \<Rightarrow> 'r document_state \<Rightarrow> 'r document_state" where
  "mark_open_salsa_published src dialect version d =
     (if \<not> matches_open_publication src dialect version d then d else d\<lparr>publication := Salsa\<rparr>)"

definition publish_open_index :: "string \<Rightarrow> string \<Rightarrow> i32 \<Rightarrow> bool \<Rightarrow> 'r document_state \<Rightarrow> 'r document_state" where
  "publish_open_index src dialect version same_gen d =
     (if \<not> matches_open_publication src dialect version d \<or> \<not> same_gen then d else d\<lparr>publication := Indexed\<rparr>)"

definition publish_live_index :: "string \<Rightarrow> string \<Rightarrow> nat \<Rightarrow> bool \<Rightarrow> 'r document_state \<Rightarrow> 'r document_state" where
  "publish_live_index src dialect at_rev same_gen d =
     (if \<not> matches_live_publication src dialect at_rev d \<or> \<not> same_gen then d else d\<lparr>publication := Indexed\<rparr>)"

definition commit_live_source ::
    "string \<Rightarrow> string \<Rightarrow> nat \<Rightarrow> bool \<Rightarrow> bool \<Rightarrow> 'r document_state \<Rightarrow> 'r document_state" where
  "commit_live_source src dialect at_rev index_needs_seed same_gen d =
     (if \<not> matches_live_source_publication src dialect at_rev d \<or> \<not> same_gen then d
      else d\<lparr>publication := if index_needs_seed \<and> \<not> backing_file_deleted d then Salsa else Indexed\<rparr>)"

definition commit_live_dialect :: "string \<Rightarrow> string \<Rightarrow> nat \<Rightarrow> bool \<Rightarrow> 'r document_state \<Rightarrow> 'r document_state" where
  "commit_live_dialect src dialect at_rev same_gen d =
     (if \<not> matches_live_source_publication src dialect at_rev d \<or> \<not> same_gen then d
      else d\<lparr>publication := if backing_file_deleted d then Indexed else Salsa\<rparr>)"

definition watched_deleted :: "'r document_state \<Rightarrow> 'r document_state" where
  "watched_deleted d =
     (let e = d\<lparr>backing_file_deleted := True\<rparr> in
      if publication e \<noteq> Pending then e\<lparr>publication := Indexed\<rparr> else e)"

definition watched_revived :: "'r document_state \<Rightarrow> 'r document_state" where
  "watched_revived d =
     (if backing_file_deleted d then bump_analysis_generation (d\<lparr>backing_file_deleted := False\<rparr>) else d)"

definition update_watched_open_paths :: "string list \<Rightarrow> string list \<Rightarrow> 'r documents \<Rightarrow> 'r documents" where
  "update_watched_open_paths deleted revived docs =
     fold (\<lambda>u. update_doc u watched_revived) revived (fold (\<lambda>u. update_doc u watched_deleted) deleted docs)"

definition settle_deleted :: "nat \<Rightarrow> 'r document_state \<Rightarrow> 'r document_state" where
  "settle_deleted at_rev d =
     (if backing_file_deleted d \<and> revision d = at_rev \<and> publication d = Pending
      then d\<lparr>publication := Indexed\<rparr> else d)"

datatype document_readiness = ReadySalsa | ReadyIndexed

definition is_ready :: "document_readiness \<Rightarrow> 'r document_state \<Rightarrow> bool" where
  "is_ready r d = (case r of ReadySalsa \<Rightarrow> salsa_ready (publication d) | ReadyIndexed \<Rightarrow> indexed (publication d))"

text \<open>One pass of the loop of \<open>read_document_at\<close>: a snapshot, or waiting, for an open document.\<close>

definition read_open_document :: "string \<Rightarrow> document_readiness \<Rightarrow> 'r documents \<Rightarrow> 'r document_state option" where
  "read_open_document uri r docs =
     (case docs uri of
        Some d \<Rightarrow> if is_ready r d then Some (normalised_for_analysis d) else None
      | None \<Rightarrow> None)"

section \<open>Histories\<close>

datatype 'r doc_event =
    Opened string string string i32 string
  | Reported string i32 string 'r
  | Changed string i32 "content_change list"
  | Closed string
  | Dirtied string
  | Resolved string string string nat nat string
  | Open_salsa string string string i32
  | Open_indexed string string string i32 bool
  | Live_indexed string string string nat bool
  | Live_source string string string nat bool bool
  | Live_dialect string string string nat bool
  | Watched "string list" "string list"
  | Settled string nat

fun apply_event :: "'r doc_event \<Rightarrow> 'r documents \<Rightarrow> 'r documents option" where
  "apply_event (Opened uri src dialect version lang) docs = did_open uri src dialect version lang docs"
| "apply_event (Reported uri version src r) docs = Some (update_doc uri (attach_decode_report version src r) docs)"
| "apply_event (Changed uri version changes) docs = map_option fst (did_change uri version changes docs)"
| "apply_event (Closed uri) docs = Some (did_close uri docs)"
| "apply_event (Dirtied uri) docs = Some (update_doc uri mark_dialect_resolution_dirty docs)"
| "apply_event (Resolved uri old src at_rev gen new) docs = Some (update_doc uri (resolve_dialect old src at_rev gen new) docs)"
| "apply_event (Open_salsa uri src dialect version) docs = Some (update_doc uri (mark_open_salsa_published src dialect version) docs)"
| "apply_event (Open_indexed uri src dialect version g) docs = Some (update_doc uri (publish_open_index src dialect version g) docs)"
| "apply_event (Live_indexed uri src dialect at_rev g) docs = Some (update_doc uri (publish_live_index src dialect at_rev g) docs)"
| "apply_event (Live_source uri src dialect at_rev seed g) docs = Some (update_doc uri (commit_live_source src dialect at_rev seed g) docs)"
| "apply_event (Live_dialect uri src dialect at_rev g) docs = Some (update_doc uri (commit_live_dialect src dialect at_rev g) docs)"
| "apply_event (Watched deleted revived) docs = Some (update_watched_open_paths deleted revived docs)"
| "apply_event (Settled uri at_rev) docs = Some (update_doc uri (settle_deleted at_rev) docs)"

fun run_events :: "'r doc_event list \<Rightarrow> 'r documents \<Rightarrow> 'r documents option" where
  "run_events [] docs = Some docs"
| "run_events (e # es) docs = (case apply_event e docs of None \<Rightarrow> None | Some docs' \<Rightarrow> run_events es docs')"

section \<open>Invariant of the store\<close>

definition doc_ok :: "'r document_state \<Rightarrow> bool" where
  "doc_ok d \<longleftrightarrow> synced (doc_text d) (doc_index d) (has_bare_cr d) \<and> raw_text d = None \<and>
     resolved_dialect_generation d \<le> dialect_resolution_generation d \<and>
     dialect_resolution_generation d < 2 ^ 64 \<and>
     \<not> (backing_file_deleted d \<and> publication d = Salsa)"

definition store_ok :: "'r documents \<Rightarrow> bool" where
  "store_ok docs \<longleftrightarrow> (\<forall>d\<in>ran docs. doc_ok d)"

lemma store_okD: "store_ok docs \<Longrightarrow> docs u = Some d \<Longrightarrow> doc_ok d"
  by (auto simp: store_ok_def intro: ranI)

lemma store_ok_upd: "store_ok docs \<Longrightarrow> doc_ok d \<Longrightarrow> store_ok (docs(u \<mapsto> d))"
  unfolding store_ok_def by (auto simp: ran_def split: if_splits)

lemma store_ok_update_doc:
  "store_ok docs \<Longrightarrow> (\<And>d. doc_ok d \<Longrightarrow> doc_ok (f d)) \<Longrightarrow> store_ok (update_doc u f docs)"
  by (auto simp: update_doc_def intro: store_ok_upd dest: store_okD split: option.splits)

lemma saturating_inc_bounds: "n \<le> saturating_inc n \<or> 2 ^ 64 \<le> n" "saturating_inc n < 2 ^ 64"
  by (auto simp: saturating_inc_def)

lemma doc_ok_steps [intro]:
  assumes "doc_ok d"
  shows "doc_ok (attach_decode_report v t rp d)" "doc_ok (mark_dialect_resolution_dirty d)"
    "doc_ok (resolve_dialect od t rv g nd d)" "doc_ok (mark_open_salsa_published t dl v d)"
    "doc_ok (publish_open_index t dl v sg d)" "doc_ok (publish_live_index t dl rv sg d)"
    "doc_ok (commit_live_source t dl rv seed sg d)" "doc_ok (commit_live_dialect t dl rv sg d)"
    "doc_ok (watched_deleted d)" "doc_ok (watched_revived d)" "doc_ok (settle_deleted rv d)"
proof -
  show "doc_ok (mark_dialect_resolution_dirty d)"
    using assms saturating_inc_bounds [of "dialect_resolution_generation d"]
    by (auto simp: doc_ok_def mark_dialect_resolution_dirty_def)
qed (use assms in \<open>auto simp: doc_ok_def attach_decode_report_def resolve_dialect_def bump_analysis_generation_def
      mark_open_salsa_published_def matches_open_publication_def publish_open_index_def publish_live_index_def
      commit_live_source_def commit_live_dialect_def watched_deleted_def watched_revived_def settle_deleted_def Let_def\<close>)

lemma store_ok_watched:
  fixes docs :: "'r documents"
  shows "store_ok docs \<Longrightarrow> store_ok (update_watched_open_paths del rvd docs)"
proof -
  have "store_ok docs \<Longrightarrow> (\<And>d. doc_ok d \<Longrightarrow> doc_ok (f d)) \<Longrightarrow> store_ok (fold (\<lambda>u. update_doc u f) us docs)"
    for f us and docs :: "'r documents"
    by (induction us arbitrary: docs) (simp_all add: store_ok_update_doc)
  then show "store_ok docs \<Longrightarrow> store_ok (update_watched_open_paths del rvd docs)"
    unfolding update_watched_open_paths_def by (simp add: doc_ok_steps)
qed

text \<open>The reference for a list of changes: splice one after another.\<close>

fun edited :: "content_change list \<Rightarrow> string \<Rightarrow> string option" where
  "edited [] src = Some src"
| "edited (c # cs) src = Option.bind (content_splice src (change_range c) (change_text c)) (edited cs)"

definition inserted :: "content_change list \<Rightarrow> nat" where
  "inserted cs = sum_list (map (\<lambda>c. length (change_text c)) cs)"

lemma changes_edit:
  assumes "synced src idx bare" "\<forall>c\<in>set cs. utf8_valid (change_text c)" "length src + inserted cs < 2 ^ 32"
  shows "\<exists>out idx' bare' h'. apply_changes w cs (src, idx, bare, h) = Some (out, idx', bare', h') \<and>
    edited cs src = Some out \<and> synced out idx' bare'"
  using assms
proof (induction cs arbitrary: src idx bare h)
  case (Cons c cs)
  have n: "utf8_valid (change_text c)" "length src + length (change_text c) < 2 ^ 32"
    using Cons.prems(2,3) by (simp_all add: inserted_def)
  from content_change_splices [OF Cons.prems(1) n, of "change_range c"] obtain mid idx1 where
    1: "apply_content_change_indexed src (change_range c) (change_text c) idx bare = Some (mid, idx1, contains_bare_cr mid)"
    "content_splice src (change_range c) (change_text c) = Some mid" "synced mid idx1 (contains_bare_cr mid)"
    "length mid \<le> length src + length (change_text c)" by blast
  from filter_total [OF Cons.prems(1)] obtain f where
    f: "change_could_affect_dialect_hint src (change_range c) (change_text c) idx = Some f" by blast
  have b: "length mid + inserted cs < 2 ^ 32" using 1(4) Cons.prems(3) by (simp add: inserted_def)
  have u: "\<forall>c\<in>set cs. utf8_valid (change_text c)" using Cons.prems(2) by simp
  define touched where "touched = (w \<and> \<not> h \<and> f)"
  have "apply_changes w (c # cs) (src, idx, bare, h) = apply_changes w cs (mid, idx1, contains_bare_cr mid, h \<or> touched)"
    using 1(1) f by (auto simp: touched_def)
  with Cons.IH [OF 1(3) u b, of "h \<or> touched"] 1(2) show ?case by simp
qed simp

section \<open>Handlers on the store\<close>

fun event_ok :: "'r documents \<Rightarrow> 'r doc_event \<Rightarrow> bool" where
  "event_ok docs (Opened uri src dialect version lang) \<longleftrightarrow> utf8_valid src \<and> length src < 2 ^ 32"
| "event_ok docs (Changed uri version changes) \<longleftrightarrow>
     (\<forall>c\<in>set changes. utf8_valid (change_text c)) \<and>
     (case docs uri of None \<Rightarrow> True | Some d \<Rightarrow> length (doc_text d) + inserted changes < 2 ^ 32)"
| "event_ok docs _ \<longleftrightarrow> True"

lemma open_document:
  fixes docs :: "'r documents"
  assumes "utf8_valid src" "length src < 2 ^ 32"
  shows "\<exists>d :: 'r document_state. did_open uri src dialect version lang docs = Some (docs(uri \<mapsto> d)) \<and> doc_ok d \<and>
    doc_text d = src \<and> doc_dialect d = dialect"
  using line_index_new_lsp_eq [OF assms(2)] assms(1)
  by (auto simp: did_open_def document_with_version_def with_publication_pending_def with_language_id_def
      doc_ok_def synced_def)

lemma change_document_ok:
  assumes "doc_ok d" "\<forall>c\<in>set cs. utf8_valid (change_text c)" "length (doc_text d) + inserted cs < 2 ^ 32"
  shows "\<exists>e. change_document version cs d = Some e \<and> doc_ok e \<and> edited cs (doc_text d) = Some (doc_text e) \<and>
    decode_report e = None \<and> publication e = Pending \<and> doc_version e = Some version \<and>
    revision e = saturating_inc (revision d) \<and> doc_dialect e = doc_dialect d"
proof -
  from assms(1) have s: "synced (doc_text d) (doc_index d) (has_bare_cr d)" by (simp add: doc_ok_def)
  from changes_edit [OF s assms(2,3), of "language_id d = ''tcl''" False] obtain out idx bare h where
    "apply_changes (language_id d = ''tcl'') cs (doc_text d, doc_index d, has_bare_cr d, False) = Some (out, idx, bare, h)"
    "edited cs (doc_text d) = Some out" "synced out idx bare" by blast
  then show ?thesis
    using assms(1) saturating_inc_bounds [of "dialect_resolution_generation d"]
    by (auto simp: change_document_def bump_revision_def mark_dialect_resolution_dirty_def doc_ok_def Let_def)
qed

lemma event_keeps_store:
  assumes "store_ok docs" "event_ok docs e"
  shows "\<exists>docs'. apply_event e docs = Some docs' \<and> store_ok docs'"
proof (cases e)
  case (Opened uri src dialect version lang)
  with open_document [of src uri dialect version lang docs] assms show ?thesis by (auto intro: store_ok_upd)
next
  case (Changed uri version changes)
  show ?thesis
  proof (cases "docs uri")
    case (Some d)
    with Changed assms(2) have "\<forall>c\<in>set changes. utf8_valid (change_text c)"
      "length (doc_text d) + inserted changes < 2 ^ 32" by simp_all
    from change_document_ok [OF store_okD [OF assms(1) Some] this, of version] Some assms(1) show ?thesis
      by (auto simp: Changed did_change_def intro: store_ok_upd)
  qed (use assms in \<open>simp add: Changed did_change_def\<close>)
next
  case (Closed uri)
  with assms(1) show ?thesis by (auto simp: did_close_def store_ok_def ran_def split: if_splits)
qed (use assms(1) in \<open>auto simp: store_ok_update_doc store_ok_watched doc_ok_steps\<close>)

text \<open>The stores the server can reach.\<close>

inductive reachable :: "'r documents \<Rightarrow> bool" where
  start: "reachable (\<lambda>_. None)"
| step: "reachable docs \<Longrightarrow> event_ok docs e \<Longrightarrow> apply_event e docs = Some docs' \<Longrightarrow> reachable docs'"

lemma reachable_ok: "reachable docs \<Longrightarrow> store_ok docs"
proof (induction rule: reachable.induct)
  case start
  then show ?case by (simp add: store_ok_def)
next
  case (step docs e docs')
  with event_keeps_store [of docs e] show ?case by auto
qed

section \<open>Revisions\<close>

definition revised :: "'r document_state \<Rightarrow> 'r document_state \<Rightarrow> bool" where
  "revised d e \<longleftrightarrow>
     (2 ^ 64 - 1 \<le> revision d \<longrightarrow> 2 ^ 64 - 1 \<le> revision e) \<and>
     (revision d < 2 ^ 64 - 1 \<longrightarrow> revision d \<le> revision e \<and>
        (revision e = revision d \<longrightarrow> doc_text e = doc_text d \<and> doc_dialect e = doc_dialect d \<and> doc_index e = doc_index d))"

lemma revised_refl [simp]: "revised d d"
  by (simp add: revised_def)

lemma revised_trans: "revised d e \<Longrightarrow> revised e f \<Longrightarrow> revised d f"
proof -
  assume d: "revised d e" and e: "revised e f"
  show "revised d f"
  proof (cases "revision d < 2 ^ 64 - 1 \<and> revision e < 2 ^ 64 - 1")
    case True
    with d e have "revision d \<le> revision e" "revision e \<le> revision f" by (auto simp: revised_def)
    with True d e show ?thesis by (auto simp: revised_def)
  next
    case False
    with d e show ?thesis by (auto simp: revised_def)
  qed
qed

lemma revised_bump: "revision e = saturating_inc (revision d) \<Longrightarrow> revised d e"
  by (auto simp: revised_def saturating_inc_def)

lemma revised_same:
  "revision e = revision d \<Longrightarrow> doc_text e = doc_text d \<Longrightarrow> doc_dialect e = doc_dialect d \<Longrightarrow>
   doc_index e = doc_index d \<Longrightarrow> revised d e"
  by (simp add: revised_def)

definition revised_at :: "string \<Rightarrow> 'r documents \<Rightarrow> 'r documents \<Rightarrow> bool" where
  "revised_at u docs docs' \<longleftrightarrow>
     (case docs u of None \<Rightarrow> docs' u = None | Some d \<Rightarrow> \<exists>e. docs' u = Some e \<and> revised d e)"

lemma revised_at_refl [simp]: "revised_at u docs docs"
  by (auto simp: revised_at_def split: option.splits)

lemma revised_at_trans: "revised_at u a b \<Longrightarrow> revised_at u b c \<Longrightarrow> revised_at u a c"
  by (auto simp: revised_at_def intro: revised_trans split: option.splits)

lemma revised_at_update: "(\<And>d. revised d (f d)) \<Longrightarrow> revised_at u docs (update_doc v f docs)"
  by (auto simp: revised_at_def update_doc_def split: option.splits)

lemma revised_steps:
  "revised d (attach_decode_report v t rp d)" "revised d (mark_dialect_resolution_dirty d)"
  "revised d (resolve_dialect od t rv g nd d)" "revised d (mark_open_salsa_published t dl v d)"
  "revised d (publish_open_index t dl v sg d)" "revised d (publish_live_index t dl rv sg d)"
  "revised d (commit_live_source t dl rv seed sg d)" "revised d (commit_live_dialect t dl rv sg d)"
  "revised d (watched_deleted d)" "revised d (watched_revived d)" "revised d (settle_deleted rv d)"
  by (auto simp: attach_decode_report_def mark_dialect_resolution_dirty_def resolve_dialect_def
      bump_analysis_generation_def mark_open_salsa_published_def publish_open_index_def publish_live_index_def
      commit_live_source_def commit_live_dialect_def watched_deleted_def watched_revived_def settle_deleted_def Let_def
      intro: revised_bump revised_same)

lemma revised_at_watched:
  fixes docs :: "'r documents"
  shows "revised_at u docs (update_watched_open_paths del rvd docs)"
proof -
  have "(\<And>d. revised d (f d)) \<Longrightarrow> revised_at u docs (fold (\<lambda>v. update_doc v f) vs docs)"
    for f vs and docs :: "'r documents"
  proof (induction vs arbitrary: docs)
    case (Cons a vs)
    from revised_at_trans [OF revised_at_update Cons.IH] Cons.prems show ?case by simp
  qed simp
  from revised_at_trans [OF this this] show ?thesis
    unfolding update_watched_open_paths_def by (simp add: revised_steps)
qed

fun replaces :: "string \<Rightarrow> 'r doc_event \<Rightarrow> bool" where
  "replaces u (Opened uri _ _ _ _) \<longleftrightarrow> uri = u"
| "replaces u (Closed uri) \<longleftrightarrow> uri = u"
| "replaces u _ \<longleftrightarrow> False"

lemma change_document_revised: "change_document version cs d = Some e \<Longrightarrow> revised d e"
  by (auto simp: change_document_def bump_revision_def mark_dialect_resolution_dirty_def Let_def
      intro!: revised_bump split: option.splits if_splits)

lemma event_revises: "apply_event e docs = Some docs' \<Longrightarrow> \<not> replaces u e \<Longrightarrow> revised_at u docs docs'"
proof (cases e)
  case (Opened uri src dialect version lang)
  moreover assume "apply_event e docs = Some docs'" "\<not> replaces u e"
  ultimately show ?thesis by (auto simp: did_open_def revised_at_def split: option.splits)
next
  case (Changed uri version changes)
  moreover assume "apply_event e docs = Some docs'"
  ultimately show ?thesis
    by (auto simp: did_change_def revised_at_def change_document_revised split: if_splits option.splits)
next
  case (Closed uri)
  moreover assume "apply_event e docs = Some docs'" "\<not> replaces u e"
  ultimately show ?thesis by (auto simp: did_close_def revised_at_def split: option.splits)
qed (auto intro: revised_at_update revised_at_watched simp: revised_steps)

lemma run_events_revise:
  "run_events es docs = Some docs' \<Longrightarrow> \<forall>e\<in>set es. \<not> replaces u e \<Longrightarrow> revised_at u docs docs'"
  by (induction es arbitrary: docs)
    (auto intro: revised_at_trans event_revises split: option.splits)

section \<open>Properties\<close>

text \<open>
  C3. The store never panics and never falls out of step. In every store the handlers can reach, in
  any order and with stale publications interleaved, every further event within the 4 GiB budget
  succeeds, and in the store it leaves each document's index and lone-carriage-return flag are those of
  its own text, and no buffer whose file was deleted waits at the Salsa tier.
\<close>

theorem store_stays_in_step:
  assumes "reachable docs" "event_ok docs e"
  shows "\<exists>docs'. apply_event e docs = Some docs' \<and>
    (\<forall>uri d. docs' uri = Some d \<longrightarrow>
       utf8_valid (doc_text d) \<and> line_index_new_lsp (doc_text d) = Some (doc_index d) \<and>
       has_bare_cr d = contains_bare_cr (doc_text d) \<and> raw_text d = None \<and>
       \<not> (backing_file_deleted d \<and> publication d = Salsa))"
  using event_keeps_store [OF reachable_ok [OF assms(1)] assms(2)]
  by (metis doc_ok_def store_okD synced_def)

text \<open>
  C22. What a request reads is consistent: the snapshot handed out for an open document of a reachable
  store has the client's bytes behind its raw view; its analysis text is those bytes with every lone
  carriage return made a line feed, of the same length; its one index is the editor's index of the
  client's bytes, and both the editor's and the lexer's index of the analysis text; and it carries the
  revision, the dialect and the publication state of the document.
\<close>

theorem snapshot_consistent:
  assumes "reachable docs" "read_open_document uri readiness docs = Some snap"
  shows "\<exists>d. docs uri = Some d \<and> doc_raw snap = doc_text d \<and>
    doc_text snap = normalise_lone_cr (doc_text d) \<and> length (doc_text snap) = length (doc_raw snap) \<and>
    line_index_new_lsp (doc_raw snap) = Some (doc_index snap) \<and>
    line_index_new_lsp (doc_text snap) = Some (doc_index snap) \<and>
    line_index_new (doc_text snap) = Some (doc_index snap) \<and>
    revision snap = revision d \<and> doc_dialect snap = doc_dialect d \<and> publication snap = publication d"
proof -
  from assms(2) obtain d where d: "docs uri = Some d" "snap = normalised_for_analysis d"
    by (auto simp: read_open_document_def split: option.splits if_splits)
  from store_okD [OF reachable_ok [OF assms(1)] d(1)]
  have ok: "line_index_new_lsp (doc_text d) = Some (doc_index d)" "has_bare_cr d = contains_bare_cr (doc_text d)"
    "raw_text d = None" by (simp_all add: doc_ok_def synced_def)
  from line_index_new_lspD [OF ok(1)] line_index_new_eq [of "norm_cr (doc_text d)"] norm_cr_clean [of "doc_text d"]
  have lexer: "line_index_new (norm_cr (doc_text d)) = Some (doc_index d)" by (simp add: norm_starts)
  have editor: "line_index_new_lsp (norm_cr (doc_text d)) = Some (doc_index d)"
    using line_index_new_lspD [OF ok(1)] line_index_new_lsp_eq [of "norm_cr (doc_text d)"]
      clean_starts [OF norm_cr_bare [of "doc_text d"], of 0] by (simp add: norm_starts)
  from ok d lexer editor norm_cr_clean [of "doc_text d"] show ?thesis
    by (cases "contains_bare_cr (doc_text d)")
      (simp_all add: normalised_for_analysis_def doc_raw_def normalise_lone_cr_eq)
qed

text \<open>
  C23. A revision identifies its content: through any sequence of events that neither reopens nor closes
  a document, its revision never falls, and if it has not changed (and is not saturated) then neither
  have the text, the index and the dialect. A worker that still sees its revision is current.
\<close>

theorem revision_identifies_content:
  assumes "run_events es docs = Some docs'" "\<forall>e\<in>set es. \<not> replaces uri e"
    and "docs uri = Some d" "revision d < 2 ^ 64 - 1"
  shows "\<exists>d'. docs' uri = Some d' \<and> revision d \<le> revision d' \<and>
    (revision d' = revision d \<longrightarrow>
       doc_text d' = doc_text d \<and> doc_index d' = doc_index d \<and> doc_dialect d' = doc_dialect d)"
  using run_events_revise [OF assms(1,2)] assms(3,4) by (auto simp: revised_at_def revised_def)

text \<open>An open buffer with a lone carriage return, before and after its publication.\<close>

abbreviation sample_doc :: "document_publication \<Rightarrow> unit document_state" where
  "sample_doc p \<equiv>
     \<lparr>doc_text = [CHR ''a'', CR, CHR ''b''], raw_text = None, doc_index = [0, Suc (Suc 0)], has_bare_cr = True,
      decode_report = None, doc_dialect = ''tcl8.6'', language_id = ''tcl'', revision = 0, doc_version = Some 1,
      backing_file_deleted = False, publication = p, dialect_resolution_generation = 0,
      resolved_dialect_generation = 0\<rparr>"

lemma sample_opened: "apply_event (Opened ''u'' [CHR ''a'', CR, CHR ''b''] ''tcl8.6'' 1 ''tcl'') (\<lambda>_. None) =
    Some [''u'' \<mapsto> sample_doc Pending]"
  by (simp add: did_open_def document_with_version_def with_publication_pending_def with_language_id_def
      line_index_new_lsp_eq bare_cr_Cons)

lemma sample_reachable: "reachable [''u'' \<mapsto> sample_doc Pending]"
  by (rule reachable.step [OF reachable.start _ sample_opened]) simp

lemma sample_published_reachable: "reachable [''u'' \<mapsto> sample_doc Indexed]"
  by (rule reachable.step [OF sample_reachable, of "Live_source ''u'' [CHR ''a'', CR, CHR ''b''] ''tcl8.6'' 0 False True"])
    (simp_all add: update_doc_def commit_live_source_def matches_live_source_publication_def)

lemma store_stays_in_step_witness:
  "\<exists>docs'. apply_event (Changed ''u'' 2 [\<lparr>change_range = None, change_text = ''x''\<rparr>]) [''u'' \<mapsto> sample_doc Pending] = Some docs' \<and>
    (\<forall>uri d. docs' uri = Some d \<longrightarrow>
       utf8_valid (doc_text d) \<and> line_index_new_lsp (doc_text d) = Some (doc_index d) \<and>
       has_bare_cr d = contains_bare_cr (doc_text d) \<and> raw_text d = None \<and>
       \<not> (backing_file_deleted d \<and> publication d = Salsa))"
  by (rule store_stays_in_step [OF sample_reachable]) (simp add: inserted_def)

lemma snapshot_consistent_witness:
  "\<exists>snap. read_open_document ''u'' ReadyIndexed [''u'' \<mapsto> sample_doc Indexed] = Some snap \<and>
    line_index_new (doc_text snap) = Some (doc_index snap)"
proof -
  have "read_open_document ''u'' ReadyIndexed [''u'' \<mapsto> sample_doc Indexed] =
      Some (normalised_for_analysis (sample_doc Indexed))"
    by (simp add: read_open_document_def is_ready_def indexed_def)
  with snapshot_consistent [OF sample_published_reachable this] show ?thesis by blast
qed

lemma revision_identifies_content_witness:
  "\<exists>d'. (update_doc ''u'' mark_dialect_resolution_dirty [''u'' \<mapsto> sample_doc Indexed]) ''u'' = Some d' \<and>
    revision (sample_doc Indexed) \<le> revision d' \<and>
    (revision d' = revision (sample_doc Indexed) \<longrightarrow>
       doc_text d' = doc_text (sample_doc Indexed) \<and> doc_index d' = doc_index (sample_doc Indexed) \<and>
       doc_dialect d' = doc_dialect (sample_doc Indexed))"
  by (rule revision_identifies_content [where es = "[Dirtied ''u'']" and docs = "[''u'' \<mapsto> sample_doc Indexed]"
        and docs' = "update_doc ''u'' mark_dialect_resolution_dirty [''u'' \<mapsto> sample_doc Indexed]"]) simp_all

end
