(* ===== verification/Edit_Order.thy ===== *)
theory Edit_Order
  imports Main
begin

text \<open>
  The edit-order barrier of the language server, \<open>tcl-lsp-server/src/lib.rs\<close>: document-sync
  handlers draw tickets in arrival order and mutate in that order; a handler dropped before its turn
  abandons its ticket; request handlers wait for the tickets drawn before them.

  Every atomic access of the source is one action of an explicit step function, so handlers, drops and
  readers interleave freely; only the check that finds a handler's turn come and the record of the turn
  holder it then writes are one action, no other handler being able to write in between. The lemmas give the invariant of the interleavings, and that the barrier
  cannot wedge: no lost wakeup, no ticket left unaccounted. A ticket number is a natural: the counters
  are 64 bits wide and wrap only after \<open>2 ^ 64\<close> notifications. Clock readings are left out.
\<close>

section \<open>State\<close>

record turn_holder =
  what :: string
  holder_uri :: string
  holder_ticket :: nat
  phase :: string

definition TURN_PHASE_GRANTED :: string where
  "TURN_PHASE_GRANTED = ''granted (no await reached yet)''"

text \<open>
  The program counter of a waiting loop: at its head, registered with \<open>Notify\<close> (with the
  notification received or not), or asleep in \<open>advanced.await\<close>.
\<close>

datatype wait_pc = Fresh | Registered bool | Asleep

text \<open>What a dropped guard still has to do: \<open>drain_abandoned\<close>, its critical section, the wakeup.\<close>

datatype tail = Drain_due | Draining | Notify_due | Finished

datatype handler =
    Undrawn
  | Waiting wait_pc
  | Granted
  | Cleared
  | Passed tail
  | Dropping
  | Abandoned tail
  | Skipped tail

datatype reader = Absent | Settling nat wait_pc | Settled nat

datatype drain_pc = Loading | Removing nat | Adding

record edit_order =
  next_ticket :: nat
  now_serving :: nat
  abandoned :: "nat set"
  holder :: "turn_holder option"
  mutex :: "(nat \<times> drain_pc) option"
  handlers :: "nat \<Rightarrow> handler"
  ticket_info :: "nat \<Rightarrow> string \<times> string"
  next_reader :: nat
  readers :: "nat \<Rightarrow> reader"

definition edit_order_default :: edit_order where
  "edit_order_default =
     \<lparr>next_ticket = 0, now_serving = 0, abandoned = {}, holder = None, mutex = None,
      handlers = (\<lambda>_. Undrawn), ticket_info = (\<lambda>_. ([], [])), next_reader = 0, readers = (\<lambda>_. Absent)\<rparr>"

section \<open>Actions\<close>

datatype action =
    Draw string string      \<comment> \<open>\<open>take_ticket\<close>\<close>
  | Register nat            \<comment> \<open>\<open>notified()\<close>, \<open>enable()\<close>\<close>
  | Check nat               \<comment> \<open>the load of \<open>now_serving\<close>\<close>
  | Drop_ticket nat         \<comment> \<open>the handler's future is dropped before its grant\<close>
  | Insert_abandoned nat
  | Mark nat string         \<comment> \<open>\<open>EditTurn::at\<close>\<close>
  | Clear_holder nat        \<comment> \<open>the first half of the drop of a turn\<close>
  | Advance nat             \<comment> \<open>the increment of \<open>now_serving\<close>\<close>
  | Lock_abandoned nat
  | Load_serving nat
  | Remove_served nat
  | Skip nat                \<comment> \<open>the increment inside the drain\<close>
  | Notify nat              \<comment> \<open>\<open>notify_waiters\<close>\<close>
  | Arrive                  \<comment> \<open>a request snapshots \<open>settle_target\<close>\<close>
  | Reader_register nat
  | Reader_check nat

definition wake_pc :: "wait_pc \<Rightarrow> wait_pc" where
  "wake_pc p = (case p of Fresh \<Rightarrow> Fresh | Registered _ \<Rightarrow> Registered True | Asleep \<Rightarrow> Fresh)"

definition wake_handler :: "handler \<Rightarrow> handler" where
  "wake_handler h = (case h of Waiting p \<Rightarrow> Waiting (wake_pc p) | _ \<Rightarrow> h)"

definition wake_reader :: "reader \<Rightarrow> reader" where
  "wake_reader r = (case r of Settling target p \<Rightarrow> Settling target (wake_pc p) | _ \<Rightarrow> r)"

text \<open>A failed check goes to sleep, or round the loop if the notification has come.\<close>

definition retry_pc :: "bool \<Rightarrow> wait_pc" where
  "retry_pc notified = (if notified then Fresh else Asleep)"

fun set_tail :: "tail \<Rightarrow> handler \<Rightarrow> handler" where
  "set_tail x (Passed _) = Passed x"
| "set_tail x (Abandoned _) = Abandoned x"
| "set_tail x (Skipped _) = Skipped x"
| "set_tail x h = h"

fun tail_of :: "handler \<Rightarrow> tail option" where
  "tail_of (Passed x) = Some x"
| "tail_of (Abandoned x) = Some x"
| "tail_of (Skipped x) = Some x"
| "tail_of _ = None"

fun skip_handler :: "handler \<Rightarrow> handler" where
  "skip_handler (Abandoned x) = Skipped x"
| "skip_handler h = h"

abbreviation set_handler :: "nat \<Rightarrow> handler \<Rightarrow> edit_order \<Rightarrow> edit_order" where
  "set_handler t h s \<equiv> s\<lparr>handlers := (handlers s)(t := h)\<rparr>"

fun edit_step :: "action \<Rightarrow> edit_order \<Rightarrow> edit_order option" where
  "edit_step (Draw w u) s =
     (let t = next_ticket s in
      Some (set_handler t (Waiting Fresh) s\<lparr>next_ticket := t + 1, ticket_info := (ticket_info s)(t := (w, u))\<rparr>))"
| "edit_step (Register t) s =
     (if handlers s t = Waiting Fresh then Some (set_handler t (Waiting (Registered False)) s) else None)"
| "edit_step (Check t) s =
     (case handlers s t of
        Waiting (Registered notified) \<Rightarrow>
          if now_serving s = t
          then Some (set_handler t Granted s\<lparr>holder := Some
            \<lparr>what = fst (ticket_info s t), holder_uri = snd (ticket_info s t), holder_ticket = t,
             phase = TURN_PHASE_GRANTED\<rparr>\<rparr>)
          else Some (set_handler t (Waiting (retry_pc notified)) s)
      | _ \<Rightarrow> None)"
| "edit_step (Drop_ticket t) s =
     (case handlers s t of Waiting _ \<Rightarrow> Some (set_handler t Dropping s) | _ \<Rightarrow> None)"
| "edit_step (Insert_abandoned t) s =
     (if handlers s t = Dropping \<and> mutex s = None
      then Some (set_handler t (Abandoned Drain_due) s\<lparr>abandoned := insert t (abandoned s)\<rparr>) else None)"
| "edit_step (Mark t p) s =
     (if handlers s t = Granted then Some (s\<lparr>holder := map_option (\<lambda>h. h\<lparr>phase := p\<rparr>) (holder s)\<rparr>) else None)"
| "edit_step (Clear_holder t) s =
     (if handlers s t = Granted then Some (set_handler t Cleared s\<lparr>holder := None\<rparr>) else None)"
| "edit_step (Advance t) s =
     (if handlers s t = Cleared
      then Some (set_handler t (Passed Drain_due) s\<lparr>now_serving := now_serving s + 1\<rparr>) else None)"
| "edit_step (Lock_abandoned t) s =
     (if tail_of (handlers s t) = Some Drain_due \<and> mutex s = None
      then Some (set_handler t (set_tail Draining (handlers s t)) s\<lparr>mutex := Some (t, Loading)\<rparr>) else None)"
| "edit_step (Load_serving t) s =
     (if mutex s = Some (t, Loading) then Some (s\<lparr>mutex := Some (t, Removing (now_serving s))\<rparr>) else None)"
| "edit_step (Remove_served t) s =
     (case mutex s of
        Some (t', Removing n) \<Rightarrow>
          if t' \<noteq> t then None
          else if n \<in> abandoned s
          then Some (set_handler n (skip_handler (handlers s n)) s\<lparr>abandoned := abandoned s - {n}, mutex := Some (t, Adding)\<rparr>)
          else Some (set_handler t (set_tail Notify_due (handlers s t)) s\<lparr>mutex := None\<rparr>)
      | _ \<Rightarrow> None)"
| "edit_step (Skip t) s =
     (if mutex s = Some (t, Adding)
      then Some (s\<lparr>now_serving := now_serving s + 1, mutex := Some (t, Loading)\<rparr>) else None)"
| "edit_step (Notify t) s =
     (if tail_of (handlers s t) = Some Notify_due
      then Some (s\<lparr>handlers := wake_handler \<circ> (handlers s)(t := set_tail Finished (handlers s t)),
                   readers := wake_reader \<circ> readers s\<rparr>)
      else None)"
| "edit_step Arrive s =
     Some (s\<lparr>next_reader := next_reader s + 1,
             readers := (readers s)(next_reader s := Settling (next_ticket s) Fresh)\<rparr>)"
| "edit_step (Reader_register r) s =
     (case readers s r of
        Settling target Fresh \<Rightarrow> Some (s\<lparr>readers := (readers s)(r := Settling target (Registered False))\<rparr>)
      | _ \<Rightarrow> None)"
| "edit_step (Reader_check r) s =
     (case readers s r of
        Settling target (Registered notified) \<Rightarrow>
          if target \<le> now_serving s then Some (s\<lparr>readers := (readers s)(r := Settled target)\<rparr>)
          else Some (s\<lparr>readers := (readers s)(r := Settling target (retry_pc notified))\<rparr>)
      | _ \<Rightarrow> None)"

fun edit_steps :: "action list \<Rightarrow> edit_order \<Rightarrow> edit_order option" where
  "edit_steps [] s = Some s"
| "edit_steps (a # as) s = (case edit_step a s of None \<Rightarrow> None | Some s' \<Rightarrow> edit_steps as s')"

inductive order_reachable :: "edit_order \<Rightarrow> bool" where
  start: "order_reachable edit_order_default"
| step: "order_reachable s \<Longrightarrow> edit_step a s = Some s' \<Longrightarrow> order_reachable s'"

text \<open>Steps the server takes by itself: no arrival, no client-side drop, no phase marker.\<close>

fun server_action :: "action \<Rightarrow> bool" where
  "server_action (Draw w u) \<longleftrightarrow> False"
| "server_action Arrive \<longleftrightarrow> False"
| "server_action (Drop_ticket t) \<longleftrightarrow> False"
| "server_action (Mark t p) \<longleftrightarrow> False"
| "server_action _ \<longleftrightarrow> True"

text \<open>A ticket is accounted for once its handler has mutated or its reservation has been stepped over.\<close>

fun accounted :: "handler \<Rightarrow> bool" where
  "accounted (Passed _) \<longleftrightarrow> True"
| "accounted (Skipped _) \<longleftrightarrow> True"
| "accounted _ \<longleftrightarrow> False"

section \<open>Invariant\<close>

text \<open>Tickets below the served one are accounted for, the others are not, and the guards agree.\<close>

definition tickets_ok :: "edit_order \<Rightarrow> bool" where
  "tickets_ok s \<longleftrightarrow>
     (\<forall>t. handlers s t = Undrawn \<longleftrightarrow> next_ticket s \<le> t) \<and>
     (\<forall>t<now_serving s. accounted (handlers s t)) \<and>
     (\<forall>t\<ge>now_serving s. accounted (handlers s t) \<longrightarrow> t = now_serving s \<and> (\<exists>d. mutex s = Some (d, Adding))) \<and>
     (\<forall>d. mutex s = Some (d, Adding) \<longrightarrow> (\<exists>x. handlers s (now_serving s) = Skipped x)) \<and>
     (\<forall>t. handlers s t = Granted \<or> handlers s t = Cleared \<longrightarrow> t = now_serving s) \<and>
     abandoned s = {t. \<exists>x. handlers s t = Abandoned x}"

definition guards_ok :: "edit_order \<Rightarrow> bool" where
  "guards_ok s \<longleftrightarrow>
     (\<forall>t. handlers s t = Granted \<longrightarrow> (\<exists>h. holder s = Some h \<and> holder_ticket h = t)) \<and>
     (\<forall>h. holder s = Some h \<longrightarrow> handlers s (holder_ticket h) = Granted) \<and>
     (\<forall>t. tail_of (handlers s t) = Some Draining \<longleftrightarrow> (\<exists>pc. mutex s = Some (t, pc))) \<and>
     (\<forall>d n. mutex s = Some (d, Removing n) \<longrightarrow> n \<le> now_serving s)"

definition drain_owed :: "edit_order \<Rightarrow> bool" where
  "drain_owed s \<longleftrightarrow> (\<exists>t. tail_of (handlers s t) = Some Drain_due) \<or>
     (\<exists>d. mutex s = Some (d, Loading) \<or> mutex s = Some (d, Removing (now_serving s)))"

definition wakeup_owed :: "edit_order \<Rightarrow> bool" where
  "wakeup_owed s \<longleftrightarrow> (\<exists>t. \<exists>x\<in>{Drain_due, Draining, Notify_due}. tail_of (handlers s t) = Some x)"

text \<open>An abandoned ticket at the head is owed a drain; a sleeper whose turn has come is owed a wakeup.\<close>

definition progress_ok :: "edit_order \<Rightarrow> bool" where
  "progress_ok s \<longleftrightarrow>
     ((\<exists>x. handlers s (now_serving s) = Abandoned x) \<longrightarrow> drain_owed s) \<and>
     (handlers s (now_serving s) = Waiting Asleep \<longrightarrow> wakeup_owed s) \<and>
     (\<forall>r target. readers s r = Settling target Asleep \<and> target \<le> now_serving s \<longrightarrow> wakeup_owed s)"

definition readers_ok :: "edit_order \<Rightarrow> bool" where
  "readers_ok s \<longleftrightarrow>
     (\<forall>r. readers s r = Absent \<longleftrightarrow> next_reader s \<le> r) \<and>
     (\<forall>r target. readers s r = Settled target \<longrightarrow> target \<le> now_serving s) \<and>
     (\<forall>r target p. readers s r = Settling target p \<longrightarrow> target \<le> next_ticket s)"

lemma accounted_set_tail [simp]: "accounted (set_tail x h) = accounted h"
  by (cases h) auto

lemma accounted_wake [simp]: "accounted (wake_handler h) = accounted h"
  by (cases h) (auto simp: wake_handler_def)

lemma wake_handler_eq [simp]:
  "wake_handler h = Undrawn \<longleftrightarrow> h = Undrawn" "wake_handler h = Granted \<longleftrightarrow> h = Granted"
  "wake_handler h = Cleared \<longleftrightarrow> h = Cleared" "wake_handler h = Abandoned x \<longleftrightarrow> h = Abandoned x"
  "wake_handler h = Skipped x \<longleftrightarrow> h = Skipped x" "wake_handler h \<noteq> Waiting Asleep"
  "tail_of (wake_handler h) = tail_of h"
  by (cases h; auto simp: wake_handler_def wake_pc_def split: wait_pc.splits)+

lemma wake_reader_eq [simp]:
  "wake_reader r = Absent \<longleftrightarrow> r = Absent" "wake_reader r = Settled target \<longleftrightarrow> r = Settled target"
  "wake_reader r \<noteq> Settling target Asleep"
  by (cases r; auto simp: wake_reader_def wake_pc_def split: wait_pc.splits)+

lemma wake_reader_target: "wake_reader r = Settling target p \<Longrightarrow> \<exists>q. r = Settling target q"
  by (cases r) (auto simp: wake_reader_def)

lemma set_tail_eq [simp]:
  "set_tail x h = Undrawn \<longleftrightarrow> h = Undrawn" "set_tail x h = Granted \<longleftrightarrow> h = Granted"
  "set_tail x h = Cleared \<longleftrightarrow> h = Cleared" "set_tail x h = Waiting p \<longleftrightarrow> h = Waiting p"
  "tail_of (set_tail x h) = (if tail_of h = None then None else Some x)"
  "(\<exists>y. set_tail x h = Abandoned y) \<longleftrightarrow> (\<exists>y. h = Abandoned y)"
  "(\<exists>y. set_tail x h = Skipped y) \<longleftrightarrow> (\<exists>y. h = Skipped y)"
  by (cases h; auto)+

lemma tail_of_accounted: "tail_of h = Some x \<longleftrightarrow> h = Passed x \<or> h = Abandoned x \<or> h = Skipped x"
  by (cases h) auto

lemma edit_step_cases [consumes 1, case_names Draw Register Grant Retry Drop_ticket Insert_abandoned Mark
    Clear_holder Advance Lock_abandoned Load_serving Hit Miss Skip Notify Arrive Reader_register Reader_done Reader_retry]:
  assumes "edit_step a s = Some s'"
  obtains
    w u where "a = Draw w u" "s' = set_handler (next_ticket s) (Waiting Fresh)
        (s\<lparr>next_ticket := next_ticket s + 1, ticket_info := (ticket_info s)(next_ticket s := (w, u))\<rparr>)"
  | t where "a = Register t" "handlers s t = Waiting Fresh" "s' = set_handler t (Waiting (Registered False)) s"
  | t b h where "a = Check t" "handlers s t = Waiting (Registered b)" "now_serving s = t" "holder_ticket h = t"
      "s' = set_handler t Granted (s\<lparr>holder := Some h\<rparr>)"
  | t b where "a = Check t" "handlers s t = Waiting (Registered b)" "now_serving s \<noteq> t"
      "s' = set_handler t (Waiting (retry_pc b)) s"
  | t p where "a = Drop_ticket t" "handlers s t = Waiting p" "s' = set_handler t Dropping s"
  | t where "a = Insert_abandoned t" "handlers s t = Dropping" "mutex s = None"
      "s' = set_handler t (Abandoned Drain_due) (s\<lparr>abandoned := insert t (abandoned s)\<rparr>)"
  | t p where "a = Mark t p" "handlers s t = Granted" "s' = s\<lparr>holder := map_option (\<lambda>h. h\<lparr>phase := p\<rparr>) (holder s)\<rparr>"
  | t where "a = Clear_holder t" "handlers s t = Granted" "s' = set_handler t Cleared (s\<lparr>holder := None\<rparr>)"
  | t where "a = Advance t" "handlers s t = Cleared"
      "s' = set_handler t (Passed Drain_due) (s\<lparr>now_serving := now_serving s + 1\<rparr>)"
  | t where "a = Lock_abandoned t" "tail_of (handlers s t) = Some Drain_due" "mutex s = None"
      "s' = set_handler t (set_tail Draining (handlers s t)) (s\<lparr>mutex := Some (t, Loading)\<rparr>)"
  | t where "a = Load_serving t" "mutex s = Some (t, Loading)" "s' = s\<lparr>mutex := Some (t, Removing (now_serving s))\<rparr>"
  | t n where "a = Remove_served t" "mutex s = Some (t, Removing n)" "n \<in> abandoned s"
      "s' = set_handler n (skip_handler (handlers s n)) (s\<lparr>abandoned := abandoned s - {n}, mutex := Some (t, Adding)\<rparr>)"
  | t n where "a = Remove_served t" "mutex s = Some (t, Removing n)" "n \<notin> abandoned s"
      "s' = set_handler t (set_tail Notify_due (handlers s t)) (s\<lparr>mutex := None\<rparr>)"
  | t where "a = Skip t" "mutex s = Some (t, Adding)" "s' = s\<lparr>now_serving := now_serving s + 1, mutex := Some (t, Loading)\<rparr>"
  | t where "a = Notify t" "tail_of (handlers s t) = Some Notify_due"
      "s' = s\<lparr>handlers := wake_handler \<circ> (handlers s)(t := set_tail Finished (handlers s t)), readers := wake_reader \<circ> readers s\<rparr>"
  | "a = Arrive" "s' = s\<lparr>next_reader := next_reader s + 1,
        readers := (readers s)(next_reader s := Settling (next_ticket s) Fresh)\<rparr>"
  | r target where "a = Reader_register r" "readers s r = Settling target Fresh"
      "s' = s\<lparr>readers := (readers s)(r := Settling target (Registered False))\<rparr>"
  | r target b where "a = Reader_check r" "readers s r = Settling target (Registered b)" "target \<le> now_serving s"
      "s' = s\<lparr>readers := (readers s)(r := Settled target)\<rparr>"
  | r target b where "a = Reader_check r" "readers s r = Settling target (Registered b)" "\<not> target \<le> now_serving s"
      "s' = s\<lparr>readers := (readers s)(r := Settling target (retry_pc b))\<rparr>"
proof (cases a)
  case (Check t)
  with assms obtain b where b: "handlers s t = Waiting (Registered b)" by (auto split: handler.splits wait_pc.splits)
  show thesis
  proof (cases "now_serving s = t")
    case True
    with Check b assms show thesis
      by (intro that(3) [of t b "\<lparr>what = fst (ticket_info s t), holder_uri = snd (ticket_info s t),
          holder_ticket = t, phase = TURN_PHASE_GRANTED\<rparr>"]) auto
  next
    case False
    with Check b assms that(4) [OF Check b False] show thesis by simp
  qed
next
  case (Remove_served t)
  with assms obtain n where n: "mutex s = Some (t, Removing n)"
    by (auto split: option.splits drain_pc.splits if_splits)
  show thesis using Remove_served n assms that(12) [OF Remove_served n] that(13) [OF Remove_served n]
    by (cases "n \<in> abandoned s") auto
next
  case (Reader_check r)
  with assms obtain target b where b: "readers s r = Settling target (Registered b)"
    by (auto split: reader.splits wait_pc.splits)
  show thesis using Reader_check b assms that(18) [OF Reader_check b] that(19) [OF Reader_check b]
    by (cases "target \<le> now_serving s") simp_all
next
  case (Draw w u)
  with assms show thesis by (auto simp: Let_def intro: that(1) split: if_splits handler.splits reader.splits wait_pc.splits)
next
  case (Register t)
  with assms show thesis by (auto simp: Let_def intro: that(2) split: if_splits handler.splits reader.splits wait_pc.splits)
next
  case (Drop_ticket t)
  with assms show thesis by (auto simp: Let_def intro: that(5) split: if_splits handler.splits reader.splits wait_pc.splits)
next
  case (Insert_abandoned t)
  with assms show thesis by (auto simp: Let_def intro: that(6) split: if_splits handler.splits reader.splits wait_pc.splits)
next
  case (Mark t p)
  with assms show thesis by (auto simp: Let_def intro: that(7) split: if_splits handler.splits reader.splits wait_pc.splits)
next
  case (Clear_holder t)
  with assms show thesis by (auto simp: Let_def intro: that(8) split: if_splits handler.splits reader.splits wait_pc.splits)
next
  case (Advance t)
  with assms show thesis by (auto simp: Let_def intro: that(9) split: if_splits handler.splits reader.splits wait_pc.splits)
next
  case (Lock_abandoned t)
  with assms show thesis by (auto simp: Let_def intro: that(10) split: if_splits handler.splits reader.splits wait_pc.splits)
next
  case (Load_serving t)
  with assms show thesis by (auto simp: Let_def intro: that(11) split: if_splits handler.splits reader.splits wait_pc.splits)
next
  case (Skip t)
  with assms show thesis by (auto simp: Let_def intro: that(14) split: if_splits handler.splits reader.splits wait_pc.splits)
next
  case (Notify t)
  with assms show thesis by (auto simp: Let_def intro: that(15) split: if_splits handler.splits reader.splits wait_pc.splits)
next
  case Arrive
  with assms show thesis by (auto simp: Let_def intro: that(16) split: if_splits handler.splits reader.splits wait_pc.splits)
next
  case (Reader_register r)
  with assms show thesis by (auto simp: Let_def intro: that(17) split: if_splits handler.splits reader.splits wait_pc.splits)
qed

lemma readers_ok_mono:
  "readers s' = readers s \<Longrightarrow> next_reader s' = next_reader s \<Longrightarrow> now_serving s \<le> now_serving s' \<Longrightarrow>
   next_ticket s \<le> next_ticket s' \<Longrightarrow> readers_ok s \<Longrightarrow> readers_ok s'"
  unfolding readers_ok_def by (metis le_trans)

lemma readers_ok_update:
  assumes "readers_ok s" "readers s r \<noteq> Absent" "x \<noteq> Absent"
    and "\<And>target. x = Settled target \<Longrightarrow> target \<le> now_serving s"
    and "\<And>target p. x = Settling target p \<Longrightarrow> target \<le> next_ticket s"
  shows "readers_ok (s\<lparr>readers := (readers s)(r := x)\<rparr>)"
  using assms by (auto simp: readers_ok_def)

lemma readers_ok_step:
  assumes "edit_step a s = Some s'" "readers_ok s"
  shows "readers_ok s'"
  using assms(1)
proof (cases rule: edit_step_cases)
  case (Notify t)
  with assms(2) show ?thesis by (fastforce simp: readers_ok_def dest!: wake_reader_target)
next
  case Arrive
  with assms(2) show ?thesis by (auto simp: readers_ok_def)
next
  case (Reader_register r target)
  moreover have "target \<le> next_ticket s" using assms(2) Reader_register(2) unfolding readers_ok_def by blast
  ultimately show ?thesis using readers_ok_update [OF assms(2), of r "Settling target (Registered False)"] by auto
next
  case (Reader_done r target b)
  with assms(2) show ?thesis by (auto intro!: readers_ok_update)
next
  case (Reader_retry r target b)
  moreover have "target \<le> next_ticket s" using assms(2) Reader_retry(2) unfolding readers_ok_def by blast
  ultimately show ?thesis using readers_ok_update [OF assms(2), of r "Settling target (retry_pc b)"] by auto
qed (rule readers_ok_mono [OF _ _ _ _ assms(2)]; simp)+

lemma tickets_ok_cong:
  assumes "tickets_ok s" "\<And>u. handlers s' u = Undrawn \<longleftrightarrow> handlers s u = Undrawn"
    "\<And>u. accounted (handlers s' u) = accounted (handlers s u)"
    "\<And>u. (\<exists>x. handlers s' u = Skipped x) = (\<exists>x. handlers s u = Skipped x)"
    "\<And>u. handlers s' u = Granted \<or> handlers s' u = Cleared \<Longrightarrow> u = now_serving s"
    "\<And>d. mutex s' = Some (d, Adding) \<longleftrightarrow> mutex s = Some (d, Adding)"
    "next_ticket s' = next_ticket s" "now_serving s' = now_serving s"
    "abandoned s' = {u. \<exists>x. handlers s' u = Abandoned x}"
  shows "tickets_ok s'"
  using assms unfolding tickets_ok_def by simp

lemma tickets_okD:
  assumes "tickets_ok s"
  shows "handlers s u = Undrawn \<longleftrightarrow> next_ticket s \<le> u"
    "u < now_serving s \<Longrightarrow> accounted (handlers s u)"
    "now_serving s \<le> u \<Longrightarrow> accounted (handlers s u) \<Longrightarrow> u = now_serving s \<and> (\<exists>d. mutex s = Some (d, Adding))"
    "mutex s = Some (d, Adding) \<Longrightarrow> \<exists>x. handlers s (now_serving s) = Skipped x"
    "handlers s u = Granted \<or> handlers s u = Cleared \<Longrightarrow> u = now_serving s"
    "abandoned s = {u. \<exists>x. handlers s u = Abandoned x}"
  using assms unfolding tickets_ok_def by blast+

lemma tickets_okI:
  assumes "\<And>u. handlers s u = Undrawn \<longleftrightarrow> next_ticket s \<le> u"
    "\<And>u. u < now_serving s \<Longrightarrow> accounted (handlers s u)"
    "\<And>u. now_serving s \<le> u \<Longrightarrow> accounted (handlers s u) \<Longrightarrow> u = now_serving s \<and> (\<exists>d. mutex s = Some (d, Adding))"
    "\<And>d. mutex s = Some (d, Adding) \<Longrightarrow> \<exists>x. handlers s (now_serving s) = Skipped x"
    "\<And>u. handlers s u = Granted \<or> handlers s u = Cleared \<Longrightarrow> u = now_serving s"
    "abandoned s = {u. \<exists>x. handlers s u = Abandoned x}"
  shows "tickets_ok s"
  using assms unfolding tickets_ok_def by blast

lemma tickets_ok_single:
  assumes "tickets_ok s" "handlers s' = (handlers s)(t := h)" "handlers s t \<noteq> Undrawn" "h \<noteq> Undrawn"
    "accounted h = accounted (handlers s t)" "(\<exists>x. h = Skipped x) = (\<exists>x. handlers s t = Skipped x)"
    "h = Granted \<or> h = Cleared \<Longrightarrow> t = now_serving s"
    "\<And>d. mutex s' = Some (d, Adding) \<longleftrightarrow> mutex s = Some (d, Adding)"
    "next_ticket s' = next_ticket s" "now_serving s' = now_serving s"
    "abandoned s' = (if \<exists>x. h = Abandoned x then insert t (abandoned s) else abandoned s - {t})"
  shows "tickets_ok s'"
proof (rule tickets_okI)
  fix u d
  note ok = tickets_okD [OF assms(1)]
  note hs = assms(2-7)
  show "handlers s' u = Undrawn \<longleftrightarrow> next_ticket s' \<le> u" using ok(1) [of u] hs assms(9) by auto
  show "u < now_serving s' \<Longrightarrow> accounted (handlers s' u)" using ok(2) [of u] hs assms(10) by auto
  show "now_serving s' \<le> u \<Longrightarrow> accounted (handlers s' u) \<Longrightarrow> u = now_serving s' \<and> (\<exists>d. mutex s' = Some (d, Adding))"
    using ok(3) [of u] hs assms(8,10) by (auto split: if_splits)
  show "mutex s' = Some (d, Adding) \<Longrightarrow> \<exists>x. handlers s' (now_serving s') = Skipped x"
    using ok(4) [of d] hs assms(8,10) by (cases "now_serving s = t") auto
  show "handlers s' u = Granted \<or> handlers s' u = Cleared \<Longrightarrow> u = now_serving s'"
    using ok(5) [of u] hs assms(10) by (auto split: if_splits)
  show "abandoned s' = {u. \<exists>x. handlers s' u = Abandoned x}"
    using ok(6) hs(1) assms(11) by (auto split: if_splits)
qed

lemma guards_okD:
  assumes "guards_ok s"
  shows "handlers s t = Granted \<Longrightarrow> \<exists>h. holder s = Some h \<and> holder_ticket h = t"
    "holder s = Some h \<Longrightarrow> handlers s (holder_ticket h) = Granted"
    "tail_of (handlers s t) = Some Draining \<longleftrightarrow> (\<exists>pc. mutex s = Some (t, pc))"
    "mutex s = Some (d, Removing n) \<Longrightarrow> n \<le> now_serving s"
  using assms unfolding guards_ok_def by blast+

lemma guards_okI:
  assumes "\<And>t. handlers s t = Granted \<Longrightarrow> \<exists>h. holder s = Some h \<and> holder_ticket h = t"
    "\<And>h. holder s = Some h \<Longrightarrow> handlers s (holder_ticket h) = Granted"
    "\<And>t. tail_of (handlers s t) = Some Draining \<longleftrightarrow> (\<exists>pc. mutex s = Some (t, pc))"
    "\<And>d n. mutex s = Some (d, Removing n) \<Longrightarrow> n \<le> now_serving s"
  shows "guards_ok s"
  using assms unfolding guards_ok_def by blast

lemma tickets_ok_same:
  "tickets_ok s \<Longrightarrow> handlers s' = handlers s \<Longrightarrow> (\<And>d. mutex s' = Some (d, Adding) \<longleftrightarrow> mutex s = Some (d, Adding)) \<Longrightarrow>
   next_ticket s' = next_ticket s \<Longrightarrow> now_serving s' = now_serving s \<Longrightarrow> abandoned s' = abandoned s \<Longrightarrow> tickets_ok s'"
  unfolding tickets_ok_def by simp

lemma tickets_ok_step:
  assumes "edit_step a s = Some s'" "tickets_ok s" "guards_ok s"
  shows "tickets_ok s'"
  using assms(1)
proof (cases rule: edit_step_cases)
  case (Draw w u)
  note d = tickets_okD [OF assms(2)]
  have n: "handlers s (next_ticket s) = Undrawn" using d(1) by simp
  then have "\<not> next_ticket s < now_serving s" using d(2) [of "next_ticket s"] by auto
  show ?thesis
  proof (rule tickets_okI)
    fix u k
    let ?t = "next_ticket s"
    have h: "handlers s' u = (if u = ?t then Waiting Fresh else handlers s u)" for u by (simp add: Draw(2))
    show "handlers s' u = Undrawn \<longleftrightarrow> next_ticket s' \<le> u" using d(1) [of u] by (auto simp: h Draw(2))
    show "u < now_serving s' \<Longrightarrow> accounted (handlers s' u)"
      using d(2) [of u] \<open>\<not> ?t < now_serving s\<close> by (simp add: h Draw(2))
    show "now_serving s' \<le> u \<Longrightarrow> accounted (handlers s' u) \<Longrightarrow> u = now_serving s' \<and> (\<exists>d. mutex s' = Some (d, Adding))"
      using d(3) [of u] by (cases "u = ?t") (simp_all add: h, simp_all add: Draw(2))
    show "mutex s' = Some (k, Adding) \<Longrightarrow> \<exists>x. handlers s' (now_serving s') = Skipped x"
      using d(4) [of k] n by (cases "now_serving s = ?t") (auto simp: h, auto simp: Draw(2))
    show "handlers s' u = Granted \<or> handlers s' u = Cleared \<Longrightarrow> u = now_serving s'"
      using d(5) [of u] by (cases "u = ?t") (simp_all add: h, simp_all add: Draw(2))
    have "handlers s' u = Abandoned x \<longleftrightarrow> handlers s u = Abandoned x" for u x using n by (simp add: h)
    then show "abandoned s' = {u. \<exists>x. handlers s' u = Abandoned x}" using d(6) by (simp add: Draw(2))
  qed
next
  case (Advance t)
  note ok = tickets_okD [OF assms(2)]
  have t: "t = now_serving s" using ok(5) Advance(2) by blast
  have nm: "mutex s \<noteq> Some (d, Adding)" for d using ok(4) [of d] Advance(2) t by auto
  have late: "now_serving s \<le> u \<Longrightarrow> \<not> accounted (handlers s u)" for u using ok(3) nm by blast
  have h: "handlers s' = (handlers s)(t := Passed Drain_due)" "now_serving s' = Suc t" "next_ticket s' = next_ticket s"
    "mutex s' = mutex s" "abandoned s' = abandoned s" by (simp_all add: Advance(3) t)
  show ?thesis
  proof (rule tickets_okI)
    fix u d
    show "handlers s' u = Undrawn \<longleftrightarrow> next_ticket s' \<le> u" using ok(1) [of u] Advance(2) by (auto simp: h)
    show "u < now_serving s' \<Longrightarrow> accounted (handlers s' u)" using ok(2) [of u] t by (auto simp: h less_Suc_eq)
    show "now_serving s' \<le> u \<Longrightarrow> accounted (handlers s' u) \<Longrightarrow> u = now_serving s' \<and> (\<exists>d. mutex s' = Some (d, Adding))"
      using late [of u] t by (auto simp: h split: if_splits)
    show "mutex s' = Some (d, Adding) \<Longrightarrow> \<exists>x. handlers s' (now_serving s') = Skipped x" using nm by (simp add: h)
    show "handlers s' u = Granted \<or> handlers s' u = Cleared \<Longrightarrow> u = now_serving s'"
      using ok(5) [of u] t by (auto simp: h split: if_splits)
    show "abandoned s' = {u. \<exists>x. handlers s' u = Abandoned x}" using ok(6) Advance(2) by (auto simp: h)
  qed
next
  case (Hit t n)
  note ok = tickets_okD [OF assms(2)]
  from Hit(3) ok(6) obtain x where x: "handlers s n = Abandoned x" by blast
  have "n \<le> now_serving s" using assms(3) Hit(2) unfolding guards_ok_def by blast
  moreover have "\<not> n < now_serving s" using ok(2) [of n] x by auto
  ultimately have n: "n = now_serving s" by simp
  have late: "now_serving s \<le> u \<Longrightarrow> \<not> accounted (handlers s u)" for u using ok(3) Hit(2) by fastforce
  have h: "handlers s' = (handlers s)(n := Skipped x)" "now_serving s' = n" "next_ticket s' = next_ticket s"
    "mutex s' = Some (t, Adding)" "abandoned s' = abandoned s - {n}" by (simp_all add: Hit(4) n [symmetric] x)
  show ?thesis
  proof (rule tickets_okI)
    fix u d
    show "handlers s' u = Undrawn \<longleftrightarrow> next_ticket s' \<le> u" using ok(1) [of u] x by (auto simp: h)
    show "u < now_serving s' \<Longrightarrow> accounted (handlers s' u)" using ok(2) [of u] n by (auto simp: h)
    show "now_serving s' \<le> u \<Longrightarrow> accounted (handlers s' u) \<Longrightarrow> u = now_serving s' \<and> (\<exists>d. mutex s' = Some (d, Adding))"
      using late [of u] n by (auto simp: h split: if_splits)
    show "mutex s' = Some (d, Adding) \<Longrightarrow> \<exists>x. handlers s' (now_serving s') = Skipped x" by (simp add: h)
    show "handlers s' u = Granted \<or> handlers s' u = Cleared \<Longrightarrow> u = now_serving s'"
      using ok(5) [of u] n by (auto simp: h split: if_splits)
    show "abandoned s' = {u. \<exists>x. handlers s' u = Abandoned x}" using ok(6) by (auto simp: h)
  qed
next
  case (Skip t)
  note ok = tickets_okD [OF assms(2)]
  obtain x where x: "handlers s (now_serving s) = Skipped x" using ok(4) Skip(2) by blast
  have h: "handlers s' = handlers s" "now_serving s' = Suc (now_serving s)" "next_ticket s' = next_ticket s"
    "mutex s' = Some (t, Loading)" "abandoned s' = abandoned s" by (simp_all add: Skip(3))
  have "\<not> (handlers s u = Granted \<or> handlers s u = Cleared)" for u using ok(5) [of u] x by auto
  moreover have "now_serving s < u \<Longrightarrow> \<not> accounted (handlers s u)" for u using ok(3) [of u] by auto
  ultimately show ?thesis
    using ok x by (intro tickets_okI) (auto simp: h less_Suc_eq Suc_le_eq)
next
  case (Notify t)
  let ?s = "set_handler t (set_tail Finished (handlers s t)) s"
  have ok: "tickets_ok ?s"
    using Notify(2) tickets_okD(6) [OF assms(2)]
    by (intro tickets_ok_single [OF assms(2), where t = t and h = "set_tail Finished (handlers s t)"])
      (auto simp: tail_of_accounted)
  have h: "handlers s' u = wake_handler (handlers ?s u)" for u by (simp add: Notify(3))
  show ?thesis
    by (rule tickets_ok_cong [OF ok]) (use tickets_okD(5,6) [OF ok] in \<open>auto simp: h\<close>, simp_all add: Notify(3))
next
  case (Register t)
  then show ?thesis using tickets_okD(6) [OF assms(2)]
    by (intro tickets_ok_single [OF assms(2), where t = t and h = "handlers s' t"]) (auto simp: tail_of_accounted)
next
  case (Grant t b h)
  then show ?thesis using tickets_okD(6) [OF assms(2)]
    by (intro tickets_ok_single [OF assms(2), where t = t and h = "handlers s' t"]) (auto simp: tail_of_accounted)
next
  case (Retry t b)
  then show ?thesis using tickets_okD(6) [OF assms(2)]
    by (intro tickets_ok_single [OF assms(2), where t = t and h = "handlers s' t"]) (auto simp: tail_of_accounted)
next
  case (Drop_ticket t p)
  then show ?thesis using tickets_okD(6) [OF assms(2)]
    by (intro tickets_ok_single [OF assms(2), where t = t and h = "handlers s' t"]) (auto simp: tail_of_accounted)
next
  case (Insert_abandoned t)
  then show ?thesis using tickets_okD(6) [OF assms(2)]
    by (intro tickets_ok_single [OF assms(2), where t = t and h = "handlers s' t"]) (auto simp: tail_of_accounted)
next
  case (Clear_holder t)
  then show ?thesis using tickets_okD(5) [OF assms(2), of t] tickets_okD(6) [OF assms(2)]
    by (intro tickets_ok_single [OF assms(2), where t = t and h = "handlers s' t"]) auto
next
  case (Lock_abandoned t)
  then show ?thesis using tickets_okD(6) [OF assms(2)]
    by (intro tickets_ok_single [OF assms(2), where t = t and h = "handlers s' t"]) (auto simp: tail_of_accounted)
next
  case (Miss t n)
  moreover have "tail_of (handlers s t) = Some Draining" using guards_okD(3) [OF assms(3)] Miss(2) by blast
  ultimately show ?thesis using tickets_okD(6) [OF assms(2)]
    by (intro tickets_ok_single [OF assms(2), where t = t and h = "handlers s' t"]) (auto simp: tail_of_accounted)
qed (rule tickets_ok_same [OF assms(2)]; simp)+

lemma guards_ok_single:
  assumes "guards_ok s" "handlers s' = (handlers s)(t := h)" "(h = Granted) = (handlers s t = Granted)"
    "(tail_of h = Some Draining) = (tail_of (handlers s t) = Some Draining)"
    "holder s' = holder s" "mutex s' = mutex s" "now_serving s \<le> now_serving s'"
  shows "guards_ok s'"
proof (rule guards_okI)
  fix u d n k
  note ok = guards_okD [OF assms(1)]
  show "handlers s' u = Granted \<Longrightarrow> \<exists>h. holder s' = Some h \<and> holder_ticket h = u"
    using ok(1) [of u] assms(2,3,5) by (auto split: if_splits)
  show "holder s' = Some k \<Longrightarrow> handlers s' (holder_ticket k) = Granted" using ok(2) [of k] assms(2,3,5) by auto
  show "tail_of (handlers s' u) = Some Draining \<longleftrightarrow> (\<exists>pc. mutex s' = Some (u, pc))"
    using ok(3) [of u] assms(2,4,6) by auto
  show "mutex s' = Some (d, Removing n) \<Longrightarrow> n \<le> now_serving s'" using ok(4) [of d n] assms(6,7) by auto
qed

lemma guards_ok_step:
  assumes "edit_step a s = Some s'" "tickets_ok s" "guards_ok s"
  shows "guards_ok s'"
  using assms(1)
proof (cases rule: edit_step_cases)
  case (Draw w u)
  have "handlers s (next_ticket s) = Undrawn" using tickets_okD(1) [OF assms(2)] by simp
  then show ?thesis by (intro guards_ok_single [OF assms(3), of _ "next_ticket s" "Waiting Fresh"]) (simp_all add: Draw)
next
  case (Grant t b h)
  note ok = guards_okD [OF assms(3)]
  have m: "mutex s \<noteq> Some (t, pc)" for pc using ok(3) [of t] Grant(2) by auto
  have no: "handlers s u \<noteq> Granted" for u using tickets_okD(5) [OF assms(2), of u] Grant(2,3) by auto
  have h: "handlers s' u = (if u = t then Granted else handlers s u)" "holder s' = Some h" "mutex s' = mutex s"
    "now_serving s' = now_serving s" for u by (simp_all add: Grant(5))
  show ?thesis
  proof (rule guards_okI)
    fix u d n k
    show "handlers s' u = Granted \<Longrightarrow> \<exists>h. holder s' = Some h \<and> holder_ticket h = u"
      using no [of u] Grant(4) by (auto simp: h split: if_splits)
    show "holder s' = Some k \<Longrightarrow> handlers s' (holder_ticket k) = Granted" using Grant(4) by (auto simp: h)
    show "tail_of (handlers s' u) = Some Draining \<longleftrightarrow> (\<exists>pc. mutex s' = Some (u, pc))" using ok(3) [of u] m by (auto simp: h)
    show "mutex s' = Some (d, Removing n) \<Longrightarrow> n \<le> now_serving s'" using ok(4) by (simp add: h)
  qed
next
  case (Mark t p)
  note ok = guards_okD [OF assms(3)]
  have h: "handlers s' = handlers s" "mutex s' = mutex s" "now_serving s' = now_serving s"
    "holder s' = map_option (\<lambda>h. h\<lparr>phase := p\<rparr>) (holder s)" by (simp_all add: Mark(3))
  show ?thesis
  proof (rule guards_okI)
    fix u d n k
    show "handlers s' u = Granted \<Longrightarrow> \<exists>h. holder s' = Some h \<and> holder_ticket h = u"
      using ok(1) [of u] by (auto simp: h)
    show "holder s' = Some k \<Longrightarrow> handlers s' (holder_ticket k) = Granted" using ok(2) by (auto simp: h)
  qed (use ok(3,4) in \<open>simp_all add: h\<close>)
next
  case (Clear_holder t)
  note ok = guards_okD [OF assms(3)]
  have only: "u = t" if "handlers s u = Granted" for u
    using that tickets_okD(5) [OF assms(2), of u] tickets_okD(5) [OF assms(2), of t] Clear_holder(2) by auto
  have m: "mutex s \<noteq> Some (t, pc)" for pc using ok(3) [of t] Clear_holder(2) by auto
  have h: "handlers s' u = (if u = t then Cleared else handlers s u) " "holder s' = None" "mutex s' = mutex s" "now_serving s' = now_serving s" for u by (simp_all add: Clear_holder(3))
  show ?thesis
  proof (rule guards_okI)
    fix u d n' k
    show "handlers s' u = Granted \<Longrightarrow> \<exists>h. holder s' = Some h \<and> holder_ticket h = u"
      using only [of u] by (auto simp: h split: if_splits)
    show "holder s' = Some k \<Longrightarrow> handlers s' (holder_ticket k) = Granted"
      using ok(2) [of k] by (auto simp: h split: if_splits)
    show "tail_of (handlers s' u) = Some Draining \<longleftrightarrow> (\<exists>pc. mutex s' = Some (u, pc))"
      using ok(3) [of u] m by (auto simp: h split: if_splits)
    show "mutex s' = Some (d, Removing n') \<Longrightarrow> n' \<le> now_serving s'"
      using ok(4) [of d n'] by (auto simp: h)
  qed
next
  case (Lock_abandoned t)
  note ok = guards_okD [OF assms(3)]
  have m: "tail_of (handlers s u) \<noteq> Some Draining" for u using ok(3) [of u] Lock_abandoned(3) by auto
  have h: "handlers s' u = (if u = t then set_tail Draining (handlers s t) else handlers s u) " "holder s' = holder s" "mutex s' = Some (t, Loading)" "now_serving s' = now_serving s" for u by (simp_all add: Lock_abandoned(4))
  show ?thesis
  proof (rule guards_okI)
    fix u d n' k
    show "handlers s' u = Granted \<Longrightarrow> \<exists>h. holder s' = Some h \<and> holder_ticket h = u"
      using ok(1) [of u] by (auto simp: h split: if_splits)
    show "holder s' = Some k \<Longrightarrow> handlers s' (holder_ticket k) = Granted"
      using ok(2) [of k] by (auto simp: h split: if_splits)
    show "tail_of (handlers s' u) = Some Draining \<longleftrightarrow> (\<exists>pc. mutex s' = Some (u, pc))"
      using m [of u] Lock_abandoned(2) by (auto simp: h split: if_splits)
    show "mutex s' = Some (d, Removing n') \<Longrightarrow> n' \<le> now_serving s'"
      using ok(4) by (auto simp: h)
  qed
next
  case (Load_serving t)
  note ok = guards_okD [OF assms(3)]
  have h: "handlers s' u = handlers s u " "holder s' = holder s" "mutex s' = Some (t, Removing (now_serving s))" "now_serving s' = now_serving s" for u by (simp_all add: Load_serving(3))
  show ?thesis
  proof (rule guards_okI)
    fix u d n' k
    show "handlers s' u = Granted \<Longrightarrow> \<exists>h. holder s' = Some h \<and> holder_ticket h = u"
      using ok(1) [of u] by (auto simp: h split: if_splits)
    show "holder s' = Some k \<Longrightarrow> handlers s' (holder_ticket k) = Granted"
      using ok(2) [of k] by (auto simp: h split: if_splits)
    show "tail_of (handlers s' u) = Some Draining \<longleftrightarrow> (\<exists>pc. mutex s' = Some (u, pc))"
      using ok(3) [of u] Load_serving(2) by (auto simp: h split: if_splits)
    show "mutex s' = Some (d, Removing n') \<Longrightarrow> n' \<le> now_serving s'"
      using ok(4) by (auto simp: h)
  qed
next
  case (Hit t n)
  note ok = guards_okD [OF assms(3)]
  obtain x where x: "handlers s n = Abandoned x" using tickets_okD(6) [OF assms(2)] Hit(3) by blast
  have h: "handlers s' u = (if u = n then Skipped x else handlers s u) " "holder s' = holder s" "mutex s' = Some (t, Adding)" "now_serving s' = now_serving s" for u using x by (simp_all add: Hit(4))
  show ?thesis
  proof (rule guards_okI)
    fix u d n' k
    show "handlers s' u = Granted \<Longrightarrow> \<exists>h. holder s' = Some h \<and> holder_ticket h = u"
      using ok(1) [of u] by (auto simp: h split: if_splits)
    show "holder s' = Some k \<Longrightarrow> handlers s' (holder_ticket k) = Granted"
      using ok(2) [of k] x by (auto simp: h split: if_splits)
    show "tail_of (handlers s' u) = Some Draining \<longleftrightarrow> (\<exists>pc. mutex s' = Some (u, pc))"
      using ok(3) [of u] x Hit(2) by (auto simp: h split: if_splits)
    show "mutex s' = Some (d, Removing n') \<Longrightarrow> n' \<le> now_serving s'"
      using ok(4) by (auto simp: h)
  qed
next
  case (Miss t n)
  note ok = guards_okD [OF assms(3)]
  have t: "tail_of (handlers s t) = Some Draining" using ok(3) Miss(2) by blast
  have h: "handlers s' u = (if u = t then set_tail Notify_due (handlers s t) else handlers s u) " "holder s' = holder s" "mutex s' = None" "now_serving s' = now_serving s" for u by (simp_all add: Miss(4))
  show ?thesis
  proof (rule guards_okI)
    fix u d n' k
    show "handlers s' u = Granted \<Longrightarrow> \<exists>h. holder s' = Some h \<and> holder_ticket h = u"
      using ok(1) [of u] t by (auto simp: h split: if_splits)
    show "holder s' = Some k \<Longrightarrow> handlers s' (holder_ticket k) = Granted"
      using ok(2) [of k] t by (auto simp: h split: if_splits)
    show "tail_of (handlers s' u) = Some Draining \<longleftrightarrow> (\<exists>pc. mutex s' = Some (u, pc))"
      using ok(3) [of u] t Miss(2) by (auto simp: h split: if_splits)
    show "mutex s' = Some (d, Removing n') \<Longrightarrow> n' \<le> now_serving s'"
      using ok(4) by (auto simp: h)
  qed
next
  case (Skip t)
  note ok = guards_okD [OF assms(3)]
  have h: "handlers s' u = handlers s u " "holder s' = holder s" "mutex s' = Some (t, Loading)" "now_serving s' = Suc (now_serving s)" for u by (simp_all add: Skip(3))
  show ?thesis
  proof (rule guards_okI)
    fix u d n' k
    show "handlers s' u = Granted \<Longrightarrow> \<exists>h. holder s' = Some h \<and> holder_ticket h = u"
      using ok(1) [of u] by (auto simp: h split: if_splits)
    show "holder s' = Some k \<Longrightarrow> handlers s' (holder_ticket k) = Granted"
      using ok(2) [of k] by (auto simp: h split: if_splits)
    show "tail_of (handlers s' u) = Some Draining \<longleftrightarrow> (\<exists>pc. mutex s' = Some (u, pc))"
      using ok(3) [of u] Skip(2) by (auto simp: h split: if_splits)
    show "mutex s' = Some (d, Removing n') \<Longrightarrow> n' \<le> now_serving s'"
      using ok(4) by (auto simp: h)
  qed
next
  case (Notify t)
  note ok = guards_okD [OF assms(3)]
  have h: "handlers s' u = wake_handler (if u = t then set_tail Finished (handlers s t) else handlers s u) " "holder s' = holder s" "mutex s' = mutex s" "now_serving s' = now_serving s" for u by (simp_all add: Notify(3))
  show ?thesis
  proof (rule guards_okI)
    fix u d n' k
    show "handlers s' u = Granted \<Longrightarrow> \<exists>h. holder s' = Some h \<and> holder_ticket h = u"
      using ok(1) [of u] by (auto simp: h split: if_splits)
    show "holder s' = Some k \<Longrightarrow> handlers s' (holder_ticket k) = Granted"
      using ok(2) [of k] by (auto simp: h split: if_splits)
    show "tail_of (handlers s' u) = Some Draining \<longleftrightarrow> (\<exists>pc. mutex s' = Some (u, pc))"
      using ok(3) [of u] Notify(2) by (auto simp: h split: if_splits)
    show "mutex s' = Some (d, Removing n') \<Longrightarrow> n' \<le> now_serving s'"
      using ok(4) [of d n'] by (auto simp: h)
  qed
next
  case (Register t)
  then show ?thesis by (intro guards_ok_single [OF assms(3), where t = t and h = "handlers s' t"]) auto
next
  case (Retry t b)
  then show ?thesis by (intro guards_ok_single [OF assms(3), where t = t and h = "handlers s' t"]) auto
next
  case (Drop_ticket t p)
  then show ?thesis by (intro guards_ok_single [OF assms(3), where t = t and h = "handlers s' t"]) auto
next
  case (Insert_abandoned t)
  then show ?thesis by (intro guards_ok_single [OF assms(3), where t = t and h = "handlers s' t"]) auto
next
  case (Advance t)
  then show ?thesis by (intro guards_ok_single [OF assms(3), where t = t and h = "handlers s' t"]) auto
qed (rule guards_ok_single [OF assms(3), of _ t "handlers s t"]; simp)+

lemma wakeup_owedI: "tail_of (handlers s t) = Some x \<Longrightarrow> x \<noteq> Finished \<Longrightarrow> wakeup_owed s"
  unfolding wakeup_owed_def by (cases x) auto

lemma mutex_wakeup: "guards_ok s \<Longrightarrow> mutex s = Some (t, pc) \<Longrightarrow> wakeup_owed s"
  using guards_okD(3) [of s t] by (auto intro: wakeup_owedI)

lemma progress_owed: "drain_owed s \<Longrightarrow> wakeup_owed s \<Longrightarrow> progress_ok s"
  by (simp add: progress_ok_def)

lemma progress_due: "tail_of (handlers s t) = Some Drain_due \<Longrightarrow> progress_ok s"
  by (rule progress_owed) (auto simp: drain_owed_def intro: wakeup_owedI)

lemma progress_single:
  assumes "progress_ok s" "handlers s' = (handlers s)(t := h)" "tail_of h = tail_of (handlers s t)"
    "(\<exists>x. h = Abandoned x) \<longrightarrow> (\<exists>x. handlers s t = Abandoned x)" "h = Waiting Asleep \<longrightarrow> t \<noteq> now_serving s"
    "mutex s' = mutex s" "now_serving s' = now_serving s"
    "\<And>r target. readers s' r = Settling target Asleep \<Longrightarrow> target \<le> now_serving s \<Longrightarrow> readers s r = Settling target Asleep"
  shows "progress_ok s'"
proof -
  have tails: "tail_of (handlers s' u) = tail_of (handlers s u)" for u using assms(2,3) by simp
  then have "drain_owed s' = drain_owed s" "wakeup_owed s' = wakeup_owed s"
    by (simp_all add: drain_owed_def wakeup_owed_def assms(6,7))
  moreover have "\<exists>y. handlers s (now_serving s) = Abandoned y" if "handlers s' (now_serving s) = Abandoned x" for x
    using that assms(2,4) by (cases "now_serving s = t") auto
  moreover have "handlers s (now_serving s) = Waiting Asleep" if "handlers s' (now_serving s) = Waiting Asleep"
    using that assms(2,5) by (cases "now_serving s = t") auto
  ultimately show ?thesis using assms(1,8) unfolding progress_ok_def assms(7) by blast
qed

lemma progress_same:
  assumes "progress_ok s" "handlers s' = handlers s" "mutex s' = mutex s" "now_serving s' = now_serving s"
    "\<And>r target. readers s' r = Settling target Asleep \<Longrightarrow> target \<le> now_serving s \<Longrightarrow> readers s r = Settling target Asleep"
  shows "progress_ok s'"
proof -
  have "drain_owed s' = drain_owed s" "wakeup_owed s' = wakeup_owed s"
    by (simp_all add: drain_owed_def wakeup_owed_def assms(2-4))
  with assms show ?thesis unfolding progress_ok_def by metis
qed

lemma progress_ok_step:
  assumes "edit_step a s = Some s'" "tickets_ok s'" "guards_ok s" "guards_ok s'" "progress_ok s" "tickets_ok s"
  shows "progress_ok s'"
  using assms(1)
proof (cases rule: edit_step_cases)
  case (Draw w u)
  have "handlers s (next_ticket s) = Undrawn" using tickets_okD(1) [OF assms(6)] by simp
  then show ?thesis by (intro progress_single [OF assms(5), of _ "next_ticket s" "Waiting Fresh"]) (simp_all add: Draw)
next
  case (Retry t b)
  then show ?thesis by (intro progress_single [OF assms(5), of _ t "Waiting (retry_pc b)"]) auto
next
  case (Insert_abandoned t)
  then show ?thesis by (intro progress_due [of _ t]) simp
next
  case (Advance t)
  then show ?thesis by (intro progress_due [of _ t]) simp
next
  case (Lock_abandoned t)
  then have "mutex s' = Some (t, Loading)" by simp
  with mutex_wakeup [OF assms(4)] show ?thesis by (intro progress_owed) (auto simp: drain_owed_def)
next
  case (Load_serving t)
  then have "mutex s' = Some (t, Removing (now_serving s'))" by simp
  with mutex_wakeup [OF assms(4)] show ?thesis by (intro progress_owed) (auto simp: drain_owed_def)
next
  case (Hit t n)
  then have m: "mutex s' = Some (t, Adding)" by simp
  from tickets_okD(4) [OF assms(2) m] mutex_wakeup [OF assms(4) m] show ?thesis by (auto simp: progress_ok_def)
next
  case (Miss t n)
  have t: "tail_of (handlers s t) = Some Draining" using guards_okD(3) [OF assms(3)] Miss(2) by blast
  then have "wakeup_owed s'" by (intro wakeup_owedI [of _ t Notify_due]) (simp_all add: Miss(4))
  moreover have "drain_owed s'" if x: "handlers s' (now_serving s') = Abandoned x" for x
  proof -
    have "\<exists>y. handlers s (now_serving s) = Abandoned y"
      using x t by (cases "now_serving s = t") (auto simp: Miss(4) tail_of_accounted)
    moreover from this have "n \<noteq> now_serving s" using Miss(3) tickets_okD(6) [OF assms(6)] by auto
    ultimately obtain u where u: "tail_of (handlers s u) = Some Drain_due"
      using assms(5) Miss(2) by (auto simp: progress_ok_def drain_owed_def)
    with t have "tail_of (handlers s' u) = Some Drain_due" by (auto simp: Miss(4))
    then show ?thesis by (auto simp: drain_owed_def)
  qed
  ultimately show ?thesis by (auto simp: progress_ok_def)
next
  case (Skip t)
  then have "mutex s' = Some (t, Loading)" by simp
  with mutex_wakeup [OF assms(4)] show ?thesis by (intro progress_owed) (auto simp: drain_owed_def)
next
  case (Notify t)
  have h: "handlers s' u = wake_handler (if u = t then set_tail Finished (handlers s t) else handlers s u)"
    "readers s' r = wake_reader (readers s r)" "mutex s' = mutex s" "now_serving s' = now_serving s" for u r
    by (simp_all add: Notify(3))
  have "tail_of (handlers s' u) = Some Drain_due" if "tail_of (handlers s u) = Some Drain_due" for u
    using that Notify(2) by (auto simp: h)
  then have "drain_owed s'" if "drain_owed s"
    using that unfolding drain_owed_def h(3,4) by blast
  moreover have "\<exists>y. handlers s (now_serving s) = Abandoned y" if "handlers s' (now_serving s') = Abandoned x" for x
    using that Notify(2) by (cases "handlers s t") (auto simp: h split: if_splits)
  ultimately show ?thesis using assms(5) by (auto simp: progress_ok_def h)
next
  case (Reader_retry r target b)
  then show ?thesis
    by (intro progress_same [OF assms(5)]) (auto simp: retry_pc_def split: if_splits)
next
  case (Mark t p)
  then show ?thesis by (intro progress_single [OF assms(5), of _ t Granted]) auto
next
  case (Register t)
  then show ?thesis by (intro progress_single [OF assms(5), of _ t "Waiting (Registered False)"]) auto
next
  case (Grant t b h)
  then show ?thesis by (intro progress_single [OF assms(5), of _ t Granted]) auto
next
  case (Drop_ticket t p)
  then show ?thesis by (intro progress_single [OF assms(5), of _ t Dropping]) auto
next
  case (Clear_holder t)
  then show ?thesis by (intro progress_single [OF assms(5), of _ t Cleared]) auto
next
  case Arrive
  then show ?thesis by (intro progress_same [OF assms(5)]) (auto split: if_splits)
next
  case (Reader_register r target)
  then show ?thesis by (intro progress_same [OF assms(5)]) (auto split: if_splits)
next
  case (Reader_done r target b)
  then show ?thesis by (intro progress_same [OF assms(5)]) (auto split: if_splits)
qed

definition order_ok :: "edit_order \<Rightarrow> bool" where
  "order_ok s \<longleftrightarrow> tickets_ok s \<and> guards_ok s \<and> progress_ok s \<and> readers_ok s"

lemma order_ok_step: "order_ok s \<Longrightarrow> edit_step a s = Some s' \<Longrightarrow> order_ok s'"
  unfolding order_ok_def
  using tickets_ok_step guards_ok_step progress_ok_step readers_ok_step by blast

lemma order_ok_start: "order_ok edit_order_default"
  by (simp add: order_ok_def edit_order_default_def tickets_ok_def guards_ok_def progress_ok_def readers_ok_def)

lemma reachable_order_ok: "order_reachable s \<Longrightarrow> order_ok s"
  by (induction rule: order_reachable.induct) (auto intro: order_ok_start order_ok_step)

section \<open>A measure on the server's own steps\<close>

fun pc_weight :: "wait_pc \<Rightarrow> nat" where
  "pc_weight Fresh = 2" | "pc_weight (Registered b) = (if b then 3 else 1)" | "pc_weight Asleep = 0"

fun tail_weight :: "tail \<Rightarrow> nat" where
  "tail_weight Drain_due = 8" | "tail_weight Draining = 4" | "tail_weight Notify_due = 1" | "tail_weight Finished = 0"

fun handler_weight :: "handler \<Rightarrow> nat" where
  "handler_weight Undrawn = 0"
| "handler_weight (Waiting p) = 20 + pc_weight p"
| "handler_weight Granted = 19"
| "handler_weight Cleared = 18"
| "handler_weight (Passed x) = tail_weight x"
| "handler_weight Dropping = 19"
| "handler_weight (Abandoned x) = 5 + tail_weight x"
| "handler_weight (Skipped x) = tail_weight x"

fun reader_weight :: "reader \<Rightarrow> nat" where
  "reader_weight (Settling target p) = 1 + pc_weight p" | "reader_weight _ = 0"

fun mutex_weight :: "(nat \<times> drain_pc) option \<Rightarrow> nat" where
  "mutex_weight None = 0" | "mutex_weight (Some (t, Loading)) = 2"
| "mutex_weight (Some (t, Removing n)) = 1" | "mutex_weight (Some (t, Adding)) = 3"

definition unnotified :: "handler \<Rightarrow> nat" where
  "unnotified h = (if tail_of h = Some Finished then 0 else 1)"

definition order_measure :: "edit_order \<Rightarrow> nat" where
  "order_measure s =
     (2 * (next_ticket s + next_reader s) + 1) * (\<Sum>t<next_ticket s. unnotified (handlers s t)) +
     (\<Sum>t<next_ticket s. handler_weight (handlers s t)) +
     (\<Sum>r<next_reader s. reader_weight (readers s r)) + mutex_weight (mutex s)"

lemma sum_upd:
  fixes f :: "'a \<Rightarrow> nat" and n :: nat
  assumes "t < n"
  shows "(\<Sum>u<n. f ((g(t := h)) u)) + f (g t) = (\<Sum>u<n. f (g u)) + f h"
proof -
  have "(\<Sum>u<n. f ((g(t := h)) u)) = f h + (\<Sum>u\<in>{..<n} - {t}. f (g u))"
    using assms by (subst sum.remove [of _ t]) (auto intro: sum.cong)
  moreover have "(\<Sum>u<n. f (g u)) = f (g t) + (\<Sum>u\<in>{..<n} - {t}. f (g u))"
    using assms by (subst sum.remove [of _ t]) auto
  ultimately show ?thesis by simp
qed

lemma measure_handler:
  assumes "t < next_ticket s" "handlers s' = (handlers s)(t := h)" "readers s' = readers s"
    "next_ticket s' = next_ticket s" "next_reader s' = next_reader s"
    "unnotified h = unnotified (handlers s t)"
    "handler_weight h + mutex_weight (mutex s') < handler_weight (handlers s t) + mutex_weight (mutex s)"
  shows "order_measure s' < order_measure s"
  using sum_upd [OF assms(1), of handler_weight "handlers s" h] sum_upd [OF assms(1), of unnotified "handlers s" h] assms(2-)
  unfolding order_measure_def by simp

lemma measure_mutex:
  assumes "handlers s' = handlers s" "readers s' = readers s" "next_ticket s' = next_ticket s"
    "next_reader s' = next_reader s" "mutex_weight (mutex s') < mutex_weight (mutex s)"
  shows "order_measure s' < order_measure s"
  using assms unfolding order_measure_def by simp

lemma measure_reader:
  assumes "r < next_reader s" "readers s' = (readers s)(r := x)" "handlers s' = handlers s"
    "next_ticket s' = next_ticket s" "next_reader s' = next_reader s" "mutex s' = mutex s"
    "reader_weight x < reader_weight (readers s r)"
  shows "order_measure s' < order_measure s"
  using sum_upd [OF assms(1), of reader_weight "readers s" x] assms(2-)
  unfolding order_measure_def by simp

lemma wake_weight: "handler_weight (wake_handler h) \<le> handler_weight h + 2" "reader_weight (wake_reader r) \<le> reader_weight r + 2"
  by (cases h; auto simp: wake_handler_def wake_pc_def split: wait_pc.splits)
    (cases r; auto simp: wake_reader_def wake_pc_def split: wait_pc.splits)

lemma sum_wake:
  fixes f :: "'a \<Rightarrow> nat" and n :: nat
  assumes "\<And>x. f (w x) \<le> f x + 2"
  shows "(\<Sum>u<n. f (w (g u))) \<le> (\<Sum>u<n. f (g u)) + 2 * n"
proof -
  have "(\<Sum>u<n. f (w (g u))) \<le> (\<Sum>u<n. f (g u) + 2)" by (rule sum_mono) (rule assms)
  also have "\<dots> = (\<Sum>u<n. f (g u)) + 2 * n" by (simp only: sum.distrib) simp
  finally show ?thesis .
qed

lemma wake_unnotified: "unnotified (wake_handler h) = unnotified h"
  by (cases h) (auto simp: unnotified_def wake_handler_def)

lemma measure_notify:
  assumes "t < next_ticket s" "tail_of (handlers s t) = Some Notify_due"
    "s' = s\<lparr>handlers := wake_handler \<circ> (handlers s)(t := set_tail Finished (handlers s t)), readers := wake_reader \<circ> readers s\<rparr>"
  shows "order_measure s' < order_measure s"
proof -
  let ?g = "(handlers s)(t := set_tail Finished (handlers s t))"
  let ?n = "next_ticket s" and ?m = "next_reader s"
  have u: "(\<Sum>u<?n. unnotified (wake_handler (?g u))) + 1 = (\<Sum>u<?n. unnotified (handlers s u))"
    using sum_upd [OF assms(1), of unnotified "handlers s" "set_tail Finished (handlers s t)"] assms(2)
    by (cases "handlers s t") (simp_all add: wake_unnotified unnotified_def)
  have "handler_weight (set_tail Finished (handlers s t)) \<le> handler_weight (handlers s t)"
    using assms(2) by (cases "handlers s t") auto
  with sum_upd [OF assms(1), of handler_weight "handlers s" "set_tail Finished (handlers s t)"]
  have "(\<Sum>u<?n. handler_weight (?g u)) \<le> (\<Sum>u<?n. handler_weight (handlers s u))" by simp
  with sum_wake [of handler_weight wake_handler ?g ?n, OF wake_weight(1)]
  have h: "(\<Sum>u<?n. handler_weight (wake_handler (?g u))) \<le> (\<Sum>u<?n. handler_weight (handlers s u)) + 2 * ?n" by simp
  have r: "(\<Sum>u<?m. reader_weight (wake_reader (readers s u))) \<le> (\<Sum>u<?m. reader_weight (readers s u)) + 2 * ?m"
    by (rule sum_wake [of reader_weight wake_reader "readers s", OF wake_weight(2)])
  define k where "k = (\<Sum>u<?n. unnotified (wake_handler (?g u)))"
  have "order_measure s' = (2 * (?n + ?m) + 1) * k + (\<Sum>u<?n. handler_weight (wake_handler (?g u))) +
      (\<Sum>u<?m. reader_weight (wake_reader (readers s u))) + mutex_weight (mutex s)"
    unfolding order_measure_def k_def assms(3) by simp
  also have "\<dots> \<le> (2 * (?n + ?m) + 1) * k + (\<Sum>u<?n. handler_weight (handlers s u)) + 2 * ?n +
      (\<Sum>u<?m. reader_weight (readers s u)) + 2 * ?m + mutex_weight (mutex s)"
    using h r by linarith
  also have "\<dots> < (2 * (?n + ?m) + 1) * (k + 1) + (\<Sum>u<?n. handler_weight (handlers s u)) +
      (\<Sum>u<?m. reader_weight (readers s u)) + mutex_weight (mutex s)" by (simp add: algebra_simps)
  also have "\<dots> = order_measure s" unfolding order_measure_def u [symmetric] k_def by simp
  finally show ?thesis .
qed

lemma measure_step:
  assumes "edit_step a s = Some s'" "server_action a" "order_ok s"
  shows "order_measure s' < order_measure s"
proof -
  have t: "handlers s t \<noteq> Undrawn \<Longrightarrow> t < next_ticket s" for t
    using assms(3) tickets_okD(1) [of s t] by (auto simp: order_ok_def)
  have r: "readers s r \<noteq> Absent \<Longrightarrow> r < next_reader s" for r
    using assms(3) by (auto simp: order_ok_def readers_ok_def)
  have tl: "handlers s t \<noteq> Undrawn" if "tail_of (handlers s t) = Some x" for t x using that by auto
  from assms(1) show ?thesis
  proof (cases rule: edit_step_cases)
    case (Register t)
    then show ?thesis by (intro measure_handler [of t s]) (auto intro!: t simp: unnotified_def)
  next
    case (Grant u b h)
    then show ?thesis by (intro measure_handler [of u s]) (auto intro!: t simp: unnotified_def)
  next
    case (Retry u b)
    then show ?thesis by (intro measure_handler [of u s]) (auto intro!: t simp: unnotified_def retry_pc_def)
  next
    case (Insert_abandoned u)
    then show ?thesis by (intro measure_handler [of u s]) (auto intro!: t simp: unnotified_def)
  next
    case (Clear_holder u)
    then show ?thesis by (intro measure_handler [of u s]) (auto intro!: t simp: unnotified_def)
  next
    case (Advance u)
    then show ?thesis by (intro measure_handler [of u s]) (auto intro!: t simp: unnotified_def)
  next
    case (Lock_abandoned u)
    then show ?thesis
      by (intro measure_handler [of u s _ "set_tail Draining (handlers s u)"])
        (auto intro!: t tl simp: unnotified_def tail_of_accounted)
  next
    case (Load_serving u)
    then show ?thesis by (intro measure_mutex) auto
  next
    case (Hit u n)
    have "n \<in> {n. \<exists>x. handlers s n = Abandoned x}" using Hit(3) assms(3) tickets_okD(6) by (auto simp: order_ok_def)
    then obtain x where "handlers s n = Abandoned x" by blast
    with Hit show ?thesis
      by (intro measure_handler [of n s _ "Skipped x"]) (auto intro!: t simp: unnotified_def)
  next
    case (Miss u n)
    have "tail_of (handlers s u) = Some Draining" using assms(3) Miss(2) guards_okD(3) by (auto simp: order_ok_def)
    with Miss show ?thesis
      by (intro measure_handler [of u s _ "set_tail Notify_due (handlers s u)"])
        (auto intro!: t tl simp: unnotified_def tail_of_accounted)
  next
    case (Skip u)
    then show ?thesis by (intro measure_mutex) auto
  next
    case (Notify u)
    then show ?thesis by (intro measure_notify [of u]) (auto intro: t tl)
  next
    case (Reader_register q target)
    then show ?thesis by (intro measure_reader [of q s]) (auto intro!: r)
  next
    case (Reader_done q target b)
    then show ?thesis by (intro measure_reader [of q s]) (auto intro!: r)
  next
    case (Reader_retry q target b)
    then show ?thesis by (intro measure_reader [of q s]) (auto intro!: r simp: retry_pc_def)
  qed (use assms(2) in auto)
qed

definition quiescent :: "edit_order \<Rightarrow> bool" where
  "quiescent s \<longleftrightarrow> (\<forall>a. server_action a \<longrightarrow> edit_step a s = None)"

lemma quiescentD: "quiescent s \<Longrightarrow> server_action a \<Longrightarrow> edit_step a s = None"
  by (simp add: quiescent_def)

lemma quiescent_mutex:
  assumes "quiescent s"
  shows "mutex s = None"
proof (cases "mutex s")
  case (Some m)
  obtain d pc where m: "mutex s = Some (d, pc)" using Some by (cases m) auto
  show ?thesis
    using m quiescentD [OF assms, of "Load_serving d"] quiescentD [OF assms, of "Remove_served d"]
      quiescentD [OF assms, of "Skip d"]
    by (cases pc) (auto split: if_splits)
qed

lemma quiescent_tail:
  assumes "quiescent s" "guards_ok s" "tail_of (handlers s t) = Some x"
  shows "x = Finished"
  using quiescentD [OF assms(1), of "Lock_abandoned t"] quiescentD [OF assms(1), of "Notify t"]
    guards_okD(3) [OF assms(2), of t] quiescent_mutex [OF assms(1)] assms(3)
  by (cases x) auto

lemma quiescent_nothing_owed:
  assumes "quiescent s" "guards_ok s"
  shows "\<not> drain_owed s" "\<not> wakeup_owed s"
  using quiescent_tail [OF assms] quiescent_mutex [OF assms(1)]
  by (fastforce simp: drain_owed_def wakeup_owed_def)+

lemma quiescent_handler:
  assumes "quiescent s"
  shows "handlers s t \<in> {Undrawn, Waiting Asleep} \<or> tail_of (handlers s t) \<noteq> None"
proof (cases "handlers s t")
  case (Waiting p)
  then show ?thesis
    using quiescentD [OF assms, of "Register t"] quiescentD [OF assms, of "Check t"]
    by (cases p) (auto split: if_splits)
next
  case Granted
  then show ?thesis using quiescentD [OF assms, of "Clear_holder t"] by simp
next
  case Cleared
  then show ?thesis using quiescentD [OF assms, of "Advance t"] by simp
next
  case Dropping
  then show ?thesis using quiescentD [OF assms, of "Insert_abandoned t"] quiescent_mutex [OF assms] by simp
qed simp_all

lemma quiescent_reader:
  assumes "quiescent s" "readers s r = Settling target p"
  shows "p = Asleep"
  using quiescentD [OF assms(1), of "Reader_register r"] quiescentD [OF assms(1), of "Reader_check r"] assms(2)
  by (cases p) (auto split: if_splits)

lemma drawn_serving:
  assumes "tickets_ok s"
  shows "now_serving s \<le> next_ticket s"
proof (rule ccontr)
  assume "\<not> ?thesis"
  then show False using tickets_okD(1,2) [OF assms, of "next_ticket s"] by simp
qed

lemma quiescent_served:
  assumes "quiescent s" "order_ok s"
  shows "now_serving s = next_ticket s"
proof -
  have ok: "tickets_ok s" "guards_ok s" "progress_ok s" using assms(2) by (auto simp: order_ok_def)
  note owed = quiescent_nothing_owed [OF assms(1) ok(2)]
  have na: "\<not> accounted (handlers s (now_serving s))"
    using tickets_okD(3) [OF ok(1), of "now_serving s"] quiescent_mutex [OF assms(1)] by auto
  have "handlers s (now_serving s) \<noteq> Waiting Asleep" "\<And>x. handlers s (now_serving s) \<noteq> Abandoned x"
    using ok(3) owed by (auto simp: progress_ok_def)
  then have "handlers s (now_serving s) = Undrawn"
    using quiescent_handler [OF assms(1), of "now_serving s"] na by (cases "handlers s (now_serving s)") auto
  then show ?thesis using tickets_okD(1) [OF ok(1), of "now_serving s"] drawn_serving [OF ok(1)] by simp
qed

lemma quiescent_settled:
  assumes "quiescent s" "order_ok s" "r < next_reader s"
  shows "\<exists>target. readers s r = Settled target"
proof (cases "readers s r")
  case Absent
  then show ?thesis using assms(2,3) by (auto simp: order_ok_def readers_ok_def)
next
  case (Settling target p)
  then have "p = Asleep" by (rule quiescent_reader [OF assms(1)])
  moreover have "target \<le> now_serving s"
    using Settling quiescent_served [OF assms(1,2)] assms(2) unfolding order_ok_def readers_ok_def by metis
  ultimately have "wakeup_owed s" using Settling assms(2) by (auto simp: order_ok_def progress_ok_def)
  then show ?thesis using quiescent_nothing_owed(2) [OF assms(1)] assms(2) by (simp add: order_ok_def)
qed simp

lemma server_counters:
  assumes "edit_step a s = Some s'" "server_action a"
  shows "next_ticket s' = next_ticket s \<and> next_reader s' = next_reader s"
  using assms(1) by (cases rule: edit_step_cases) (use assms(2) in auto)

lemma server_run:
  assumes "order_ok s" "edit_steps as s = Some s'" "\<forall>a\<in>set as. server_action a"
  shows "order_ok s' \<and> length as + order_measure s' \<le> order_measure s \<and>
    next_ticket s' = next_ticket s \<and> next_reader s' = next_reader s"
  using assms
proof (induction as arbitrary: s)
  case (Cons a as)
  then obtain m where m: "edit_step a s = Some m" "edit_steps as m = Some s'" by (auto split: option.splits)
  have ok: "order_ok m" by (rule order_ok_step [OF Cons.prems(1) m(1)])
  have "order_measure m < order_measure s" using measure_step [OF m(1)] Cons.prems by simp
  with Cons.IH [OF ok m(2)] server_counters [OF m(1)] Cons.prems(3) show ?case by simp
qed simp

text \<open>What a request waits for is fixed when it arrives: no later step changes it.\<close>

fun reader_target :: "reader \<Rightarrow> nat option" where
  "reader_target Absent = None"
| "reader_target (Settling target _) = Some target"
| "reader_target (Settled target) = Some target"

lemma reader_target_wake [simp]: "reader_target (wake_reader r) = reader_target r"
  by (cases r) (simp_all add: wake_reader_def)

lemma reader_target_step:
  assumes "edit_step a s = Some s'" "r < next_reader s"
  shows "reader_target (readers s' r) = reader_target (readers s r) \<and> r < next_reader s'"
  using assms(1) by (cases rule: edit_step_cases) (use assms(2) in auto)

lemma reader_target_run:
  "edit_steps as s = Some s' \<Longrightarrow> r < next_reader s \<Longrightarrow> reader_target (readers s' r) = reader_target (readers s r)"
  by (induction as arbitrary: s) (auto split: option.splits dest: reader_target_step)

lemma arrival_target:
  assumes "edit_steps (Arrive # as) s = Some s'" "readers s' (next_reader s) = Settled target"
  shows "target = next_ticket s"
proof -
  from assms(1) obtain m where m: "edit_step Arrive s = Some m" "edit_steps as m = Some s'"
    by (auto split: option.splits)
  then have "reader_target (readers s' (next_reader s)) = Some (next_ticket s)"
    using reader_target_run [OF m(2), of "next_reader s"] by auto
  with assms(2) show ?thesis by simp
qed

lemma run_reachable: "order_reachable s \<Longrightarrow> edit_steps as s = Some s' \<Longrightarrow> order_reachable s'"
  by (induction as arbitrary: s) (auto split: option.splits intro: order_reachable.step)

text \<open>
  C12. Edits take effect in arrival order and one at a time. Let a run lead from one reachable
  interleaving of handlers, dropped handlers and readers to another. There the handler that holds the
  turn (granted, or past its mutation and dropping the turn) has the served ticket, every earlier ticket
  has been dealt with (its handler mutated or was dropped) and no later one has; and the recorded turn
  holder is exactly the granted handler. If the run began with the arrival of a request, and that request
  has settled by its end, every ticket drawn before the request arrived has been dealt with.
\<close>

theorem turns_in_order:
  assumes "order_reachable s0" "edit_steps as s0 = Some s"
  shows "(handlers s t = Granted \<or> handlers s t = Cleared \<longrightarrow>
      t = now_serving s \<and> (\<forall>u<t. accounted (handlers s u)) \<and>
      (\<forall>u>t. \<not> accounted (handlers s u) \<and> handlers s u \<noteq> Granted \<and> handlers s u \<noteq> Cleared)) \<and>
    ((\<exists>h. holder s = Some h \<and> holder_ticket h = t) \<longleftrightarrow> handlers s t = Granted) \<and>
    (as \<noteq> [] \<and> hd as = Arrive \<and> (\<exists>target. readers s (next_reader s0) = Settled target) \<longrightarrow>
      (\<forall>u<next_ticket s0. accounted (handlers s u)))"
proof (intro conjI impI)
  have ok: "tickets_ok s" "guards_ok s" "readers_ok s"
    using reachable_order_ok [OF run_reachable [OF assms]] by (auto simp: order_ok_def)
  note d = tickets_okD [OF ok(1)]
  show "(\<exists>h. holder s = Some h \<and> holder_ticket h = t) \<longleftrightarrow> handlers s t = Granted"
    using guards_okD(1,2) [OF ok(2)] by blast
  show "\<forall>u<next_ticket s0. accounted (handlers s u)"
    if settled: "as \<noteq> [] \<and> hd as = Arrive \<and> (\<exists>target. readers s (next_reader s0) = Settled target)"
  proof -
    from settled obtain bs target where bs: "as = Arrive # bs" "readers s (next_reader s0) = Settled target"
      by (cases as) auto
    have "target = next_ticket s0" using assms(2) bs by (intro arrival_target [of bs s0 s]) simp_all
    moreover have "target \<le> now_serving s" using ok(3) bs(2) unfolding readers_ok_def by blast
    ultimately show ?thesis using d(2) by simp
  qed
  assume g: "handlers s t = Granted \<or> handlers s t = Cleared"
  show t: "t = now_serving s" by (rule d(5) [OF g])
  show "\<forall>u<t. accounted (handlers s u)" using d(2) t by simp
  show "\<forall>u>t. \<not> accounted (handlers s u) \<and> handlers s u \<noteq> Granted \<and> handlers s u \<noteq> Cleared"
    using d(3) d(5) unfolding t by (metis less_imp_le_nat less_irrefl)
qed

text \<open>
  C2. The barrier cannot wedge. From every reachable state the server's own steps end: every run of
  them is bounded, whatever the interleaving, and where no further one is possible every drawn ticket
  has been dealt with, the served counter has caught up with the tickets drawn, and every request that
  waited has settled. No wakeup is lost between registration and sleep, and a ticket abandoned by a
  dropped handler is always stepped over. A granted handler's drop of its turn counts as a server step:
  handlers' mutations are assumed to end.
\<close>

theorem barrier_never_wedges:
  assumes "order_reachable s"
  shows "\<exists>bound. \<forall>as s'. edit_steps as s = Some s' \<and> (\<forall>a\<in>set as. server_action a) \<longrightarrow>
    length as \<le> bound \<and>
    ((\<forall>a. server_action a \<longrightarrow> edit_step a s' = None) \<longrightarrow>
      now_serving s' = next_ticket s \<and> (\<forall>t<next_ticket s. accounted (handlers s' t)) \<and>
      (\<forall>r<next_reader s. \<exists>target. readers s' r = Settled target))"
proof (intro exI [of _ "order_measure s"] allI impI, elim conjE, intro conjI impI allI)
  fix as s' t r
  assume run: "edit_steps as s = Some s'" "\<forall>a\<in>set as. server_action a"
  note facts = server_run [OF reachable_order_ok [OF assms] run]
  show "length as \<le> order_measure s" using facts by simp
  assume "\<forall>a. server_action a \<longrightarrow> edit_step a s' = None"
  then have q: "quiescent s'" by (simp add: quiescent_def)
  have ok: "order_ok s'" using facts by simp
  show served: "now_serving s' = next_ticket s" using quiescent_served [OF q ok] facts by simp
  show "accounted (handlers s' t)" if "t < next_ticket s"
    using that served ok tickets_okD(2) [of s' t] by (simp add: order_ok_def)
  show "\<exists>target. readers s' r = Settled target" if "r < next_reader s"
    using that quiescent_settled [OF q ok] facts by simp
qed

text \<open>A handler holds its turn, the one behind it has been dropped, and a reader waits for both.\<close>

definition busy_run :: "action list" where
  "busy_run = [Draw ''didChange'' ''file:///a.tcl'', Draw ''didSave'' ''file:///a.tcl'', Arrive,
     Register 1, Check 1, Drop_ticket 1, Insert_abandoned 1, Register 0, Check 0]"

definition busy_order :: edit_order where
  "busy_order = the (edit_steps busy_run edit_order_default)"

lemmas busy_defs = busy_run_def edit_order_default_def Let_def retry_pc_def

lemma busy_order_run: "edit_steps busy_run edit_order_default = Some busy_order"
  by (simp add: busy_order_def busy_defs)

lemma busy_order_reachable: "order_reachable busy_order"
  by (rule run_reachable [OF order_reachable.start busy_order_run])

definition settled_run :: "action list" where
  "settled_run = [Arrive, Register 0, Check 0, Clear_holder 0, Advance 0, Lock_abandoned 0, Load_serving 0,
     Remove_served 0, Notify 0, Reader_register 0, Reader_check 0]"

definition drawn_order :: edit_order where
  "drawn_order = the (edit_steps [Draw ''didChange'' ''file:///a.tcl''] edit_order_default)"

lemma drawn_order_run: "edit_steps [Draw ''didChange'' ''file:///a.tcl''] edit_order_default = Some drawn_order"
  by (simp add: drawn_order_def busy_defs)

lemma turns_in_order_witness:
  "handlers busy_order 0 = Granted \<and> handlers busy_order 1 = Abandoned Drain_due \<and> now_serving busy_order = 0 \<and>
   (\<exists>h. holder busy_order = Some h \<and> holder_ticket h = 0) \<and>
   (\<exists>s. edit_steps settled_run drawn_order = Some s \<and> readers s 0 = Settled 1 \<and> accounted (handlers s 0))"
proof -
  define s where "s = the (edit_steps settled_run drawn_order)"
  have r: "edit_steps settled_run drawn_order = Some s" "readers s 0 = Settled 1"
    by (simp_all add: s_def settled_run_def drawn_order_def busy_defs wake_handler_def wake_reader_def wake_pc_def)
  have z: "next_reader drawn_order = 0" "next_ticket drawn_order = 1" by (simp_all add: drawn_order_def busy_defs)
  have "accounted (handlers s 0)"
    using turns_in_order [OF run_reachable [OF order_reachable.start drawn_order_run] r(1), of 0] r(2) z
    by (simp add: settled_run_def)
  with r turns_in_order [OF order_reachable.start busy_order_run, of 0] busy_order_run show ?thesis
    by (simp add: busy_order_def busy_defs)
qed

lemma busy_order_next: "next_ticket busy_order = 2"
  by (simp add: busy_order_def busy_defs)

lemma barrier_never_wedges_witness:
  "(\<exists>bound. \<forall>as s'. edit_steps as busy_order = Some s' \<and> (\<forall>a\<in>set as. server_action a) \<longrightarrow> length as \<le> bound \<and>
    ((\<forall>a. server_action a \<longrightarrow> edit_step a s' = None) \<longrightarrow> now_serving s' = 2)) \<and>
   (\<exists>s'. edit_steps [Clear_holder 0, Advance 0, Lock_abandoned 1, Load_serving 1, Remove_served 1, Skip 1] busy_order = Some s' \<and>
     now_serving s' = 2 \<and> handlers s' 1 = Skipped Draining)"
proof (rule conjI)
  obtain bound where "\<forall>as s'. edit_steps as busy_order = Some s' \<and> (\<forall>a\<in>set as. server_action a) \<longrightarrow>
    length as \<le> bound \<and>
    ((\<forall>a. server_action a \<longrightarrow> edit_step a s' = None) \<longrightarrow>
      now_serving s' = next_ticket busy_order \<and> (\<forall>t<next_ticket busy_order. accounted (handlers s' t)) \<and>
      (\<forall>r<next_reader busy_order. \<exists>target. readers s' r = Settled target))"
    using barrier_never_wedges [OF busy_order_reachable] by (elim exE)
  then show "\<exists>bound. \<forall>as s'. edit_steps as busy_order = Some s' \<and> (\<forall>a\<in>set as. server_action a) \<longrightarrow> length as \<le> bound \<and>
    ((\<forall>a. server_action a \<longrightarrow> edit_step a s' = None) \<longrightarrow> now_serving s' = 2)"
    unfolding busy_order_next by metis
qed (simp add: busy_order_def busy_defs)

end
