(* ===== verification/Lexer_Scan.thy ===== *)
theory Lexer_Scan
  imports Backslash Span
begin

text \<open>
  The scanners the lexer shares with the runtimes: variable names (\<open>tcl-core-types/src/naming.rs\<close>),
  braced names, array indices and command substitutions (\<open>tcl-lexer/src/ranges.rs\<close>), with the
  release axes of \<open>tcl-dialect/src/grammar.rs\<close> they read. The lemmas bound where each scan ends.
\<close>

section \<open>Release axes\<close>

datatype braced_var_style = FirstClose | Tcl9Nesting

definition nests :: "braced_var_style \<Rightarrow> bool" where
  "nests style = (style = Tcl9Nesting)"

datatype array_index_syntax = IndexTcl9 | IndexTcl8

definition rejects_literal :: "array_index_syntax \<Rightarrow> char \<Rightarrow> bool" where
  "rejects_literal syn byte = (syn = IndexTcl9 \<and> byte \<in> {CHR ''('', DQUOTE, LBRACE, RBRACE})"

datatype brace_line_continuation = Terminates | Continues

definition continues :: "brace_line_continuation \<Rightarrow> bool" where
  "continues c = (c = Continues)"

datatype word_separators = SepsTcl | SepsJim

definition is_separator :: "word_separators \<Rightarrow> char \<Rightarrow> bool" where
  "is_separator seps byte = (byte \<in> {SP, TAB, CR, FF} \<or> byte = VT \<and> seps = SepsTcl)"

datatype quote_termination = StrictQuotes | Concatenating

definition is_strict :: "quote_termination \<Rightarrow> bool" where
  "is_strict q = (q = StrictQuotes)"

datatype var_syntax = VarsTcl | VarsJim

definition has_expr_sugar :: "var_syntax \<Rightarrow> bool" where
  "has_expr_sugar v = (v = VarsJim)"

definition index_parens_nest :: "var_syntax \<Rightarrow> bool" where
  "index_parens_nest v = (v = VarsJim)"

definition name_allows_high_bytes :: "var_syntax \<Rightarrow> bool" where
  "name_allows_high_bytes v = (v = VarsJim)"

abbreviation LPAREN :: char where "LPAREN \<equiv> CHR ''(''"
abbreviation RPAREN :: char where "RPAREN \<equiv> CHR '')''"
abbreviation LBRACKET :: char where "LBRACKET \<equiv> CHR ''[''"
abbreviation RBRACKET :: char where "RBRACKET \<equiv> CHR '']''"
abbreviation DOLLAR :: char where "DOLLAR \<equiv> CHR 0x24"
abbreviation HASH :: char where "HASH \<equiv> CHR 0x23"
abbreviation COLON :: char where "COLON \<equiv> CHR '':''"
abbreviation SEMI :: char where "SEMI \<equiv> CHR 0x3B"

section \<open>Variable names\<close>

definition is_name_byte :: "char \<Rightarrow> bool" where
  "is_name_byte c = (let b = of_char c in
     (48::nat) \<le> b \<and> b \<le> 57 \<or> 65 \<le> b \<and> b \<le> 90 \<or> 97 \<le> b \<and> b \<le> 122 \<or> c = CHR ''_'')"

function scan_var_name_end_with :: "string \<Rightarrow> nat \<Rightarrow> bool \<Rightarrow> nat" where
  "scan_var_name_end_with src p allow_high_bytes =
     (if p < length src then
        (if is_name_byte (src ! p) \<or> allow_high_bytes \<and> (0x80::nat) \<le> of_char (src ! p)
         then scan_var_name_end_with src (p + 1) allow_high_bytes
         else if src ! p = COLON \<and> byte_at src (p + 1) = Some COLON
         then scan_var_name_end_with src (skip_while (\<lambda>c. c = COLON) src (p + 2)) allow_high_bytes
         else p)
      else p)"
  by pat_completeness auto
termination
proof (relation "measure (\<lambda>(src, p, allow). length src - p)", goal_cases)
  case (3 src p allow)
  then show ?case using skip_while_ge [of "p + 2" "\<lambda>c. c = COLON" src] by (auto simp: diff_less_mono2)
qed auto

declare scan_var_name_end_with.simps [simp del]

definition scan_var_name_end :: "string \<Rightarrow> nat \<Rightarrow> nat" where
  "scan_var_name_end src start = scan_var_name_end_with src start False"

function scan_bare_var_name :: "string \<Rightarrow> nat \<Rightarrow> nat" where
  "scan_bare_var_name src p =
     (if p < length src then
        (if is_name_byte (src ! p) then scan_bare_var_name src (p + 1)
         else if src ! p = COLON \<and> byte_at src (p + 1) = Some COLON
         then scan_bare_var_name src (skip_while (\<lambda>c. c = COLON) src (p + 2))
         else p)
      else p)"
  by pat_completeness auto
termination
proof (relation "measure (\<lambda>(src, p). length src - p)", goal_cases)
  case (3 src p)
  then show ?case using skip_while_ge [of "p + 2" "\<lambda>c. c = COLON" src] by (auto simp: diff_less_mono2)
qed auto

declare scan_bare_var_name.simps [simp del]

datatype braced_var_end = NameClosed nat | NameUnterminated

function braced_name_loop :: "string \<Rightarrow> nat \<Rightarrow> nat \<Rightarrow> braced_var_end" where
  "braced_name_loop src i depth =
     (if i < length src then
        (if src ! i = RBRACE \<and> depth = 0 then NameClosed i
         else if src ! i = LBRACE then braced_name_loop src (i + 1) (depth + 1)
         else if src ! i = RBRACE then braced_name_loop src (i + 1) (depth - 1)
         else if src ! i = BS then braced_name_loop src (i + 2) depth
         else braced_name_loop src (i + 1) depth)
      else NameUnterminated)"
  by pat_completeness auto
termination
  by (relation "measure (\<lambda>(src, i, depth). length src - i)") auto

declare braced_name_loop.simps [simp del]

definition braced_var_name_end :: "string \<Rightarrow> nat \<Rightarrow> braced_var_style \<Rightarrow> braced_var_end" where
  "braced_var_name_end src name_start style =
     (if \<not> nests style then
        (let i = skip_while (\<lambda>c. c \<noteq> RBRACE) src name_start in
         if i < length src then NameClosed i else NameUnterminated)
      else braced_name_loop src name_start 0)"

section \<open>Command substitutions\<close>

record command_scan =
  depth :: nat
  braces :: nat
  in_quotes :: bool
  in_comment :: bool
  command_start :: bool

text \<open>
  What the loop body makes of one byte that is not a backslash: the state it goes on with one byte
  further, or \<open>None\<close> where this byte closes the substitution.
\<close>

definition command_byte :: "char \<Rightarrow> command_scan \<Rightarrow> command_scan option" where
  "command_byte byte s =
     (if in_comment s then Some (if byte = LF then s\<lparr>in_comment := False, command_start := True\<rparr> else s)
      else if byte = HASH \<and> command_start s then Some (s\<lparr>in_comment := True\<rparr>)
      else if byte = DQUOTE \<and> braces s = 0 then Some (s\<lparr>in_quotes := \<not> in_quotes s, command_start := False\<rparr>)
      else if byte = LBRACE \<and> \<not> in_quotes s then Some (s\<lparr>braces := braces s + 1, command_start := False\<rparr>)
      else if byte = RBRACE \<and> \<not> in_quotes s then Some (s\<lparr>braces := braces s - 1, command_start := False\<rparr>)
      else if byte = LBRACKET \<and> braces s = 0 \<and> \<not> in_quotes s then Some (s\<lparr>depth := depth s + 1, command_start := True\<rparr>)
      else if byte = RBRACKET \<and> braces s = 0 \<and> \<not> in_quotes s then
        (if depth s - 1 = 0 then None else Some (s\<lparr>depth := depth s - 1, command_start := False\<rparr>))
      else if (byte = LF \<or> byte = SEMI) \<and> braces s = 0 \<and> \<not> in_quotes s then Some (s\<lparr>command_start := True\<rparr>)
      else if byte \<in> {SP, TAB, CR, VT, FF} then Some s
      else Some (s\<lparr>command_start := False\<rparr>))"

function command_end_loop :: "string \<Rightarrow> nat \<Rightarrow> command_scan \<Rightarrow> nat option" where
  "command_end_loop bytes pos s =
     (if pos < length bytes then
        (if bytes ! pos = BS then
           command_end_loop bytes (min (pos + 2) (length bytes))
             (s\<lparr>command_start := command_start s \<and> byte_at bytes (pos + 1) = Some LF\<rparr>)
         else
           (case command_byte (bytes ! pos) s of
              None \<Rightarrow> Some (pos + 1)
            | Some s' \<Rightarrow> command_end_loop bytes (pos + 1) s'))
      else None)"
  by pat_completeness auto
termination
  by (relation "measure (\<lambda>(bytes, pos, s). length bytes - pos)") auto

declare command_end_loop.simps [simp del]

definition command_substitution_end_bytes :: "string \<Rightarrow> nat \<Rightarrow> nat option" where
  "command_substitution_end_bytes bytes open_bracket =
     (if byte_at bytes open_bracket \<noteq> Some LBRACKET then None
      else command_end_loop bytes (open_bracket + 1)
             \<lparr>depth = 1, braces = 0, in_quotes = False, in_comment = False, command_start = True\<rparr>)"

definition command_substitution_end :: "string \<Rightarrow> nat \<Rightarrow> nat option" where
  "command_substitution_end source open_bracket = command_substitution_end_bytes source open_bracket"

lemma command_byte_closes: "command_byte b s = None \<Longrightarrow> b = RBRACKET"
  by (auto simp: command_byte_def split: if_splits)

lemma command_end_loop_bounds:
  "command_end_loop bytes pos s = Some e \<Longrightarrow> pos < e \<and> e \<le> length bytes \<and> bytes ! (e - 1) = RBRACKET"
proof (induction bytes pos s rule: command_end_loop.induct)
  case (1 bytes pos s)
  then show ?case
    by (fastforce simp: command_end_loop.simps [of bytes pos s] dest: command_byte_closes split: if_splits option.splits)
qed

lemma command_substitution_end_bounds:
  "command_substitution_end_bytes bytes i = Some e \<Longrightarrow> i < e \<and> e \<le> length bytes \<and> bytes ! (e - 1) = RBRACKET"
  using command_end_loop_bounds [of bytes "i + 1"] by (fastforce simp: command_substitution_end_bytes_def split: if_splits)

function close_quote_loop :: "string \<Rightarrow> nat \<Rightarrow> nat option" where
  "close_quote_loop source pos =
     (if pos < length source then
        (if source ! pos = DQUOTE then Some pos
         else if source ! pos = BS then close_quote_loop source (backslash_escape_end source pos)
         else if source ! pos = LBRACKET then
           (case command_substitution_end source pos of
              None \<Rightarrow> None
            | Some e \<Rightarrow> close_quote_loop source e)
         else close_quote_loop source (pos + 1))
      else None)"
  by pat_completeness auto
termination
  by (relation "measure (\<lambda>(source, pos). length source - pos)")
    (auto intro!: diff_less_mono2 simp: backslash_escape_end_def backslash_escape_end_in_def decode_escape_gt
        command_substitution_end_def dest!: command_substitution_end_bounds)

declare close_quote_loop.simps [simp del]

definition close_quote_offset :: "string \<Rightarrow> nat \<Rightarrow> nat option" where
  "close_quote_offset source open_quote =
     (if byte_at source open_quote \<noteq> Some DQUOTE then None else close_quote_loop source (open_quote + 1))"

lemma braced_name_loop_bounds: "braced_name_loop src i d = NameClosed e \<Longrightarrow> i \<le> e \<and> e < length src \<and> src ! e = RBRACE"
proof (induction src i d rule: braced_name_loop.induct)
  case (1 src i d)
  note step = braced_name_loop.simps [of src i d]
  have l: "i < length src" using "1.prems" by (simp add: step split: if_splits)
  consider "src ! i = RBRACE \<and> d = 0" | "src ! i = RBRACE" "d \<noteq> 0" | "src ! i = LBRACE" | "src ! i = BS"
    | "src ! i \<notin> {RBRACE, LBRACE, BS}" by auto
  then show ?case
  proof cases
    case 1
    then have "braced_name_loop src i d = NameClosed i" using l by (subst step) simp
    with 1 l "1.prems" show ?thesis by simp
  next
    case 2
    with "1.IH"(2) "1.prems" l show ?thesis by (simp add: step)
  next
    case 3
    with "1.IH"(1) "1.prems" l show ?thesis by (simp add: step)
  next
    case 4
    with "1.IH"(3) "1.prems" l show ?thesis by (simp add: step)
  next
    case 5
    with "1.IH"(4) "1.prems" l show ?thesis by (simp add: step)
  qed
qed

lemma braced_var_name_end_bounds:
  "braced_var_name_end src i style = NameClosed e \<Longrightarrow> i \<le> e \<and> e < length src \<and> src ! e = RBRACE"
  using skip_while_ge [of i "\<lambda>c. c \<noteq> RBRACE" src] skip_while_stop [of "\<lambda>c. c \<noteq> RBRACE" src i]
  by (auto simp: braced_var_name_end_def Let_def split: if_splits dest: braced_name_loop_bounds)

text \<open>
  A name scan in one step: where it stops, or that a name byte, or a run of colons, is skipped.
\<close>

lemma scan_var_name_cases:
  obtains (stop) "scan_var_name_end_with src p hi = p"
      "p < length src \<Longrightarrow> \<not> is_name_byte (src ! p) \<and> \<not> (hi \<and> (0x80::nat) \<le> of_char (src ! p))"
  | (name) "p < length src" "is_name_byte (src ! p) \<or> hi \<and> (0x80::nat) \<le> of_char (src ! p)"
      "scan_var_name_end_with src p hi = scan_var_name_end_with src (p + 1) hi"
  | (colons) q where "p < q" "q \<le> length src" "src ! (q - 1) = COLON" "scan_var_name_end_with src p hi = scan_var_name_end_with src q hi"
proof (cases "p < length src \<and> (is_name_byte (src ! p) \<or> hi \<and> (0x80::nat) \<le> of_char (src ! p))")
  case True
  then show ?thesis by (intro name) (auto simp: scan_var_name_end_with.simps [of src p])
next
  case no_name: False
  show ?thesis
  proof (cases "p < length src \<and> src ! p = COLON \<and> byte_at src (p + 1) = Some COLON")
    case True
    let ?q = "skip_while (\<lambda>c. c = COLON) src (p + 2)"
    have c: "p + 1 < length src" "src ! (p + 1) = COLON" using True byte_at_SomeD by fastforce+
    have q: "p + 2 \<le> ?q" "?q \<le> length src" using c by (auto intro: bounds skip_while_le)
    have "src ! (?q - 1) = COLON"
      using skip_while_before [of "p + 2" "\<lambda>c. c = COLON" src] c q(1) by (cases "?q = p + 2") auto
    moreover have "scan_var_name_end_with src p hi = scan_var_name_end_with src ?q hi"
      using no_name True by (simp add: scan_var_name_end_with.simps [of src p])
    ultimately show ?thesis using q by (intro colons [of ?q]) auto
  next
    case False
    with no_name show ?thesis by (intro stop) (auto simp: scan_var_name_end_with.simps [of src p])
  qed
qed

lemma scan_var_name_bounds:
  "p \<le> scan_var_name_end_with src p hi \<and> (p \<le> length src \<longrightarrow> scan_var_name_end_with src p hi \<le> length src)"
proof (induction "length src - p" arbitrary: p rule: less_induct)
  case less
  show ?case
  proof (cases rule: scan_var_name_cases [of src p hi])
    case name
    then have "length src - (p + 1) < length src - p" by linarith
    from less [OF this] name show ?thesis by auto
  next
    case (colons q)
    then have "length src - q < length src - p" by linarith
    from less [OF this] colons show ?thesis by auto
  qed simp
qed

lemmas scan_var_name_end_ge = scan_var_name_bounds [THEN conjunct1]
lemmas scan_var_name_end_le = scan_var_name_bounds [THEN conjunct2, rule_format]

lemma scan_var_name_last:
  "p < scan_var_name_end_with src p hi \<Longrightarrow>
   of_char (src ! (scan_var_name_end_with src p hi - 1)) < (0x80::nat) \<or> hi"
proof (induction "length src - p" arbitrary: p rule: less_induct)
  case less
  show ?case
  proof (cases rule: scan_var_name_cases [of src p hi])
    case stop
    with less.prems show ?thesis by simp
  next
    case name
    then show ?thesis
      using less.hyps [of "p + 1"] scan_var_name_end_ge [of "p + 1" src hi]
      by (cases "scan_var_name_end_with src (p + 1) hi = p + 1") (auto simp: is_name_byte_def Let_def)
  next
    case (colons q)
    then show ?thesis
      using less.hyps [of q] scan_var_name_end_ge [of q src hi]
      by (cases "scan_var_name_end_with src q hi = q") auto
  qed
qed

lemma scan_var_name_stop:
  "scan_var_name_end_with src p True < length src \<Longrightarrow> of_char (src ! scan_var_name_end_with src p True) < (0x80::nat)"
proof (induction "length src - p" arbitrary: p rule: less_induct)
  case less
  show ?case
    by (cases rule: scan_var_name_cases [of src p True]) (use less in \<open>auto simp: not_le\<close>)
qed

lemma scan_var_name_boundary:
  assumes "utf8_valid src" "is_char_boundary src p" "p \<le> length src"
  shows "is_char_boundary src (scan_var_name_end_with src p hi)"
proof (cases "scan_var_name_end_with src p hi = p")
  case False
  then have gt: "p < scan_var_name_end_with src p hi" using scan_var_name_end_ge [of p src hi] by simp
  have le: "scan_var_name_end_with src p hi \<le> length src" by (rule scan_var_name_end_le [OF assms(3)])
  show ?thesis
  proof (cases hi)
    case True
    with le scan_var_name_stop [of src p] show ?thesis by (auto simp: is_char_boundary_def le_less)
  next
    case False
    with scan_var_name_last [OF gt] gt le boundary_after_ascii [OF assms(1), of "scan_var_name_end_with src p hi - 1"]
    show ?thesis by simp
  qed
qed (use assms in simp)

lemma scan_bare_var_name_eq: "scan_bare_var_name src p = scan_var_name_end src p"
  unfolding scan_var_name_end_def
proof (induction src p rule: scan_bare_var_name.induct)
  case (1 src p)
  consider "p < length src" "is_name_byte (src ! p)" | "p < length src" "\<not> is_name_byte (src ! p)" "src ! p = COLON \<and> byte_at src (p + 1) = Some COLON"
    | "p < length src \<Longrightarrow> \<not> is_name_byte (src ! p) \<and> \<not> (src ! p = COLON \<and> byte_at src (p + 1) = Some COLON)" by blast
  then show ?case
  proof cases
    case 1
    with "1.IH"(1) show ?thesis by (simp add: scan_bare_var_name.simps [of src p] scan_var_name_end_with.simps [of src p])
  next
    case 2
    with "1.IH"(2) show ?thesis by (simp add: scan_bare_var_name.simps [of src p] scan_var_name_end_with.simps [of src p])
  next
    case 3
    then have "scan_bare_var_name src p = p" "scan_var_name_end_with src p False = p"
      by (subst scan_bare_var_name.simps, auto) (subst scan_var_name_end_with.simps, auto)
    then show ?thesis by simp
  qed
qed

section \<open>Array indices\<close>

datatype array_index_end = IndexClosed nat | IndexUnterminated

record array_index_scan =
  index_end :: array_index_end
  invalid :: "nat option"

function array_index_loop ::
    "string \<Rightarrow> array_index_syntax \<Rightarrow> braced_var_style \<Rightarrow> nat \<Rightarrow> nat \<Rightarrow> nat option \<Rightarrow> array_index_scan" where
  "array_index_loop source syn braced position nested first_invalid =
     (if position < length source then
        (let byte = source ! position in
         if byte = RPAREN \<and> nested = 0 then \<lparr>index_end = IndexClosed (position + 1), invalid = first_invalid\<rparr>
         else if byte = RPAREN then array_index_loop source syn braced (position + 1) (nested - 1) first_invalid
         else if byte = BS then
           array_index_loop source syn braced (min (position + 2) (length source)) nested first_invalid
         else if byte = LBRACKET then
           (case command_substitution_end_bytes source position of
              None \<Rightarrow> \<lparr>index_end = IndexUnterminated, invalid = first_invalid\<rparr>
            | Some e \<Rightarrow> array_index_loop source syn braced e nested first_invalid)
         else if byte = DOLLAR then
           (if byte_at source (position + 1) = Some LBRACE then
              (case braced_var_name_end source (position + 2) braced of
                 NameClosed e \<Rightarrow> array_index_loop source syn braced (e + 1) nested first_invalid
               | NameUnterminated \<Rightarrow> \<lparr>index_end = IndexUnterminated, invalid = first_invalid\<rparr>)
            else
              (let stop = scan_bare_var_name source (position + 1) in
               if position + 1 < stop \<and> byte_at source stop = Some LPAREN
               then array_index_loop source syn braced (stop + 1) (nested + 1) first_invalid
               else array_index_loop source syn braced stop nested first_invalid))
         else array_index_loop source syn braced (position + 1) nested
                (if first_invalid = None \<and> rejects_literal syn byte then Some position else first_invalid))
      else \<lparr>index_end = IndexUnterminated, invalid = first_invalid\<rparr>)"
  by pat_completeness auto
termination
proof (relation "measure (\<lambda>(source, syn, braced, position, nested, bad). length source - position)", goal_cases)
  case (4 source syn braced position nested bad byte e)
  then show ?case by (auto dest: command_substitution_end_bounds)
next
  case (5 source syn braced position nested bad byte e)
  then show ?case by (auto dest: braced_var_name_end_bounds)
next
  case (6 source syn braced position nested bad byte stop)
  then show ?case by auto
next
  case (7 source syn braced position nested bad byte stop)
  then show ?case using scan_var_name_end_ge [of "position + 1" source False]
    by (auto simp: scan_bare_var_name_eq scan_var_name_end_def)
qed auto

declare array_index_loop.simps [simp del]

definition scan_array_index :: "string \<Rightarrow> nat \<Rightarrow> array_index_syntax \<Rightarrow> braced_var_style \<Rightarrow> array_index_scan" where
  "scan_array_index source open_parenthesis syn braced =
     (if byte_at source open_parenthesis \<noteq> Some LPAREN then \<lparr>index_end = IndexUnterminated, invalid = None\<rparr>
      else array_index_loop source syn braced (open_parenthesis + 1) 0 None)"

lemma array_index_loop_cases:
  obtains (closed) "p < length source" "source ! p = RPAREN" "array_index_loop source syn braced p n bad = \<lparr>index_end = IndexClosed (p + 1), invalid = bad\<rparr>"
  | (unterminated) "array_index_loop source syn braced p n bad = \<lparr>index_end = IndexUnterminated, invalid = bad\<rparr>"
  | (on) q n' bad' where "p < length source" "p < q" "array_index_loop source syn braced p n bad = array_index_loop source syn braced q n' bad'"
      "bad' = bad \<or> bad = None \<and> bad' = Some p \<and> rejects_literal syn (source ! p)"
proof (cases "p < length source")
  case l: True
  note step = array_index_loop.simps [of source syn braced p n bad]
  consider "source ! p = RPAREN" | "source ! p = BS" | "source ! p = LBRACKET" | "source ! p = DOLLAR"
    | "source ! p \<noteq> RPAREN" "source ! p \<noteq> BS" "source ! p \<noteq> LBRACKET" "source ! p \<noteq> DOLLAR" by blast
  then show ?thesis
  proof cases
    case 1
    show ?thesis
    proof (cases "n = 0")
      case True
      then have "array_index_loop source syn braced p n bad = \<lparr>index_end = IndexClosed (p + 1), invalid = bad\<rparr>"
        using 1 l by (subst step) simp
      with 1 l closed show ?thesis by blast
    next
      case False
      with 1 l on [of "p + 1"] show ?thesis by (simp add: step)
    qed
  next
    case 2
    with l on [of "min (p + 2) (length source)"] show ?thesis by (auto simp: step)
  next
    case 3
    show ?thesis
    proof (cases "command_substitution_end_bytes source p")
      case None
      with 3 l unterminated show ?thesis by (simp add: step)
    next
      case (Some e)
      with 3 l on [of e] command_substitution_end_bounds [OF Some] show ?thesis by (simp add: step)
    qed
  next
    case 4
    show ?thesis
    proof (cases "byte_at source (p + 1) = Some LBRACE")
      case True
      show ?thesis
      proof (cases "braced_var_name_end source (p + 2) braced")
        case (NameClosed e)
        with 4 l True on [of "e + 1"] braced_var_name_end_bounds [OF NameClosed] show ?thesis by (simp add: step)
      next
        case NameUnterminated
        with 4 l True unterminated show ?thesis by (simp add: step)
      qed
    next
      case False
      have ge: "p + 1 \<le> scan_bare_var_name source (p + 1)"
        using scan_var_name_end_ge [of "p + 1" source False] by (simp add: scan_bare_var_name_eq scan_var_name_end_def)
      show ?thesis
        using 4 l False on [of "scan_bare_var_name source (p + 1)"] on [of "scan_bare_var_name source (p + 1) + 1"] ge
        by (cases "p + 1 < scan_bare_var_name source (p + 1) \<and> byte_at source (scan_bare_var_name source (p + 1)) = Some LPAREN")
          (auto simp: step Let_def)
    qed
  next
    case 5
    with l on [of "p + 1" n "if bad = None \<and> rejects_literal syn (source ! p) then Some p else bad"] show ?thesis by (simp add: step Let_def)
  qed
next
  case False
  then show ?thesis by (intro unterminated) (simp add: array_index_loop.simps [of source syn braced p])
qed

lemma array_index_loop_bounds:
  "(index_end (array_index_loop source syn braced p n bad) = IndexClosed e \<longrightarrow>
      p < e \<and> e \<le> length source \<and> source ! (e - 1) = RPAREN) \<and>
   (invalid (array_index_loop source syn braced p n bad) = Some k \<longrightarrow>
      bad = Some k \<or> p \<le> k \<and> k < length source \<and> rejects_literal syn (source ! k))"
proof (induction "length source - p" arbitrary: p n bad rule: less_induct)
  case less
  show ?case
  proof (cases rule: array_index_loop_cases [of p source syn braced n bad])
    case (on q n' bad')
    then have "length source - q < length source - p" by linarith
    from less [OF this, of n' bad'] on show ?thesis by auto
  qed auto
qed

lemma scan_array_index_bounds:
  shows "index_end (scan_array_index source i syn braced) = IndexClosed e \<Longrightarrow> i < e \<and> e \<le> length source \<and> source ! (e - 1) = RPAREN"
    and "invalid (scan_array_index source i syn braced) = Some k \<Longrightarrow> i < k \<and> k < length source \<and> rejects_literal syn (source ! k)"
  using array_index_loop_bounds [of source syn braced "Suc i" 0 None e k]
  by (auto simp: scan_array_index_def Suc_le_eq dest: Suc_lessD split: if_splits)

end
