(* ===== verification/Lexer.thy ===== *)
theory Lexer
  imports Lexer_Scan Line_Index "HOL-Library.AList"
begin

text \<open>
  The streaming Tcl lexer, \<open>tcl-lexer/src/lexer.rs\<close>, with its tokens (\<open>tokens.rs\<close>) and their texts
  (\<open>source_map.rs\<close>): the configuration, the state, one function per \<open>parse_*\<close> method, the iterator
  and the collecting loops. Offsets are naturals; a lexer only exists over less than \<open>2 ^ 32\<close> bytes.

  A method that can fail returns a sum with the state, the left being \<open>LexError\<close>; an outer
  \<open>None\<close> is a panic, or a loop that never returns.
\<close>

section \<open>Tokens\<close>

datatype token_type = Esc | Str | Cmd | Var | Sep | Eol | Eof | Comment | Expand | ExprSugar

definition group_closer :: "token_type \<Rightarrow> char option" where
  "group_closer k = (case k of Str \<Rightarrow> Some RBRACE | Cmd \<Rightarrow> Some RBRACKET | ExprSugar \<Rightarrow> Some RPAREN | _ \<Rightarrow> None)"

record token =
  kind :: token_type
  span_of :: span
  content_offset :: nat
  quoted :: bool

definition token_new :: "token_type \<Rightarrow> span \<Rightarrow> token" where
  "token_new k s = \<lparr>kind = k, span_of = s, content_offset = 0, quoted = False\<rparr>"

definition with_content_offset :: "token_type \<Rightarrow> span \<Rightarrow> nat \<Rightarrow> token" where
  "with_content_offset k s c = \<lparr>kind = k, span_of = s, content_offset = c, quoted = False\<rparr>"

text \<open>
  \<open>token_text\<close>: the two slices are the ones that panic out of range or off a boundary.
\<close>

definition token_text :: "string \<Rightarrow> token \<Rightarrow> string option" where
  "token_text src t =
     (case str_get src (span_start (span_of t)) (span_end (span_of t)) of
        None \<Rightarrow> None
      | Some raw \<Rightarrow>
          (case str_get raw (content_offset t) (length raw) of
             None \<Rightarrow> None
           | Some stripped \<Rightarrow>
               Some (case kind t of
                       Var \<Rightarrow> if stripped = [RBRACE] then [] else stripped
                     | Cmd \<Rightarrow> if stripped = [RBRACKET] then [] else stripped
                     | Str \<Rightarrow> if stripped = [RBRACE] then [] else stripped
                     | Esc \<Rightarrow>
                         if (content_offset t \<noteq> 0 \<or> quoted t) \<and> stripped \<in> {[DQUOTE], [DOLLAR], [LBRACKET]} then []
                         else stripped
                     | _ \<Rightarrow> stripped)))"

section \<open>Configuration\<close>

datatype leading_bom = BomContent | BomSkip

datatype list_parse = ListStrict | ListLenient

record lexer_config =
  expand_syntax :: bool
  irules_brace_separator :: bool
  brace_line_continuation :: brace_line_continuation
  strict_quoting :: bool
  braced_var :: braced_var_style
  array_index :: array_index_syntax
  base_offset :: nat
  base_line :: nat
  base_col :: nat
  leading_bom :: leading_bom
  escapes :: escape_syntax
  word_separators :: word_separators
  quote_termination :: quote_termination
  var_syntax :: var_syntax
  brace_backslash_newline :: brace_backslash_newline
  list_parse :: list_parse

definition lexer_config_default :: lexer_config where
  "lexer_config_default =
     \<lparr>expand_syntax = True, irules_brace_separator = False, brace_line_continuation = Terminates,
      strict_quoting = False, braced_var = Tcl9Nesting, array_index = IndexTcl9,
      base_offset = 0, base_line = 0, base_col = 0, leading_bom = BomContent, escapes = Tcl90,
      word_separators = SepsTcl, quote_termination = StrictQuotes, var_syntax = VarsTcl,
      brace_backslash_newline = Folds, list_parse = ListStrict\<rparr>"

definition UTF8_BOM :: string where
  "UTF8_BOM = utf8_encode 0xFEFF"

definition normalized :: "lexer_config \<Rightarrow> lexer_config" where
  "normalized c = c\<lparr>base_offset := 0, base_line := 0, base_col := 0\<rparr>"

definition nested :: "lexer_config \<Rightarrow> lexer_config" where
  "nested c = c\<lparr>leading_bom := BomContent\<rparr>"

definition at_depth :: "lexer_config \<Rightarrow> nat \<Rightarrow> lexer_config" where
  "at_depth c d = (if d = 0 then c else nested c)"

section \<open>State\<close>

record lex_warning =
  warning_offset :: nat
  warning_message :: string

text \<open>\<open>ghosts\<close> are the zero-width closing delimiters of error recovery, by offset.\<close>

record lexer =
  source :: string
  pos :: nat
  at_command_start :: bool
  in_quote :: bool
  pending_sep :: "token option"
  warnings :: "lex_warning list"
  last_kind :: token_type
  fused :: bool
  config :: lexer_config
  ghosts :: "(nat \<times> char) list"

text \<open>Scanning the text for its line index is where a text of four gigabytes panics.\<close>

definition lexer_with_config :: "string \<Rightarrow> lexer_config \<Rightarrow> lexer option" where
  "lexer_with_config src c =
     (case line_index_new src of
        None \<Rightarrow> None
      | Some _ \<Rightarrow>
          Some \<lparr>source = src,
                pos = (if leading_bom c = BomSkip \<and> take (length UTF8_BOM) src = UTF8_BOM then length UTF8_BOM else 0),
                at_command_start = True, in_quote = False, pending_sep = None, warnings = [],
                last_kind = Eol, fused = False, config = c, ghosts = []\<rparr>)"

definition lexer_new :: "string \<Rightarrow> lexer option" where
  "lexer_new src = lexer_with_config src lexer_config_default"

definition with_ghosts :: "(nat \<times> char) list \<Rightarrow> lexer \<Rightarrow> lexer" where
  "with_ghosts g lx = lx\<lparr>ghosts := g\<rparr>"

definition as_quoted_body :: "lexer \<Rightarrow> lexer" where
  "as_quoted_body lx = lx\<lparr>in_quote := True\<rparr>"

definition ghost_at :: "lexer \<Rightarrow> nat \<Rightarrow> char option" where
  "ghost_at lx offset = map_of (ghosts lx) offset"

abbreviation char_code :: "char \<Rightarrow> nat" where
  "char_code c \<equiv> of_char c"

definition current_byte :: "lexer \<Rightarrow> char option" where
  "current_byte lx = (case ghost_at lx (pos lx) of Some g \<Rightarrow> Some g | None \<Rightarrow> byte_at (source lx) (pos lx))"

definition current_char :: "lexer \<Rightarrow> nat option" where
  "current_char lx =
     (case ghost_at lx (pos lx) of
        Some g \<Rightarrow> Some (char_code g)
      | None \<Rightarrow>
          if is_char_boundary (source lx) (pos lx) then first_char (drop (pos lx) (source lx)) else None)"

definition peek_byte :: "lexer \<Rightarrow> nat \<Rightarrow> char option" where
  "peek_byte lx offset = byte_at (source lx) (pos lx + offset)"

definition warn_or_error :: "string \<Rightarrow> lexer \<Rightarrow> (string + unit) \<times> lexer" where
  "warn_or_error message lx =
     (if strict_quoting (config lx) then (Inl message, lx)
      else (Inr (), lx\<lparr>warnings := warnings lx @ [\<lparr>warning_offset = pos lx, warning_message = message\<rparr>]\<rparr>))"

definition advance :: "nat \<Rightarrow> lexer \<Rightarrow> lexer" where
  "advance k lx = lx\<lparr>pos := pos lx + k\<rparr>"

definition make_token :: "token_type \<Rightarrow> nat \<Rightarrow> lexer \<Rightarrow> token" where
  "make_token k start lx = token_new k (span_new start (pos lx))"

text \<open>One past the last offset the scanner can see something at.\<close>

definition lex_limit :: "lexer \<Rightarrow> nat" where
  "lex_limit lx = foldr max (map (\<lambda>(k, _). k + 1) (ghosts lx)) (length (source lx))"

lemma lex_limit_cong: "source lx = source ly \<Longrightarrow> ghosts lx = ghosts ly \<Longrightarrow> lex_limit lx = lex_limit ly"
  by (simp add: lex_limit_def)

lemma lex_limit_upd [simp]: "lex_limit (lx\<lparr>pos := p\<rparr>) = lex_limit lx" "lex_limit (advance k lx) = lex_limit lx"
  by (simp_all add: lex_limit_def advance_def)

lemma advance_sel [simp]:
  "pos (advance k lx) = pos lx + k" "source (advance k lx) = source lx" "ghosts (advance k lx) = ghosts lx"
  "config (advance k lx) = config lx" "in_quote (advance k lx) = in_quote lx" "last_kind (advance k lx) = last_kind lx"
  "pending_sep (advance k lx) = pending_sep lx" "warnings (advance k lx) = warnings lx"
  "fused (advance k lx) = fused lx" "at_command_start (advance k lx) = at_command_start lx"
  by (simp_all add: advance_def)

lemma ghost_limit: "ghost_at lx k = Some g \<Longrightarrow> k < lex_limit lx"
proof -
  have "(k, g) \<in> set gs \<Longrightarrow> k < foldr max (map (\<lambda>(k, _). k + 1) gs) n" for gs and n :: nat
    by (induction gs) (auto simp: less_max_iff_disj)
  then show "ghost_at lx k = Some g \<Longrightarrow> k < lex_limit lx" by (simp add: ghost_at_def lex_limit_def map_of_SomeD)
qed

lemma source_limit: "length (source lx) \<le> lex_limit lx"
proof -
  have "n \<le> foldr max (map (\<lambda>(k, _). k + 1) gs) n" for gs :: "(nat \<times> char) list" and n :: nat
    by (induction gs) auto
  then show ?thesis by (simp add: lex_limit_def)
qed

lemma current_byte_limit: "current_byte lx = Some b \<Longrightarrow> pos lx < lex_limit lx"
  using source_limit [of lx] by (auto simp: current_byte_def dest: ghost_limit byte_at_SomeD split: option.splits)

lemma current_char_limit: "current_char lx = Some ch \<Longrightarrow> pos lx < lex_limit lx"
  using source_limit [of lx] by (cases "drop (pos lx) (source lx)")
    (auto simp: current_char_def drop_eq_Cons_iff dest: ghost_limit split: option.splits if_splits)

section \<open>Separators, command ends, comments\<close>

definition is_horizontal_whitespace :: "nat \<Rightarrow> word_separators \<Rightarrow> bool" where
  "is_horizontal_whitespace ch seps = (ch < 256 \<and> is_separator seps (char_of ch))"

definition is_eol_char :: "nat \<Rightarrow> bool" where
  "is_eol_char ch = (ch = char_code LF \<or> ch = char_code SEMI)"

definition is_eol_byte :: "char \<Rightarrow> bool" where
  "is_eol_byte b = (b = LF \<or> b = SEMI)"

definition is_separator_byte :: "char \<Rightarrow> word_separators \<Rightarrow> bool" where
  "is_separator_byte b seps = (is_separator seps b \<or> is_eol_byte b)"

text \<open>The loops over single bytes: on while the current byte satisfies the test.\<close>

function byte_loop :: "(char \<Rightarrow> bool) \<Rightarrow> lexer \<Rightarrow> lexer" where
  "byte_loop p lx =
     (case current_byte lx of
        None \<Rightarrow> lx
      | Some b \<Rightarrow> if p b then byte_loop p (advance 1 lx) else lx)"
  by pat_completeness auto
termination
  by (relation "measure (\<lambda>(p, lx). lex_limit lx - pos lx)") (auto dest: current_byte_limit)

declare byte_loop.simps [simp del]

definition parse_sep :: "lexer \<Rightarrow> token \<times> lexer" where
  "parse_sep lx =
     (let e = byte_loop (is_separator (word_separators (config lx))) lx in (make_token Sep (pos lx) e, e))"

definition newline_continues_command :: "lexer \<Rightarrow> bool" where
  "newline_continues_command lx =
     (continues (brace_line_continuation (config lx)) \<and>
      byte_at (source lx) (skip_while (is_separator (word_separators (config lx))) (source lx) (pos lx + 1)) = Some LBRACE)"

definition parse_brace_line_continuation_sep :: "lexer \<Rightarrow> token \<times> lexer" where
  "parse_brace_line_continuation_sep lx =
     (let e = byte_loop (is_separator (word_separators (config lx))) (advance 1 lx) in (make_token Sep (pos lx) e, e))"

definition parse_eol :: "lexer \<Rightarrow> token \<times> lexer" where
  "parse_eol lx =
     (let e = byte_loop (\<lambda>b. is_separator_byte b (word_separators (config lx))) lx in (make_token Eol (pos lx) e, e))"

definition source_backslash_escape_end :: "lexer \<Rightarrow> nat" where
  "source_backslash_escape_end lx =
     (let i = pos lx in
      if byte_at (source lx) (i + 1) = Some CR
      then (if byte_at (source lx) (i + 2) = Some LF then i + 3 else i + 2)
      else backslash_escape_end_in (source lx) i (escapes (config lx)))"

definition source_is_line_continuation :: "lexer \<Rightarrow> bool" where
  "source_is_line_continuation lx =
     (current_byte lx = Some BS \<and> byte_at (source lx) (pos lx + 1) \<in> {Some LF, Some CR})"

definition skip_escape :: "lexer \<Rightarrow> lexer" where
  "skip_escape lx = lx\<lparr>pos := source_backslash_escape_end lx\<rparr>"

lemma escape_end_gt [bounds]: "pos lx < source_backslash_escape_end lx"
  by (simp add: source_backslash_escape_end_def Let_def backslash_escape_end_in_def decode_escape_gt)

lemma skip_escape_sel [simp]:
  "pos lx < pos (skip_escape lx)" "source (skip_escape lx) = source lx" "ghosts (skip_escape lx) = ghosts lx"
  "config (skip_escape lx) = config lx" "in_quote (skip_escape lx) = in_quote lx" "lex_limit (skip_escape lx) = lex_limit lx"
  "pending_sep (skip_escape lx) = pending_sep lx" "warnings (skip_escape lx) = warnings lx"
  "last_kind (skip_escape lx) = last_kind lx" "fused (skip_escape lx) = fused lx"
  "at_command_start (skip_escape lx) = at_command_start lx"
  by (simp_all add: skip_escape_def escape_end_gt)

lemma loop_decreases:
  "current_char lx = Some ch \<Longrightarrow> pos lx < k \<Longrightarrow> lex_limit lx - k < lex_limit lx - pos lx"
  using current_char_limit [of lx ch] by simp

function comment_loop :: "lexer \<Rightarrow> lexer" where
  "comment_loop lx =
     (case current_char lx of
        None \<Rightarrow> lx
      | Some ch \<Rightarrow>
          if ch = char_code LF then lx
          else if ch = char_code BS then comment_loop (skip_escape lx)
          else comment_loop (advance (len_utf8 ch) lx))"
  by pat_completeness auto
termination
  by (relation "measure (\<lambda>lx. lex_limit lx - pos lx)") (auto intro!: loop_decreases)

declare comment_loop.simps [simp del]

definition parse_comment :: "lexer \<Rightarrow> token \<times> lexer" where
  "parse_comment lx = (let e = comment_loop (advance 1 lx) in (make_token Comment (pos lx) e, e))"

section \<open>Bare words\<close>

definition parse_backslash_newline_sep :: "lexer \<Rightarrow> token \<times> lexer" where
  "parse_backslash_newline_sep lx = (let e = skip_escape lx in (make_token Sep (pos lx) e, e))"

function esc_loop :: "nat \<Rightarrow> lexer \<Rightarrow> token \<times> lexer" where
  "esc_loop start lx =
     (case current_char lx of
        None \<Rightarrow> (make_token Esc start lx, lx)
      | Some ch \<Rightarrow>
          if is_horizontal_whitespace ch (word_separators (config lx)) \<or> is_eol_char ch then (make_token Esc start lx, lx)
          else if ch = char_code DOLLAR \<or> ch = char_code LBRACKET then (make_token Esc start lx, lx)
          else if ch = char_code BS then
            (if source_is_line_continuation lx then
               (if pos lx = start then parse_backslash_newline_sep lx else (make_token Esc start lx, lx))
             else
               (case byte_at (source lx) (pos lx + 1) of
                  Some _ \<Rightarrow>
                    (case current_char (advance 1 lx) of
                       Some esc \<Rightarrow> esc_loop start (advance (len_utf8 esc) (advance 1 lx))
                     | None \<Rightarrow> esc_loop start (advance 1 lx))
                | None \<Rightarrow> esc_loop start (advance 1 lx)))
          else esc_loop start (advance (len_utf8 ch) lx))"
  by pat_completeness auto
termination
  by (relation "measure (\<lambda>(start, lx). lex_limit lx - pos lx)") (auto intro!: loop_decreases)

declare esc_loop.simps [simp del]

definition parse_esc :: "lexer \<Rightarrow> token \<times> lexer" where
  "parse_esc lx = esc_loop (pos lx) lx"

section \<open>Variable substitutions\<close>

function jim_paren_loop :: "string \<Rightarrow> nat \<Rightarrow> nat \<Rightarrow> nat option \<Rightarrow> nat" where
  "jim_paren_loop bytes p level last_close =
     (if p < length bytes then
        (if bytes ! p = BS \<and> p + 1 < length bytes then jim_paren_loop bytes (p + 2) level last_close
         else if bytes ! p = LPAREN then jim_paren_loop bytes (p + 1) (level + 1) last_close
         else if bytes ! p = RPAREN then
           (if level - 1 = 0 then p else jim_paren_loop bytes (p + 1) (level - 1) (Some p))
         else jim_paren_loop bytes (p + 1) level last_close)
      else (case last_close of Some c \<Rightarrow> c + 1 | None \<Rightarrow> p))"
  by pat_completeness auto
termination
  by (relation "measure (\<lambda>(bytes, p, level, last_close). length bytes - p)") auto

declare jim_paren_loop.simps [simp del]

definition skip_jim_paren_body :: "lexer \<Rightarrow> lexer" where
  "skip_jim_paren_body lx = lx\<lparr>pos := jim_paren_loop (source lx) (pos lx) 1 None\<rparr>"

definition skip_braced_var_name_body :: "lexer \<Rightarrow> lexer" where
  "skip_braced_var_name_body lx =
     lx\<lparr>pos := (case braced_var_name_end (source lx) (pos lx) (braced_var (config lx)) of
                  NameClosed e \<Rightarrow> e | NameUnterminated \<Rightarrow> length (source lx))\<rparr>"

definition skip_braced_var_name :: "lexer \<Rightarrow> lexer" where
  "skip_braced_var_name lx =
     (let e = skip_braced_var_name_body (advance 2 lx) in
      if current_byte e = Some RBRACE then advance 1 e else e)"

text \<open>\<open>self.warn_or_error(message)?; Ok(token)\<close>.\<close>

definition and_then_token :: "(string + unit) \<times> lexer \<Rightarrow> (lexer \<Rightarrow> token) \<Rightarrow> (string + token) \<times> lexer" where
  "and_then_token r f = (case r of (Inl e, lx) \<Rightarrow> (Inl e, lx) | (Inr _, lx) \<Rightarrow> (Inr (f lx), lx))"

definition scan_array_index_body :: "lexer \<Rightarrow> (string + unit) \<times> lexer" where
  "scan_array_index_body lx =
     (let scan = scan_array_index (source lx) (pos lx) (array_index (config lx)) (braced_var (config lx)) in
      case (case invalid scan of
              Some k \<Rightarrow> warn_or_error ''invalid character in array index'' (lx\<lparr>pos := k\<rparr>)
            | None \<Rightarrow> (Inr (), lx)) of
        (Inl e, l1) \<Rightarrow> (Inl e, l1)
      | (Inr _, l1) \<Rightarrow>
          (case index_end scan of
             IndexClosed e \<Rightarrow> (Inr (), l1\<lparr>pos := e\<rparr>)
           | IndexUnterminated \<Rightarrow> warn_or_error ''missing )'' (l1\<lparr>pos := length (source l1)\<rparr>)))"

text \<open>
  The two delimited forms, \<open>$(expr)\<close> and \<open>${name}\<close>, from the position after their opening.
\<close>

definition delimited_var :: "nat \<Rightarrow> token_type \<Rightarrow> char \<Rightarrow> string \<Rightarrow> (lexer \<Rightarrow> lexer) \<Rightarrow> lexer \<Rightarrow> (string + token) \<times> lexer" where
  "delimited_var dollar_pos k closer message skip lx =
     (let e = skip lx;
          has_close = (current_byte e = Some closer);
          span_end = (if pos e = pos lx \<and> has_close then pos e + 1 else pos e);
          t = with_content_offset k (span_new dollar_pos span_end) 2
      in if has_close then (Inr t, advance 1 e) else and_then_token (warn_or_error message e) (\<lambda>_. t))"

definition parse_var :: "lexer \<Rightarrow> (string + token) \<times> lexer" where
  "parse_var lx =
     (let dollar_pos = pos lx; l1 = advance 1 lx; syn = var_syntax (config lx) in
      if has_expr_sugar syn \<and> current_byte l1 = Some LPAREN then
        delimited_var dollar_pos ExprSugar RPAREN ''missing close-paren for expression substitution''
          skip_jim_paren_body (advance 1 l1)
      else if current_byte l1 = Some LBRACE then
        delimited_var dollar_pos Var RBRACE ''missing close-brace for variable name''
          skip_braced_var_name_body (advance 1 l1)
      else
        (let l2 = l1\<lparr>pos := scan_var_name_end_with (source l1) (pos l1) (name_allows_high_bytes syn)\<rparr>;
             var_token = (\<lambda>l. with_content_offset Var (span_new dollar_pos (pos l)) 1)
         in if current_byte l2 = Some LPAREN then
              (if index_parens_nest syn then
                 (let l3 = skip_jim_paren_body (advance 1 l2) in
                  if current_byte l3 = Some RPAREN then (Inr (var_token (advance 1 l3)), advance 1 l3)
                  else and_then_token (warn_or_error ''missing close-paren for array index'' l3) var_token)
               else and_then_token (scan_array_index_body l2) var_token)
            else if pos l2 = pos l1 then (Inr (token_new Str (span_new dollar_pos (dollar_pos + 1))), l2)
            else (Inr (var_token l2), l2)))"

section \<open>Quoted words\<close>

function quoted_loop :: "lexer \<Rightarrow> bool \<times> lexer" where
  "quoted_loop lx =
     (case current_char lx of
        None \<Rightarrow> (False, lx)
      | Some ch \<Rightarrow>
          if ch = char_code DQUOTE then (True, lx)
          else if ch = char_code DOLLAR \<or> ch = char_code LBRACKET then (False, lx)
          else if ch = char_code BS then quoted_loop (skip_escape lx)
          else quoted_loop (advance (len_utf8 ch) lx))"
  by pat_completeness auto
termination
  by (relation "measure (\<lambda>lx. lex_limit lx - pos lx)") (auto intro!: loop_decreases)

declare quoted_loop.simps [simp del]

text \<open>What follows a closed quoted word: nothing wrong, an F5 word break, or extra characters.\<close>

definition after_close_quote :: "lexer \<Rightarrow> (string + unit) \<times> lexer" where
  "after_close_quote lx =
     (case (if is_strict (quote_termination (config lx)) then current_byte lx else None) of
        None \<Rightarrow> (Inr (), lx)
      | Some byte \<Rightarrow>
          (let separates = is_separator_byte byte (word_separators (config lx));
               continues_line = source_is_line_continuation lx
           in if irules_brace_separator (config lx) then
                (Inr (), if \<not> separates \<and> \<not> continues_line
                         then lx\<lparr>pending_sep := Some (token_new Sep (span_empty (pos lx)))\<rparr> else lx)
              else if separates \<or> byte = RBRACKET \<or> continues_line then (Inr (), lx)
              else warn_or_error ''extra characters after close-quote'' lx))"

definition parse_quoted :: "bool \<Rightarrow> lexer \<Rightarrow> (string + token) \<times> lexer" where
  "parse_quoted opening lx =
     (let start = pos lx;
          l1 = (if opening then (advance 1 lx)\<lparr>in_quote := True\<rparr> else lx);
          content_start = pos l1
      in case quoted_loop l1 of
           (closed, l2) \<Rightarrow>
             (let content_empty = (pos l2 = content_start);
                  has_stop = (closed \<or> current_char l2 \<noteq> None);
                  span_end = (if content_empty \<and> has_stop then pos l2 + 1 else pos l2);
                  checked =
                    (if closed then after_close_quote ((advance 1 l2)\<lparr>in_quote := False\<rparr>)
                     else if current_char l2 = None then warn_or_error (''missing '' @ [DQUOTE]) l2
                     else (Inr (), l2));
                  offset = (if \<not> opening \<and> content_empty \<and> closed then 1 else if opening then 1 else 0)
              in and_then_token checked (\<lambda>_. with_content_offset Esc (span_new start span_end) offset)))"

section \<open>Braced words\<close>

definition is_newword :: "lexer \<Rightarrow> bool" where
  "is_newword lx = (last_kind lx \<in> {Sep, Eol, Str, Expand})"

definition parse_expand :: "lexer \<Rightarrow> token \<times> lexer" where
  "parse_expand lx = (token_new Expand (span_empty (pos lx)), advance 3 lx)"

text \<open>The loop of \<open>parse_brace\<close>: the level it ends at, zero when it stands at the closing brace.\<close>

function brace_loop :: "nat \<Rightarrow> lexer \<Rightarrow> nat \<times> lexer" where
  "brace_loop level lx =
     (case current_char lx of
        None \<Rightarrow> (level, lx)
      | Some ch \<Rightarrow>
          if ch = char_code BS then brace_loop level (skip_escape lx)
          else if ch = char_code LBRACE then brace_loop (level + 1) (advance 1 lx)
          else if ch = char_code RBRACE then
            (if level - 1 = 0 then (0, lx) else brace_loop (level - 1) (advance 1 lx))
          else brace_loop level (advance (len_utf8 ch) lx))"
  by pat_completeness auto
termination
  by (relation "measure (\<lambda>(level, lx). lex_limit lx - pos lx)") (auto intro!: loop_decreases)

declare brace_loop.simps [simp del]

definition after_close_brace :: "lexer \<Rightarrow> (string + unit) \<times> lexer" where
  "after_close_brace lx =
     (case current_byte lx of
        None \<Rightarrow> (Inr (), lx)
      | Some byte \<Rightarrow>
          if is_separator_byte byte (word_separators (config lx)) \<or> source_is_line_continuation lx then (Inr (), lx)
          else if irules_brace_separator (config lx) then
            (Inr (), lx\<lparr>pending_sep := Some (token_new Sep (span_empty (pos lx)))\<rparr>)
          else warn_or_error ''extra characters after close-brace'' lx)"

definition parse_brace :: "lexer \<Rightarrow> (string + token) \<times> lexer" where
  "parse_brace lx =
     (case brace_loop 1 (advance 1 lx) of
        (level, l1) \<Rightarrow>
          (let span_end = pos l1;
               has_close_brace = (current_byte l1 = Some RBRACE);
               final_end = (if span_end = pos lx + 1 \<and> has_close_brace then span_end + 1 else span_end);
               checked = (if has_close_brace then after_close_brace (advance 1 l1) else warn_or_error ''missing close-brace'' l1)
           in and_then_token checked (\<lambda>_. with_content_offset Str (span_new (pos lx) final_end) 1)))"

definition parse_brace_or_expand :: "lexer \<Rightarrow> (string + token) \<times> lexer" where
  "parse_brace_or_expand lx =
     (if expand_syntax (config lx) \<and> peek_byte lx 1 = Some (CHR ''*'') \<and> peek_byte lx 2 = Some RBRACE \<and>
         (case peek_byte lx 3 of Some byte \<Rightarrow> \<not> is_separator_byte byte (word_separators (config lx)) | None \<Rightarrow> False)
      then (case parse_expand lx of (t, e) \<Rightarrow> (Inr t, e))
      else parse_brace lx)"

section \<open>Command substitutions\<close>

definition advance_command_comment :: "nat \<Rightarrow> lexer \<Rightarrow> bool \<times> lexer" where
  "advance_command_comment ch lx =
     (if ch = char_code LF then (True, advance 1 lx)
      else if ch = char_code BS then (False, skip_escape lx)
      else (False, advance (len_utf8 ch) lx))"

text \<open>
  One iteration of the loop of \<open>parse_command\<close> at the character \<open>ch\<close>, no ghost being there:
  \<open>None\<close> at the closing bracket.
\<close>

definition command_char :: "nat \<Rightarrow> lexer \<Rightarrow> command_scan \<Rightarrow> (lexer \<times> command_scan) option" where
  "command_char ch lx s =
     (let bare = (braces s = 0 \<and> \<not> in_quotes s); word = s\<lparr>command_start := False\<rparr> in
      if in_comment s then
        (case advance_command_comment ch lx of
           (True, e) \<Rightarrow> Some (e, s\<lparr>in_comment := False, command_start := True\<rparr>)
         | (False, e) \<Rightarrow> Some (e, s))
      else if ch = char_code HASH \<and> command_start s \<and> bare then Some (advance 1 lx, s\<lparr>in_comment := True\<rparr>)
      else if ch = char_code DQUOTE \<and> braces s = 0 then Some (advance 1 lx, word\<lparr>in_quotes := \<not> in_quotes s\<rparr>)
      else if ch = char_code LBRACKET \<and> bare then Some (advance 1 lx, s\<lparr>depth := depth s + 1, command_start := True\<rparr>)
      else if ch = char_code RBRACKET \<and> bare then
        (if depth s - 1 = 0 then None else Some (advance 1 lx, word\<lparr>depth := depth s - 1\<rparr>))
      else if ch = char_code BS then Some (skip_escape lx, if source_is_line_continuation lx then s else word)
      else if ch = char_code DOLLAR \<and> bare then
        Some (if peek_byte lx 1 = Some LBRACE then skip_braced_var_name lx else advance 1 lx, word)
      else if ch = char_code LBRACE \<and> \<not> in_quotes s then Some (advance 1 lx, word\<lparr>braces := braces s + 1\<rparr>)
      else if ch = char_code RBRACE \<and> \<not> in_quotes s then Some (advance 1 lx, word\<lparr>braces := braces s - 1\<rparr>)
      else if (ch = char_code LF \<or> ch = char_code SEMI) \<and> bare then Some (advance 1 lx, s\<lparr>command_start := True\<rparr>)
      else if ch \<in> {char_code SP, char_code TAB, char_code CR, char_code VT, char_code FF} \<and> bare then Some (advance 1 lx, s)
      else Some (advance (len_utf8 ch) lx, word))"

definition remove_ghost :: "lexer \<Rightarrow> lexer" where
  "remove_ghost lx = lx\<lparr>ghosts := AList.delete (pos lx) (ghosts lx)\<rparr>"

lemma skip_braced_var_name_sel [simp]:
  "source (skip_braced_var_name lx) = source lx" "ghosts (skip_braced_var_name lx) = ghosts lx"
  "config (skip_braced_var_name lx) = config lx" "lex_limit (skip_braced_var_name lx) = lex_limit lx"
  by (simp_all add: skip_braced_var_name_def skip_braced_var_name_body_def Let_def)

lemma skip_braced_var_name_gt:
  "peek_byte lx 1 = Some LBRACE \<Longrightarrow> pos lx < pos (skip_braced_var_name lx)"
  by (auto simp: skip_braced_var_name_def skip_braced_var_name_body_def Let_def peek_byte_def
      dest!: byte_at_SomeD dest: braced_var_name_end_bounds split: braced_var_end.splits)

definition advanced :: "lexer \<Rightarrow> (lexer \<times> command_scan) option \<Rightarrow> bool" where
  "advanced lx r = (case r of None \<Rightarrow> True | Some (ly, _) \<Rightarrow> pos lx < pos ly \<and> lex_limit ly = lex_limit lx)"

lemma advanced_if: "(c \<Longrightarrow> advanced lx a) \<Longrightarrow> (\<not> c \<Longrightarrow> advanced lx b) \<Longrightarrow> advanced lx (if c then a else b)"
  by simp

lemma command_char_advances: "command_char ch lx s = Some (ly, s') \<Longrightarrow> pos lx < pos ly \<and> lex_limit ly = lex_limit lx"
proof -
  have "advanced lx (command_char ch lx s)"
    unfolding command_char_def Let_def
    by (intro advanced_if) (simp_all add: advanced_def advance_command_comment_def skip_braced_var_name_gt)
  then show "command_char ch lx s = Some (ly, s') \<Longrightarrow> pos lx < pos ly \<and> lex_limit ly = lex_limit lx"
    by (simp add: advanced_def)
qed

lemma remove_ghost_smaller:
  "ghost_at lx (pos lx) = Some g \<Longrightarrow> length (ghosts (remove_ghost lx)) < length (ghosts lx)"
  "lex_limit (remove_ghost lx) \<le> lex_limit lx"
proof -
  have "map_of gs k = Some g \<Longrightarrow> length (AList.delete k gs) < length gs" for gs :: "(nat \<times> char) list" and k
    by (induction gs) (auto simp: AList.delete_eq less_Suc_eq_le length_filter_le split: if_splits)
  then show "ghost_at lx (pos lx) = Some g \<Longrightarrow> length (ghosts (remove_ghost lx)) < length (ghosts lx)"
    by (simp add: remove_ghost_def ghost_at_def)
  have "foldr max (map (\<lambda>(k, _). k + 1) (AList.delete p gs)) n \<le> foldr max (map (\<lambda>(k, _). k + 1) gs) n"
    for gs :: "(nat \<times> char) list" and p and n :: nat
    by (induction gs) (auto simp: AList.delete_eq le_max_iff_disj)
  then show "lex_limit (remove_ghost lx) \<le> lex_limit lx" by (simp add: lex_limit_def remove_ghost_def)
qed

function command_loop :: "lexer \<Rightarrow> command_scan \<Rightarrow> lexer" where
  "command_loop lx s =
     (case current_char lx of
        None \<Rightarrow> lx
      | Some ch \<Rightarrow>
          if ghost_at lx (pos lx) = Some RBRACKET then
            (if depth s - 1 = 0 then lx else command_loop (remove_ghost lx) (s\<lparr>depth := depth s - 1\<rparr>))
          else
            (case command_char ch lx s of
               None \<Rightarrow> lx
             | Some (ly, s') \<Rightarrow> command_loop ly s'))"
  by pat_completeness auto
termination
proof (relation "measures [\<lambda>(lx, s). lex_limit lx - pos lx, \<lambda>(lx, s). length (ghosts lx)]", goal_cases)
  case (2 lx s ch)
  then have "length (ghosts (remove_ghost lx)) < length (ghosts lx)" by (simp add: remove_ghost_smaller)
  moreover have "lex_limit (remove_ghost lx) - pos (remove_ghost lx) \<le> lex_limit lx - pos lx"
    using remove_ghost_smaller(2) [of lx] by (simp add: remove_ghost_def diff_le_mono)
  ultimately show ?case by (auto simp: le_less)
next
  case (3 lx s ch p ly s')
  then have "pos lx < pos ly" "lex_limit ly = lex_limit lx" using command_char_advances [of ch lx s ly s'] by auto
  then show ?case using 3 loop_decreases [of lx ch "pos ly"] by auto
qed simp

declare command_loop.simps [simp del]

definition finish_command_token :: "nat \<Rightarrow> nat \<Rightarrow> lexer \<Rightarrow> (string + token) \<times> lexer" where
  "finish_command_token bracket_pos content_start lx =
     (let content_empty = (pos lx = content_start);
          close_is_ghost = (ghost_at lx (pos lx) = Some RBRACKET);
          has_close_bracket = (current_byte lx = Some RBRACKET);
          span_end = (if content_empty \<and> has_close_bracket \<and> \<not> close_is_ghost then pos lx + 1 else pos lx);
          t = with_content_offset Cmd (span_new bracket_pos span_end) 1
      in if close_is_ghost then (Inr t, remove_ghost lx)
         else if has_close_bracket then (Inr t, advance 1 lx)
         else and_then_token (warn_or_error ''missing close-bracket'' lx) (\<lambda>_. t))"

definition command_scan_start :: command_scan where
  "command_scan_start = \<lparr>depth = 1, braces = 0, in_quotes = False, in_comment = False, command_start = True\<rparr>"

definition parse_command :: "lexer \<Rightarrow> (string + token) \<times> lexer" where
  "parse_command lx = finish_command_token (pos lx) (pos lx + 1) (command_loop (advance 1 lx) command_scan_start)"

section \<open>The token stream\<close>

definition lift_token :: "token \<times> lexer \<Rightarrow> (string + token) \<times> lexer" where
  "lift_token r = (Inr (fst r), snd r)"

text \<open>The dispatch of \<open>next\<close> on the current character.\<close>

definition dispatch :: "nat \<Rightarrow> lexer \<Rightarrow> (string + token) \<times> lexer" where
  "dispatch ch lx =
     (if in_quote lx then
        (if ch = char_code DOLLAR then parse_var lx
         else if ch = char_code LBRACKET then parse_command lx
         else parse_quoted False lx)
      else if is_horizontal_whitespace ch (word_separators (config lx)) then lift_token (parse_sep lx)
      else if ch = char_code LF \<and> newline_continues_command lx then lift_token (parse_brace_line_continuation_sep lx)
      else if is_eol_char ch then lift_token (parse_eol lx)
      else if ch = char_code HASH \<and> at_command_start lx then lift_token (parse_comment lx)
      else if ch = char_code DOLLAR then parse_var lx
      else if ch = char_code LBRACKET then parse_command lx
      else if ch = char_code LBRACE \<and> is_newword lx then parse_brace_or_expand lx
      else if ch = char_code DQUOTE \<and> is_newword lx then parse_quoted True lx
      else lift_token (parse_esc lx))"

definition tag_token :: "token \<Rightarrow> lexer \<Rightarrow> (string + token) option \<times> lexer" where
  "tag_token t lx =
     (Some (Inr (t\<lparr>quoted := in_quote lx\<rparr>)),
      lx\<lparr>at_command_start := (case kind t of Eol \<Rightarrow> True | Sep \<Rightarrow> at_command_start lx | Comment \<Rightarrow> at_command_start lx | _ \<Rightarrow> False),
         last_kind := kind t\<rparr>)"

text \<open>\<open>Iterator::next\<close>: nothing more, an error, or a token. The outer \<open>None\<close> is the panic of its \<open>expect\<close>.\<close>

definition lexer_next :: "lexer \<Rightarrow> ((string + token) option \<times> lexer) option" where
  "lexer_next lx =
     (if fused lx then Some (None, lx)
      else
        (case pending_sep lx of
           Some t \<Rightarrow> Some (Some (Inr t), lx\<lparr>pending_sep := None, last_kind := kind t\<rparr>)
         | None \<Rightarrow>
             if length (source lx) \<le> pos lx then
               (if last_kind lx = Eol then Some (None, lx\<lparr>fused := True\<rparr>)
                else Some (Some (Inr (token_new Eol (span_empty (pos lx)))), lx\<lparr>last_kind := Eol\<rparr>))
             else
               (case current_char lx of
                  None \<Rightarrow> None
                | Some ch \<Rightarrow>
                    Some (case dispatch ch lx of
                            (Inr t, ly) \<Rightarrow> tag_token t ly
                          | (Inl e, ly) \<Rightarrow> (Some (Inl e), ly\<lparr>fused := True\<rparr>)))))"

partial_function (option) token_loop :: "lexer \<Rightarrow> ((string + token list) \<times> lexer) option" where
  "token_loop lx =
     (case lexer_next lx of
        None \<Rightarrow> None
      | Some (None, ly) \<Rightarrow> Some (Inr [], ly)
      | Some (Some (Inl e), ly) \<Rightarrow> Some (Inl e, ly)
      | Some (Some (Inr t), ly) \<Rightarrow>
          Option.bind (token_loop ly) (\<lambda>r. Some (map_sum id ((#) t) (fst r), snd r)))"

definition tokenise_all :: "lexer \<Rightarrow> (string + token list) option" where
  "tokenise_all lx = map_option fst (token_loop lx)"

definition tokenise_all_with_warnings :: "lexer \<Rightarrow> (string + token list \<times> lex_warning list) option" where
  "tokenise_all_with_warnings lx =
     map_option (\<lambda>(r, ly). map_sum id (\<lambda>ts. (ts, warnings ly)) r) (token_loop lx)"

end
