(* ===== verification/Lexer_Stream.thy ===== *)
theory Lexer_Stream
  imports Lexer
begin

text \<open>
  What the lexer of \<open>Lexer\<close> returns. Every scan of a well-formed text, no recovery delimiter being
  supplied, moves forwards from one character boundary to another; every parse function makes a token
  in front of the position it leaves; so the stream ends, and its tokens tile the text.
\<close>

section \<open>Positions\<close>

definition cut_at :: "string \<Rightarrow> nat \<Rightarrow> bool" where
  "cut_at src p \<longleftrightarrow> p \<le> length src \<and> is_char_boundary src p"

definition lex_ok :: "lexer \<Rightarrow> bool" where
  "lex_ok lx \<longleftrightarrow> utf8_valid (source lx) \<and> ghosts lx = [] \<and> cut_at (source lx) (pos lx)"

text \<open>A scan that only moves the position, forwards and to a cut.\<close>

definition reaches :: "lexer \<Rightarrow> lexer \<Rightarrow> bool" where
  "reaches lx ly \<longleftrightarrow> (\<exists>p. ly = lx\<lparr>pos := p\<rparr> \<and> pos lx \<le> p \<and> cut_at (source lx) p)"

abbreviation ascii :: "char \<Rightarrow> bool" where
  "ascii c \<equiv> of_char c < (0x80::nat)"

lemma cut_after: "utf8_valid src \<Longrightarrow> k < length src \<Longrightarrow> ascii (src ! k) \<Longrightarrow> cut_at src (Suc k)"
  by (simp add: cut_at_def boundary_after_ascii)

lemma cut_before: "k < length src \<Longrightarrow> ascii (src ! k) \<Longrightarrow> cut_at src k"
  by (simp add: cut_at_def is_char_boundary_def)

lemma cut_length [simp]: "cut_at src (length src)"
  by (simp add: cut_at_def is_char_boundary_def)

lemma cut_0 [simp]: "cut_at src 0"
  by (simp add: cut_at_def is_char_boundary_def)

lemma reaches_refl: "lex_ok lx \<Longrightarrow> reaches lx lx"
  by (auto simp: reaches_def lex_ok_def intro!: exI [of _ "pos lx"])

lemma reaches_trans: "reaches lx ly \<Longrightarrow> reaches ly lz \<Longrightarrow> reaches lx lz"
  by (auto simp: reaches_def)

lemma reaches_ok: "lex_ok lx \<Longrightarrow> reaches lx ly \<Longrightarrow> lex_ok ly"
  by (auto simp: reaches_def lex_ok_def)

lemma reaches_sel:
  assumes "reaches lx ly"
  shows "source ly = source lx" "ghosts ly = ghosts lx" "config ly = config lx" "in_quote ly = in_quote lx"
    "pending_sep ly = pending_sep lx" "warnings ly = warnings lx" "last_kind ly = last_kind lx" "fused ly = fused lx"
    "at_command_start ly = at_command_start lx" "pos lx \<le> pos ly" "cut_at (source lx) (pos ly)"
  using assms by (auto simp: reaches_def)

lemma reaches_to: "cut_at (source lx) p \<Longrightarrow> pos lx \<le> p \<Longrightarrow> reaches lx (lx\<lparr>pos := p\<rparr>)"
  by (auto simp: reaches_def)

lemma reaches_advance: "cut_at (source lx) (pos lx + k) \<Longrightarrow> reaches lx (advance k lx)"
  by (simp add: advance_def reaches_to)

section \<open>The current character\<close>

lemma no_ghost: "lex_ok lx \<Longrightarrow> ghost_at lx k = None"
  by (simp add: lex_ok_def ghost_at_def)

lemma current_byte_eq: "lex_ok lx \<Longrightarrow> current_byte lx = byte_at (source lx) (pos lx)"
  by (simp add: current_byte_def no_ghost)

lemma current_char_None: "lex_ok lx \<Longrightarrow> current_char lx = None \<longleftrightarrow> pos lx = length (source lx)"
  by (auto simp: current_char_def no_ghost lex_ok_def cut_at_def)

lemma current_char_Some:
  assumes "lex_ok lx" "current_char lx = Some ch"
  shows "pos lx < length (source lx)" "cut_at (source lx) (pos lx + len_utf8 ch)"
    "ch < 0x80 \<Longrightarrow> source lx ! pos lx = char_of ch" "0x80 \<le> ch \<Longrightarrow> \<not> ascii (source lx ! pos lx)" "is_scalar ch"
proof -
  have v: "utf8_valid (drop (pos lx) (source lx))"
    using assms(1) utf8_valid_cut [of "source lx" "pos lx"] by (simp add: lex_ok_def cut_at_def)
  have f: "first_char (drop (pos lx) (source lx)) = Some ch"
    using assms by (simp add: current_char_def no_ghost split: if_splits)
  from v obtain t where t: "drop (pos lx) (source lx) = utf8_encode ch @ t" "is_scalar ch" "utf8_valid t"
    by (cases rule: utf8_valid_cases) (use f in \<open>auto simp: first_char_encode is_scalar_lt\<close>)
  show lt: "pos lx < length (source lx)" using t(1) by (cases "pos lx < length (source lx)") (simp_all add: utf8_encode_def split: if_splits)
  have hd: "source lx ! pos lx = utf8_encode ch ! 0"
  proof -
    have "source lx ! pos lx = drop (pos lx) (source lx) ! 0" using lt by simp
    then show ?thesis by (simp add: t(1) nth_append)
  qed
  then show "ch < 0x80 \<Longrightarrow> source lx ! pos lx = char_of ch" by simp
  have len: "pos lx + len_utf8 ch \<le> length (source lx)"
    using arg_cong [OF t(1), of length] lt by simp
  have "drop (pos lx + len_utf8 ch) (source lx) = t"
    using t(1) by (metis add.commute append_eq_conv_conj drop_drop length_utf8_encode)
  with t(3) len show "cut_at (source lx) (pos lx + len_utf8 ch)"
    by (simp add: cut_at_def boundary_of_valid_drop)
  show "0x80 \<le> ch \<Longrightarrow> \<not> ascii (source lx ! pos lx)"
    unfolding hd using utf8_encode_high [of ch "utf8_encode ch ! 0"] is_scalar_lt [OF t(2)] by force
  show "is_scalar ch" by (rule t(2))
qed

text \<open>At an ASCII character the byte and the character are the same.\<close>

lemma current_char_is_byte:
  assumes "lex_ok lx" "ascii c"
  shows "current_char lx = Some (of_char c) \<longleftrightarrow> byte_at (source lx) (pos lx) = Some c"
proof
  assume c: "current_char lx = Some (of_char c)"
  with current_char_Some [OF assms(1) c] assms(2) show "byte_at (source lx) (pos lx) = Some c"
    by (simp add: byte_at_def)
next
  assume b: "byte_at (source lx) (pos lx) = Some c"
  then have "drop (pos lx) (source lx) = c # drop (Suc (pos lx)) (source lx)" by (auto dest!: byte_at_SomeD simp: Cons_nth_drop_Suc)
  with assms b show "current_char lx = Some (of_char c)"
    by (simp add: current_char_def no_ghost lex_ok_def cut_at_def first_char_ascii)
qed

lemma reaches_char: "lex_ok lx \<Longrightarrow> current_char lx = Some ch \<Longrightarrow> reaches lx (advance (len_utf8 ch) lx)"
  by (intro reaches_advance current_char_Some(2))

lemma reaches_byte:
  "lex_ok lx \<Longrightarrow> byte_at (source lx) (pos lx) = Some b \<Longrightarrow> ascii b \<Longrightarrow> reaches lx (advance 1 lx)"
  by (intro reaches_advance) (auto simp: lex_ok_def dest!: byte_at_SomeD intro!: cut_after)

lemma reaches_ascii: "lex_ok lx \<Longrightarrow> current_char lx = Some (of_char c) \<Longrightarrow> ascii c \<Longrightarrow> reaches lx (advance 1 lx)"
  by (rule reaches_byte) (simp_all add: current_char_is_byte)

lemma escape_end_cut:
  assumes "lex_ok lx" "byte_at (source lx) (pos lx) = Some BS"
  shows "cut_at (source lx) (source_backslash_escape_end lx)"
proof -
  have v: "utf8_valid (source lx)" using assms(1) by (simp add: lex_ok_def)
  have p: "pos lx < length (source lx)" "source lx ! pos lx = BS" using assms(2) by (auto dest: byte_at_SomeD)
  show ?thesis
  proof (cases "byte_at (source lx) (pos lx + 1) = Some CR")
    case True
    then have cr: "cut_at (source lx) (Suc (pos lx + 1))" by (intro cut_after v) (auto dest: byte_at_SomeD)
    have "byte_at (source lx) (pos lx + 2) = Some LF \<Longrightarrow> cut_at (source lx) (Suc (pos lx + 2))"
      by (intro cut_after v) (auto dest: byte_at_SomeD)
    with cr True show ?thesis by (simp add: source_backslash_escape_end_def Let_def numeral_3_eq_3 numeral_2_eq_2)
  next
    case False
    with decode_escape_bounds(1,2) [OF v p, of "escapes (config lx)"] show ?thesis
      by (simp add: source_backslash_escape_end_def Let_def backslash_escape_end_in_def cut_at_def boundary_of_valid_drop)
  qed
qed

lemma reaches_escape: "lex_ok lx \<Longrightarrow> byte_at (source lx) (pos lx) = Some BS \<Longrightarrow> reaches lx (skip_escape lx)"
  using escape_end_cut escape_end_gt [of lx] by (simp add: skip_escape_def reaches_to)

lemma separator_ascii: "is_separator s b \<Longrightarrow> ascii b"
  by (auto simp: is_separator_def)

lemma separator_byte_ascii: "is_separator_byte b s \<Longrightarrow> ascii b"
  by (auto simp: is_separator_byte_def is_eol_byte_def separator_ascii)

section \<open>The loops\<close>

lemma byte_loop_reaches: "lex_ok lx \<Longrightarrow> (\<And>b. p b \<Longrightarrow> ascii b) \<Longrightarrow> reaches lx (byte_loop p lx)"
proof (induction p lx rule: byte_loop.induct)
  case (1 p lx)
  note step = byte_loop.simps [of p lx]
  show ?case
  proof (cases "current_byte lx")
    case (Some b)
    show ?thesis
    proof (cases "p b")
      case True
      have r: "reaches lx (advance 1 lx)"
        using Some True "1.prems" by (intro reaches_byte [of lx b]) (simp_all add: current_byte_eq)
      from "1.IH" [OF Some True reaches_ok [OF "1.prems"(1) r] "1.prems"(2)] Some True show ?thesis
        by (simp add: step reaches_trans [OF r])
    qed (use Some "1.prems" in \<open>simp add: step reaches_refl\<close>)
  qed (use "1.prems" in \<open>simp add: step reaches_refl\<close>)
qed

lemma byte_loop_first:
  "lex_ok lx \<Longrightarrow> (\<And>b. p b \<Longrightarrow> ascii b) \<Longrightarrow> byte_at (source lx) (pos lx) = Some b \<Longrightarrow> p b \<Longrightarrow> pos lx < pos (byte_loop p lx)"
  using byte_loop_reaches [of "advance 1 lx" p] reaches_byte [of lx b] reaches_ok [of lx "advance 1 lx"]
  by (fastforce simp: byte_loop.simps [of p lx] current_byte_eq dest: reaches_sel(10))

lemma comment_loop_reaches: "lex_ok lx \<Longrightarrow> reaches lx (comment_loop lx)"
proof (induction lx rule: comment_loop.induct)
  case (1 lx)
  note step = comment_loop.simps [of lx]
  show ?case
  proof (cases "current_char lx")
    case (Some ch)
    consider "ch = char_code LF" | "ch = char_code BS" | "ch \<noteq> char_code LF" "ch \<noteq> char_code BS" by blast
    then show ?thesis
    proof cases
      case 2
      with Some "1.prems" have r: "reaches lx (skip_escape lx)" by (intro reaches_escape) (simp_all flip: current_char_is_byte)
      from "1.IH"(1) [OF Some _ 2 reaches_ok [OF "1.prems" r]] 2 Some show ?thesis
        by (simp add: step reaches_trans [OF r])
    next
      case 3
      have r: "reaches lx (advance (len_utf8 ch) lx)" by (rule reaches_char [OF "1.prems" Some])
      from "1.IH"(2) [OF Some 3 reaches_ok [OF "1.prems" r]] 3 Some show ?thesis
        by (simp add: step reaches_trans [OF r])
    qed (use Some "1.prems" in \<open>simp add: step reaches_refl\<close>)
  qed (use "1.prems" in \<open>simp add: step reaches_refl\<close>)
qed

text \<open>What a scan returns that makes the token from \<open>start\<close> where it stops.\<close>

definition scanned :: "nat \<Rightarrow> lexer \<Rightarrow> token \<times> lexer \<Rightarrow> bool" where
  "scanned start lx r \<longleftrightarrow>
     (\<exists>k. k \<noteq> Expand \<and> fst r = make_token k start (snd r)) \<and> reaches lx (snd r)"

lemma scanned_trans: "reaches lx ly \<Longrightarrow> scanned start ly r \<Longrightarrow> scanned start lx r"
  by (auto simp: scanned_def intro: reaches_trans)

lemma scannedI: "k \<noteq> Expand \<Longrightarrow> reaches lx ly \<Longrightarrow> scanned start lx (make_token k start ly, ly)"
  by (auto simp: scanned_def)

lemma esc_loop_scanned: "lex_ok lx \<Longrightarrow> scanned start lx (esc_loop start lx)"
proof (induction start lx rule: esc_loop.induct)
  case (1 start lx)
  note step = esc_loop.simps [of start lx]
  note stop = scannedI [OF _ reaches_refl [OF "1.prems"], of Esc start]
  show ?case
  proof (cases "current_char lx")
    case (Some ch)
    let ?stop = "is_horizontal_whitespace ch (word_separators (config lx)) \<or> is_eol_char ch \<or> ch = char_code DOLLAR \<or> ch = char_code LBRACKET"
    consider "?stop" | "\<not> ?stop" "ch = char_code BS" "source_is_line_continuation lx"
      | "\<not> ?stop" "ch = char_code BS" "\<not> source_is_line_continuation lx" | "\<not> ?stop" "ch \<noteq> char_code BS" by blast
    then show ?thesis
    proof cases
      case 1
      with Some stop show ?thesis by (auto simp: step)
    next
      case 2
      with Some "1.prems" have "reaches lx (skip_escape lx)" by (intro reaches_escape) (simp_all flip: current_char_is_byte)
      with 2 Some stop show ?thesis
        by (cases "pos lx = start") (auto simp: step parse_backslash_newline_sep_def Let_def intro: scannedI)
    next
      case 3
      have r1: "reaches lx (advance 1 lx)"
        using 3 Some "1.prems" by (intro reaches_ascii [of lx BS]) simp_all
      note ok1 = reaches_ok [OF "1.prems" r1]
      show ?thesis
      proof (cases "byte_at (source lx) (pos lx + 1)")
        case None
        from "1.IH"(1) [OF Some _ _ 3(2,3) None ok1] 3 Some None show ?thesis
          by (auto simp: step intro: scanned_trans [OF r1])
      next
        case b: (Some b)
        show ?thesis
        proof (cases "current_char (advance 1 lx)")
          case None
          from "1.IH"(2) [OF Some _ _ 3(2,3) b None ok1] 3 Some b None show ?thesis
            by (auto simp: step intro: scanned_trans [OF r1])
        next
          case (Some e)
          have r2: "reaches (advance 1 lx) (advance (len_utf8 e) (advance 1 lx))" by (rule reaches_char [OF ok1 Some])
          from "1.IH"(3) [OF \<open>current_char lx = Some ch\<close> _ _ 3(2,3) b Some reaches_ok [OF ok1 r2]] 3 \<open>current_char lx = Some ch\<close> b Some
          show ?thesis by (auto simp: step intro: scanned_trans [OF reaches_trans [OF r1 r2]])
        qed
      qed
    next
      case 4
      have r: "reaches lx (advance (len_utf8 ch) lx)" by (rule reaches_char [OF "1.prems" Some])
      from "1.IH"(4) [OF Some _ _ 4(2) reaches_ok [OF "1.prems" r]] 4 Some show ?thesis
        by (auto simp: step intro: scanned_trans [OF r])
    qed
  qed (use stop in \<open>auto simp: step\<close>)
qed

definition stops_quoted :: "lexer \<Rightarrow> bool \<times> lexer \<Rightarrow> bool" where
  "stops_quoted lx r \<longleftrightarrow> reaches lx (snd r) \<and>
     (if fst r then byte_at (source lx) (pos (snd r)) = Some DQUOTE
      else pos (snd r) = length (source lx) \<or> byte_at (source lx) (pos (snd r)) \<in> {Some DOLLAR, Some LBRACKET})"

lemma stops_quoted_trans: "reaches lx ly \<Longrightarrow> stops_quoted ly r \<Longrightarrow> stops_quoted lx r"
  using reaches_sel(1) [of lx ly] by (auto simp: stops_quoted_def intro: reaches_trans)

lemma quoted_loop_stops: "lex_ok lx \<Longrightarrow> stops_quoted lx (quoted_loop lx)"
proof (induction lx rule: quoted_loop.induct)
  case (1 lx)
  note step = quoted_loop.simps [of lx]
  note stop = reaches_refl [OF "1.prems"]
  show ?case
  proof (cases "current_char lx")
    case None
    moreover from None have "pos lx = length (source lx)" by (simp add: current_char_None [OF "1.prems"])
    ultimately show ?thesis using stop by (simp add: step stops_quoted_def)
  next
    case (Some ch)
    consider "ch = char_code DQUOTE" | "ch \<noteq> char_code DQUOTE" "ch = char_code DOLLAR \<or> ch = char_code LBRACKET"
      | "ch \<noteq> char_code DQUOTE" "\<not> (ch = char_code DOLLAR \<or> ch = char_code LBRACKET)" "ch = char_code BS"
      | "ch \<noteq> char_code DQUOTE" "\<not> (ch = char_code DOLLAR \<or> ch = char_code LBRACKET)" "ch \<noteq> char_code BS" by blast
    then show ?thesis
    proof cases
      case 1
      then have "byte_at (source lx) (pos lx) = Some DQUOTE" using Some "1.prems" by (simp flip: current_char_is_byte)
      with 1 Some stop show ?thesis by (simp add: step stops_quoted_def)
    next
      case 2
      then have "byte_at (source lx) (pos lx) \<in> {Some DOLLAR, Some LBRACKET}"
        using Some current_char_is_byte [OF "1.prems", of DOLLAR] current_char_is_byte [OF "1.prems", of LBRACKET] by auto
      moreover have "quoted_loop lx = (False, lx)" using 2 Some by (auto simp: step)
      ultimately show ?thesis using stop by (simp add: stops_quoted_def)
    next
      case 3
      then have r: "reaches lx (skip_escape lx)" using Some "1.prems" by (intro reaches_escape) (simp_all flip: current_char_is_byte)
      from stops_quoted_trans [OF r "1.IH"(1) [OF Some 3 reaches_ok [OF "1.prems" r]]] 3 Some show ?thesis by (simp add: step)
    next
      case 4
      have r: "reaches lx (advance (len_utf8 ch) lx)" by (rule reaches_char [OF "1.prems" Some])
      from stops_quoted_trans [OF r "1.IH"(2) [OF Some 4 reaches_ok [OF "1.prems" r]]] 4 Some show ?thesis by (simp add: step)
    qed
  qed
qed

lemma brace_loop_reaches: "lex_ok lx \<Longrightarrow> reaches lx (snd (brace_loop level lx))"
proof (induction level lx rule: brace_loop.induct)
  case (1 level lx)
  note step = brace_loop.simps [of level lx]
  note stop = reaches_refl [OF "1.prems"]
  show ?case
  proof (cases "current_char lx")
    case (Some ch)
    consider "ch = char_code BS" | "ch \<noteq> char_code BS" "ch = char_code LBRACE"
      | "ch \<noteq> char_code BS" "ch \<noteq> char_code LBRACE" "ch = char_code RBRACE" "level - 1 = 0"
      | "ch \<noteq> char_code BS" "ch \<noteq> char_code LBRACE" "ch = char_code RBRACE" "level - 1 \<noteq> 0"
      | "ch \<noteq> char_code BS" "ch \<noteq> char_code LBRACE" "ch \<noteq> char_code RBRACE" by blast
    then show ?thesis
    proof cases
      case 1
      then have r: "reaches lx (skip_escape lx)" using Some "1.prems" by (intro reaches_escape) (simp_all flip: current_char_is_byte)
      from "1.IH"(1) [OF Some 1 reaches_ok [OF "1.prems" r]] 1 Some reaches_trans [OF r] show ?thesis by (simp add: step)
    next
      case 2
      then have r: "reaches lx (advance 1 lx)" using Some "1.prems" by (intro reaches_ascii [of lx LBRACE]) simp_all
      from "1.IH"(2) [OF Some 2 reaches_ok [OF "1.prems" r]] 2 Some reaches_trans [OF r] show ?thesis by (simp add: step)
    next
      case 4
      then have r: "reaches lx (advance 1 lx)" using Some "1.prems" by (intro reaches_ascii [of lx RBRACE]) simp_all
      from "1.IH"(3) [OF Some 4 reaches_ok [OF "1.prems" r]] 4 Some reaches_trans [OF r] show ?thesis by (simp add: step)
    next
      case 5
      have r: "reaches lx (advance (len_utf8 ch) lx)" by (rule reaches_char [OF "1.prems" Some])
      from "1.IH"(4) [OF Some 5 reaches_ok [OF "1.prems" r]] 5 Some reaches_trans [OF r] show ?thesis by (simp add: step)
    qed (use Some stop in \<open>simp add: step\<close>)
  qed (use stop in \<open>simp add: step\<close>)
qed

lemma jim_paren_loop_bounds:
  assumes "p \<le> length bytes" "case last_close of None \<Rightarrow> True | Some c \<Rightarrow> start \<le> c \<and> c < length bytes \<and> bytes ! c = RPAREN" "start \<le> p"
  shows "start \<le> jim_paren_loop bytes p level last_close \<and>
    (let q = jim_paren_loop bytes p level last_close in
     q = length bytes \<or> q < length bytes \<and> bytes ! q = RPAREN \<or> 0 < q \<and> q \<le> length bytes \<and> bytes ! (q - 1) = RPAREN)"
  using assms
proof (induction bytes p level last_close rule: jim_paren_loop.induct)
  case (1 bytes p level last_close)
  note step = jim_paren_loop.simps [of bytes p level last_close]
  show ?case
  proof (cases "p < length bytes")
    case True
    consider "bytes ! p = BS \<and> p + 1 < length bytes" | "\<not> (bytes ! p = BS \<and> p + 1 < length bytes)" "bytes ! p = LPAREN"
      | "\<not> (bytes ! p = BS \<and> p + 1 < length bytes)" "bytes ! p \<noteq> LPAREN" "bytes ! p = RPAREN" "level - 1 = 0"
      | "\<not> (bytes ! p = BS \<and> p + 1 < length bytes)" "bytes ! p \<noteq> LPAREN" "bytes ! p = RPAREN" "level - 1 \<noteq> 0"
      | "\<not> (bytes ! p = BS \<and> p + 1 < length bytes)" "bytes ! p \<noteq> LPAREN" "bytes ! p \<noteq> RPAREN" by blast
    then show ?thesis
    proof cases
      case 1
      have "jim_paren_loop bytes p level last_close = jim_paren_loop bytes (p + 2) level last_close" using True 1 by (simp add: step)
      with "1.IH"(1) [OF True 1] "1.prems" 1 show ?thesis by simp
    next
      case 2
      have "jim_paren_loop bytes p level last_close = jim_paren_loop bytes (p + 1) (level + 1) last_close" using True 2 by (simp add: step)
      with "1.IH"(2) [OF True 2] "1.prems" True show ?thesis by simp
    next
      case 3
      have "jim_paren_loop bytes p level last_close = p" using True 3 by (simp add: step)
      with "1.prems" True 3 show ?thesis by simp
    next
      case 4
      have "jim_paren_loop bytes p level last_close = jim_paren_loop bytes (p + 1) (level - 1) (Some p)" using True 4 by (simp add: step)
      with "1.IH"(3) [OF True 4] "1.prems" True 4 show ?thesis by simp
    next
      case 5
      have "jim_paren_loop bytes p level last_close = jim_paren_loop bytes (p + 1) level last_close"
        by (subst step) (use True 5 in auto)
      with "1.IH"(4) [OF True 5] "1.prems" True show ?thesis by simp
    qed
  next
    case False
    then have "jim_paren_loop bytes p level last_close = (case last_close of Some c \<Rightarrow> c + 1 | None \<Rightarrow> p)"
      by (simp add: step)
    with False "1.prems" show ?thesis by (cases last_close) auto
  qed
qed

lemma skip_jim_reaches: "lex_ok lx \<Longrightarrow> reaches lx (skip_jim_paren_body lx)"
proof -
  assume ok: "lex_ok lx"
  let ?q = "jim_paren_loop (source lx) (pos lx) 1 None"
  have "pos lx \<le> length (source lx)" using ok by (simp add: lex_ok_def cut_at_def)
  from jim_paren_loop_bounds [where p = "pos lx" and bytes = "source lx" and last_close = None and start = "pos lx" and level = 1] this
  have q: "pos lx \<le> ?q" "?q = length (source lx) \<or> ?q < length (source lx) \<and> source lx ! ?q = RPAREN \<or>
      0 < ?q \<and> ?q \<le> length (source lx) \<and> source lx ! (?q - 1) = RPAREN" by (simp_all add: Let_def)
  have "cut_at (source lx) ?q"
    using q(2) cut_before [of ?q "source lx"] cut_after [of "source lx" "?q - 1"] ok by (auto simp: lex_ok_def)
  with q(1) show ?thesis by (simp add: skip_jim_paren_body_def reaches_to)
qed

lemma skip_name_reaches:
  assumes "lex_ok lx"
  shows "reaches lx (skip_braced_var_name_body lx)"
proof (cases "braced_var_name_end (source lx) (pos lx) (braced_var (config lx))")
  case (NameClosed e)
  from braced_var_name_end_bounds [OF NameClosed] have "pos lx \<le> e" "cut_at (source lx) e"
    by (auto intro: cut_before)
  with NameClosed show ?thesis by (simp add: skip_braced_var_name_body_def reaches_to)
next
  case NameUnterminated
  with assms show ?thesis by (simp add: skip_braced_var_name_body_def reaches_to lex_ok_def cut_at_def [of _ "pos lx"])
qed

lemma reaches_closer:
  assumes "lex_ok lx" "reaches lx ly" "current_byte ly = Some c" "ascii c"
  shows "reaches lx (advance 1 ly)"
proof -
  note ok = reaches_ok [OF assms(1,2)]
  with assms(3,4) have "reaches ly (advance 1 ly)" by (intro reaches_byte) (simp_all add: current_byte_eq)
  with assms(2) show ?thesis by (rule reaches_trans)
qed

lemma skip_braced_reaches:
  assumes "lex_ok lx" "byte_at (source lx) (pos lx) = Some DOLLAR" "peek_byte lx 1 = Some LBRACE"
  shows "reaches lx (skip_braced_var_name lx)"
proof -
  have "reaches lx (advance 2 lx)"
    using assms cut_after [of "source lx" "Suc (pos lx)"]
    by (intro reaches_advance) (auto simp: lex_ok_def peek_byte_def dest!: byte_at_SomeD)
  from reaches_trans [OF this skip_name_reaches [OF reaches_ok [OF assms(1) this]]] show ?thesis
    using reaches_closer [OF assms(1), of "skip_braced_var_name_body (advance 2 lx)" RBRACE]
    by (simp add: skip_braced_var_name_def Let_def)
qed

section \<open>Command substitutions\<close>

lemma reaches_ascii_char: "lex_ok lx \<Longrightarrow> current_char lx = Some ch \<Longrightarrow> ch < 0x80 \<Longrightarrow> reaches lx (advance 1 lx)"
  using reaches_char [of lx ch] by (simp add: len_utf8_def)

definition keeps_cut :: "lexer \<Rightarrow> (lexer \<times> command_scan) option \<Rightarrow> bool" where
  "keeps_cut lx r = (case r of None \<Rightarrow> True | Some (ly, _) \<Rightarrow> reaches lx ly)"

lemma keeps_cut_if: "(c \<Longrightarrow> keeps_cut lx a) \<Longrightarrow> (\<not> c \<Longrightarrow> keeps_cut lx b) \<Longrightarrow> keeps_cut lx (if c then a else b)"
  by simp

lemma command_char_reaches:
  assumes "lex_ok lx" "current_char lx = Some ch"
  shows "keeps_cut lx (command_char ch lx s)"
proof -
  have one: "reaches lx (advance 1 lx)" if "ch < 0x80" by (rule reaches_ascii_char [OF assms that])
  have esc: "reaches lx (skip_escape lx)" if "ch = char_code BS"
    using that assms by (intro reaches_escape) (simp_all flip: current_char_is_byte)
  have name: "reaches lx (skip_braced_var_name lx)" if "ch = char_code DOLLAR" "peek_byte lx 1 = Some LBRACE"
    using that assms by (intro skip_braced_reaches) (simp_all flip: current_char_is_byte)
  note char = reaches_char [OF assms]
  show ?thesis
    unfolding command_char_def Let_def
    by (intro keeps_cut_if) (auto simp: keeps_cut_def advance_command_comment_def one esc name char simp del: One_nat_def)
qed

lemma command_loop_reaches: "lex_ok lx \<Longrightarrow> reaches lx (command_loop lx s)"
proof (induction lx s rule: command_loop.induct)
  case (1 lx s)
  note step = command_loop.simps [of lx s]
  show ?case
  proof (cases "current_char lx")
    case (Some ch)
    have g: "ghost_at lx (pos lx) \<noteq> Some RBRACKET" using no_ghost [OF "1.prems"] by simp
    show ?thesis
    proof (cases "command_char ch lx s")
      case c: (Some r)
      obtain ly s' where r: "r = (ly, s')" by fastforce
      have m: "reaches lx ly" using command_char_reaches [OF "1.prems" Some, of s] by (simp add: keeps_cut_def c r)
      from reaches_trans [OF m "1.IH"(2) [OF Some g c r [symmetric] reaches_ok [OF "1.prems" m]]] Some g c r
      show ?thesis by (simp add: step)
    qed (use "1.prems" Some g in \<open>simp add: step reaches_refl\<close>)
  qed (use "1.prems" in \<open>simp add: step reaches_refl\<close>)
qed

section \<open>What a parse returns\<close>

text \<open>
  What may lie between the end of a token and the start \<open>q\<close> of the next: nothing, or the closing
  delimiter that belongs to the token; after an expansion, its mark.
\<close>

definition token_gaps :: "token \<Rightarrow> string set" where
  "token_gaps t =
     (case kind t of
        Esc \<Rightarrow> {[], [DQUOTE]}
      | Str \<Rightarrow> (if content_offset t = 1 then {[], [RBRACE]} else {[]})
      | Var \<Rightarrow> (if content_offset t = 2 then {[], [RBRACE]} else {[]})
      | Cmd \<Rightarrow> {[], [RBRACKET]}
      | ExprSugar \<Rightarrow> {[], [RPAREN]}
      | Expand \<Rightarrow> {[LBRACE, CHR ''*'', RBRACE]}
      | _ \<Rightarrow> {[]})"

text \<open>
  The one overlap: the opening part of a quoted word is empty, the quote being followed at once by a
  substitution, and its span is extended over the first byte of that substitution.
\<close>

definition overhangs :: "string \<Rightarrow> token \<Rightarrow> nat \<Rightarrow> bool" where
  "overhangs src t q \<longleftrightarrow>
     kind t = Esc \<and> content_offset t = 1 \<and> q = span_start (span_of t) + 1 \<and> span_end (span_of t) = q + 1 \<and>
     byte_at src (span_start (span_of t)) = Some DQUOTE \<and> byte_at src q \<in> {Some DOLLAR, Some LBRACKET}"

definition joins :: "string \<Rightarrow> token \<Rightarrow> nat \<Rightarrow> bool" where
  "joins src t q \<longleftrightarrow>
     span_end (span_of t) \<le> q \<and> subslice (span_end (span_of t)) q src \<in> token_gaps t \<or> overhangs src t q"

definition placed :: "string \<Rightarrow> nat \<Rightarrow> token \<Rightarrow> nat \<Rightarrow> bool" where
  "placed src p t q \<longleftrightarrow>
     span_start (span_of t) = p \<and> p + content_offset t \<le> span_end (span_of t) \<and>
     cut_at src (p + content_offset t) \<and> cut_at src (span_end (span_of t)) \<and> joins src t q"

lemma token_gaps_nil [simp]: "[] \<in> token_gaps t \<longleftrightarrow> kind t \<noteq> Expand"
  by (simp add: token_gaps_def split: token_type.split)

lemma token_gaps_closer: "[c] \<in> token_gaps t \<Longrightarrow> kind t \<noteq> Expand"
  by (auto simp: token_gaps_def)

lemma joins_self [simp]: "span_end (span_of t) = q \<Longrightarrow> kind t \<noteq> Expand \<Longrightarrow> joins src t q"
  by (auto simp: joins_def)

lemma joins_closer:
  "byte_at src (span_end (span_of t)) = Some c \<Longrightarrow> [c] \<in> token_gaps t \<Longrightarrow> joins src t (Suc (span_end (span_of t)))"
  using subslice_Suc [of "span_end (span_of t)" "span_end (span_of t)" src] by (auto simp: joins_def dest!: byte_at_SomeD)

text \<open>A parse leaves everything but the position, the flags and the separator it may owe.\<close>

definition settles :: "lexer \<Rightarrow> lexer \<Rightarrow> bool" where
  "settles lx ly \<longleftrightarrow>
     source ly = source lx \<and> ghosts ly = ghosts lx \<and> config ly = config lx \<and> fused ly = fused lx \<and>
     last_kind ly = last_kind lx \<and> at_command_start ly = at_command_start lx \<and>
     pos lx \<le> pos ly \<and> cut_at (source lx) (pos ly) \<and> (\<exists>m. warnings ly = warnings lx @ m) \<and>
     (pending_sep ly = pending_sep lx \<or> pending_sep ly = Some (token_new Sep (span_empty (pos ly))))"

lemma settles_reaches: "reaches lx ly \<Longrightarrow> settles lx ly"
  by (auto simp: settles_def reaches_def)

lemma settles_trans: "reaches lx ly \<Longrightarrow> settles ly lz \<Longrightarrow> settles lx lz"
  by (auto simp: settles_def reaches_def)

lemma settles_settles: "settles lx ly \<Longrightarrow> pending_sep ly = pending_sep lx \<Longrightarrow> settles ly lz \<Longrightarrow> settles lx lz"
  by (auto simp: settles_def)

lemma settles_ok: "lex_ok lx \<Longrightarrow> settles lx ly \<Longrightarrow> lex_ok ly"
  by (simp add: settles_def lex_ok_def)

definition checked :: "lexer \<Rightarrow> (string + unit) \<times> lexer \<Rightarrow> bool" where
  "checked lx r = (case r of (Inl _, _) \<Rightarrow> strict_quoting (config lx) | (Inr _, ly) \<Rightarrow> settles lx ly \<and> pos ly = pos lx)"

lemma checked_none: "lex_ok lx \<Longrightarrow> checked lx (Inr (), lx)"
  by (simp add: checked_def settles_reaches reaches_refl)

lemma checked_warn: "lex_ok lx \<Longrightarrow> checked lx (warn_or_error m lx)"
  by (simp add: checked_def warn_or_error_def settles_def lex_ok_def)

lemma checked_owe: "lex_ok lx \<Longrightarrow> checked lx (Inr (), lx\<lparr>pending_sep := Some (token_new Sep (span_empty (pos lx)))\<rparr>)"
  by (simp add: checked_def settles_def lex_ok_def)

lemma checked_after_close_brace: "lex_ok lx \<Longrightarrow> checked lx (after_close_brace lx)"
  by (simp add: after_close_brace_def checked_none checked_warn checked_owe split: option.split)

lemma checked_after_close_quote: "lex_ok lx \<Longrightarrow> checked lx (after_close_quote lx)"
  by (simp add: after_close_quote_def Let_def checked_none checked_warn checked_owe split: option.split)

definition emitted :: "lexer \<Rightarrow> (string + token) \<times> lexer \<Rightarrow> bool" where
  "emitted lx r =
     (case r of (Inl _, _) \<Rightarrow> strict_quoting (config lx)
      | (Inr t, ly) \<Rightarrow> settles lx ly \<and> pos lx < pos ly \<and> placed (source lx) (pos lx) t (pos ly))"

text \<open>A parse that stops at \<open>ly\<close>, checks what follows, and makes its token.\<close>

lemma emitted_checked:
  assumes "settles lx ly" "pending_sep ly = pending_sep lx" "checked ly r" "pos lx < pos ly"
    "\<And>lz. pos lz = pos ly \<Longrightarrow> placed (source lx) (pos lx) (f lz) (pos ly)"
  shows "emitted lx (and_then_token r f)"
proof (cases r)
  case (Pair res lz)
  show ?thesis
  proof (cases res)
    case (Inl e)
    with assms(1,3) Pair show ?thesis by (simp add: emitted_def and_then_token_def checked_def settles_def)
  next
    case (Inr u)
    with assms Pair show ?thesis
      using settles_settles [OF assms(1,2), of lz] by (simp add: emitted_def and_then_token_def checked_def)
  qed
qed

lemma emitted_scanned:
  assumes "lex_ok lx" "scanned (pos lx) lx r" "pos lx < pos (snd r)"
  shows "emitted lx (lift_token r)"
  using assms by (auto simp: emitted_def lift_token_def scanned_def settles_reaches placed_def
      make_token_def token_new_def reaches_sel lex_ok_def)

section \<open>Every parse function\<close>

lemma reaches_first:
  assumes "lex_ok lx" "current_char lx = Some ch" "ch < 0x80"
  shows "reaches lx (advance 1 lx)" "lex_ok (advance 1 lx)" "cut_at (source lx) (Suc (pos lx))"
proof -
  show r: "reaches lx (advance 1 lx)" by (rule reaches_ascii_char [OF assms])
  show "lex_ok (advance 1 lx)" by (rule reaches_ok [OF assms(1) r])
  show "cut_at (source lx) (Suc (pos lx))" using reaches_sel(11) [OF r] by simp
qed

lemma byte_loop_scanned:
  assumes "lex_ok lx" "\<And>b. p b \<Longrightarrow> ascii b" "k \<noteq> Expand"
  shows "scanned (pos lx) lx (make_token k (pos lx) (byte_loop p lx), byte_loop p lx)"
  by (rule scannedI [OF assms(3) byte_loop_reaches [OF assms(1,2)]])

lemma horizontal_byte:
  assumes "lex_ok lx" "current_char lx = Some ch" "is_horizontal_whitespace ch seps"
  shows "byte_at (source lx) (pos lx) = Some (char_of ch) \<and> is_separator seps (char_of ch)"
proof -
  have s: "is_separator seps (char_of ch)" "ch < 256" using assms(3) by (simp_all add: is_horizontal_whitespace_def)
  have "current_char lx = Some (of_char (char_of ch :: char))" using assms(2) s(2) by simp
  with current_char_is_byte [OF assms(1), of "char_of ch"] separator_ascii [OF s(1)] s(1) show ?thesis by simp
qed

lemma parse_sep_emitted:
  assumes "lex_ok lx" "current_char lx = Some ch" "is_horizontal_whitespace ch (word_separators (config lx))"
  shows "emitted lx (lift_token (parse_sep lx))"
proof (rule emitted_scanned [OF assms(1)])
  show "scanned (pos lx) lx (parse_sep lx)"
    using byte_loop_scanned [OF assms(1) separator_ascii, where k = Sep] by (simp add: parse_sep_def Let_def)
  show "pos lx < pos (snd (parse_sep lx))"
    using byte_loop_first [OF assms(1) separator_ascii] horizontal_byte [OF assms] by (simp add: parse_sep_def Let_def)
qed

lemma parse_brace_line_continuation_emitted:
  assumes "lex_ok lx" "current_char lx = Some (char_code LF)"
  shows "emitted lx (lift_token (parse_brace_line_continuation_sep lx))"
proof (rule emitted_scanned [OF assms(1)])
  note one = reaches_first [OF assms]
  let ?e = "byte_loop (is_separator (word_separators (config lx))) (advance 1 lx)"
  have r: "reaches (advance 1 lx) ?e" using one by (intro byte_loop_reaches separator_ascii) simp_all
  with one show "scanned (pos lx) lx (parse_brace_line_continuation_sep lx)"
    by (auto simp: parse_brace_line_continuation_sep_def Let_def intro!: scannedI intro: reaches_trans)
  from reaches_sel(10) [OF r] show "pos lx < pos (snd (parse_brace_line_continuation_sep lx))"
    by (simp add: parse_brace_line_continuation_sep_def Let_def)
qed

lemma parse_eol_emitted:
  assumes "lex_ok lx" "current_char lx = Some ch" "is_eol_char ch"
  shows "emitted lx (lift_token (parse_eol lx))"
proof (rule emitted_scanned [OF assms(1)])
  show "scanned (pos lx) lx (parse_eol lx)"
    using byte_loop_scanned [OF assms(1) separator_byte_ascii, where k = Eol] by (simp add: parse_eol_def Let_def)
  have "\<exists>b. byte_at (source lx) (pos lx) = Some b \<and> is_eol_byte b"
    using assms current_char_is_byte [OF assms(1), of LF] current_char_is_byte [OF assms(1), of SEMI]
    by (auto simp: is_eol_char_def is_eol_byte_def)
  then show "pos lx < pos (snd (parse_eol lx))"
    using byte_loop_first [OF assms(1) separator_byte_ascii] by (auto simp: parse_eol_def Let_def is_separator_byte_def)
qed

lemma parse_comment_emitted:
  assumes "lex_ok lx" "current_char lx = Some (char_code HASH)"
  shows "emitted lx (lift_token (parse_comment lx))"
proof (rule emitted_scanned [OF assms(1)])
  note one = reaches_first [OF assms]
  have r: "reaches (advance 1 lx) (comment_loop (advance 1 lx))" using one by (intro comment_loop_reaches) simp
  with one show "scanned (pos lx) lx (parse_comment lx)"
    by (auto simp: parse_comment_def Let_def intro!: scannedI intro: reaches_trans)
  from reaches_sel(10) [OF r] show "pos lx < pos (snd (parse_comment lx))" by (simp add: parse_comment_def Let_def)
qed

lemma scanned_pos: "scanned start lx r \<Longrightarrow> pos lx \<le> pos (snd r)"
  by (auto simp: scanned_def dest: reaches_sel(10))

lemma esc_loop_first:
  assumes "lex_ok lx" "current_char lx = Some ch" "\<not> is_horizontal_whitespace ch (word_separators (config lx))"
    "\<not> is_eol_char ch" "ch \<noteq> char_code DOLLAR" "ch \<noteq> char_code LBRACKET"
  shows "pos lx < pos (snd (esc_loop (pos lx) lx))"
proof -
  note step = esc_loop.simps [of "pos lx" lx]
  have on: "pos lx < pos (snd (esc_loop (pos lx) ly))" if "reaches lx ly" "pos lx < pos ly" for ly
    using scanned_pos [OF esc_loop_scanned [OF reaches_ok [OF assms(1) that(1)], of "pos lx"]] that(2) by linarith
  show ?thesis
  proof (cases "ch = char_code BS")
    case True
    note r1 = reaches_first [OF assms(1,2)]
    have r: "reaches lx (advance 1 lx)" "lex_ok (advance 1 lx)" using r1(1,2) True by simp_all
    show ?thesis
    proof (cases "source_is_line_continuation lx")
      case c: True
      with True assms show ?thesis by (simp add: step parse_backslash_newline_sep_def Let_def)
    next
      case c: False
      show ?thesis
      proof (cases "byte_at (source lx) (pos lx + 1)")
        case None
        with True c assms on [OF r(1)] show ?thesis by (simp add: step)
      next
        case b: (Some b)
        show ?thesis
        proof (cases "current_char (advance 1 lx)")
          case None
          with True c b assms on [OF r(1)] show ?thesis by (simp add: step)
        next
          case (Some e)
          from on [OF reaches_trans [OF r(1) reaches_char [OF r(2) Some]]] True c b Some assms show ?thesis
            by (simp add: step)
        qed
      qed
    qed
  next
    case False
    with assms on [OF reaches_char [OF assms(1,2)]] show ?thesis by (simp add: step)
  qed
qed

lemma parse_esc_emitted:
  assumes "lex_ok lx" "current_char lx = Some ch" "\<not> is_horizontal_whitespace ch (word_separators (config lx))"
    "\<not> is_eol_char ch" "ch \<noteq> char_code DOLLAR" "ch \<noteq> char_code LBRACKET"
  shows "emitted lx (lift_token (parse_esc lx))"
  unfolding parse_esc_def
  by (rule emitted_scanned [OF assms(1) esc_loop_scanned [OF assms(1)] esc_loop_first [OF assms]])

text \<open>A delimited token whose body ended at \<open>e\<close>, whether or not its closer is there.\<close>

lemma placed_closer:
  assumes "lex_ok lx" "reaches lx e" "current_byte e = Some c" "ascii c" "[c] \<in> token_gaps t"
    "span_start (span_of t) = pos lx" "cut_at (source lx) (pos lx + content_offset t)" "pos lx + content_offset t \<le> span_end (span_of t)"
    "span_end (span_of t) \<in> {pos e, Suc (pos e)}"
  shows "placed (source lx) (pos lx) t (Suc (pos e))"
proof -
  have b: "byte_at (source lx) (pos e) = Some c"
    using assms(3) current_byte_eq [OF reaches_ok [OF assms(1,2)]] reaches_sel(1) [OF assms(2)] by simp
  have "cut_at (source lx) (Suc (pos e))" using assms(1,4) b by (intro cut_after) (auto simp: lex_ok_def dest: byte_at_SomeD)
  moreover have "joins (source lx) t (Suc (pos e))"
    using assms(9) joins_closer [OF _ assms(5), of "source lx"] token_gaps_closer [OF assms(5)] b by auto
  ultimately show ?thesis using assms reaches_sel(11) [OF assms(2)] by (auto simp: placed_def)
qed

lemma delimited_var_emitted:
  assumes "lex_ok l0" "reaches l0 lx" "pos lx = pos l0 + 2" "reaches lx (skip lx)" "(k, closer) \<in> {(Var, RBRACE), (ExprSugar, RPAREN)}"
  shows "emitted l0 (delimited_var (pos l0) k closer m skip lx)"
proof -
  let ?e = "skip lx"
  have r: "reaches l0 ?e" by (rule reaches_trans [OF assms(2,4)])
  note sel = reaches_sel [OF r]
  have le: "pos lx \<le> pos ?e" by (rule reaches_sel(10) [OF assms(4)])
  have cut: "cut_at (source l0) (pos l0 + 2)" using reaches_sel(11) [OF assms(2)] assms(3) by simp
  show ?thesis
  proof (cases "current_byte ?e = Some closer")
    case True
    let ?t = "with_content_offset k (span_new (pos l0) (if pos ?e = pos lx then pos ?e + 1 else pos ?e)) 2"
    have "placed (source l0) (pos l0) ?t (Suc (pos ?e))"
      using assms(3,5) le cut by (intro placed_closer [OF assms(1) r True]) (auto simp: with_content_offset_def token_gaps_def)
    moreover have "reaches l0 (advance 1 ?e)" using assms(5) by (intro reaches_closer [OF assms(1) r True]) auto
    ultimately show ?thesis using True le assms(3)
      by (simp add: delimited_var_def Let_def emitted_def settles_reaches)
  next
    case False
    have "emitted l0 (and_then_token (warn_or_error m ?e) (\<lambda>_. with_content_offset k (span_new (pos l0) (pos ?e)) 2))"
      using le assms(3,5) cut sel(11)
      by (intro emitted_checked [OF settles_reaches [OF r] sel(5) checked_warn [OF reaches_ok [OF assms(1) r]]])
        (auto simp: placed_def with_content_offset_def)
    with False show ?thesis by (simp add: delimited_var_def Let_def)
  qed
qed

lemma and_then_Inr [simp]: "and_then_token (Inr u, lx) f = (Inr (f lx), lx)"
  by (simp add: and_then_token_def)

lemma emitted_if: "(c \<Longrightarrow> emitted lx a) \<Longrightarrow> (\<not> c \<Longrightarrow> emitted lx b) \<Longrightarrow> emitted lx (if c then a else b)"
  by simp

lemma name_reaches:
  assumes "lex_ok lx"
  shows "reaches lx (lx\<lparr>pos := scan_var_name_end_with (source lx) (pos lx) hi\<rparr>)"
  using assms scan_var_name_boundary [of "source lx" "pos lx" hi] scan_var_name_end_le [of "pos lx" "source lx" hi]
  by (intro reaches_to) (auto simp: lex_ok_def cut_at_def scan_var_name_end_ge)

text \<open>The scan of an array index may warn twice; on success it only has moved on.\<close>

lemma scan_array_index_body_settles:
  assumes "lex_ok lx"
  shows "case scan_array_index_body lx of (Inl _, _) \<Rightarrow> strict_quoting (config lx) | (Inr _, ly) \<Rightarrow> settles lx ly"
proof -
  let ?scan = "scan_array_index (source lx) (pos lx) (array_index (config lx)) (braced_var (config lx))"
  have v: "utf8_valid (source lx)" "pos lx \<le> length (source lx)" using assms by (simp_all add: lex_ok_def cut_at_def)
  have closed: "pos lx \<le> e \<and> cut_at (source lx) e" if "index_end ?scan = IndexClosed e" for e
    using scan_array_index_bounds(1) [OF that] cut_after [OF v(1), of "e - 1"] by auto
  show ?thesis
  proof (cases "invalid ?scan")
    case None
    with closed v show ?thesis
      by (cases "index_end ?scan") (auto simp: scan_array_index_body_def Let_def settles_def warn_or_error_def)
  next
    case (Some k)
    with closed v show ?thesis
      by (cases "index_end ?scan") (auto simp: scan_array_index_body_def Let_def settles_def warn_or_error_def)
  qed
qed

lemma parse_var_emitted:
  assumes "lex_ok lx" "current_char lx = Some (char_code DOLLAR)"
  shows "emitted lx (parse_var lx)"
proof -
  let ?l1 = "advance 1 lx" and ?syn = "var_syntax (config lx)"
  note one = reaches_first [OF assms]
  have r1: "reaches lx ?l1" "lex_ok ?l1" and c1: "cut_at (source lx) (Suc (pos lx))" using one by simp_all
  have delimited: "emitted lx (delimited_var (pos lx) k c m skip (advance 1 ?l1))"
    if "current_byte ?l1 = Some b" "ascii b" "(k, c) \<in> {(Var, RBRACE), (ExprSugar, RPAREN)}" "\<And>l. lex_ok l \<Longrightarrow> reaches l (skip l)" for k b c m skip
  proof -
    have r2: "reaches lx (advance 1 ?l1)" by (rule reaches_closer [OF assms(1) r1(1) that(1,2)])
    show ?thesis
      using that(3) by (intro delimited_var_emitted assms(1) r2 that(4) reaches_ok [OF assms(1) r2]) simp_all
  qed
  let ?l2 = "?l1\<lparr>pos := scan_var_name_end_with (source ?l1) (pos ?l1) (name_allows_high_bytes ?syn)\<rparr>"
  let ?t = "\<lambda>l. with_content_offset Var (span_new (pos lx) (pos l)) 1"
  have r2: "reaches lx ?l2" by (rule reaches_trans [OF r1(1) name_reaches [OF r1(2)]])
  have gt: "pos lx < pos ?l2" using scan_var_name_end_ge [of "pos ?l1"] by (simp add: Suc_le_eq)
  have token: "placed (source lx) (pos lx) (?t l) (pos l)" if "settles lx l" "pos lx < pos l" for l
    using that c1 by (auto simp: placed_def settles_def with_content_offset_def)
  have index: "emitted lx (and_then_token (scan_array_index_body ?l2) ?t)"
  proof (cases "scan_array_index_body ?l2")
    case (Pair res l)
    show ?thesis
    proof (cases res)
      case (Inl e)
      with Pair scan_array_index_body_settles [OF reaches_ok [OF assms(1) r2]] show ?thesis
        by (simp add: emitted_def and_then_token_def)
    next
      case (Inr u)
      have s: "settles ?l2 l" using Pair Inr scan_array_index_body_settles [OF reaches_ok [OF assms(1) r2]] by simp
      then have "settles lx l" "pos lx < pos l" using settles_trans [OF r2 s] gt by (auto simp: settles_def)
      with token Pair Inr show ?thesis by (simp add: emitted_def)
    qed
  qed
  have jim: "emitted lx (let l3 = skip_jim_paren_body (advance 1 ?l2) in
      if current_byte l3 = Some RPAREN then (Inr (?t (advance 1 l3)), advance 1 l3)
      else and_then_token (warn_or_error m l3) ?t)" if "current_byte ?l2 = Some LPAREN" for m
  proof -
    have ra: "reaches lx (advance 1 ?l2)" by (rule reaches_closer [OF assms(1) r2 that]) simp
    let ?l3 = "skip_jim_paren_body (advance 1 ?l2)"
    have rb: "reaches (advance 1 ?l2) ?l3" by (rule skip_jim_reaches [OF reaches_ok [OF assms(1) ra]])
    have r3: "reaches lx ?l3" by (rule reaches_trans [OF ra rb])
    have gt3: "pos lx < pos ?l3" using reaches_sel(10) [OF rb] gt by simp
    show ?thesis
    proof (cases "current_byte ?l3 = Some RPAREN")
      case True
      have s: "settles lx (advance 1 ?l3)" by (rule settles_reaches [OF reaches_closer [OF assms(1) r3 True]]) simp
      with True gt3 token [OF s] show ?thesis by (simp add: Let_def emitted_def)
    next
      case False
      have "emitted lx (and_then_token (warn_or_error m ?l3) ?t)"
        by (rule emitted_checked [OF settles_reaches [OF r3] reaches_sel(5) [OF r3] checked_warn [OF reaches_ok [OF assms(1) r3]] gt3])
          (use token [OF settles_reaches [OF r3] gt3] in simp)
      with False show ?thesis by (simp add: Let_def)
    qed
  qed
  have plain: "emitted lx (Inr (token_new Str (span_new (pos lx) (pos lx + 1))), ?l2)" if "pos ?l2 = pos ?l1"
    using that settles_reaches [OF r2] gt c1 assms(1)
    by (simp add: emitted_def placed_def token_new_def lex_ok_def)
  have named: "emitted lx (Inr (?t ?l2), ?l2)"
    using settles_reaches [OF r2] gt token [OF settles_reaches [OF r2] gt] by (simp add: emitted_def)
  show ?thesis
  proof (cases "has_expr_sugar ?syn \<and> current_byte ?l1 = Some LPAREN")
    case True
    with delimited [of LPAREN ExprSugar RPAREN skip_jim_paren_body] show ?thesis
      by (simp add: parse_var_def skip_jim_reaches)
  next
    case n1: False
    show ?thesis
    proof (cases "current_byte ?l1 = Some LBRACE")
      case True
      with delimited [of LBRACE Var RBRACE skip_braced_var_name_body] show ?thesis
        by (simp add: parse_var_def skip_name_reaches)
    next
      case n2: False
      have p: "parse_var lx = (if current_byte ?l2 = Some LPAREN then
              (if index_parens_nest ?syn then
                 (let l3 = skip_jim_paren_body (advance 1 ?l2) in
                  if current_byte l3 = Some RPAREN then (Inr (?t (advance 1 l3)), advance 1 l3)
                  else and_then_token (warn_or_error ''missing close-paren for array index'' l3) ?t)
               else and_then_token (scan_array_index_body ?l2) ?t)
            else if pos ?l2 = pos ?l1 then (Inr (token_new Str (span_new (pos lx) (pos lx + 1))), ?l2)
            else (Inr (?t ?l2), ?l2))"
        using n1 n2 unfolding parse_var_def Let_def advance_sel by (simp only: if_False)
      show ?thesis unfolding p by (intro emitted_if jim index plain named)
    qed
  qed
qed

section \<open>Commands, braces, quotes\<close>

lemma parse_command_emitted:
  assumes "lex_ok lx" "current_char lx = Some (char_code LBRACKET)"
  shows "emitted lx (parse_command lx)"
proof -
  note one = reaches_first [OF assms]
  have r1: "reaches lx (advance 1 lx)" "lex_ok (advance 1 lx)" and c1: "cut_at (source lx) (Suc (pos lx))" using one by simp_all
  define e where "e = command_loop (advance 1 lx) command_scan_start"
  have rb: "reaches (advance 1 lx) e" unfolding e_def by (rule command_loop_reaches [OF r1(2)])
  have r: "reaches lx e" by (rule reaches_trans [OF r1(1) rb])
  have gt: "pos lx < pos e" using reaches_sel(10) [OF rb] by simp
  have p: "parse_command lx = finish_command_token (pos lx) (Suc (pos lx)) e" by (simp add: parse_command_def e_def)
  note ok = reaches_ok [OF assms(1) r]
  show ?thesis
  proof (cases "current_byte e = Some RBRACKET")
    case True
    let ?t = "with_content_offset Cmd (span_new (pos lx) (if pos e = pos lx + 1 then pos e + 1 else pos e)) 1"
    have "placed (source lx) (pos lx) ?t (Suc (pos e))"
      using gt c1 by (intro placed_closer [OF assms(1) r True]) (auto simp: with_content_offset_def token_gaps_def)
    moreover have "reaches lx (advance 1 e)" by (rule reaches_closer [OF assms(1) r True]) simp
    ultimately show ?thesis using True gt
      by (simp add: p finish_command_token_def Let_def no_ghost [OF ok] emitted_def settles_reaches)
  next
    case False
    have "emitted lx (and_then_token (warn_or_error m e) (\<lambda>_. with_content_offset Cmd (span_new (pos lx) (pos e)) 1))" for m
      using gt c1 reaches_sel(11) [OF r]
      by (intro emitted_checked [OF settles_reaches [OF r] reaches_sel(5) [OF r] checked_warn [OF ok]])
        (auto simp: placed_def with_content_offset_def)
    with False show ?thesis by (simp add: p finish_command_token_def Let_def no_ghost [OF ok])
  qed
qed

lemma parse_brace_emitted:
  assumes "lex_ok lx" "current_char lx = Some (char_code LBRACE)"
  shows "emitted lx (parse_brace lx)"
proof -
  note one = reaches_first [OF assms]
  have r1: "reaches lx (advance 1 lx)" "lex_ok (advance 1 lx)" and c1: "cut_at (source lx) (Suc (pos lx))" using one by simp_all
  obtain level e where e: "brace_loop 1 (advance 1 lx) = (level, e)" by fastforce
  have rb: "reaches (advance 1 lx) e" using brace_loop_reaches [OF r1(2), of 1] unfolding e by simp
  have r: "reaches lx e" by (rule reaches_trans [OF r1(1) rb])
  have gt: "pos lx < pos e" using reaches_sel(10) [OF rb] by simp
  have p: "parse_brace lx = and_then_token (if current_byte e = Some RBRACE then after_close_brace (advance 1 e) else warn_or_error ''missing close-brace'' e)
      (\<lambda>_. with_content_offset Str (span_new (pos lx) (if pos e = pos lx + 1 \<and> current_byte e = Some RBRACE then pos e + 1 else pos e)) 1)"
    unfolding parse_brace_def Let_def e prod.case by (rule refl)
  note ok = reaches_ok [OF assms(1) r]
  show ?thesis
  proof (cases "current_byte e = Some RBRACE")
    case True
    let ?t = "with_content_offset Str (span_new (pos lx) (if pos e = pos lx + 1 then pos e + 1 else pos e)) 1"
    have pl: "placed (source lx) (pos lx) ?t (Suc (pos e))"
      using gt c1 by (intro placed_closer [OF assms(1) r True]) (auto simp: with_content_offset_def token_gaps_def)
    have r2: "reaches lx (advance 1 e)" by (rule reaches_closer [OF assms(1) r True]) simp
    have "emitted lx (and_then_token (after_close_brace (advance 1 e)) (\<lambda>_. ?t))"
      using gt pl by (intro emitted_checked [OF settles_reaches [OF r2] reaches_sel(5) [OF r2]
            checked_after_close_brace [OF reaches_ok [OF assms(1) r2]]]) simp_all
    with True show ?thesis by (simp add: p)
  next
    case False
    have "emitted lx (and_then_token (warn_or_error m e) (\<lambda>_. with_content_offset Str (span_new (pos lx) (pos e)) 1))" for m
      using gt c1 reaches_sel(11) [OF r]
      by (intro emitted_checked [OF settles_reaches [OF r] reaches_sel(5) [OF r] checked_warn [OF ok]])
        (auto simp: placed_def with_content_offset_def)
    with False show ?thesis by (simp add: p)
  qed
qed

lemma parse_brace_or_expand_emitted:
  assumes "lex_ok lx" "current_char lx = Some (char_code LBRACE)"
  shows "emitted lx (parse_brace_or_expand lx)"
proof (cases "peek_byte lx 1 = Some (CHR ''*'') \<and> peek_byte lx 2 = Some RBRACE")
  case True
  let ?p = "pos lx" and ?s = "source lx"
  have b: "byte_at ?s ?p = Some LBRACE" using assms by (simp flip: current_char_is_byte)
  have l: "Suc (Suc ?p) < length ?s" "?s ! Suc (Suc ?p) = RBRACE" "?s ! Suc ?p = CHR ''*''" "?s ! ?p = LBRACE"
    using True b by (auto simp: peek_byte_def dest!: byte_at_SomeD)
  have "subslice ?p (Suc (Suc (Suc ?p))) ?s = [LBRACE, CHR ''*'', RBRACE]"
    using l by (simp add: subslice_Suc)
  then have "joins ?s (token_new Expand (span_empty ?p)) (?p + 3)"
    by (simp add: joins_def token_gaps_def token_new_def numeral_3_eq_3)
  moreover have c: "cut_at ?s (?p + 3)"
    using cut_after [of ?s "Suc (Suc ?p)"] l assms(1) by (simp add: lex_ok_def numeral_3_eq_3)
  ultimately have "emitted lx (Inr (fst (parse_expand lx)), snd (parse_expand lx))"
    using assms(1) settles_reaches [OF reaches_advance [OF c]]
    by (simp add: emitted_def parse_expand_def placed_def token_new_def lex_ok_def)
  then have x: "emitted lx (case parse_expand lx of (t, e) \<Rightarrow> (Inr t, e))" by (simp add: parse_expand_def)
  show ?thesis unfolding parse_brace_or_expand_def by (intro emitted_if x parse_brace_emitted assms)
next
  case False
  then show ?thesis using parse_brace_emitted [OF assms] by (auto simp: parse_brace_or_expand_def)
qed

lemma parse_quoted_emitted:
  assumes "lex_ok lx" "current_char lx = Some ch" "if opening then ch = char_code DQUOTE else ch \<noteq> char_code DOLLAR \<and> ch \<noteq> char_code LBRACKET"
  shows "emitted lx (parse_quoted opening lx)"
proof -
  let ?l1 = "if opening then (advance 1 lx)\<lparr>in_quote := True\<rparr> else lx"
  have q1: "settles lx ?l1 \<and> pos ?l1 = (if opening then Suc (pos lx) else pos lx) \<and> pending_sep ?l1 = pending_sep lx \<and> source ?l1 = source lx"
  proof (cases "opening")
    case True
    with assms(2,3) reaches_first [OF assms(1), of "char_code DQUOTE"] have "reaches lx (advance 1 lx)" by simp
    then have "settles lx ((advance 1 lx)\<lparr>in_quote := True\<rparr>)"
      using reaches_sel(11) [of lx "advance 1 lx"] by (simp add: settles_def)
    with True show ?thesis by simp
  qed (use settles_reaches [OF reaches_refl [OF assms(1)]] in simp)
  then have s1: "settles lx ?l1" and p1: "pos ?l1 = (if opening then Suc (pos lx) else pos lx)"
    and n1: "pending_sep ?l1 = pending_sep lx" and src: "source ?l1 = source lx" by blast+
  note ok1 = settles_ok [OF assms(1) s1]
  obtain closed l2 where l2: "quoted_loop ?l1 = (closed, l2)" by fastforce
  have stop: "stops_quoted ?l1 (closed, l2)" using quoted_loop_stops [OF ok1] by (simp add: l2)
  then have r2: "reaches ?l1 l2" by (simp add: stops_quoted_def)
  have s2: "settles lx l2" by (rule settles_settles [OF s1 n1 settles_reaches [OF r2]])
  have n2: "pending_sep l2 = pending_sep lx" and src2: "source l2 = source lx"
    using reaches_sel(1,5) [OF r2] n1 src by simp_all
  note ok2 = settles_ok [OF assms(1) s2]
  have le: "pos ?l1 \<le> pos l2" and cut2: "cut_at (source lx) (pos l2)"
    using reaches_sel(10,11) [OF r2] src by simp_all
  have v: "utf8_valid (source lx)" using assms(1) by (simp add: lex_ok_def)
  let ?off = "if \<not> opening \<and> pos l2 = pos ?l1 \<and> closed then 1 else if opening then 1 else 0 :: nat"
  let ?upto = "if pos l2 = pos ?l1 \<and> (closed \<or> current_char l2 \<noteq> None) then pos l2 + 1 else pos l2"
  let ?t = "with_content_offset Esc (span_new (pos lx) ?upto) ?off"
  let ?checked = "if closed then after_close_quote ((advance 1 l2)\<lparr>in_quote := False\<rparr>)
     else if current_char l2 = None then warn_or_error (''missing '' @ [DQUOTE]) l2 else (Inr (), l2)"
  have pq: "parse_quoted opening lx = and_then_token ?checked (\<lambda>_. ?t)"
    unfolding parse_quoted_def Let_def l2 prod.case by (rule refl)
  have c0: "cut_at (source lx) (pos ?l1)" using s1 by (simp add: settles_def)
  show ?thesis
  proof (cases closed)
    case True
    have b: "byte_at (source lx) (pos l2) = Some DQUOTE" using stop True src by (simp add: stops_quoted_def)
    let ?l3 = "(advance 1 l2)\<lparr>in_quote := False\<rparr>"
    have c3: "cut_at (source lx) (Suc (pos l2))" using b v by (intro cut_after) (auto dest: byte_at_SomeD)
    have s3: "settles lx ?l3" using s2 c3 n2 by (simp add: settles_def)
    have gt: "pos lx < pos ?l3" using le p1 by (simp split: if_splits)
    have quote: "joins (source lx) ?t (Suc (pos l2))"
      using True b joins_closer [of "source lx" ?t DQUOTE] by (auto simp: with_content_offset_def token_gaps_def)
    have "placed (source lx) (pos lx) ?t (Suc (pos l2))"
      using True le p1 cut2 c3 c0 quote by (cases "opening") (auto simp: placed_def with_content_offset_def)
    then have "emitted lx (and_then_token (after_close_quote ?l3) (\<lambda>_. ?t))"
      using gt n2 by (intro emitted_checked [OF s3 _ checked_after_close_quote [OF settles_ok [OF assms(1) s3]]]) simp_all
    with True show ?thesis unfolding pq by simp
  next
    case False
    have at: "pos l2 = length (source lx) \<or> byte_at (source lx) (pos l2) \<in> {Some DOLLAR, Some LBRACKET}"
      using stop False src by (simp add: stops_quoted_def)
    have gt: "pos lx < pos l2"
    proof (rule ccontr)
      assume "\<not> pos lx < pos l2"
      with le p1 have o: "\<not> opening" "pos l2 = pos lx" by (simp_all split: if_splits)
      with at current_char_Some(1) [OF assms(1,2)] have "byte_at (source lx) (pos lx) \<in> {Some DOLLAR, Some LBRACKET}" by auto
      with assms o(1) current_char_is_byte [OF assms(1), of DOLLAR] current_char_is_byte [OF assms(1), of LBRACKET]
      show False by auto
    qed
    show ?thesis
    proof (cases "current_char l2")
      case None
      have "placed (source lx) (pos lx) ?t (pos l2)"
        using False None le p1 cut2 c0 by (cases "opening") (auto simp: placed_def with_content_offset_def)
      then have "emitted lx (and_then_token (warn_or_error m l2) (\<lambda>_. ?t))" for m
        using gt by (intro emitted_checked [OF s2 n2 checked_warn [OF ok2]]) simp_all
      with False None show ?thesis unfolding pq by simp
    next
      case (Some c2)
      have "pos l2 < length (source lx)" using current_char_Some(1) [OF ok2 Some] src2 by simp
      with at have b: "byte_at (source lx) (pos l2) \<in> {Some DOLLAR, Some LBRACKET}" by auto
      then have c3: "cut_at (source lx) (Suc (pos l2))" using v by (intro cut_after) (auto dest: byte_at_SomeD)
      have stopped: "joins (source lx) ?t (pos l2)"
      proof (cases "pos l2 = pos ?l1")
        case True
        with gt p1 have o: "opening" "pos l2 = Suc (pos lx)" by (simp_all split: if_splits)
        with assms have "byte_at (source lx) (pos lx) = Some DQUOTE" by (simp flip: current_char_is_byte)
        with o b Some show ?thesis by (simp add: joins_def overhangs_def with_content_offset_def)
      qed (simp add: with_content_offset_def)
      have "placed (source lx) (pos lx) ?t (pos l2)"
        using False Some le gt p1 cut2 c3 c0 stopped by (cases "opening") (auto simp: placed_def with_content_offset_def)
      then have "emitted lx (and_then_token (Inr (), l2) (\<lambda>_. ?t))"
        using gt by (intro emitted_checked [OF s2 n2 checked_none [OF ok2]]) simp_all
      with False Some show ?thesis unfolding pq by simp
    qed
  qed
qed

lemma dispatch_emitted:
  assumes "lex_ok lx" "current_char lx = Some ch"
  shows "emitted lx (dispatch ch lx)"
  unfolding dispatch_def
  by (intro emitted_if parse_var_emitted parse_command_emitted parse_quoted_emitted [OF assms] parse_sep_emitted [OF assms]
      parse_brace_line_continuation_emitted parse_eol_emitted [OF assms] parse_comment_emitted parse_brace_or_expand_emitted
      parse_esc_emitted [OF assms] assms(1))
    (use assms(2) in auto)

section \<open>The token stream\<close>

text \<open>What holds between two calls of \<open>next\<close>.\<close>

definition between :: "lexer \<Rightarrow> bool" where
  "between lx \<longleftrightarrow> lex_ok lx \<and> \<not> fused lx \<and>
     (pending_sep lx = None \<or> pending_sep lx = Some (token_new Sep (span_empty (pos lx))))"

definition stream_measure :: "lexer \<Rightarrow> nat" where
  "stream_measure lx = 4 * (length (source lx) - pos lx) + (if pending_sep lx = None then 0 else 2)
     + (if last_kind lx = Eol then 0 else 1)"

lemma placed_empty: "lex_ok lx \<Longrightarrow> k \<noteq> Expand \<Longrightarrow> placed (source lx) (pos lx) (token_new k (span_empty (pos lx))) (pos lx)"
  by (simp add: placed_def token_new_def lex_ok_def)

lemma placed_quoted [simp]: "placed src p (t\<lparr>quoted := q\<rparr>) e = placed src p t e"
  by (simp add: placed_def joins_def token_gaps_def overhangs_def split: token_type.split)

lemma placed_start: "placed src p t q \<Longrightarrow> span_start (span_of t) = p"
  by (simp add: placed_def)

lemma next_cases:
  assumes "between lx"
  obtains (finished) ly where "lexer_next lx = Some (None, ly)" "pos lx = length (source lx)" "last_kind lx = Eol" "warnings ly = warnings lx"
  | (failed) e ly where "lexer_next lx = Some (Some (Inl e), ly)" "strict_quoting (config lx)"
  | (produced) t ly where "lexer_next lx = Some (Some (Inr t), ly)" "between ly" "source ly = source lx" "config ly = config lx"
      "pos lx \<le> pos ly" "placed (source lx) (pos lx) t (pos ly)" "last_kind ly = kind t" "stream_measure ly < stream_measure lx"
      "\<exists>m. warnings ly = warnings lx @ m"
proof -
  have ok: "lex_ok lx" and f: "\<not> fused lx" using assms by (simp_all add: between_def)
  have le: "pos lx \<le> length (source lx)" using ok by (simp add: lex_ok_def cut_at_def)
  show ?thesis
  proof (cases "pending_sep lx")
    case (Some t)
    with assms have t: "t = token_new Sep (span_empty (pos lx))" by (simp add: between_def)
    show ?thesis
    proof (rule produced)
      show "lexer_next lx = Some (Some (Inr t), lx\<lparr>pending_sep := None, last_kind := kind t\<rparr>)"
        using f Some by (simp add: lexer_next_def)
      show "between (lx\<lparr>pending_sep := None, last_kind := kind t\<rparr>)" using assms by (simp add: between_def lex_ok_def)
      show "stream_measure (lx\<lparr>pending_sep := None, last_kind := kind t\<rparr>) < stream_measure lx"
        using Some by (simp add: stream_measure_def)
    qed (use placed_empty [OF ok] t in simp_all)
  next
    case n: None
    show ?thesis
    proof (cases "pos lx = length (source lx)")
      case eof: True
      show ?thesis
      proof (cases "last_kind lx = Eol")
        case True
        show ?thesis by (rule finished [of "lx\<lparr>fused := True\<rparr>"]) (use f n eof True in \<open>auto simp: lexer_next_def\<close>)
      next
        case False
        let ?t = "token_new Eol (span_empty (pos lx))"
        show ?thesis
        proof (rule produced)
          show "lexer_next lx = Some (Some (Inr ?t), lx\<lparr>last_kind := Eol\<rparr>)"
            using f n eof False by (simp add: lexer_next_def)
          show "between (lx\<lparr>last_kind := Eol\<rparr>)" using assms by (simp add: between_def lex_ok_def)
          show "stream_measure (lx\<lparr>last_kind := Eol\<rparr>) < stream_measure lx" using False by (simp add: stream_measure_def)
        qed (use placed_empty [OF ok] in \<open>simp_all add: token_new_def\<close>)
      qed
    next
      case inside: False
      then obtain ch where ch: "current_char lx = Some ch" using current_char_None [OF ok] by auto
      obtain r ly where d: "dispatch ch lx = (r, ly)" by fastforce
      note em = dispatch_emitted [OF ok ch, unfolded d]
      show ?thesis
      proof (cases r)
        case (Inl e)
        show ?thesis
          by (rule failed [of e "ly\<lparr>fused := True\<rparr>"]) (use f n inside le ch d Inl em in \<open>simp_all add: lexer_next_def emitted_def\<close>)
      next
        case (Inr t)
        from em Inr have s: "settles lx ly" and gt: "pos lx < pos ly" and pl: "placed (source lx) (pos lx) t (pos ly)"
          by (simp_all add: emitted_def)
        define lz where "lz = snd (tag_token t ly)"
        have lz: "pos lz = pos ly" "source lz = source ly" "ghosts lz = ghosts ly" "config lz = config ly" "fused lz = fused ly"
          "pending_sep lz = pending_sep ly" "last_kind lz = kind t" "warnings lz = warnings ly" by (simp_all add: lz_def tag_token_def)
        show ?thesis
        proof (rule produced)
          show "lexer_next lx = Some (Some (Inr (t\<lparr>quoted := in_quote ly\<rparr>)), lz)"
            using f n inside le ch d Inr by (simp add: lexer_next_def tag_token_def lz_def)
          show "between lz" using s f n ok settles_ok [OF ok s] lz by (simp add: between_def settles_def lex_ok_def)
          have "pos ly \<le> length (source lx)" using s by (simp add: settles_def cut_at_def)
          then have "4 * (length (source lx) - pos ly) + 4 \<le> 4 * (length (source lx) - pos lx)" using gt by simp
          moreover have "stream_measure lz \<le> 4 * (length (source lx) - pos ly) + 3"
            using s lz by (simp add: stream_measure_def settles_def)
          moreover have "4 * (length (source lx) - pos lx) \<le> stream_measure lx" by (simp add: stream_measure_def)
          ultimately show "stream_measure lz < stream_measure lx" by linarith
        qed (use s gt pl lz in \<open>simp_all add: settles_def\<close>)
      qed
    qed
  qed
qed

definition next_start :: "string \<Rightarrow> token list \<Rightarrow> nat" where
  "next_start src ts = (case ts of [] \<Rightarrow> length src | t # _ \<Rightarrow> span_start (span_of t))"

text \<open>Each token starts where the one before it left off, and the last leaves off at the end of the text.\<close>

fun tiles :: "string \<Rightarrow> token list \<Rightarrow> bool" where
  "tiles src [] \<longleftrightarrow> True"
| "tiles src (t # ts) \<longleftrightarrow>
     span_start (span_of t) \<le> next_start src ts \<and> cut_at src (span_start (span_of t)) \<and>
     placed src (span_start (span_of t)) t (next_start src ts) \<and> tiles src ts"

definition stream_result :: "lexer \<Rightarrow> string + token list \<Rightarrow> bool" where
  "stream_result lx r =
     (case r of
        Inl _ \<Rightarrow> strict_quoting (config lx)
      | Inr ts \<Rightarrow> tiles (source lx) ts \<and> next_start (source lx) ts = pos lx \<and>
                 (if ts = [] then last_kind lx else kind (last ts)) = Eol)"

lemma token_loop_returns:
  assumes "between lx"
  shows "\<exists>r ly. token_loop lx = Some (r, ly) \<and> stream_result lx r"
  using assms
proof (induction "stream_measure lx" arbitrary: lx rule: less_induct)
  case less
  note step = token_loop.simps [of lx]
  from less.prems show ?case
  proof (cases rule: next_cases)
    case (finished ly)
    then show ?thesis by (simp add: step stream_result_def next_start_def)
  next
    case (failed e ly)
    then show ?thesis by (simp add: step stream_result_def)
  next
    case (produced t ly)
    from less.hyps [OF produced(8) produced(2)] obtain r lz where
      r: "token_loop ly = Some (r, lz)" "stream_result ly r" by blast
    have "token_loop lx = Some (map_sum id ((#) t) r, lz)" using produced(1) r(1) by (simp add: step)
    moreover have "stream_result lx (map_sum id ((#) t) r)"
    proof (cases r)
      case (Inl e)
      with r(2) produced(4) show ?thesis by (simp add: stream_result_def)
    next
      case (Inr ts)
      have ts: "tiles (source lx) ts" "next_start (source lx) ts = pos ly" "(if ts = [] then kind t else kind (last ts)) = Eol"
        using r(2) Inr produced(3,7) by (simp_all add: stream_result_def split: if_splits)
      have "cut_at (source lx) (pos lx)" using less.prems by (simp add: between_def lex_ok_def)
      with ts produced(5) produced(6) placed_start [OF produced(6)] show ?thesis
        by (simp add: Inr stream_result_def next_start_def [of _ "t # ts"] split: if_splits)
    qed
    ultimately show ?thesis by blast
  qed
qed

lemma bom_cut:
  assumes "utf8_valid src" "take (length UTF8_BOM) src = UTF8_BOM"
  shows "cut_at src (length UTF8_BOM)"
proof -
  have s: "src = utf8_encode 0xFEFF @ drop (length UTF8_BOM) src"
    using assms(2) append_take_drop_id [of "length UTF8_BOM" src] by (simp add: UTF8_BOM_def)
  have "utf8_valid (drop (length UTF8_BOM) src)"
    using assms(1) utf8_valid_encode_append [of 0xFEFF] by (subst (asm) s) (simp add: is_scalar_def)
  moreover have "length UTF8_BOM \<le> length src" using arg_cong [OF assms(2), of length] by simp
  ultimately show ?thesis by (simp add: cut_at_def boundary_of_valid_drop)
qed

lemma fresh_between:
  assumes "utf8_valid src" "lexer_with_config src c = Some lx"
  shows "between lx" "between (as_quoted_body lx)" "source lx = src" "config lx = c"
  using assms bom_cut [OF assms(1)]
  by (auto simp: lexer_with_config_def between_def lex_ok_def as_quoted_body_def split: option.splits if_splits)

text \<open>The text of a token is always there.\<close>

lemma str_get_cut: "cut_at s i \<Longrightarrow> cut_at s j \<Longrightarrow> i \<le> j \<Longrightarrow> str_get s i j = Some (subslice i j s)"
  by (simp add: str_get_def cut_at_def)

lemma cut_subslice: "cut_at s (i + k) \<Longrightarrow> i + k \<le> j \<Longrightarrow> j \<le> length s \<Longrightarrow> cut_at (subslice i j s) k"
  by (auto simp: cut_at_def is_char_boundary_def subslice_def)

lemma placed_text:
  assumes "cut_at src p" "placed src p t q"
  shows "token_text src t \<noteq> None"
proof -
  let ?e = "span_end (span_of t)"
  have a: "span_start (span_of t) = p" "p + content_offset t \<le> ?e" "cut_at src (p + content_offset t)" "cut_at src ?e"
    using assms(2) by (simp_all add: placed_def)
  have e: "?e \<le> length src" using a(4) by (simp add: cut_at_def)
  have "str_get src p ?e = Some (subslice p ?e src)" using a assms(1) by (intro str_get_cut) simp_all
  moreover have "str_get (subslice p ?e src) (content_offset t) (length (subslice p ?e src)) \<noteq> None"
    using str_get_cut [OF cut_subslice [OF a(3,2) e] cut_length] a(2) e by simp
  ultimately show ?thesis using a(1) by (auto simp: token_text_def)
qed

lemma tiles_text: "tiles src ts \<Longrightarrow> t \<in> set ts \<Longrightarrow> token_text src t \<noteq> None"
  by (induction ts) (auto dest: placed_text)

section \<open>Properties\<close>

text \<open>Evaluation of the stream on a small text.\<close>

lemma is_horizontal_whitespace_eq:
  "is_horizontal_whitespace ch seps \<longleftrightarrow> ch \<in> {32, 9, 13, 12} \<or> ch = 11 \<and> seps = SepsTcl"
proof -
  have c: "ch < 256 \<Longrightarrow> char_of ch = c \<longleftrightarrow> ch = of_char c" for c :: char
    by (auto simp: of_char_of)
  show ?thesis
    by (cases "ch < 256") (auto simp: is_horizontal_whitespace_def is_separator_def c)
qed

lemmas lex_eval = lexer_next_def current_char_def current_byte_def ghost_at_def is_char_boundary_def first_char_ascii dispatch_def
   is_horizontal_whitespace_eq is_separator_def is_eol_char_def is_eol_byte_def is_separator_byte_def parse_esc_def esc_loop.simps len_utf8_def lift_token_def tag_token_def
   parse_sep_def byte_loop.simps parse_eol_def Let_def make_token_def token_new_def span_new_def span_empty_def advance_def
   is_newword_def parse_brace_or_expand_def peek_byte_def parse_brace_def brace_loop.simps after_close_brace_def and_then_token_def with_content_offset_def
   source_is_line_continuation_def

lemma sample_tokens:
  obtains l0 ts where "lexer_new ''a {b c}'' = Some l0" "tokenise_all l0 = Some (Inr ts)" "map kind ts = [Esc, Sep, Str, Eol]"
    "map span_of ts = [span_new 0 1, span_new 1 2, span_new 2 6, span_new 7 7]"
proof
  let ?l = "the (lexer_new ''a {b c}'')"
  let ?ts = "[\<lparr>kind = Esc, span_of = span_new 0 1, content_offset = 0, quoted = False\<rparr>,
    \<lparr>kind = Sep, span_of = span_new 1 2, content_offset = 0, quoted = False\<rparr>,
    \<lparr>kind = Str, span_of = span_new 2 6, content_offset = 1, quoted = False\<rparr>,
    \<lparr>kind = Eol, span_of = span_new 7 7, content_offset = 0, quoted = False\<rparr>]"
  show "lexer_new ''a {b c}'' = Some ?l" by (simp add: lexer_new_def lexer_with_config_def line_index_new_def)
  show "tokenise_all ?l = Some (Inr ?ts)"
    by (simp add: lexer_new_def lexer_with_config_def line_index_new_def tokenise_all_def lexer_config_default_def,
      (subst token_loop.simps, simp add: lex_eval)+)
  show "map kind ?ts = [Esc, Sep, Str, Eol]" "map span_of ?ts = [span_new 0 1, span_new 1 2, span_new 2 6, span_new 7 7]" by simp_all
qed

text \<open>
  C21. Tokenising a text of less than four gigabytes always returns, whatever the configuration and
  whether the text is read as a script or as the body of a quoted word: no loop runs on and no
  \<open>expect\<close> panics. Where quoting is not strict it returns tokens.
\<close>

theorem tokenise_returns:
  assumes "utf8_valid src" "lexer_with_config src c = Some l0" "lx \<in> {l0, as_quoted_body l0}"
  shows "\<exists>r. tokenise_all lx = Some r \<and> (\<not> strict_quoting c \<longrightarrow> (\<exists>ts. r = Inr ts))"
proof -
  have b: "between lx" "config lx = c"
    using fresh_between [OF assms(1,2)] assms(3) by (auto simp: as_quoted_body_def)
  obtain r ly where "token_loop lx = Some (r, ly)" "stream_result lx r" using token_loop_returns [OF b(1)] by blast
  then show ?thesis using b(2) by (cases r) (auto simp: tokenise_all_def stream_result_def)
qed

theorem tokenise_returns_witness:
  "\<exists>l0 ts. lexer_new ''a {b c}'' = Some l0 \<and> tokenise_all l0 = Some (Inr ts) \<and> map kind ts = [Esc, Sep, Str, Eol]"
proof -
  obtain l0 ts where l0: "lexer_new ''a {b c}'' = Some l0" and ts: "tokenise_all l0 = Some (Inr ts)" "map kind ts = [Esc, Sep, Str, Eol]"
    by (rule sample_tokens)
  have "\<exists>r. tokenise_all l0 = Some r \<and> (\<not> strict_quoting lexer_config_default \<longrightarrow> (\<exists>ts. r = Inr ts))"
    by (rule tokenise_returns [of "''a {b c}''" _ l0]) (use l0 in \<open>simp_all add: lexer_new_def\<close>)
  with l0 ts show ?thesis by (intro exI [of _ l0] exI [of _ ts]) simp
qed

lemma tokenise_result:
  assumes "utf8_valid src" "lexer_with_config src c = Some l0" "lx \<in> {l0, as_quoted_body l0}" "tokenise_all lx = Some (Inr ts)"
  shows "tiles src ts" "next_start src ts = pos l0" "ts \<noteq> [] \<Longrightarrow> kind (last ts) = Eol"
proof -
  have b: "between lx" "source lx = src" "pos lx = pos l0"
    using fresh_between [OF assms(1,2)] assms(3) by (auto simp: as_quoted_body_def)
  obtain r ly where r: "token_loop lx = Some (r, ly)" "stream_result lx r" using token_loop_returns [OF b(1)] by blast
  then have "stream_result lx (Inr ts)" using assms(4) by (simp add: tokenise_all_def)
  with b show "tiles src ts" "next_start src ts = pos l0" "ts \<noteq> [] \<Longrightarrow> kind (last ts) = Eol"
    by (simp_all add: stream_result_def)
qed

text \<open>
  C6. The tokens tile the text. The first starts where the lexer does; each starts at a character
  boundary; between the end of one and the start of the next there is nothing, or the closing delimiter
  that belongs to the token (or the \<open>{*}\<close> of an expansion); and the last, an end of line, reaches the
  end of the text. No token reaches into the next, with one exception: the opening part of a quoted
  word that holds nothing, its quote being followed by a dollar sign or an opening bracket, spans that
  one byte of the substitution as well.
\<close>

theorem tokens_tile_source:
  assumes "utf8_valid src" "lexer_with_config src c = Some l0" "lx \<in> {l0, as_quoted_body l0}" "tokenise_all lx = Some (Inr ts)"
  shows "tiles src ts \<and> next_start src ts = pos l0 \<and> (ts \<noteq> [] \<longrightarrow> kind (last ts) = Eol)"
  using tokenise_result [OF assms] by blast

theorem tokens_tile_source_witness:
  "\<exists>l0 ts. lexer_new ''a {b c}'' = Some l0 \<and> tokenise_all l0 = Some (Inr ts) \<and> map kind ts = [Esc, Sep, Str, Eol] \<and>
     map span_of ts = [span_new 0 1, span_new 1 2, span_new 2 6, span_new 7 7] \<and> tiles ''a {b c}'' ts"
proof -
  obtain l0 ts where l0: "lexer_new ''a {b c}'' = Some l0" and ts: "tokenise_all l0 = Some (Inr ts)"
    and k: "map kind ts = [Esc, Sep, Str, Eol]" "map span_of ts = [span_new 0 1, span_new 1 2, span_new 2 6, span_new 7 7]"
    by (rule sample_tokens)
  have "tiles ''a {b c}'' ts \<and> next_start ''a {b c}'' ts = pos l0 \<and> (ts \<noteq> [] \<longrightarrow> kind (last ts) = Eol)"
    by (rule tokens_tile_source [of _ lexer_config_default _ l0]) (use l0 ts in \<open>auto simp: lexer_new_def\<close>)
  with l0 ts k show ?thesis by (intro exI [of _ l0] exI [of _ ts]) simp
qed

text \<open>
  The text of every token of a stream can be sliced out of the source: both slices of
  \<open>token_text\<close> are in range and cut at character boundaries, so it never panics.
\<close>

lemma token_texts_exist:
  assumes "utf8_valid src" "lexer_with_config src c = Some l0" "lx \<in> {l0, as_quoted_body l0}" "tokenise_all lx = Some (Inr ts)"
    "t \<in> set ts"
  shows "token_text src t \<noteq> None"
  by (rule tiles_text [OF tokenise_result(1) [OF assms(1-4)] assms(5)])

end
