(* ===== verification/Lexer_Strict.thy ===== *)
theory Lexer_Strict
  imports Lexer_Stream
begin

text \<open>
  The two quoting modes of the lexer. Nothing but \<open>warn_or_error\<close> reads \<open>strict_quoting\<close>, so the lenient
  lexer follows the strict one step by step up to the first error.
\<close>

text \<open>The lenient lexer in the same place, with the warnings \<open>w\<close> so far.\<close>

definition relax :: "lex_warning list \<Rightarrow> lexer \<Rightarrow> lexer" where
  "relax w lx = lx\<lparr>config := (config lx)\<lparr>strict_quoting := False\<rparr>, warnings := w\<rparr>"

lemma relax_sel [simp]:
  "pos (relax w lx) = pos lx" "source (relax w lx) = source lx" "ghosts (relax w lx) = ghosts lx"
  "in_quote (relax w lx) = in_quote lx" "last_kind (relax w lx) = last_kind lx" "warnings (relax w lx) = w"
  "pending_sep (relax w lx) = pending_sep lx" "fused (relax w lx) = fused lx" "at_command_start (relax w lx) = at_command_start lx"
  "word_separators (config (relax w lx)) = word_separators (config lx)" "escapes (config (relax w lx)) = escapes (config lx)"
  "var_syntax (config (relax w lx)) = var_syntax (config lx)" "array_index (config (relax w lx)) = array_index (config lx)"
  "braced_var (config (relax w lx)) = braced_var (config lx)" "expand_syntax (config (relax w lx)) = expand_syntax (config lx)"
  "irules_brace_separator (config (relax w lx)) = irules_brace_separator (config lx)"
  "quote_termination (config (relax w lx)) = quote_termination (config lx)"
  "brace_line_continuation (config (relax w lx)) = brace_line_continuation (config lx)"
  "strict_quoting (config (relax w lx)) = False"
  by (simp_all add: relax_def)

lemma relax_reads [simp]:
  "ghost_at (relax w lx) k = ghost_at lx k" "current_byte (relax w lx) = current_byte lx"
  "current_char (relax w lx) = current_char lx" "peek_byte (relax w lx) k = peek_byte lx k"
  "make_token t start (relax w lx) = make_token t start lx"
  "source_backslash_escape_end (relax w lx) = source_backslash_escape_end lx"
  "source_is_line_continuation (relax w lx) = source_is_line_continuation lx"
  "newline_continues_command (relax w lx) = newline_continues_command lx" "is_newword (relax w lx) = is_newword lx"
  by (simp_all add: ghost_at_def current_byte_def current_char_def peek_byte_def make_token_def source_backslash_escape_end_def
      source_is_line_continuation_def newline_continues_command_def is_newword_def Let_def split: option.split)

lemma relax_moves [simp]:
  "advance k (relax w lx) = relax w (advance k lx)" "skip_escape (relax w lx) = relax w (skip_escape lx)"
  "(relax w lx)\<lparr>pos := p\<rparr> = relax w (lx\<lparr>pos := p\<rparr>)" "(relax w lx)\<lparr>in_quote := q\<rparr> = relax w (lx\<lparr>in_quote := q\<rparr>)"
  "(relax w lx)\<lparr>pending_sep := s\<rparr> = relax w (lx\<lparr>pending_sep := s\<rparr>)"
  "skip_jim_paren_body (relax w lx) = relax w (skip_jim_paren_body lx)"
  "skip_braced_var_name_body (relax w lx) = relax w (skip_braced_var_name_body lx)"
  "remove_ghost (relax w lx) = relax w (remove_ghost lx)"
  by (simp_all add: relax_def advance_def skip_escape_def skip_jim_paren_body_def skip_braced_var_name_body_def remove_ghost_def
      source_backslash_escape_end_def Let_def split: braced_var_end.split)

lemma relax_skip_name [simp]: "skip_braced_var_name (relax w lx) = relax w (skip_braced_var_name lx)"
  by (simp add: skip_braced_var_name_def Let_def)

text \<open>No loop looks at what differs.\<close>

lemma relax_byte_loop [simp]: "byte_loop p (relax w lx) = relax w (byte_loop p lx)"
proof (induction p lx rule: byte_loop.induct)
  case (1 p lx)
  then show ?case by (subst (1 2) byte_loop.simps) (simp split: option.split)
qed

lemma relax_comment_loop [simp]: "comment_loop (relax w lx) = relax w (comment_loop lx)"
proof (induction lx rule: comment_loop.induct)
  case (1 lx)
  then show ?case by (subst (1 2) comment_loop.simps) (simp split: option.split)
qed

lemma relax_quoted_loop [simp]: "quoted_loop (relax w lx) = apsnd (relax w) (quoted_loop lx)"
proof (induction lx rule: quoted_loop.induct)
  case (1 lx)
  then show ?case by (subst (1 2) quoted_loop.simps) (simp split: option.split)
qed

lemma relax_brace_loop [simp]: "brace_loop level (relax w lx) = apsnd (relax w) (brace_loop level lx)"
proof (induction level lx rule: brace_loop.induct)
  case (1 level lx)
  then show ?case by (subst (1 2) brace_loop.simps) (simp split: option.split)
qed

lemma relax_esc_loop [simp]: "esc_loop start (relax w lx) = apsnd (relax w) (esc_loop start lx)"
proof (induction start lx rule: esc_loop.induct)
  case (1 start lx)
  show ?case
  proof (cases "current_char lx")
    case None
    then show ?thesis by (subst (1 2) esc_loop.simps) simp
  next
    case c: (Some ch)
    let ?stop = "is_horizontal_whitespace ch (word_separators (config lx)) \<or> is_eol_char ch \<or> ch = char_code DOLLAR \<or> ch = char_code LBRACKET"
    consider "?stop \<or> ch = char_code BS \<and> source_is_line_continuation lx"
      | "\<not> ?stop" "ch = char_code BS" "\<not> source_is_line_continuation lx" "byte_at (source lx) (pos lx + 1) = None"
      | b where "\<not> ?stop" "ch = char_code BS" "\<not> source_is_line_continuation lx" "byte_at (source lx) (pos lx + 1) = Some b"
      | "\<not> ?stop" "ch \<noteq> char_code BS"
      by (cases "byte_at (source lx) (pos lx + 1)") blast+
    then show ?thesis
    proof cases
      case 1
      with c show ?thesis
        by (subst (1 2) esc_loop.simps) (auto simp: parse_backslash_newline_sep_def Let_def)
    next
      case 2
      with "1.IH"(1) [OF c _ _ 2(2-4)] c show ?thesis by (subst (1 2) esc_loop.simps) simp
    next
      case (3 b)
      show ?thesis
      proof (cases "current_char (advance 1 lx)")
        case None
        with "1.IH"(2) [OF c _ _ 3(2-4) None] c 3 show ?thesis by (subst (1 2) esc_loop.simps) simp
      next
        case (Some e)
        with "1.IH"(3) [OF c _ _ 3(2-4) Some] c 3 show ?thesis by (subst (1 2) esc_loop.simps) simp
      qed
    next
      case 4
      with "1.IH"(4) [OF c _ _ 4(2)] c show ?thesis by (subst (1 2) esc_loop.simps) simp
    qed
  qed
qed

definition relaxes :: "lex_warning list \<Rightarrow> (lexer \<times> command_scan) option \<Rightarrow> (lexer \<times> command_scan) option \<Rightarrow> bool" where
  "relaxes w a a' \<longleftrightarrow> a' = map_option (apfst (relax w)) a"

lemma relaxes_if: "(c \<Longrightarrow> relaxes w a a') \<Longrightarrow> (\<not> c \<Longrightarrow> relaxes w b b') \<Longrightarrow> relaxes w (if c then a else b) (if c then a' else b')"
  by simp

lemma relax_command_char: "command_char ch (relax w lx) s = map_option (apfst (relax w)) (command_char ch lx s)"
proof -
  have "relaxes w (command_char ch lx s) (command_char ch (relax w lx) s)"
    unfolding command_char_def Let_def relax_reads
    by (intro relaxes_if) (simp_all add: relaxes_def advance_command_comment_def)
  then show ?thesis by (simp add: relaxes_def)
qed

lemma relax_command_loop [simp]: "command_loop (relax w lx) s = relax w (command_loop lx s)"
proof (induction lx s rule: command_loop.induct)
  case (1 lx s)
  show ?case
  proof (cases "current_char lx")
    case None
    then show ?thesis by (subst (1 2) command_loop.simps) simp
  next
    case c: (Some ch)
    show ?thesis
    proof (cases "ghost_at lx (pos lx) = Some RBRACKET")
      case True
      with "1.IH"(1) [OF c True] c show ?thesis by (subst (1 2) command_loop.simps) simp
    next
      case g: False
      show ?thesis
      proof (cases "command_char ch lx s")
        case None
        with c g show ?thesis by (subst (1 2) command_loop.simps) (simp add: relax_command_char)
      next
        case (Some r)
        obtain ly s' where r: "r = (ly, s')" by fastforce
        from "1.IH"(2) [OF c g Some r [symmetric]] c g Some r show ?thesis
          by (subst (1 2) command_loop.simps) (simp add: relax_command_char)
      qed
    qed
  qed
qed

text \<open>
  How the lenient lexer follows the strict one: to the same token in the same place, or past a
  warning that is the error the strict one stopped with.
\<close>

definition warned :: "lex_warning list \<Rightarrow> string \<Rightarrow> lex_warning list \<Rightarrow> bool" where
  "warned w e ws \<longleftrightarrow> (\<exists>a m. ws = w @ a # m \<and> warning_message a = e)"

definition follows :: "lex_warning list \<Rightarrow> (string + 'a) \<times> lexer \<Rightarrow> (string + 'a) \<times> lexer \<Rightarrow> bool" where
  "follows w r r' = (case r of (Inr t, ly) \<Rightarrow> r' = (Inr t, relax w ly) | (Inl e, ly) \<Rightarrow> warned w e (warnings (snd r')))"

lemma follows_if: "(c \<Longrightarrow> follows w a a') \<Longrightarrow> (\<not> c \<Longrightarrow> follows w b b') \<Longrightarrow> follows w (if c then a else b) (if c then a' else b')"
  by simp

lemma follows_same [simp]: "follows w (Inr t, lx) (Inr t, relax w lx)"
  by (simp add: follows_def)

lemma follows_lift: "f (relax w lx) = apsnd (relax w) (f lx) \<Longrightarrow> follows w (lift_token (f lx)) (lift_token (f (relax w lx)))"
  by (cases "f lx") (simp add: follows_def lift_token_def)

lemma follows_warn: "strict_quoting (config lx) \<Longrightarrow> follows w (warn_or_error m lx) (warn_or_error m (relax w lx))"
  by (simp add: follows_def warn_or_error_def warned_def)

lemma follows_then:
  assumes "follows w r r'" "\<And>lx. f' (relax w lx) = f lx"
  shows "follows w (and_then_token r f) (and_then_token r' f')"
  using assms by (cases r; cases "fst r"; cases r'; cases "fst r'") (auto simp: follows_def and_then_token_def)

lemma follows_after_close_brace:
  "strict_quoting (config lx) \<Longrightarrow> follows w (after_close_brace lx) (after_close_brace (relax w lx))"
  by (simp add: after_close_brace_def follows_warn split: option.split)

lemma follows_after_close_quote:
  "strict_quoting (config lx) \<Longrightarrow> follows w (after_close_quote lx) (after_close_quote (relax w lx))"
  by (simp add: after_close_quote_def Let_def follows_warn split: option.split)

lemma config_skips [simp]:
  "config (skip_jim_paren_body lx) = config lx" "config (skip_braced_var_name_body lx) = config lx"
  by (simp_all add: skip_jim_paren_body_def skip_braced_var_name_body_def)

lemma follows_delimited_var:
  assumes "strict_quoting (config lx)" "\<And>l. skip (relax w l) = relax w (skip l)" "\<And>l. config (skip l) = config l"
  shows "follows w (delimited_var d k closer m skip lx) (delimited_var d k closer m skip (relax w lx))"
  using assms(1,3) unfolding delimited_var_def Let_def assms(2) relax_reads relax_sel relax_moves
  by (intro follows_if follows_same follows_then follows_warn) simp_all

lemma follows_scan_array_index_body:
  assumes "strict_quoting (config lx)"
  shows "follows w (scan_array_index_body lx) (scan_array_index_body (relax w lx))"
  using assms by (auto simp: scan_array_index_body_def Let_def follows_def warned_def warn_or_error_def relax_def
      split: option.split array_index_end.split)

lemma follows_parse_var:
  assumes "strict_quoting (config lx)"
  shows "follows w (parse_var lx) (parse_var (relax w lx))"
  using assms unfolding parse_var_def Let_def relax_reads relax_sel relax_moves
  by (intro follows_if follows_same follows_then follows_delimited_var follows_scan_array_index_body follows_warn) simp_all

lemma follows_parse_command:
  assumes "lex_ok lx" "current_char lx = Some (char_code LBRACKET)" "strict_quoting (config lx)"
  shows "follows w (parse_command lx) (parse_command (relax w lx))"
proof -
  have "lex_ok (advance 1 lx)" using reaches_first [OF assms(1,2)] by simp
  from reaches_sel(3) [OF command_loop_reaches [OF this, of command_scan_start]] assms(3)
  have "strict_quoting (config (command_loop (advance 1 lx) command_scan_start))" by simp
  then show ?thesis
    unfolding parse_command_def finish_command_token_def Let_def relax_reads relax_sel relax_moves relax_command_loop
    by (intro follows_if follows_same follows_then follows_warn) simp_all
qed

lemma follows_parse_brace:
  assumes "lex_ok lx" "current_char lx = Some (char_code LBRACE)" "strict_quoting (config lx)"
  shows "follows w (parse_brace lx) (parse_brace (relax w lx))"
proof -
  obtain level e where e: "brace_loop 1 (advance 1 lx) = (level, e)" by fastforce
  have "lex_ok (advance 1 lx)" using reaches_first [OF assms(1,2)] by simp
  from reaches_sel(3) [OF brace_loop_reaches [OF this, of 1]] assms(3) have "strict_quoting (config e)"
    unfolding e by simp
  then show ?thesis
    unfolding parse_brace_def Let_def relax_reads relax_sel relax_moves relax_brace_loop e apsnd_conv prod.case
    by (intro follows_if follows_same follows_then follows_warn follows_after_close_brace) simp_all
qed

lemma follows_parse_quoted:
  assumes "lex_ok lx" "current_char lx = Some ch" "if opening then ch = char_code DQUOTE else True" "strict_quoting (config lx)"
  shows "follows w (parse_quoted opening lx) (parse_quoted opening (relax w lx))"
proof -
  let ?l1 = "if opening then (advance 1 lx)\<lparr>in_quote := True\<rparr> else lx"
  have ok: "lex_ok ?l1" using assms(1-3) reaches_first [of lx ch] by (auto simp: lex_ok_def)
  have c: "config ?l1 = config lx" by simp
  obtain closed l2 where l2: "quoted_loop ?l1 = (closed, l2)" by fastforce
  have "reaches ?l1 l2" using quoted_loop_stops [OF ok] by (simp add: l2 stops_quoted_def)
  from reaches_sel(3) [OF this] c assms(4) have s: "strict_quoting (config l2)" by simp
  have r: "(if opening then relax w ((advance 1 lx)\<lparr>in_quote := True\<rparr>) else relax w lx) = relax w ?l1" by simp
  show ?thesis
    unfolding parse_quoted_def Let_def relax_moves r relax_quoted_loop l2 apsnd_conv prod.case relax_reads relax_sel relax_moves
    using s by (intro follows_then follows_if follows_same follows_warn follows_after_close_quote) simp_all
qed

lemma follows_dispatch:
  assumes "lex_ok lx" "current_char lx = Some ch" "strict_quoting (config lx)"
  shows "follows w (dispatch ch lx) (dispatch ch (relax w lx))"
  unfolding dispatch_def parse_brace_or_expand_def relax_reads relax_sel
  by (intro follows_if follows_parse_var follows_parse_command follows_parse_quoted [OF assms(1,2)] follows_lift follows_parse_brace assms(1,3))
    (use assms(2) in \<open>auto simp: parse_sep_def parse_eol_def parse_brace_line_continuation_sep_def parse_comment_def parse_esc_def
        parse_expand_def Let_def\<close>)

lemma relax_tag: "tag_token t (relax w lx) = apsnd (relax w) (tag_token t lx)"
  by (simp add: tag_token_def relax_def split: token_type.split)

lemma next_follows:
  assumes "between lx" "strict_quoting (config lx)" "lexer_next lx = Some (r, ly)"
  shows "case r of
      Some (Inl e) \<Rightarrow> \<exists>t lz. lexer_next (relax w lx) = Some (Some (Inr t), lz) \<and> between lz \<and> warned w e (warnings lz)
    | _ \<Rightarrow> lexer_next (relax w lx) = Some (r, relax w ly)"
proof -
  have ok: "lex_ok lx" and f: "\<not> fused lx" using assms by (simp_all add: between_def)
  have b: "between (relax w lx)" using assms(1) by (simp add: between_def lex_ok_def)
  have upd: "(relax w l)\<lparr>fused := x\<rparr> = relax w (l\<lparr>fused := x\<rparr>)" "(relax w l)\<lparr>last_kind := k\<rparr> = relax w (l\<lparr>last_kind := k\<rparr>)" for l x k
    by (simp_all add: relax_def)
  show ?thesis
  proof (cases "pending_sep lx = None \<and> pos lx < length (source lx)")
    case False
    then show ?thesis using assms(3) f
      by (cases "pending_sep lx"; cases "last_kind lx = Eol") (auto simp: lexer_next_def upd)
  next
    case True
    then obtain ch where ch: "current_char lx = Some ch" using current_char_None [OF ok] by auto
    obtain d l1 where d: "dispatch ch lx = (d, l1)" by fastforce
    obtain d' l1' where d': "dispatch ch (relax w lx) = (d', l1')" by fastforce
    have fo: "follows w (d, l1) (d', l1')" using follows_dispatch [OF ok ch assms(2), of w] by (simp add: d d')
    have n: "lexer_next lx = Some (case d of Inr t \<Rightarrow> tag_token t l1 | Inl e \<Rightarrow> (Some (Inl e), l1\<lparr>fused := True\<rparr>))"
      using True f ch d by (simp add: lexer_next_def split: sum.split)
    have n': "lexer_next (relax w lx) = Some (case d' of Inr t \<Rightarrow> tag_token t l1' | Inl e \<Rightarrow> (Some (Inl e), l1'\<lparr>fused := True\<rparr>))"
      using True f ch d' by (simp add: lexer_next_def split: sum.split)
    show ?thesis
    proof (cases d)
      case (Inr t)
      with n assms(3) have g: "tag_token t l1 = (r, ly)" by simp
      then have "r = Some (Inr (t\<lparr>quoted := in_quote l1\<rparr>))" by (simp add: tag_token_def)
      with Inr fo n' g show ?thesis by (simp add: follows_def relax_tag)
    next
      case (Inl e)
      have r: "r = Some (Inl e)" using Inl n assms(3) by simp
      have w: "warned w e (warnings l1')" using fo Inl by (simp add: follows_def)
      from b show ?thesis
      proof (cases rule: next_cases)
        case (failed e' lz)
        then show ?thesis by simp
      next
        case (finished lz)
        with True show ?thesis by simp
      next
        case (produced t lz)
        have "warnings lz = warnings l1'" using produced(1) n' by (cases d') (auto simp: tag_token_def)
        with produced w r show ?thesis by auto
      qed
    qed
  qed
qed

lemma token_loop_warns:
  assumes "between lx" "token_loop lx = Some (r, ly)" "\<not> strict_quoting (config lx)"
  shows "\<exists>m. warnings ly = warnings lx @ m"
  using assms
proof (induction "stream_measure lx" arbitrary: lx r rule: less_induct)
  case less
  note step = token_loop.simps [of lx]
  from less.prems(1) show ?case
  proof (cases rule: next_cases)
    case (finished lz)
    with less.prems(2) show ?thesis by (simp add: step)
  next
    case (failed e lz)
    with less.prems(3) show ?thesis by simp
  next
    case (produced t lz)
    then obtain r' where "token_loop lz = Some (r', ly)"
      using less.prems(2) by (auto simp: step bind_eq_Some_conv)
    from less.hyps [OF produced(8,2) this] produced(4,9) less.prems(3) show ?thesis by auto
  qed
qed

definition agrees :: "lex_warning list \<Rightarrow> string + token list \<Rightarrow> (string + token list) \<times> lexer \<Rightarrow> bool" where
  "agrees w r r' = (case r of Inr ts \<Rightarrow> fst r' = Inr ts \<and> warnings (snd r') = w | Inl e \<Rightarrow> warned w e (warnings (snd r')))"

lemma token_loop_agrees:
  assumes "between lx" "strict_quoting (config lx)" "token_loop lx = Some (r, ly)"
  shows "\<exists>r'. token_loop (relax w lx) = Some r' \<and> agrees w r r'"
  using assms
proof (induction "stream_measure lx" arbitrary: lx r rule: less_induct)
  case less
  note step = token_loop.simps [of lx] and step' = token_loop.simps [of "relax w lx"]
  from less.prems(1) show ?case
  proof (cases rule: next_cases)
    case (finished lz)
    with next_follows [OF less.prems(1,2) finished(1), of w] less.prems(3) show ?thesis
      by (auto simp: step step' agrees_def)
  next
    case (failed e lz)
    from next_follows [OF less.prems(1,2) failed(1), of w] obtain t l1 where
      n: "lexer_next (relax w lx) = Some (Some (Inr t), l1)" "between l1" "warned w e (warnings l1)" by auto
    have "between (relax w lx)" using less.prems(1) by (simp add: between_def lex_ok_def)
    then have ns: "\<not> strict_quoting (config l1)" by (cases rule: next_cases) (use n(1) in auto)
    obtain r1 l2 where l2: "token_loop l1 = Some (r1, l2)" using token_loop_returns [OF n(2)] by blast
    from token_loop_warns [OF n(2) l2 ns] n(3) have "warned w e (warnings l2)" by (auto simp: warned_def)
    with failed n(1) l2 less.prems(3) show ?thesis by (auto simp: step step' agrees_def)
  next
    case (produced t lz)
    then obtain r1 where l2: "token_loop lz = Some (r1, ly)" "r = map_sum id ((#) t) r1"
      using less.prems(3) by (auto simp: step bind_eq_Some_conv)
    have "strict_quoting (config lz)" using produced(4) less.prems(2) by simp
    from less.hyps [OF produced(8,2) this l2(1)] obtain r2 where
      "token_loop (relax w lz) = Some r2" "agrees w r1 r2" by blast
    with next_follows [OF less.prems(1,2) produced(1), of w] l2(2) show ?thesis
      by (cases r1) (auto simp: step' agrees_def)
  qed
qed

lemma relax_fresh:
  "lexer_with_config src (c\<lparr>strict_quoting := False\<rparr>) = map_option (relax []) (lexer_with_config src c)"
  by (auto simp: lexer_with_config_def relax_def split: option.split)

text \<open>
  C7. Strict quoting rejects exactly the texts the lenient mode warns about: where there is no warning
  it returns the same tokens, and otherwise it fails with the message of the first.
\<close>

theorem strict_agrees_with_lenient:
  assumes "utf8_valid src" "strict_quoting c" "lexer_with_config src c = Some lx"
    "lexer_with_config src (c\<lparr>strict_quoting := False\<rparr>) = Some ly"
  shows "\<exists>ts ws. tokenise_all_with_warnings ly = Some (Inr (ts, ws)) \<and>
           tokenise_all lx = Some (if ws = [] then Inr ts else Inl (warning_message (hd ws)))"
proof -
  have ly: "ly = relax [] lx" using assms(3,4) relax_fresh [of src c] by simp
  note b = fresh_between [OF assms(1,3)] and b' = fresh_between [OF assms(1,4)]
  obtain r lz where r: "token_loop lx = Some (r, lz)" using token_loop_returns [OF b(1)] by blast
  have s: "strict_quoting (config lx)" using b(4) assms(2) by simp
  obtain r' lz' where r': "token_loop ly = Some (r', lz')" "agrees [] r (r', lz')"
    using token_loop_agrees [OF b(1) s r, of "[]"] ly by fastforce
  obtain ts where ts: "r' = Inr ts"
    using token_loop_returns [OF b'(1)] r'(1) b'(4) by (cases r') (auto simp: stream_result_def)
  have t: "tokenise_all lx = Some r" "tokenise_all_with_warnings ly = Some (Inr (ts, warnings lz'))"
    using r r'(1) ts by (simp_all add: tokenise_all_def tokenise_all_with_warnings_def)
  show ?thesis
  proof (intro exI conjI)
    show "tokenise_all lx = Some (if warnings lz' = [] then Inr ts else Inl (warning_message (hd (warnings lz'))))"
      using t(1) r'(2) ts by (cases r) (auto simp: agrees_def warned_def)
  qed (rule t(2))
qed

theorem strict_agrees_with_lenient_witness:
  "\<exists>lx ly ts ws. lexer_with_config ''{a}b'' (lexer_config_default\<lparr>strict_quoting := True\<rparr>) = Some lx \<and>
     lexer_new ''{a}b'' = Some ly \<and> tokenise_all_with_warnings ly = Some (Inr (ts, ws)) \<and>
     tokenise_all lx = Some (Inl ''extra characters after close-brace'') \<and>
     warning_message (hd ws) = ''extra characters after close-brace''"
proof -
  let ?s = "''{a}b''" and ?c = "lexer_config_default\<lparr>strict_quoting := True\<rparr>"
  obtain lx ly where l: "lexer_with_config ?s ?c = Some lx" "lexer_new ?s = Some ly"
    by (simp add: lexer_new_def lexer_with_config_def line_index_new_def)
  have c: "?c\<lparr>strict_quoting := False\<rparr> = lexer_config_default" by (simp add: lexer_config_default_def)
  have "\<exists>ts ws. tokenise_all_with_warnings ly = Some (Inr (ts, ws)) \<and>
      tokenise_all lx = Some (if ws = [] then Inr ts else Inl (warning_message (hd ws)))"
    by (rule strict_agrees_with_lenient [of ?s ?c]) (use l c in \<open>simp_all add: lexer_new_def\<close>)
  moreover have "tokenise_all lx = Some (Inl ''extra characters after close-brace'')"
    using l(1) by (auto simp: lexer_with_config_def line_index_new_def lexer_config_default_def tokenise_all_def,
      subst token_loop.simps, simp add: lex_eval warn_or_error_def)
  ultimately show ?thesis using l by (auto split: if_splits)
qed

end
