(* ===== verification/Pkg_Version.thy ===== *)
theory Pkg_Version
  imports Rust_Str "HOL-Library.Char_ord" "HOL-Library.List_Lexorder" "HOL-Library.Product_Lexorder"
begin

text \<open>
  Package versions, \<open>tcl-pkg/src/version.rs\<close>: the version expression as a scanner, the reading of
  pre-release tags, the canonical form and the order. The expression is deterministic: after each of
  its greedy parts comes a byte that part cannot take, so it matches in one pass without going back.

  The class \<open>\d\<close> of the expression is the decimal digits of Unicode, a parameter \<open>nd\<close> on code points
  that is only required to agree with the ten ASCII digits below 128.
\<close>

section \<open>Numbers and white space\<close>

definition is_ascii_digit :: "char \<Rightarrow> bool" where
  "is_ascii_digit c = (let b = of_char c in (48::nat) \<le> b \<and> b \<le> 57)"

definition digits_value :: "string \<Rightarrow> nat" where
  "digits_value s = foldl (\<lambda>n c. 10 * n + (of_char c - 48)) 0 s"

text \<open>\<open>str::parse::<u64>\<close> on a text without a sign.\<close>

definition parse_u64 :: "string \<Rightarrow> 64 word option" where
  "parse_u64 s =
     (if s \<noteq> [] \<and> (\<forall>c\<in>set s. is_ascii_digit c) \<and> digits_value s < 2 ^ 64 then Some (of_nat (digits_value s)) else None)"

lemma drop_char_shorter: "first_char s = Some ch \<Longrightarrow> length (drop (len_utf8 ch) s) < length s"
  using len_utf8_pos [of ch] by (cases s) simp_all

function trim_end :: "string \<Rightarrow> string" where
  "trim_end s =
     (case first_char s of
        None \<Rightarrow> []
      | Some ch \<Rightarrow>
          (let t = trim_end (drop (len_utf8 ch) s) in
           if t = [] \<and> char_is_whitespace ch then [] else take (len_utf8 ch) s @ t))"
  by pat_completeness auto
termination
  by (relation "measure length") (use drop_char_shorter in auto)

declare trim_end.simps [simp del]

definition str_trim :: "string \<Rightarrow> string" where
  "str_trim s = trim_end (trim_start s)"

section \<open>Pre-release pieces\<close>

datatype pre_item = PreNum "64 word" | PreAlpha string | PreSentinel

fun pre_item_rank :: "pre_item \<Rightarrow> nat" where
  "pre_item_rank (PreNum _) = 0"
| "pre_item_rank (PreAlpha _) = 1"
| "pre_item_rank PreSentinel = 2"

fun pre_item_le :: "pre_item \<Rightarrow> pre_item \<Rightarrow> bool" where
  "pre_item_le (PreNum a) (PreNum b) = (a \<le> b)"
| "pre_item_le (PreAlpha a) (PreAlpha b) = (a \<le> b)"
| "pre_item_le a b = (pre_item_rank a \<le> pre_item_rank b)"

instantiation pre_item :: linorder
begin

definition less_eq_pre_item :: "pre_item \<Rightarrow> pre_item \<Rightarrow> bool" where
  [simp]: "less_eq_pre_item = pre_item_le"

definition less_pre_item :: "pre_item \<Rightarrow> pre_item \<Rightarrow> bool" where
  "less_pre_item a b = (pre_item_le a b \<and> \<not> pre_item_le b a)"

instance
proof
  fix x y z :: pre_item
  show "x < y \<longleftrightarrow> x \<le> y \<and> \<not> y \<le> x" by (simp add: less_pre_item_def)
  show "x \<le> x" by (cases x) simp_all
  show "x \<le> y \<Longrightarrow> y \<le> z \<Longrightarrow> x \<le> z" by (cases x; cases y; cases z) auto
  show "x \<le> y \<Longrightarrow> y \<le> x \<Longrightarrow> x = y" by (cases x; cases y) auto
  show "x \<le> y \<or> y \<le> x" by (cases x; cases y) auto
qed

end

section \<open>Versions\<close>

record version =
  major :: "64 word"
  minor :: "64 word"
  patch :: "64 word"
  prerelease :: "pre_item list"
  prerelease_raw :: string
  build :: string
  original :: string

definition compare_key :: "version \<Rightarrow> 64 word \<times> 64 word \<times> 64 word \<times> pre_item list" where
  "compare_key v = (major v, minor v, patch v, if prerelease v = [] then [PreSentinel] else prerelease v)"

text \<open>Equality and order of versions read the key only: the build and the spelling do not count.\<close>

definition version_eq :: "version \<Rightarrow> version \<Rightarrow> bool" where
  "version_eq v w = (compare_key v = compare_key w)"

definition version_le :: "version \<Rightarrow> version \<Rightarrow> bool" where
  "version_le v w = (compare_key v \<le> compare_key w)"

definition version_lt :: "version \<Rightarrow> version \<Rightarrow> bool" where
  "version_lt v w = (compare_key v < compare_key w)"

definition show_u64 :: "64 word \<Rightarrow> string" where
  "show_u64 w = show_nat (unat w)"

definition canonical :: "version \<Rightarrow> string" where
  "canonical v =
     show_u64 (major v) @ ''.'' @ show_u64 (minor v) @ ''.'' @ show_u64 (patch v) @
     (if prerelease_raw v \<noteq> [] then prerelease_raw v else []) @
     (if build v \<noteq> [] then ''+'' @ build v else [])"

section \<open>The version expression\<close>

text \<open>\<open>\d*\<close>: the digits a text starts with, and what follows them.\<close>

function digit_run :: "(nat \<Rightarrow> bool) \<Rightarrow> string \<Rightarrow> string \<times> string" where
  "digit_run nd s =
     (case first_char s of
        None \<Rightarrow> ([], s)
      | Some ch \<Rightarrow>
          if nd ch then (case digit_run nd (drop (len_utf8 ch) s) of (d, r) \<Rightarrow> (take (len_utf8 ch) s @ d, r))
          else ([], s))"
  by pat_completeness auto
termination
  by (relation "measure (\<lambda>(nd, s). length s)") (use drop_char_shorter in auto)

declare digit_run.simps [simp del]

text \<open>\<open>0|[1-9]\d*\<close>\<close>

definition match_number :: "(nat \<Rightarrow> bool) \<Rightarrow> string \<Rightarrow> (string \<times> string) option" where
  "match_number nd s =
     (case s of
        [] \<Rightarrow> None
      | c # t \<Rightarrow>
          if c = CHR ''0'' then Some ([c], t)
          else if is_ascii_digit c then (case digit_run nd t of (d, r) \<Rightarrow> Some (c # d, r))
          else None)"

text \<open>\<open>(?:\.(0|[1-9]\d*))?\<close>\<close>

definition match_component :: "(nat \<Rightarrow> bool) \<Rightarrow> string \<Rightarrow> string option \<times> string" where
  "match_component nd s =
     (case s of
        [] \<Rightarrow> (None, s)
      | c # t \<Rightarrow>
          if c = CHR ''.'' then (case match_number nd t of Some (d, r) \<Rightarrow> (Some d, r) | None \<Rightarrow> (None, s))
          else (None, s))"

definition is_ident_byte :: "char \<Rightarrow> bool" where
  "is_ident_byte c = (let b = of_char c in
     is_ascii_digit c \<or> (65::nat) \<le> b \<and> b \<le> 90 \<or> 97 \<le> b \<and> b \<le> 122 \<or> c = CHR ''-'')"

text \<open>\<open>[0-9A-Za-z-]+(?:\.[0-9A-Za-z-]+)*\<close>\<close>

function dotted_tail :: "string \<Rightarrow> string \<times> string" where
  "dotted_tail s =
     (case s of
        [] \<Rightarrow> ([], s)
      | c # t \<Rightarrow>
          if c = CHR ''.'' \<and> takeWhile is_ident_byte t \<noteq> [] then
            (case dotted_tail (dropWhile is_ident_byte t) of (d, r) \<Rightarrow> (c # takeWhile is_ident_byte t @ d, r))
          else ([], s))"
  by pat_completeness auto
termination
  by (relation "measure length") (auto simp: le_less_trans [OF length_dropWhile_le])

declare dotted_tail.simps [simp del]

definition match_dotted :: "string \<Rightarrow> (string \<times> string) option" where
  "match_dotted s =
     (if takeWhile is_ident_byte s = [] then None
      else (case dotted_tail (dropWhile is_ident_byte s) of (d, r) \<Rightarrow> Some (takeWhile is_ident_byte s @ d, r)))"

text \<open>The three forms of a pre-release: \<open>-\<dots>\<close>, \<open>[ab]\d+\<close> and \<open>rc\d+\<close>.\<close>

definition match_prerelease :: "(nat \<Rightarrow> bool) \<Rightarrow> string \<Rightarrow> string option \<times> string" where
  "match_prerelease nd s =
     (case s of
        [] \<Rightarrow> (None, s)
      | c # t \<Rightarrow>
          if c = CHR ''-'' then (case match_dotted t of Some (d, r) \<Rightarrow> (Some (c # d), r) | None \<Rightarrow> (None, s))
          else if c = CHR ''a'' \<or> c = CHR ''b'' then
            (case digit_run nd t of (d, r) \<Rightarrow> if d = [] then (None, s) else (Some (c # d), r))
          else if starts_with ''rc'' s then
            (case digit_run nd (drop 2 s) of (d, r) \<Rightarrow> if d = [] then (None, s) else (Some (''rc'' @ d), r))
          else (None, s))"

definition match_build :: "string \<Rightarrow> string option \<times> string" where
  "match_build s =
     (case s of
        [] \<Rightarrow> (None, s)
      | c # t \<Rightarrow>
          if c = CHR ''+'' then (case match_dotted t of Some (d, r) \<Rightarrow> (Some d, r) | None \<Rightarrow> (None, s))
          else (None, s))"

record captures =
  cap_major :: string
  cap_minor :: "string option"
  cap_patch :: "string option"
  cap_prerelease :: "string option"
  cap_build :: "string option"

definition semver_captures :: "(nat \<Rightarrow> bool) \<Rightarrow> string \<Rightarrow> captures option" where
  "semver_captures nd s =
     (let s0 = (if starts_with ''v'' s then drop 1 s else s) in
      case match_number nd s0 of
        None \<Rightarrow> None
      | Some (ma, s1) \<Rightarrow>
          (case match_component nd s1 of (mi, s2) \<Rightarrow>
           case match_component nd s2 of (pa, s3) \<Rightarrow>
           case match_prerelease nd s3 of (pr, s4) \<Rightarrow>
           case match_build s4 of (bu, s5) \<Rightarrow>
           if s5 = [] then Some \<lparr>cap_major = ma, cap_minor = mi, cap_patch = pa, cap_prerelease = pr, cap_build = bu\<rparr>
           else None))"

section \<open>Reading a version\<close>

text \<open>\<open>split('.')\<close>\<close>

fun split_dots :: "string \<Rightarrow> string list" where
  "split_dots [] = [[]]"
| "split_dots (c # s) =
     (if c = CHR ''.'' then [] # split_dots s
      else (case split_dots s of [] \<Rightarrow> [[c]] | p # ps \<Rightarrow> (c # p) # ps))"

definition pre_piece :: "string \<Rightarrow> pre_item" where
  "pre_piece p =
     (if p \<noteq> [] \<and> (\<forall>c\<in>set p. is_ascii_digit c)
      then PreNum (case parse_u64 p of Some n \<Rightarrow> n | None \<Rightarrow> 0) else PreAlpha p)"

text \<open>\<open>^(a|b|rc)(\d+)$\<close>: the tag and its digits.\<close>

definition tcl_pre :: "(nat \<Rightarrow> bool) \<Rightarrow> string \<Rightarrow> (string \<times> string) option" where
  "tcl_pre nd raw =
     (let tag = (if starts_with ''a'' raw then ''a'' else if starts_with ''b'' raw then ''b'' else if starts_with ''rc'' raw then ''rc'' else []) in
      case digit_run nd (drop (length tag) raw) of
        (d, r) \<Rightarrow> if tag \<noteq> [] \<and> d \<noteq> [] \<and> r = [] then Some (tag, d) else None)"

definition parse_prerelease :: "(nat \<Rightarrow> bool) \<Rightarrow> string \<Rightarrow> pre_item list \<times> string" where
  "parse_prerelease nd raw =
     (if starts_with ''-'' raw then (map pre_piece (split_dots (drop 1 raw)), ''-'' @ drop 1 raw)
      else
        (case tcl_pre nd raw of
           Some (tag, digits) \<Rightarrow>
             (let (label, order) = (if tag = ''a'' then (''alpha'', 0) else if tag = ''b'' then (''beta'', 1) else (''rc'', 2));
                  number = (case parse_u64 digits of Some n \<Rightarrow> n | None \<Rightarrow> 0)
              in ([PreNum order, PreNum number], ''-'' @ label @ ''.'' @ show_u64 number))
         | None \<Rightarrow> ([PreAlpha raw], raw)))"

text \<open>\<open>map_or(0, |m| m.as_str().parse().expect(\<dots>))\<close>, \<open>None\<close> being the panic.\<close>

definition component :: "string option \<Rightarrow> 64 word option" where
  "component m = (case m of None \<Rightarrow> Some 0 | Some d \<Rightarrow> parse_u64 d)"

definition version_parse :: "(nat \<Rightarrow> bool) \<Rightarrow> string \<Rightarrow> (string + version) option" where
  "version_parse nd raw =
     (let stripped = str_trim raw in
      if stripped = [] then Some (Inl ''empty version string'')
      else
        (case semver_captures nd stripped of
           None \<Rightarrow> Some (Inl (''invalid version: '' @ [CHR 0x27] @ raw @ [CHR 0x27]))
         | Some caps \<Rightarrow>
             (case (parse_u64 (cap_major caps), component (cap_minor caps), component (cap_patch caps)) of
                (Some ma, Some mi, Some pa) \<Rightarrow>
                  (let (pre, pre_raw) = (case cap_prerelease caps of Some m \<Rightarrow> parse_prerelease nd m | None \<Rightarrow> ([], []))
                   in Some (Inr \<lparr>major = ma, minor = mi, patch = pa, prerelease = pre, prerelease_raw = pre_raw,
                        build = (case cap_build caps of Some b \<Rightarrow> b | None \<Rightarrow> []), original = stripped\<rparr>))
              | _ \<Rightarrow> None)))"

text \<open>\<open>iter().max()\<close> returns the last of equal maxima.\<close>

fun max_by_key :: "version \<Rightarrow> version list \<Rightarrow> version" where
  "max_by_key m [] = m"
| "max_by_key m (v # vs) = max_by_key (if version_le m v then v else m) vs"

definition max_version :: "version list \<Rightarrow> string + version" where
  "max_version vs =
     (case vs of [] \<Rightarrow> Inl ''max_version requires a non-empty list'' | v # vs' \<Rightarrow> Inr (max_by_key v vs'))"

section \<open>Numbers as text\<close>

definition decimal_digits :: "(nat \<Rightarrow> bool) \<Rightarrow> bool" where
  "decimal_digits nd \<longleftrightarrow> (\<forall>ch<128. nd ch \<longleftrightarrow> 48 \<le> ch \<and> ch \<le> 57)"

lemma digit_char: "n < 10 \<Longrightarrow> is_ascii_digit (char_of (48 + n)) \<and> of_char (char_of (48 + n) :: char) = 48 + n" for n :: nat
  by (simp add: is_ascii_digit_def Let_def)

lemma digit_char_0: "char_of (48 :: nat) = CHR ''0''"
proof -
  have "of_char (char_of (48 :: nat)) = (of_char (CHR ''0'') :: nat)" by simp
  then show ?thesis by (simp only: of_char_eq_iff)
qed

lemma show_nat_nonempty [simp]: "show_nat n \<noteq> []"
  by (subst show_nat.simps) simp

lemma show_nat_digits: "c \<in> set (show_nat n) \<Longrightarrow> is_ascii_digit c"
proof (induction n rule: show_nat.induct)
  case (1 n)
  then show ?case
    using digit_char [of n] digit_char [of "n mod 10"] by (subst (asm) (2) show_nat.simps) (auto split: if_splits)
qed

lemma digits_value_append: "digits_value (s @ [c]) = 10 * digits_value s + (of_char c - 48)"
  by (simp add: digits_value_def)

lemma digits_value_show [simp]: "digits_value (show_nat n) = n"
proof (induction n rule: show_nat.induct)
  case (1 n)
  show ?case
  proof (cases "n < 10")
    case True
    then show ?thesis using digit_char [of n] by (subst show_nat.simps) (simp add: digits_value_def)
  next
    case False
    then show ?thesis using 1 digit_char [of "n mod 10"] by (subst show_nat.simps) (simp add: digits_value_append)
  qed
qed

lemma show_nat_head: "n \<noteq> 0 \<Longrightarrow> hd (show_nat n) \<noteq> CHR ''0''"
proof (induction n rule: show_nat.induct)
  case (1 n)
  show ?case
  proof (cases "n < 10")
    case True
    have "char_of (48 + n) \<noteq> CHR ''0''"
    proof
      assume "char_of (48 + n) = CHR ''0''"
      then have "(48 + n) mod 256 = (of_char (CHR ''0'') :: nat)" by (metis of_char_of)
      with True 1 show False by simp
    qed
    with True show ?thesis by (subst show_nat.simps) simp
  next
    case False
    then show ?thesis using 1 by (subst show_nat.simps) simp
  qed
qed

lemma parse_show_u64 [simp]: "parse_u64 (show_u64 w) = Some w"
  using unsigned_less [of w, where 'a = nat] show_nat_digits by (simp add: parse_u64_def show_u64_def)

text \<open>What may follow a number without becoming part of it.\<close>

definition after_number :: "string \<Rightarrow> bool" where
  "after_number r \<longleftrightarrow> r = [] \<or> of_char (hd r) < (128::nat) \<and> \<not> is_ascii_digit (hd r)"

lemma digit_run_stop: "decimal_digits nd \<Longrightarrow> after_number r \<Longrightarrow> digit_run nd r = ([], r)"
  by (subst digit_run.simps, cases r)
    (auto simp: decimal_digits_def after_number_def first_char_ascii is_ascii_digit_def Let_def)

lemma digit_run_digits:
  "decimal_digits nd \<Longrightarrow> (\<And>c. c \<in> set ds \<Longrightarrow> is_ascii_digit c) \<Longrightarrow> after_number r \<Longrightarrow> digit_run nd (ds @ r) = (ds, r)"
proof (induction ds)
  case (Cons c ds)
  then have "is_ascii_digit c" by simp
  then have "of_char c < (128::nat)" "nd (of_char c)"
    using Cons.prems(1) by (auto simp: is_ascii_digit_def Let_def decimal_digits_def)
  with Cons show ?case by (simp add: digit_run.simps [of nd "c # ds @ r"] first_char_ascii len_utf8_def)
qed (simp add: digit_run_stop)

lemma match_number_show:
  assumes "decimal_digits nd" "after_number r"
  shows "match_number nd (show_u64 w @ r) = Some (show_u64 w, r)"
proof -
  obtain c ds where s: "show_u64 w = c # ds" by (cases "show_u64 w") (simp_all add: show_u64_def)
  have d: "is_ascii_digit x" if "x \<in> set (c # ds)" for x
    using show_nat_digits [of x "unat w"] that s by (simp add: show_u64_def)
  show ?thesis
  proof (cases "unat w = 0")
    case True
    then have "show_u64 w = [CHR ''0'']" by (simp add: show_u64_def show_nat.simps [of 0] digit_char_0)
    then show ?thesis by (simp add: match_number_def)
  next
    case False
    then have "c \<noteq> CHR ''0''" using show_nat_head [of "unat w"] s by (simp add: show_u64_def)
    with s d digit_run_digits [OF assms(1) _ assms(2), of ds] show ?thesis by (simp add: match_number_def)
  qed
qed

lemma match_component_show:
  assumes "decimal_digits nd" "after_number r"
  shows "match_component nd (CHR ''.'' # show_u64 w @ r) = (Some (show_u64 w), r)"
  by (simp add: match_component_def match_number_show [OF assms])

section \<open>Dotted identifiers\<close>

definition after_dotted :: "string \<Rightarrow> bool" where
  "after_dotted r \<longleftrightarrow> r = [] \<or> hd r \<noteq> CHR ''.'' \<and> \<not> is_ident_byte (hd r)"

lemma dot_not_ident [simp]: "\<not> is_ident_byte (CHR ''.'')"
  by (simp add: is_ident_byte_def is_ascii_digit_def Let_def)

lemma takeWhile_stop: "(\<And>c. c \<in> set w \<Longrightarrow> P c) \<Longrightarrow> r = [] \<or> \<not> P (hd r) \<Longrightarrow> takeWhile P (w @ r) = w \<and> dropWhile P (w @ r) = r"
  by (induction w) (auto, cases r, auto, cases r, auto)

lemma dotted_tail_split:
  "dotted_tail s = (d, r) \<Longrightarrow> s = d @ r \<and> (d = [] \<or> hd d = CHR ''.'') \<and> (\<forall>c\<in>set d. c = CHR ''.'' \<or> is_ident_byte c) \<and>
     (\<forall>t. after_dotted t \<longrightarrow> dotted_tail (d @ t) = (d, t))"
proof (induction s arbitrary: d r rule: dotted_tail.induct)
  case (1 s)
  have stop: "dotted_tail t = ([], t)" if "after_dotted t" for t
    using that by (subst dotted_tail.simps, cases t) (simp_all add: after_dotted_def)
  show ?case
  proof (cases s)
    case Nil
    with "1.prems" stop [of "[]"] stop show ?thesis by (simp add: after_dotted_def)
  next
    case (Cons c t)
    let ?w = "takeWhile is_ident_byte t"
    show ?thesis
    proof (cases "c = CHR ''.'' \<and> ?w \<noteq> []")
      case True
      then have c: "c = CHR ''.''" and w: "?w \<noteq> []" by blast+
      note step = dotted_tail.simps [of "CHR ''.'' # u" for u]
      obtain d' r' where d': "dotted_tail (dropWhile is_ident_byte t) = (d', r')" by fastforce
      with "1.prems" w Cons have dr: "d = CHR ''.'' # ?w @ d'" "r = r'" by (simp_all add: c step)
      note ih = "1.IH" [OF Cons True d']
      have "dotted_tail (d @ u) = (d, u)" if "after_dotted u" for u
      proof -
        have "d' @ u = [] \<or> \<not> is_ident_byte (hd (d' @ u))"
          using ih that by (cases d') (auto simp: after_dotted_def)
        then have "takeWhile is_ident_byte (?w @ d' @ u) = ?w \<and> dropWhile is_ident_byte (?w @ d' @ u) = d' @ u"
          by (intro takeWhile_stop) (auto dest: set_takeWhileD)
        with ih that w show ?thesis by (simp add: dr step)
      qed
      moreover have "s = d @ r" using ih Cons dr c by (metis append.assoc append_Cons takeWhile_dropWhile_id)
      ultimately show ?thesis using ih by (auto simp: dr dest: set_takeWhileD)
    next
      case False
      then have "dotted_tail (c # t) = ([], c # t)" by (subst dotted_tail.simps) auto
      with "1.prems" Cons have "d = [] \<and> r = s" by simp
      with stop show ?thesis by simp
    qed
  qed
qed

definition dotted :: "string \<Rightarrow> bool" where
  "dotted d \<longleftrightarrow> (\<forall>c\<in>set d. c = CHR ''.'' \<or> is_ident_byte c) \<and>
     (\<forall>t. after_dotted t \<longrightarrow> match_dotted (d @ t) = Some (d, t))"

lemma match_dotted_split: "match_dotted s = Some (d, r) \<Longrightarrow> s = d @ r \<and> dotted d"
proof -
  assume m: "match_dotted s = Some (d, r)"
  let ?w = "takeWhile is_ident_byte s"
  have w: "?w \<noteq> []" using m by (simp add: match_dotted_def split: if_splits)
  obtain d' r' where d': "dotted_tail (dropWhile is_ident_byte s) = (d', r')" by fastforce
  have d: "d = ?w @ d'" "r = r'" using m w d' by (simp_all add: match_dotted_def)
  note tail = dotted_tail_split [OF d']
  have "s = d @ r" using tail d by (metis append.assoc takeWhile_dropWhile_id)
  moreover have "match_dotted (d @ t) = Some (d, t)" if "after_dotted t" for t
  proof -
    have "d' @ t = [] \<or> \<not> is_ident_byte (hd (d' @ t))" using tail that by (cases d') (auto simp: after_dotted_def)
    then have "takeWhile is_ident_byte (?w @ d' @ t) = ?w \<and> dropWhile is_ident_byte (?w @ d' @ t) = d' @ t"
      by (intro takeWhile_stop) (auto dest: set_takeWhileD)
    with tail that w show ?thesis by (simp add: d match_dotted_def)
  qed
  ultimately show ?thesis using tail by (auto simp: dotted_def d dest: set_takeWhileD)
qed

lemma digit_ident: "is_ascii_digit c \<Longrightarrow> is_ident_byte c"
  by (simp add: is_ident_byte_def Let_def)

lemma dotted_tag:
  assumes "label \<noteq> []" "\<And>c. c \<in> set label \<Longrightarrow> is_ident_byte c"
  shows "dotted (label @ CHR ''.'' # show_u64 n)"
proof -
  have i: "is_ident_byte c" if "c \<in> set (show_u64 n)" for c
    using that show_nat_digits [of c "unat n"] by (simp add: show_u64_def digit_ident)
  have "match_dotted (label @ CHR ''.'' # show_u64 n @ t) = Some (label @ CHR ''.'' # show_u64 n, t)" if "after_dotted t" for t
  proof -
    have t: "dotted_tail t = ([], t)" using that by (subst dotted_tail.simps, cases t) (simp_all add: after_dotted_def)
    have "takeWhile is_ident_byte (show_u64 n @ t) = show_u64 n \<and> dropWhile is_ident_byte (show_u64 n @ t) = t"
      using i that by (intro takeWhile_stop) (auto simp: after_dotted_def)
    with t have "dotted_tail (CHR ''.'' # show_u64 n @ t) = (CHR ''.'' # show_u64 n, t)"
      by (subst dotted_tail.simps) (simp add: show_u64_def)
    moreover have "takeWhile is_ident_byte (label @ CHR ''.'' # show_u64 n @ t) = label \<and>
        dropWhile is_ident_byte (label @ CHR ''.'' # show_u64 n @ t) = CHR ''.'' # show_u64 n @ t"
      using assms(2) by (intro takeWhile_stop) simp_all
    ultimately show ?thesis using assms(1) by (simp add: match_dotted_def)
  qed
  with assms(2) i show ?thesis by (auto simp: dotted_def)
qed

section \<open>What a parse keeps\<close>

lemma digit_run_valid:
  "utf8_valid s \<Longrightarrow> digit_run nd s = (d, r) \<Longrightarrow> utf8_valid r \<and> digit_run nd d = (d, [])"
proof (induction s arbitrary: d r rule: utf8_valid_induct)
  case Nil
  then show ?case by (simp add: digit_run.simps [of nd "[]"])
next
  case (Char ch t)
  have f: "first_char (utf8_encode ch @ u) = Some ch" for u
    using Char.hyps(1) by (simp add: first_char_encode is_scalar_lt)
  obtain d' r' where d': "digit_run nd t = (d', r')" by fastforce
  show ?case
  proof (cases "nd ch")
    case True
    with Char.prems d' have "d = utf8_encode ch @ d'" "r = r'"
      by (simp_all add: digit_run.simps [of nd "utf8_encode ch @ t"] f)
    with Char.IH [OF d'] True show ?thesis by (simp add: digit_run.simps [of nd "utf8_encode ch @ d'"] f)
  next
    case False
    with Char.prems have "d = [] \<and> r = utf8_encode ch @ t"
      by (auto simp: digit_run.simps [of nd "utf8_encode ch @ t"] f)
    with Char.hyps show ?thesis by (simp add: digit_run.simps [of nd "[]"])
  qed
qed

lemma match_number_valid: "utf8_valid s \<Longrightarrow> match_number nd s = Some (d, r) \<Longrightarrow> utf8_valid r"
  by (cases s) (auto simp: match_number_def is_ascii_digit_def Let_def split: if_splits prod.splits dest: digit_run_valid)

lemma match_component_valid: "utf8_valid s \<Longrightarrow> match_component nd s = (m, r) \<Longrightarrow> utf8_valid r"
  by (cases s) (auto simp: match_component_def split: if_splits option.splits prod.splits dest: match_number_valid)

lemma trim_valid: "utf8_valid s \<Longrightarrow> utf8_valid (str_trim s)"
proof -
  have "utf8_valid s \<Longrightarrow> utf8_valid (trim_end s)" for s
  proof (induction s rule: utf8_valid_induct)
    case (Char ch t)
    then have "first_char (utf8_encode ch @ t) = Some ch" by (simp add: first_char_encode is_scalar_lt)
    with Char show ?case by (subst trim_end.simps) (simp add: Let_def)
  qed (subst trim_end.simps, simp)
  moreover have "utf8_valid s \<Longrightarrow> utf8_valid (trim_start s)" for s
  proof (induction s rule: utf8_valid_induct)
    case (Char ch t)
    then have "first_char (utf8_encode ch @ t) = Some ch" by (simp add: first_char_encode is_scalar_lt)
    with Char show ?case by (subst trim_start.simps) simp
  qed (subst trim_start.simps, simp)
  ultimately show "utf8_valid s \<Longrightarrow> utf8_valid (str_trim s)" by (simp add: str_trim_def)
qed

lemma starts_with_single: "starts_with [c] s \<longleftrightarrow> (\<exists>t. s = c # t)"
  by (cases s) (auto simp: starts_with_def)

text \<open>
  A pre-release and its comparable pieces: read from the dashed form, or from a short tag, whose pieces
  are two numbers while its spelling is the dashed form of a word and the second number.
\<close>

definition tag_words :: "(64 word \<times> string) list" where
  "tag_words = [(0, ''alpha''), (1, ''beta''), (2, ''rc'')]"

definition short_tag :: "string \<Rightarrow> 64 word \<Rightarrow> pre_item list \<Rightarrow> string \<Rightarrow> bool" where
  "short_tag label n items raw \<longleftrightarrow>
     (\<exists>k. (k, label) \<in> set tag_words \<and> items = [PreNum k, PreNum n]) \<and> raw = CHR ''-'' # label @ CHR ''.'' # show_u64 n"

definition pre_ok :: "pre_item list \<Rightarrow> string \<Rightarrow> bool" where
  "pre_ok items raw \<longleftrightarrow>
     items = [] \<and> raw = [] \<or>
     (\<exists>d. raw = CHR ''-'' # d \<and> dotted d \<and> (items = map pre_piece (split_dots d) \<or> (\<exists>label n. short_tag label n items raw)))"

lemma split_dots_plain: "CHR ''.'' \<notin> set s \<Longrightarrow> split_dots s = [s]"
  by (induction s) auto

lemma split_dots_append: "CHR ''.'' \<notin> set s \<Longrightarrow> split_dots (s @ CHR ''.'' # t) = s # split_dots t"
  by (induction s) auto

lemma pre_piece_show [simp]: "pre_piece (show_u64 n) = PreNum n"
  using show_nat_digits by (simp add: pre_piece_def) (simp add: show_u64_def)

text \<open>No dashed form is read into the pieces of a short tag.\<close>

lemma short_tag_pieces:
  assumes "short_tag label n items (CHR ''-'' # d)"
  shows "map pre_piece (split_dots d) = [PreAlpha label, PreNum n]" "\<exists>k. items = [PreNum k, PreNum n]"
proof -
  have d: "d = label @ CHR ''.'' # show_u64 n" and l: "label \<in> {''alpha'', ''beta'', ''rc''}"
    using assms by (auto simp: short_tag_def tag_words_def)
  have "CHR ''.'' \<notin> set (show_u64 n)"
    using show_nat_digits [of "CHR ''.''" "unat n"] by (auto simp: show_u64_def is_ascii_digit_def)
  moreover have "CHR ''.'' \<notin> set label" "pre_piece label = PreAlpha label"
    using l by (auto simp: pre_piece_def is_ascii_digit_def)
  ultimately show "map pre_piece (split_dots d) = [PreAlpha label, PreNum n]"
    by (simp add: d split_dots_append split_dots_plain)
qed (use assms in \<open>auto simp: short_tag_def\<close>)

lemma parse_prerelease_ok:
  assumes "utf8_valid s" "match_prerelease nd s = (Some m, r)"
  shows "case parse_prerelease nd m of (items, raw) \<Rightarrow> pre_ok items raw"
proof -
  from assms(2) obtain c t where s: "s = c # t" by (cases s) (simp_all add: match_prerelease_def)
  consider (dash) d where "c = CHR ''-''" "match_dotted t = Some (d, r)" "m = CHR ''-'' # d"
    | (short) d tag where "tag \<in> {''a'', ''b'', ''rc''}" "d \<noteq> []" "digit_run nd d = (d, [])" "m = tag @ d"
  proof -
    have short': thesis if "digit_run nd u = (d, r')" "d \<noteq> []" "utf8_valid u" "m = tag @ d" "tag \<in> {''a'', ''b'', ''rc''}" for u d r' tag
      using short [of tag d] that digit_run_valid [OF that(3,1)] by blast
    show thesis
    proof (cases "c = CHR ''-''")
      case True
      with assms(2) s dash show thesis by (auto simp: match_prerelease_def split: option.splits)
    next
      case nd: False
      show thesis
      proof (cases "c = CHR ''a'' \<or> c = CHR ''b''")
        case True
        then have v: "utf8_valid t" using assms(1) s by auto
        obtain d' r' where d': "digit_run nd t = (d', r')" by fastforce
        then have "d' \<noteq> []" "m = [c] @ d'" "[c] \<in> {''a'', ''b'', ''rc''}"
          using assms(2) s True by (auto simp: match_prerelease_def split: if_splits)
        with d' v short' show thesis by blast
      next
        case False
        with assms(2) s nd have rc: "starts_with ''rc'' s" by (auto simp: match_prerelease_def split: if_splits)
        then obtain u where u: "s = ''rc'' @ u" by (cases t) (auto simp: starts_with_def s)
        then have v: "utf8_valid u" using assms(1) by simp
        obtain d' r' where d': "digit_run nd u = (d', r')" by fastforce
        then have "d' \<noteq> []" "m = ''rc'' @ d'"
          using assms(2) u rc by (auto simp: match_prerelease_def split: if_splits)
        with d' v short' show thesis by blast
      qed
    qed
  qed
  then show ?thesis
  proof cases
    case dash
    with match_dotted_split [of t d r] show ?thesis by (auto simp: parse_prerelease_def starts_with_single pre_ok_def)
  next
    case (short d tag)
    have "tcl_pre nd m = Some (tag, d)" "\<not> starts_with ''-'' m"
      using short by (auto simp: tcl_pre_def starts_with_def Let_def)
    moreover have "dotted (''alpha'' @ CHR ''.'' # show_u64 n)" "dotted (''beta'' @ CHR ''.'' # show_u64 n)" "dotted (''rc'' @ CHR ''.'' # show_u64 n)" for n
      by (rule dotted_tag; auto simp: is_ident_byte_def is_ascii_digit_def Let_def)+
    ultimately show ?thesis by (auto simp: parse_prerelease_def pre_ok_def Let_def short_tag_def tag_words_def)
  qed
qed

lemma version_parse_ok:
  assumes "utf8_valid raw" "version_parse nd raw = Some (Inr v)"
  shows "pre_ok (prerelease v) (prerelease_raw v) \<and> (build v = [] \<or> dotted (build v))"
proof -
  let ?s = "str_trim raw"
  from assms(2) obtain caps where caps: "semver_captures nd ?s = Some caps"
    by (auto simp: version_parse_def Let_def split: if_splits option.splits)
  let ?s0 = "if starts_with ''v'' ?s then drop 1 ?s else ?s"
  obtain ma s1 where n: "match_number nd ?s0 = Some (ma, s1)"
    using caps by (auto simp: semver_captures_def Let_def split: option.splits)
  obtain mi s2 where c2: "match_component nd s1 = (mi, s2)" by fastforce
  obtain pa s3 where c3: "match_component nd s2 = (pa, s3)" by fastforce
  obtain pr s4 where c4: "match_prerelease nd s3 = (pr, s4)" by fastforce
  obtain bu s5 where c5: "match_build s4 = (bu, s5)" by fastforce
  have cv: "cap_prerelease caps = pr" "cap_build caps = bu"
    using caps n c2 c3 c4 c5 by (auto simp: semver_captures_def Let_def split: if_splits)
  have "utf8_valid ?s0" using trim_valid [OF assms(1)] by (auto simp: starts_with_single)
  from match_component_valid [OF match_component_valid [OF match_number_valid [OF this n] c2] c3] have v3: "utf8_valid s3" .
  have p: "(prerelease v, prerelease_raw v) = (case pr of Some m \<Rightarrow> parse_prerelease nd m | None \<Rightarrow> ([], []))"
    and b: "build v = (case bu of Some b \<Rightarrow> b | None \<Rightarrow> [])"
    using assms(2) caps cv by (auto simp: version_parse_def Let_def split: if_splits option.splits prod.splits)
  have "pre_ok (prerelease v) (prerelease_raw v)"
  proof (cases pr)
    case None
    with p show ?thesis by (simp add: pre_ok_def)
  next
    case (Some m)
    with c4 have "match_prerelease nd s3 = (Some m, s4)" by simp
    from parse_prerelease_ok [OF v3 this] p Some show ?thesis by (metis (no_types, lifting) case_prod_conv option.simps(5))
  qed
  moreover have "build v = [] \<or> dotted (build v)"
  proof (cases bu)
    case (Some d)
    with c5 obtain t where "match_dotted t = Some (d, s5)"
      by (cases s4) (auto simp: match_build_def split: if_splits option.splits)
    with match_dotted_split Some b show ?thesis by auto
  qed (use b in simp)
  ultimately show ?thesis by blast
qed

section \<open>The canonical form\<close>

lemma trim_plain: "(\<And>c. c \<in> set s \<Longrightarrow> of_char c < (128::nat) \<and> \<not> char_is_whitespace (of_char c)) \<Longrightarrow> str_trim s = s"
proof -
  assume a: "\<And>c. c \<in> set s \<Longrightarrow> of_char c < (128::nat) \<and> \<not> char_is_whitespace (of_char c)"
  then have e: "trim_end s = s"
  proof (induction s)
    case (Cons c s)
    then show ?case by (subst trim_end.simps) (simp add: first_char_ascii len_utf8_def Let_def)
  qed (subst trim_end.simps, simp)
  have "trim_start s = s"
    by (cases s; subst trim_start.simps) (use a in \<open>auto simp: first_char_ascii\<close>)
  with e show "str_trim s = s" by (simp add: str_trim_def)
qed

lemma canonical_captures:
  assumes "decimal_digits nd" "p = [] \<or> (\<exists>d. p = CHR ''-'' # d \<and> dotted d)" "b = [] \<or> dotted b \<and> b \<noteq> []"
  shows "semver_captures nd (show_u64 x @ ''.'' @ show_u64 y @ ''.'' @ show_u64 z @ p @ (if b \<noteq> [] then ''+'' @ b else [])) =
    Some \<lparr>cap_major = show_u64 x, cap_minor = Some (show_u64 y), cap_patch = Some (show_u64 z),
      cap_prerelease = (if p = [] then None else Some p), cap_build = (if b = [] then None else Some b)\<rparr>"
proof -
  let ?b = "if b \<noteq> [] then ''+'' @ b else []"
  let ?r = "p @ ?b"
  have pb: "match_prerelease nd ?r = (if p = [] then None else Some p, ?b)"
  proof (cases "p = []")
    case True
    then show ?thesis by (simp add: match_prerelease_def starts_with_def)
  next
    case False
    then obtain d where d: "p = CHR ''-'' # d" "dotted d" using assms(2) by blast
    have "after_dotted ?b" by (simp add: after_dotted_def is_ident_byte_def is_ascii_digit_def Let_def)
    with d show ?thesis by (simp add: match_prerelease_def dotted_def)
  qed
  have bb: "match_build ?b = (if b = [] then None else Some b, [])"
  proof (cases "b = []")
    case False
    then have "match_dotted (b @ []) = Some (b, [])" using assms(3) unfolding dotted_def by (auto simp: after_dotted_def)
    with False show ?thesis by (simp add: match_build_def)
  qed (simp add: match_build_def)
  have ar: "after_number ?r" using assms(2) by (auto simp: after_number_def is_ascii_digit_def Let_def)
  have dot: "after_number (CHR ''.'' # u)" for u by (simp add: after_number_def is_ascii_digit_def Let_def)
  have nv: "\<not> starts_with ''v'' (show_u64 x @ u)" for u
  proof -
    obtain c ds where c: "show_nat (unat x) = c # ds" by (cases "show_nat (unat x)") simp_all
    then have "is_ascii_digit c" using show_nat_digits [of c "unat x"] by simp
    then have "c \<noteq> CHR ''v''" by (auto simp: is_ascii_digit_def)
    with c show ?thesis by (simp add: starts_with_single show_u64_def)
  qed
  show ?thesis
    using nv match_number_show [OF assms(1) dot] match_component_show [OF assms(1) dot] match_component_show [OF assms(1) ar] pb bb
    by (simp add: semver_captures_def Let_def)
qed

text \<open>The decimal digits of ASCII alone, to evaluate with.\<close>

definition ascii_decimal :: "nat \<Rightarrow> bool" where
  "ascii_decimal ch = (48 \<le> ch \<and> ch \<le> 57)"

lemma char_of_eqI: "n < 256 \<Longrightarrow> of_char c = n \<Longrightarrow> char_of n = c" for n :: nat
  by auto

lemma small_digit_chars [simp]:
  "char_of (48 :: nat) = CHR ''0''" "char_of (49 :: nat) = CHR ''1''" "char_of (50 :: nat) = CHR ''2''"
  by (rule char_of_eqI; simp)+

lemmas version_eval = version_parse_def str_trim_def trim_end.simps trim_start.simps first_char_ascii len_utf8_def char_is_whitespace_def
  semver_captures_def starts_with_def match_number_def match_component_def match_prerelease_def match_build_def digit_run.simps
  is_ascii_digit_def ascii_decimal_def match_dotted_def dotted_tail.simps is_ident_byte_def parse_u64_def digits_value_def
  component_def parse_prerelease_def tcl_pre_def pre_piece_def Let_def

lemma dotted_char: "dotted d \<Longrightarrow> c \<in> set d \<Longrightarrow> c = CHR ''.'' \<or> is_ident_byte c"
  unfolding dotted_def by blast

text \<open>What the canonical form is read as.\<close>

definition reread :: "version \<Rightarrow> version" where
  "reread v = v\<lparr>prerelease := (if prerelease_raw v = [] then [] else map pre_piece (split_dots (drop 1 (prerelease_raw v)))),
     original := canonical v\<rparr>"

lemma canonical_reread:
  assumes "decimal_digits nd" "utf8_valid raw" "version_parse nd raw = Some (Inr v)"
  shows "version_parse nd (canonical v) = Some (Inr (reread v))"
proof -
  have ok: "pre_ok (prerelease v) (prerelease_raw v)" "build v = [] \<or> dotted (build v)"
    using version_parse_ok [OF assms(2,3)] by simp_all
  let ?p = "prerelease_raw v" and ?b = "build v"
  have p: "?p = [] \<or> (\<exists>d. ?p = CHR ''-'' # d \<and> dotted d)" using ok(1) by (auto simp: pre_ok_def)
  have plain: "of_char c < (128::nat) \<and> \<not> char_is_whitespace (of_char c)"
    if "is_ascii_digit c \<or> c = CHR ''.'' \<or> c = CHR ''-'' \<or> c = CHR ''+'' \<or> is_ident_byte c" for c
    using that by (auto simp: is_ascii_digit_def is_ident_byte_def char_is_whitespace_def Let_def)
  have trim: "str_trim (canonical v) = canonical v"
  proof (rule trim_plain)
    fix c
    assume "c \<in> set (canonical v)"
    then consider "c \<in> set (show_u64 (major v)) \<union> set (show_u64 (minor v)) \<union> set (show_u64 (patch v))" | "c = CHR ''.''"
      | "c \<in> set ?p" | "c = CHR ''+''" | "c \<in> set ?b"
      by (auto simp: canonical_def split: if_splits)
    then have "is_ascii_digit c \<or> c = CHR ''.'' \<or> c = CHR ''-'' \<or> c = CHR ''+'' \<or> is_ident_byte c"
    proof cases
      case 1
      then show ?thesis using show_nat_digits by (auto simp: show_u64_def)
    next
      case 3
      with p show ?thesis by (auto dest: dotted_char)
    next
      case 5
      with ok(2) show ?thesis by (auto dest: dotted_char)
    qed blast+
    then show "of_char c < (128::nat) \<and> \<not> char_is_whitespace (of_char c)" by (rule plain)
  qed
  have ne: "canonical v \<noteq> []" by (simp add: canonical_def show_u64_def)
  have caps: "semver_captures nd (canonical v) = Some \<lparr>cap_major = show_u64 (major v), cap_minor = Some (show_u64 (minor v)),
      cap_patch = Some (show_u64 (patch v)), cap_prerelease = (if ?p = [] then None else Some ?p), cap_build = (if ?b = [] then None else Some ?b)\<rparr>"
    using canonical_captures [OF assms(1) p, of ?b "major v" "minor v" "patch v"] ok(2)
    by (cases "?p = []"; cases "?b = []") (simp_all add: canonical_def)
  let ?items = "if ?p = [] then [] else map pre_piece (split_dots (drop 1 ?p))"
  let ?w = "\<lparr>major = major v, minor = minor v, patch = patch v, prerelease = ?items, prerelease_raw = ?p, build = ?b, original = canonical v\<rparr>"
  have pp: "parse_prerelease nd ?p = (?items, ?p)" if "?p \<noteq> []"
    using that p by (auto simp: parse_prerelease_def starts_with_single)
  show ?thesis
    using caps ne pp by (simp add: version_parse_def trim Let_def component_def reread_def)
qed

lemma canonical_of_reread [simp]: "canonical (reread v) = canonical v"
  by (simp add: canonical_def reread_def)

lemma reread_eq:
  assumes "pre_ok (prerelease v) (prerelease_raw v)"
  shows "version_eq v (reread v) \<longleftrightarrow> (\<nexists>label n. short_tag label n (prerelease v) (prerelease_raw v))"
  using assms unfolding pre_ok_def
proof (elim disjE exE conjE)
  fix d
  assume raw: "prerelease_raw v = CHR ''-'' # d" and items: "prerelease v = map pre_piece (split_dots d)"
  have "\<not> short_tag label n (prerelease v) (prerelease_raw v)" for label n
    using short_tag_pieces [of label n "prerelease v" d] items by (auto simp: raw)
  then show ?thesis using raw items by (simp add: version_eq_def compare_key_def reread_def)
next
  fix d label n
  assume raw: "prerelease_raw v = CHR ''-'' # d" and s: "short_tag label n (prerelease v) (prerelease_raw v)"
  from short_tag_pieces [OF s [unfolded raw]] s show ?thesis
    by (auto simp: version_eq_def compare_key_def reread_def raw)
qed (simp add: version_eq_def compare_key_def reread_def short_tag_def)

text \<open>
  C38. The canonical form of a version that was read can be read again, and is its own canonical form.
  The version read back is equal to the first exactly if that was not written with a short pre-release
  tag (\<open>a\<close>, \<open>b\<close> or \<open>rc\<close> and digits): the two numbers the tag is compared by are spelt with a word in
  the canonical form.
\<close>

theorem canonical_stable:
  assumes "decimal_digits nd" "utf8_valid raw" "version_parse nd raw = Some (Inr v)"
  shows "\<exists>w. version_parse nd (canonical v) = Some (Inr w) \<and> canonical w = canonical v \<and>
    (version_eq v w \<longleftrightarrow> (\<nexists>label n. short_tag label n (prerelease v) (prerelease_raw v)))"
proof -
  have "pre_ok (prerelease v) (prerelease_raw v)" using version_parse_ok [OF assms(2,3)] by simp
  with canonical_reread [OF assms] reread_eq [of v] show ?thesis by (intro exI [of _ "reread v"]) simp
qed

theorem canonical_stable_witness:
  "\<exists>v. version_parse ascii_decimal ''v1.2'' = Some (Inr v) \<and> canonical v = ''1.2.0'' \<and>
     (\<exists>w. version_parse ascii_decimal ''1.2.0'' = Some (Inr w) \<and> canonical w = ''1.2.0'' \<and> version_eq v w)"
proof -
  have "\<exists>v. version_parse ascii_decimal ''v1.2'' = Some (Inr v) \<and> canonical v = ''1.2.0'' \<and> prerelease v = []"
    by (simp add: version_eval canonical_def show_u64_def show_nat.simps)
  then obtain v where v: "version_parse ascii_decimal ''v1.2'' = Some (Inr v)" "canonical v = ''1.2.0''" "prerelease v = []" by blast
  have "\<exists>w. version_parse ascii_decimal (canonical v) = Some (Inr w) \<and> canonical w = canonical v \<and>
    (version_eq v w \<longleftrightarrow> (\<nexists>label n. short_tag label n (prerelease v) (prerelease_raw v)))"
    by (rule canonical_stable [OF _ _ v(1)]) (simp_all add: decimal_digits_def ascii_decimal_def)
  with v show ?thesis by (auto simp: short_tag_def)
qed

text \<open>
  C39. A version with a short tag is out of place. It comes before every version of the same numbers
  whose pre-release begins with a word, and so before the version its own canonical form is read as;
  and where that word comes before the one the tag stands for, the other version lies between the two,
  as \<open>1.0-alpha.1\<close> does between \<open>1.0rc1\<close> and \<open>1.0.0-rc.1\<close>.
\<close>

theorem short_tags_misordered:
  assumes "decimal_digits nd" "utf8_valid raw" "version_parse nd raw = Some (Inr v)"
    and "short_tag label n (prerelease v) (prerelease_raw v)"
    and "major a = major v" "minor a = minor v" "patch a = patch v" "prerelease a = PreAlpha s # items"
  shows "\<exists>w. version_parse nd (canonical v) = Some (Inr w) \<and> version_lt v w \<and> version_lt v a \<and>
    (s < label \<longrightarrow> version_lt a w)"
proof -
  obtain d where d: "prerelease_raw v = CHR ''-'' # d" using assms(4) by (auto simp: short_tag_def)
  note pieces = short_tag_pieces [OF assms(4) [unfolded d]]
  from pieces(2) obtain k where "prerelease v = [PreNum k, PreNum n]" ..
  with pieces(1) have p: "map pre_piece (split_dots d) = [PreAlpha label, PreNum n]" "prerelease v = [PreNum k, PreNum n]" .
  then have w: "prerelease (reread v) = [PreAlpha label, PreNum n]" by (simp add: reread_def d)
  have l: "s < label \<Longrightarrow> s \<le> label \<and> \<not> label \<le> s" by auto
  have "version_lt v (reread v)" "version_lt v a" "s < label \<Longrightarrow> version_lt a (reread v)"
    using p(2) w l assms(5-8) by (simp_all add: version_lt_def compare_key_def less_pre_item_def)
      (simp_all add: reread_def)
  with canonical_reread [OF assms(1-3)] show ?thesis by blast
qed

theorem short_tags_misordered_witness:
  "\<exists>a v w. version_parse ascii_decimal ''1.0-alpha.1'' = Some (Inr a) \<and> version_parse ascii_decimal ''1.0rc1'' = Some (Inr v) \<and>
     version_parse ascii_decimal (canonical v) = Some (Inr w) \<and> version_lt v a \<and> version_lt a w"
proof -
  let ?v = "\<lambda>items raw text. \<lparr>major = 1, minor = 0, patch = 0, prerelease = items, prerelease_raw = raw, build = [], original = text\<rparr>"
  let ?a = "?v [PreAlpha ''alpha'', PreNum 1] ''-alpha.1'' ''1.0-alpha.1''" and ?rc = "?v [PreNum 2, PreNum 1] ''-rc.1'' ''1.0rc1''"
  have a: "version_parse ascii_decimal ''1.0-alpha.1'' = Some (Inr ?a)" by (simp add: version_eval)
  have rc: "version_parse ascii_decimal ''1.0rc1'' = Some (Inr ?rc)" by (simp add: version_eval show_u64_def show_nat.simps)
  have "\<exists>w. version_parse ascii_decimal (canonical ?rc) = Some (Inr w) \<and> version_lt ?rc w \<and> version_lt ?rc ?a \<and>
    (''alpha'' < ''rc'' \<longrightarrow> version_lt ?a w)"
    by (rule short_tags_misordered [OF _ _ rc, of _ 1])
      (simp_all add: decimal_digits_def ascii_decimal_def short_tag_def tag_words_def show_u64_def show_nat.simps)
  with a rc show ?thesis by auto
qed

text \<open>A component that does not fit 64 bits is a panic, not an error.\<close>

lemma version_parse_overflow: "version_parse ascii_decimal ''18446744073709551616'' = None"
  by (simp add: version_eval)

end
