(* ===== verification/Pkg_Resolver.thy ===== *)
theory Pkg_Resolver
  imports Pkg_Version
begin

text \<open>
  Minimum version selection, \<open>tcl-pkg/src/resolver.rs\<close>: the input with its overrides, the search for the
  maxima of the minimums, the convergence pass and the result. What a package requires is asked of a
  provider, a parameter of the input. Ordered maps are lists sorted by key.
\<close>

section \<open>Ordered maps\<close>

text \<open>\<open>BTreeMap\<close> with a linearly ordered key: insertion overwrites.\<close>

fun bt_insert :: "'k::linorder \<Rightarrow> 'v \<Rightarrow> ('k \<times> 'v) list \<Rightarrow> ('k \<times> 'v) list" where
  "bt_insert k v [] = [(k, v)]"
| "bt_insert k v ((k', v') # m) =
     (if k < k' then (k, v) # (k', v') # m else if k = k' then (k, v) # m else (k', v') # bt_insert k v m)"

section \<open>Input and result\<close>

record package_ref =
  ref_name :: string
  ref_version :: version

definition package_ref_new :: "string \<Rightarrow> version \<Rightarrow> package_ref" where
  "package_ref_new n v = \<lparr>ref_name = n, ref_version = v\<rparr>"

definition package_ref_display :: "package_ref \<Rightarrow> string" where
  "package_ref_display r = ref_name r @ ''@'' @ canonical (ref_version r)"

record resolved_package =
  reference :: package_ref
  requires :: "package_ref list"
  dev :: bool

record replace_spec =
  replace_name :: string
  replace_version :: version

record exclude_spec =
  exclude_name :: string
  exclude_version :: version

datatype category = CatTclPkg | CatManifest | CatResolver | CatIntegrity | CatRegistry | CatFetch | CatVenv | CatPolicy | CatSandbox | CatHook

record tclpkg_error =
  category :: category
  message :: string
  hint :: "string option"

text \<open>\<open>TclPkgError::resolution\<close>: the trail is appended where there is one.\<close>

definition resolution_error :: "string \<Rightarrow> string list \<Rightarrow> string option \<Rightarrow> tclpkg_error" where
  "resolution_error msg chain h =
     \<lparr>category = CatResolver,
      message = (if chain = [] then msg else msg @ concat (map (\<lambda>c. [LF] @ ''  via '' @ c) chain)),
      hint = h\<rparr>"

record resolve_input =
  direct :: "package_ref list"
  dev_direct :: "package_ref list"
  replaces :: "replace_spec list"
  excludes :: "exclude_spec list"
  provider :: "(string \<Rightarrow> version \<Rightarrow> tclpkg_error + package_ref list) option"
  include_dev :: bool

definition resolve_input_default :: resolve_input where
  "resolve_input_default =
     \<lparr>direct = [], dev_direct = [], replaces = [], excludes = [], provider = None, include_dev = True\<rparr>"

definition MAX_ITERATIONS :: nat where
  "MAX_ITERATIONS = 10000"

section \<open>The search\<close>

text \<open>Of several \<open>replace\<close> directives for a name the last one is collected into the map.\<close>

definition replaced :: "resolve_input \<Rightarrow> package_ref \<Rightarrow> version" where
  "replaced inp r =
     (case map_of (rev (map (\<lambda>s. (replace_name s, replace_version s)) (replaces inp))) (ref_name r) of
        Some v \<Rightarrow> v | None \<Rightarrow> ref_version r)"

definition excluded :: "resolve_input \<Rightarrow> string \<Rightarrow> version \<Rightarrow> bool" where
  "excluded inp n v = (\<exists>e\<in>set (excludes inp). exclude_name e = n \<and> version_eq (exclude_version e) v)"

definition ask :: "resolve_input \<Rightarrow> string \<Rightarrow> version \<Rightarrow> tclpkg_error + package_ref list" where
  "ask inp n v = (case provider inp of Some p \<Rightarrow> p n v | None \<Rightarrow> Inr [])"

record resolve_state =
  minimums :: "(string \<times> version) list"
  requires_map :: "string \<Rightarrow> (version \<times> package_ref list) option"
  pending :: "package_ref list"

definition excluded_error :: "string \<Rightarrow> version \<Rightarrow> string option \<Rightarrow> tclpkg_error" where
  "excluded_error n v h =
     resolution_error (''package '' @ n @ '' '' @ canonical v @ '' is excluded by the root manifest'') [] h"

definition exclude_hint :: "string \<Rightarrow> string" where
  "exclude_hint n = ''remove the exclude directive or adjust the version constraint for '' @ n"

text \<open>
  One popped reference. The two loops that pop differ in the hint of the error; this is their body.
\<close>

definition visit :: "resolve_input \<Rightarrow> (string \<Rightarrow> string option) \<Rightarrow> package_ref \<Rightarrow> resolve_state \<Rightarrow> tclpkg_error + resolve_state" where
  "visit inp h r s =
     (let n = ref_name r; v = replaced inp r in
      if excluded inp n v then Inl (excluded_error n v (h n))
      else if (case map_of (minimums s) n of Some current \<Rightarrow> version_le v current | None \<Rightarrow> False) then Inr s
      else
        (case ask inp n v of
           Inl e \<Rightarrow> Inl e
         | Inr children \<Rightarrow>
             Inr \<lparr>minimums = bt_insert n v (minimums s), requires_map = (requires_map s)(n \<mapsto> (v, children)),
                  pending = pending s @ children\<rparr>))"

definition iterations_error :: tclpkg_error where
  "iterations_error = resolution_error ''resolver exceeded maximum iterations (possible cycle)'' [] None"

text \<open>Step 1, with the iterations that are left.\<close>

fun collect :: "resolve_input \<Rightarrow> nat \<Rightarrow> resolve_state \<Rightarrow> tclpkg_error + resolve_state" where
  "collect inp left s =
     (case pending s of
        [] \<Rightarrow> Inr s
      | r # rs \<Rightarrow>
          (case left of
             0 \<Rightarrow> Inl iterations_error
           | Suc k \<Rightarrow>
               (case visit inp (\<lambda>n. Some (exclude_hint n)) r (s\<lparr>pending := rs\<rparr>) of
                  Inl e \<Rightarrow> Inl e | Inr s' \<Rightarrow> collect inp k s')))"

declare collect.simps [simp del]

text \<open>Step 2: ask again for a package whose requirements were recorded for a lower version.\<close>

definition needs :: "resolve_state \<Rightarrow> string \<times> version \<Rightarrow> bool" where
  "needs s nv =
     (case requires_map s (fst nv) of
        None \<Rightarrow> True
      | Some (recorded, _) \<Rightarrow> version_lt recorded (snd nv))"

text \<open>Recording a version removes its package from those that are still to be asked for, and adds none.\<close>

lemma needs_recorded:
  assumes "needs s (n, wanted)" "needs (s\<lparr>requires_map := (requires_map s)(n \<mapsto> (wanted, children)), pending := q\<rparr>) nv"
  shows "needs s nv \<and> nv \<noteq> (n, wanted)"
proof -
  obtain m w where nv: "nv = (m, w)" by fastforce
  show ?thesis
  proof (cases "m = n")
    case True
    then have "version_lt wanted w" using assms(2) by (simp add: needs_def nv)
    with assms(1) True show ?thesis
      by (cases "requires_map s n") (auto simp: needs_def version_lt_def nv)
  qed (use assms(2) in \<open>auto simp: needs_def nv\<close>)
qed

lemma recording_shrinks:
  assumes "(n, wanted) \<in> set m" "needs s (n, wanted)"
  shows "length (filter (needs (s\<lparr>requires_map := (requires_map s)(n \<mapsto> (wanted, children)), pending := q\<rparr>)) m)
    < length (filter (needs s) m)"
proof -
  let ?t = "s\<lparr>requires_map := (requires_map s)(n \<mapsto> (wanted, children)), pending := q\<rparr>"
  let ?others = "filter (\<lambda>nv. nv \<noteq> (n, wanted)) (filter (needs s) m)"
  have "filter (needs ?t) m = filter (needs ?t) ?others"
    using needs_recorded [OF assms(2)] by (simp add: conj_commute) (rule filter_cong, auto)
  then have "length (filter (needs ?t) m) \<le> length ?others" using length_filter_le [of "needs ?t" ?others] by simp
  also have "\<dots> < length (filter (needs s) m)" using assms by (intro length_filter_less [of "(n, wanted)"]) simp_all
  finally show ?thesis .
qed

function converge :: "resolve_input \<Rightarrow> resolve_state \<Rightarrow> tclpkg_error + resolve_state" where
  "converge inp s =
     (case find (needs s) (minimums s) of
        None \<Rightarrow> Inr s
      | Some (n, wanted) \<Rightarrow>
          (case ask inp n wanted of
             Inl e \<Rightarrow> Inl e
           | Inr children \<Rightarrow>
               converge inp (s\<lparr>requires_map := (requires_map s)(n \<mapsto> (wanted, children)), pending := pending s @ children\<rparr>)))"
  by pat_completeness auto

termination
proof (relation "measure (\<lambda>(inp, s). length (filter (needs s) (minimums s)))", goal_cases)
  case (2 inp s nw n wanted children)
  then have "(n, wanted) \<in> set (minimums s) \<and> needs s (n, wanted)" using find_Some_mem [of "needs s" "minimums s"] by simp
  then show ?case using recording_shrinks by simp
qed simp

declare converge.simps [simp del]

text \<open>The references step 2 left, without a bound on the iterations.\<close>

partial_function (option) drain :: "resolve_input \<Rightarrow> resolve_state \<Rightarrow> (tclpkg_error + resolve_state) option" where
  "drain inp s =
     (case pending s of
        [] \<Rightarrow> Some (Inr s)
      | r # rs \<Rightarrow>
          (case visit inp (\<lambda>_. None) r (s\<lparr>pending := rs\<rparr>) of
             Inl e \<Rightarrow> Some (Inl e) | Inr s' \<Rightarrow> drain inp s'))"

section \<open>The result\<close>

definition resolve_start :: "resolve_input \<Rightarrow> resolve_state" where
  "resolve_start inp =
     \<lparr>minimums = [], requires_map = Map.empty, pending = direct inp @ (if include_dev inp then dev_direct inp else [])\<rparr>"

definition resolved :: "resolve_input \<Rightarrow> resolve_state \<Rightarrow> string \<times> version \<Rightarrow> resolved_package" where
  "resolved inp s nv =
     \<lparr>reference = package_ref_new (fst nv) (snd nv),
      requires = (case requires_map s (fst nv) of Some (_, deps) \<Rightarrow> deps | None \<Rightarrow> []),
      dev = (\<exists>r\<in>set (dev_direct inp). ref_name r = fst nv)\<rparr>"

text \<open>\<open>resolve\<close>: the outer \<open>None\<close> is a search that does not end.\<close>

definition resolve :: "resolve_input \<Rightarrow> (tclpkg_error + resolved_package list) option" where
  "resolve inp =
     (case collect inp MAX_ITERATIONS (resolve_start inp) of
        Inl e \<Rightarrow> Some (Inl e)
      | Inr s1 \<Rightarrow>
          (case converge inp s1 of
             Inl e \<Rightarrow> Some (Inl e)
           | Inr s2 \<Rightarrow>
               (case drain inp s2 of
                  None \<Rightarrow> None
                | Some (Inl e) \<Rightarrow> Some (Inl e)
                | Some (Inr s3) \<Rightarrow> Some (Inr (map (resolved inp s3) (minimums s3))))))"

section \<open>Ordered maps\<close>

locale ordered_map =
  fixes insert :: "'k::linorder \<Rightarrow> 'v \<Rightarrow> 'm \<Rightarrow> 'm" and get :: "'m \<Rightarrow> 'k \<Rightarrow> 'v option"
    and entries :: "'m \<Rightarrow> ('k \<times> 'v) list" and inv :: "'m \<Rightarrow> bool"
  assumes get_insert: "get (insert k v m) = (get m)(k \<mapsto> v)"
    and inv_insert: "inv m \<Longrightarrow> inv (insert k v m)"
    and entries_get: "map_of (entries m) = get m"
    and entries_sorted: "inv m \<Longrightarrow> sorted_wrt (<) (map fst (entries m))"
begin

lemma entries_distinct: "inv m \<Longrightarrow> distinct (map fst (entries m))"
  using entries_sorted [of m] by (simp add: strict_sorted_iff)

lemma in_entries: "inv m \<Longrightarrow> (k, v) \<in> set (entries m) \<longleftrightarrow> get m k = Some v"
  using entries_distinct [of m] by (simp flip: entries_get)

end

lemma bt_insert_map_of: "map_of (bt_insert k v m) = (map_of m)(k \<mapsto> v)"
  by (induction k v m rule: bt_insert.induct) auto

lemma bt_insert_fst: "set (map fst (bt_insert k v m)) = Set.insert k (set (map fst m))"
  by (induction k v m rule: bt_insert.induct) auto

lemma bt_insert_sorted: "sorted_wrt (<) (map fst m) \<Longrightarrow> sorted_wrt (<) (map fst (bt_insert k v m))"
proof (induction k v m rule: bt_insert.induct)
  case (2 k v k' v' m)
  then show ?case using bt_insert_fst [of k v m] by auto
qed simp

interpretation bt: ordered_map bt_insert map_of "\<lambda>m. m" "\<lambda>m. sorted_wrt (<) (map fst m)"
  by unfold_locales (simp_all add: bt_insert_map_of bt_insert_sorted)

section \<open>What a search keeps\<close>

text \<open>A reference is met by a selection that has its package at least at the version it asks for.\<close>

definition meets :: "resolve_input \<Rightarrow> (string \<Rightarrow> version option) \<Rightarrow> package_ref \<Rightarrow> bool" where
  "meets inp m r = (case m (ref_name r) of Some v \<Rightarrow> version_le (replaced inp r) v | None \<Rightarrow> False)"

definition roots :: "resolve_input \<Rightarrow> package_ref list" where
  "roots inp = direct inp @ (if include_dev inp then dev_direct inp else [])"

definition search_ok :: "resolve_input \<Rightarrow> resolve_state \<Rightarrow> bool" where
  "search_ok inp s \<longleftrightarrow>
     sorted_wrt (<) (map fst (minimums s)) \<and>
     (\<forall>r\<in>set (roots inp). meets inp (map_of (minimums s)) r \<or> r \<in> set (pending s)) \<and>
     (\<forall>n v. map_of (minimums s) n = Some v \<longrightarrow> \<not> excluded inp n v \<and>
        (\<exists>children. requires_map s n = Some (v, children) \<and> ask inp n v = Inr children \<and>
           (\<forall>c\<in>set children. meets inp (map_of (minimums s)) c \<or> c \<in> set (pending s))))"

text \<open>A visit, in its three ways of ending.\<close>

lemma visit_cases:
  obtains (failed) e where "visit inp h r s = Inl e" "excluded inp (ref_name r) (replaced inp r) \<or> ask inp (ref_name r) (replaced inp r) = Inl e"
  | (met) "visit inp h r s = Inr s" "meets inp (map_of (minimums s)) r"
  | (raised) children where "ask inp (ref_name r) (replaced inp r) = Inr children" "\<not> excluded inp (ref_name r) (replaced inp r)"
      "\<not> meets inp (map_of (minimums s)) r"
      "visit inp h r s = Inr \<lparr>minimums = bt_insert (ref_name r) (replaced inp r) (minimums s),
         requires_map = (requires_map s)(ref_name r \<mapsto> (replaced inp r, children)), pending = pending s @ children\<rparr>"
proof -
  consider "excluded inp (ref_name r) (replaced inp r)" | "\<not> excluded inp (ref_name r) (replaced inp r)" "meets inp (map_of (minimums s)) r"
    | "\<not> excluded inp (ref_name r) (replaced inp r)" "\<not> meets inp (map_of (minimums s)) r" by blast
  then show ?thesis
  proof cases
    case 1
    then have "visit inp h r s = Inl (excluded_error (ref_name r) (replaced inp r) (h (ref_name r)))"
      by (simp add: visit_def Let_def)
    with 1 failed show ?thesis by blast
  next
    case 2
    then show ?thesis by (intro met) (simp_all add: visit_def meets_def)
  next
    case 3
    show ?thesis
    proof (cases "ask inp (ref_name r) (replaced inp r)")
      case (Inl e)
      with 3 have "visit inp h r s = Inl e" by (simp add: visit_def meets_def Let_def)
      with Inl failed show ?thesis by blast
    next
      case (Inr children)
      show ?thesis by (rule raised [OF Inr 3]) (use 3 Inr in \<open>simp add: visit_def meets_def Let_def\<close>)
    qed
  qed
qed

lemma version_le_refl [simp]: "version_le v v"
  by (simp add: version_le_def)

lemma version_le_trans: "version_le u v \<Longrightarrow> version_le v w \<Longrightarrow> version_le u w"
  by (auto simp: version_le_def)

lemma version_le_total: "\<not> version_le v w \<Longrightarrow> version_le w v"
  by (auto simp: version_le_def)

lemma meets_raised:
  assumes "\<not> meets inp m r" "meets inp m c"
  shows "meets inp (m(ref_name r \<mapsto> replaced inp r)) c"
proof (cases "ref_name c = ref_name r")
  case True
  then obtain v where v: "m (ref_name r) = Some v" "version_le (replaced inp c) v"
    using assms(2) by (auto simp: meets_def split: option.splits)
  then have "version_le v (replaced inp r)" using assms(1) by (simp add: meets_def version_le_total)
  with v True show ?thesis by (auto simp: meets_def intro: version_le_trans)
qed (use assms(2) in \<open>simp add: meets_def\<close>)

lemma visit_ok:
  assumes "search_ok inp s" "pending s = r # rs" "visit inp h r (s\<lparr>pending := rs\<rparr>) = Inr t"
  shows "search_ok inp t"
proof (cases rule: visit_cases [of inp h r "s\<lparr>pending := rs\<rparr>"])
  case (failed e)
  with assms(3) show ?thesis by simp
next
  case met
  then have t: "t = s\<lparr>pending := rs\<rparr>" using assms(3) by simp
  have m: "meets inp (map_of (minimums s)) r" using met by simp
  show ?thesis
    using assms(1,2) m unfolding search_ok_def t by fastforce
next
  case (raised children)
  let ?n = "ref_name r" and ?v = "replaced inp r"
  have t: "t = \<lparr>minimums = bt_insert ?n ?v (minimums s), requires_map = (requires_map s)(?n \<mapsto> (?v, children)), pending = rs @ children\<rparr>"
    using raised assms(3) by simp
  have up: "meets inp (map_of (minimums t)) c \<or> c \<in> set (pending t)"
    if "meets inp (map_of (minimums s)) c \<or> c \<in> set (pending s)" for c
    using that meets_raised [of inp "map_of (minimums s)" r c] raised(3) assms(2)
    by (auto simp: t bt_insert_map_of meets_def)
  have s: "sorted_wrt (<) (map fst (minimums s))" "\<forall>c\<in>set (roots inp). meets inp (map_of (minimums s)) c \<or> c \<in> set (pending s)"
    and old: "map_of (minimums s) n = Some v \<Longrightarrow> \<not> excluded inp n v \<and>
        (\<exists>children. requires_map s n = Some (v, children) \<and> ask inp n v = Inr children \<and>
           (\<forall>c\<in>set children. meets inp (map_of (minimums s)) c \<or> c \<in> set (pending s)))" for n v
    using assms(1) by (auto simp: search_ok_def)
  show ?thesis unfolding search_ok_def
  proof (intro conjI allI impI ballI)
    show "sorted_wrt (<) (map fst (minimums t))" using s(1) by (simp add: t bt_insert_sorted)
    show "meets inp (map_of (minimums t)) c \<or> c \<in> set (pending t)" if "c \<in> set (roots inp)" for c
      using that s(2) by (intro up) blast
    fix n v
    assume m: "map_of (minimums t) n = Some v"
    show "\<not> excluded inp n v"
      using m raised(2) old [of n v] by (auto simp: t bt_insert_map_of split: if_splits)
    show "\<exists>children. requires_map t n = Some (v, children) \<and> ask inp n v = Inr children \<and>
           (\<forall>c\<in>set children. meets inp (map_of (minimums t)) c \<or> c \<in> set (pending t))"
    proof (cases "n = ?n")
      case True
      then show ?thesis using m raised(1) by (auto simp: t bt_insert_map_of)
    next
      case False
      then obtain cs where "requires_map s n = Some (v, cs)" "ask inp n v = Inr cs"
        "\<forall>c\<in>set cs. meets inp (map_of (minimums s)) c \<or> c \<in> set (pending s)"
        using m old [of n v] by (auto simp: t bt_insert_map_of)
      then show ?thesis using up False by (auto simp: t)
    qed
  qed
qed

text \<open>Anything every visit keeps holds at the end of step 1, where nothing is pending.\<close>

lemma collect_induct:
  assumes "P s" "\<And>s r rs t. P s \<Longrightarrow> pending s = r # rs \<Longrightarrow> visit inp (\<lambda>n. Some (exclude_hint n)) r (s\<lparr>pending := rs\<rparr>) = Inr t \<Longrightarrow> P t"
    "collect inp left s = Inr t"
  shows "P t \<and> pending t = []"
  using assms(1,3)
proof (induction left arbitrary: s)
  case 0
  then show ?case by (simp add: collect.simps split: list.splits)
next
  case (Suc k)
  show ?case
  proof (cases "pending s")
    case Nil
    with Suc.prems show ?thesis by (simp add: collect.simps)
  next
    case (Cons r rs)
    then obtain s' where s': "visit inp (\<lambda>n. Some (exclude_hint n)) r (s\<lparr>pending := rs\<rparr>) = Inr s'" "collect inp k s' = Inr t"
      using Suc.prems(2) by (auto simp: collect.simps [of inp "Suc k"] split: sum.splits)
    show ?thesis by (rule Suc.IH [OF assms(2) [OF Suc.prems(1) Cons s'(1)] s'(2)])
  qed
qed

lemma search_ok_start: "search_ok inp (resolve_start inp)"
  by (simp add: search_ok_def resolve_start_def roots_def)

text \<open>After step 1 there is nothing left for the convergence pass, nor for the loop behind it.\<close>

lemma converged:
  assumes "search_ok inp s" "pending s = []"
  shows "converge inp s = Inr s" "drain inp s = Some (Inr s)"
proof -
  have "\<not> needs s nv" if "nv \<in> set (minimums s)" for nv
  proof -
    obtain n v where nv: "nv = (n, v)" by fastforce
    have "map_of (minimums s) n = Some v" using that assms(1) by (simp add: nv search_ok_def bt.in_entries)
    then obtain cs where "requires_map s n = Some (v, cs)" using assms(1) unfolding search_ok_def by blast
    then show ?thesis by (simp add: needs_def nv version_lt_def)
  qed
  then have "find (needs s) (minimums s) = None" by (simp add: find_None_iff)
  then show "converge inp s = Inr s" by (simp add: converge.simps)
  show "drain inp s = Some (Inr s)" using assms(2) by (simp add: drain.simps)
qed

lemma resolve_collect:
  "resolve inp = (case collect inp MAX_ITERATIONS (resolve_start inp) of
     Inl e \<Rightarrow> Some (Inl e) | Inr s \<Rightarrow> Some (Inr (map (resolved inp s) (minimums s))))"
proof (cases "collect inp MAX_ITERATIONS (resolve_start inp)")
  case (Inr s)
  have "search_ok inp s \<and> pending s = []"
    by (rule collect_induct [of "search_ok inp", OF search_ok_start _ Inr]) (rule visit_ok)
  with Inr converged [of inp s] show ?thesis by (simp add: resolve_def)
qed (simp add: resolve_def)

text \<open>The version a result selects for a package.\<close>

definition selection :: "resolved_package list \<Rightarrow> string \<Rightarrow> version option" where
  "selection res n = map_option (\<lambda>p. ref_version (reference p)) (find (\<lambda>p. ref_name (reference p) = n) res)"

lemma selection_resolved: "selection (map (resolved inp s) m) = map_of m"
proof
  show "selection (map (resolved inp s) m) n = map_of m n" for n
    by (induction m) (auto simp: selection_def resolved_def package_ref_new_def)
qed

text \<open>A search whose graph is small enough does not run into the bound on the iterations.\<close>

definition children_of :: "resolve_input \<Rightarrow> string \<times> version \<Rightarrow> package_ref list" where
  "children_of inp nv = (case ask inp (fst nv) (snd nv) of Inr cs \<Rightarrow> cs | Inl _ \<Rightarrow> [])"

definition target :: "resolve_input \<Rightarrow> package_ref \<Rightarrow> string \<times> version" where
  "target inp r = (ref_name r, replaced inp r)"

text \<open>\<open>V\<close> are the versions visited so far: what is pending and what they leave to visit fit into what is left.\<close>

definition within :: "resolve_input \<Rightarrow> (string \<times> version) set \<Rightarrow> nat \<Rightarrow> resolve_state \<Rightarrow> bool" where
  "within inp R left s \<longleftrightarrow>
     (\<exists>V. V \<subseteq> R \<and> (\<forall>(n, v)\<in>V. \<exists>w. map_of (minimums s) n = Some w \<and> version_le v w) \<and>
        target inp ` set (pending s) \<subseteq> R \<and>
        length (pending s) + (\<Sum>nv\<in>R - V. length (children_of inp nv)) \<le> left)"

lemma collect_within:
  assumes "finite R" "\<And>nv. nv \<in> R \<Longrightarrow> \<not> excluded inp (fst nv) (snd nv) \<and>
      (\<exists>cs. ask inp (fst nv) (snd nv) = Inr cs \<and> target inp ` set cs \<subseteq> R)"
    "within inp R left s"
  shows "\<exists>t. collect inp left s = Inr t"
  using assms(3)
proof (induction left arbitrary: s)
  case 0
  then show ?case by (auto simp: within_def collect.simps)
next
  case (Suc k)
  show ?case
  proof (cases "pending s")
    case Nil
    then show ?thesis by (simp add: collect.simps)
  next
    case (Cons r rs)
    from Suc.prems obtain V where V: "V \<subseteq> R" "\<forall>(n, v)\<in>V. \<exists>w. map_of (minimums s) n = Some w \<and> version_le v w"
      "target inp ` set (pending s) \<subseteq> R" "length (pending s) + (\<Sum>nv\<in>R - V. length (children_of inp nv)) \<le> Suc k"
      by (auto simp: within_def)
    have x: "target inp r \<in> R" using V(3) Cons by simp
    let ?h = "\<lambda>n. Some (exclude_hint n)"
    have "\<exists>t. visit inp ?h r (s\<lparr>pending := rs\<rparr>) = Inr t \<and> within inp R k t"
    proof (cases rule: visit_cases [of inp ?h r "s\<lparr>pending := rs\<rparr>"])
      case (failed e)
      with assms(2) [OF x] show ?thesis by (simp add: target_def)
    next
      case met
      with V Cons show ?thesis by (auto simp: within_def)
    next
      case (raised cs)
      let ?x = "target inp r" and ?m = "bt_insert (ref_name r) (replaced inp r) (minimums s)"
      have new: "?x \<notin> V" using V(2) raised(3) by (auto simp: target_def meets_def)
      have c: "children_of inp ?x = cs" using raised(1) by (simp add: children_of_def target_def)
      have "R - Set.insert ?x V = R - V - {?x}" by blast
      moreover have "(\<Sum>nv\<in>R - V. length (children_of inp nv)) = length (children_of inp ?x) + (\<Sum>nv\<in>R - V - {?x}. length (children_of inp nv))"
        by (rule sum.remove) (use assms(1) x new in auto)
      ultimately have sum: "(\<Sum>nv\<in>R - V. length (children_of inp nv)) = length cs + (\<Sum>nv\<in>R - Set.insert ?x V. length (children_of inp nv))"
        by (simp add: c)
      have "\<exists>w. map_of ?m n = Some w \<and> version_le v w" if "(n, v) \<in> Set.insert ?x V" for n v
      proof (cases "n = ref_name r")
        case True
        show ?thesis
        proof (cases "(n, v) \<in> V")
          case in_V: True
          then obtain w where "map_of (minimums s) n = Some w" "version_le v w" using V(2) by blast
          then have "version_le v (replaced inp r)"
            using raised(3) True version_le_total [of "replaced inp r" w] by (auto simp: meets_def intro: version_le_trans)
          with True show ?thesis by (simp add: bt_insert_map_of)
        next
          case False
          with that have "v = replaced inp r" by (simp add: target_def)
          with True show ?thesis by (simp add: bt_insert_map_of)
        qed
      next
        case False
        with that V(2) show ?thesis by (auto simp: target_def bt_insert_map_of)
      qed
      then have "within inp R k \<lparr>minimums = ?m, requires_map = (requires_map s)(ref_name r \<mapsto> (replaced inp r, cs)), pending = rs @ cs\<rparr>"
        unfolding within_def using V(1,3,4) x Cons sum assms(2) [OF x] raised(1)
        by (intro exI [of _ "Set.insert ?x V"]) (auto simp: target_def)
      with raised show ?thesis by simp
    qed
    then obtain t where t: "visit inp ?h r (s\<lparr>pending := rs\<rparr>) = Inr t" "within inp R k t" by blast
    from Suc.IH [OF t(2)] t(1) Cons show ?thesis by (simp add: collect.simps)
  qed
qed

section \<open>Properties\<close>

text \<open>A package \<open>a\<close> whose first version needs \<open>c\<close> and whose second does not.\<close>

definition whole :: "64 word \<Rightarrow> version" where
  "whole n = \<lparr>major = n, minor = 0, patch = 0, prerelease = [], prerelease_raw = [], build = [], original = []\<rparr>"

definition sample_provider :: "string \<Rightarrow> version \<Rightarrow> tclpkg_error + package_ref list" where
  "sample_provider n v = Inr (if n = ''a'' \<and> major v = 1 then [package_ref_new ''c'' (whole 5)] else [])"

definition sample_input :: "package_ref list \<Rightarrow> resolve_input" where
  "sample_input refs = resolve_input_default\<lparr>direct := refs, provider := Some sample_provider\<rparr>"

lemmas resolve_eval = resolve_collect resolve_start_def collect.simps visit_def sample_input_def sample_provider_def whole_def
  resolve_input_default_def MAX_ITERATIONS_def ask_def replaced_def excluded_def package_ref_new_def resolved_def version_le_def compare_key_def Let_def

lemma sample_run:
  "resolve (sample_input [package_ref_new ''a'' (whole 1)]) = Some (Inr
     [\<lparr>reference = package_ref_new ''a'' (whole 1), requires = [package_ref_new ''c'' (whole 5)], dev = False\<rparr>,
      \<lparr>reference = package_ref_new ''c'' (whole 5), requires = [], dev = False\<rparr>])"
  by (simp add: resolve_eval)

text \<open>
  Resolution returns on every input whose provider returns: the search is bounded, it leaves the
  convergence pass nothing to ask again, and so the unbounded loop behind it finds nothing pending.
\<close>

lemma resolve_returns: "\<exists>r. resolve inp = Some r"
  by (simp add: resolve_collect split: sum.split)

text \<open>What a successful resolution selects, shared by the properties below.\<close>

lemma resolve_search:
  assumes "resolve inp = Some (Inr res)"
  obtains s where "collect inp MAX_ITERATIONS (resolve_start inp) = Inr s" "res = map (resolved inp s) (minimums s)"
    "search_ok inp s" "pending s = []" "selection res = map_of (minimums s)"
proof -
  obtain s where c: "collect inp MAX_ITERATIONS (resolve_start inp) = Inr s" and res: "res = map (resolved inp s) (minimums s)"
    using assms by (auto simp: resolve_collect split: sum.splits)
  have "search_ok inp s \<and> pending s = []"
    by (rule collect_induct [of "search_ok inp", OF search_ok_start _ c]) (rule visit_ok)
  with that [OF c res] show thesis by (simp add: res selection_resolved)
qed

lemma resolve_selected:
  assumes "resolve inp = Some (Inr res)"
  shows "r \<in> set (roots inp) \<Longrightarrow> meets inp (selection res) r"
    "selection res n = Some v \<Longrightarrow> \<exists>cs. ask inp n v = Inr cs \<and> (\<forall>c\<in>set cs. meets inp (selection res) c)"
proof -
  obtain s where s: "search_ok inp s" "pending s = []" "selection res = map_of (minimums s)"
    by (rule resolve_search [OF assms])
  from s(1,2) show "r \<in> set (roots inp) \<Longrightarrow> meets inp (selection res) r"
    by (auto simp: search_ok_def s(3))
  show "selection res n = Some v \<Longrightarrow> \<exists>cs. ask inp n v = Inr cs \<and> (\<forall>c\<in>set cs. meets inp (selection res) c)"
    using s(1,2) unfolding search_ok_def s(3) by fastforce
qed

text \<open>
  C17. A successful resolution satisfies every requirement. Its packages are sorted by name without
  repetition; every direct requirement, and every requirement a selected package has at its selected
  version, is met by a selected version at least as high, or by the version the root manifest
  replaces it with; no selected version is excluded; and the recorded requirements and development
  marks are those of the provider and the manifest.
\<close>

theorem resolve_meets_requirements:
  assumes "resolve inp = Some (Inr res)"
  shows "sorted_wrt (<) (map (\<lambda>p. ref_name (reference p)) res) \<and>
    (\<forall>r\<in>set (roots inp). meets inp (selection res) r) \<and>
    (\<forall>p\<in>set res. let n = ref_name (reference p); v = ref_version (reference p) in
       ask inp n v = Inr (requires p) \<and> \<not> excluded inp n v \<and> (\<forall>c\<in>set (requires p). meets inp (selection res) c) \<and>
       (dev p \<longleftrightarrow> n \<in> ref_name ` set (dev_direct inp)))"
proof -
  obtain s where res: "res = map (resolved inp s) (minimums s)" and ok: "search_ok inp s" "pending s = []"
    and sel: "selection res = map_of (minimums s)" by (rule resolve_search [OF assms])
  have names: "map (\<lambda>p. ref_name (reference p)) res = map fst (minimums s)"
    by (simp add: res resolved_def package_ref_new_def)
  have srt: "sorted_wrt (<) (map fst (minimums s))" using ok by (simp add: search_ok_def)
  have r: "\<forall>r\<in>set (roots inp). meets inp (selection res) r" using resolve_selected(1) [OF assms] by blast
  have "ask inp n v = Inr (requires (resolved inp s (n, v))) \<and> \<not> excluded inp n v \<and>
      (\<forall>c\<in>set (requires (resolved inp s (n, v))). meets inp (selection res) c)" if "(n, v) \<in> set (minimums s)" for n v
  proof -
    have "map_of (minimums s) n = Some v" using that srt by (simp add: bt.in_entries)
    with ok obtain cs where "requires_map s n = Some (v, cs)" "ask inp n v = Inr cs" "\<not> excluded inp n v"
      "\<forall>c\<in>set cs. meets inp (map_of (minimums s)) c" unfolding search_ok_def by fastforce
    then show ?thesis by (simp add: resolved_def sel)
  qed
  then have "let n = ref_name (reference p); v = ref_version (reference p) in
       ask inp n v = Inr (requires p) \<and> \<not> excluded inp n v \<and> (\<forall>c\<in>set (requires p). meets inp (selection res) c) \<and>
       (dev p \<longleftrightarrow> n \<in> ref_name ` set (dev_direct inp))" if "p \<in> set res" for p
    using that by (auto simp: res Let_def resolved_def package_ref_new_def)
  with srt r names show ?thesis by simp
qed

theorem resolve_meets_requirements_witness:
  "\<exists>res. resolve (sample_input [package_ref_new ''a'' (whole 1)]) = Some (Inr res) \<and> length res = 2 \<and>
     (\<forall>p\<in>set res. \<forall>c\<in>set (requires p). meets (sample_input [package_ref_new ''a'' (whole 1)]) (selection res) c)"
proof (intro exI conjI)
  show "resolve (sample_input [package_ref_new ''a'' (whole 1)]) = Some (Inr
     [\<lparr>reference = package_ref_new ''a'' (whole 1), requires = [package_ref_new ''c'' (whole 5)], dev = False\<rparr>,
      \<lparr>reference = package_ref_new ''c'' (whole 5), requires = [], dev = False\<rparr>])" by (rule sample_run)
  from resolve_meets_requirements [OF this]
  show "\<forall>p\<in>set [\<lparr>reference = package_ref_new ''a'' (whole 1), requires = [package_ref_new ''c'' (whole 5)], dev = False\<rparr>,
      \<lparr>reference = package_ref_new ''c'' (whole 5), requires = [], dev = False\<rparr>]. \<forall>c\<in>set (requires p).
        meets (sample_input [package_ref_new ''a'' (whole 1)]) (selection
     [\<lparr>reference = package_ref_new ''a'' (whole 1), requires = [package_ref_new ''c'' (whole 5)], dev = False\<rparr>,
      \<lparr>reference = package_ref_new ''c'' (whole 5), requires = [], dev = False\<rparr>]) c"
    by (simp add: Let_def)
qed simp

text \<open>Assignments that meet the direct requirements and those of every version up to the ones they assign.\<close>

definition meets_all :: "resolve_input \<Rightarrow> (string \<Rightarrow> version option) \<Rightarrow> bool" where
  "meets_all inp A \<longleftrightarrow>
     (\<forall>r\<in>set (roots inp). meets inp A r) \<and>
     (\<forall>n v w children. A n = Some w \<longrightarrow> version_le v w \<longrightarrow> ask inp n v = Inr children \<longrightarrow> (\<forall>c\<in>set children. meets inp A c))"

lemma meets_allD:
  assumes "meets_all inp A"
  shows "r \<in> set (roots inp) \<Longrightarrow> meets inp A r"
    "A n = Some w \<Longrightarrow> version_le v w \<Longrightarrow> ask inp n v = Inr children \<Longrightarrow> c \<in> set children \<Longrightarrow> meets inp A c"
  using assms unfolding meets_all_def by blast+

text \<open>
  C18. The selection meets the requirements and is minimal. It meets the direct requirements, and those
  of every selected package at its selected version; and any assignment of versions that meets the
  direct requirements and those of every version up to the ones it assigns selects every selected
  package, at least as high.
\<close>

theorem resolve_least:
  assumes "resolve inp = Some (Inr res)"
  shows "(\<forall>r\<in>set (roots inp). meets inp (selection res) r) \<and>
    (\<forall>n v. selection res n = Some v \<longrightarrow> (\<exists>cs. ask inp n v = Inr cs \<and> (\<forall>c\<in>set cs. meets inp (selection res) c))) \<and>
    (\<forall>A n v. meets_all inp A \<longrightarrow> selection res n = Some v \<longrightarrow> (\<exists>w. A n = Some w \<and> version_le v w))"
proof (intro conjI allI impI ballI)
  show "meets inp (selection res) r" if "r \<in> set (roots inp)" for r
    by (rule resolve_selected(1) [OF assms that])
  show "\<exists>cs. ask inp n v = Inr cs \<and> (\<forall>c\<in>set cs. meets inp (selection res) c)" if "selection res n = Some v" for n v
    by (rule resolve_selected(2) [OF assms that])
  fix A n v
  assume A: "meets_all inp A" and v: "selection res n = Some v"
  obtain s where c: "collect inp MAX_ITERATIONS (resolve_start inp) = Inr s" and sel: "selection res = map_of (minimums s)"
    by (rule resolve_search [OF assms])
  define below where "below s \<longleftrightarrow> (\<forall>n v. map_of (minimums s) n = Some v \<longrightarrow> (\<exists>w. A n = Some w \<and> version_le v w)) \<and>
      (\<forall>c\<in>set (pending s). meets inp A c)" for s :: resolve_state
  have "below s \<and> pending s = []"
  proof (rule collect_induct [OF _ _ c])
    show "below (resolve_start inp)" using meets_allD(1) [OF A] by (simp add: below_def resolve_start_def roots_def)
    show "below t" if s: "below s" "pending s = r # rs" "visit inp h r (s\<lparr>pending := rs\<rparr>) = Inr t" for s r rs t and h
    proof (cases rule: visit_cases [of inp h r "s\<lparr>pending := rs\<rparr>"])
      case (failed e)
      with s show ?thesis by simp
    next
      case met
      with s show ?thesis by (auto simp: below_def)
    next
      case (raised children)
      obtain w where w: "A (ref_name r) = Some w" "version_le (replaced inp r) w"
        using s by (auto simp: below_def meets_def split: option.splits)
      from meets_allD(2) [OF A w raised(1)] s raised w show ?thesis
        by (auto simp: below_def bt_insert_map_of split: if_splits)
    qed
  qed
  with v show "\<exists>w. A n = Some w \<and> version_le v w" by (simp add: below_def sel)
qed

theorem resolve_least_witness:
  "\<exists>res. resolve (sample_input [package_ref_new ''a'' (whole 1)]) = Some (Inr res) \<and>
     selection res ''c'' = Some (whole 5) \<and> version_le (whole 5) (whole 7)"
proof (intro exI conjI)
  let ?inp = "sample_input [package_ref_new ''a'' (whole 1)]"
  let ?res = "[\<lparr>reference = package_ref_new ''a'' (whole 1), requires = [package_ref_new ''c'' (whole 5)], dev = False\<rparr>,
      \<lparr>reference = package_ref_new ''c'' (whole 5), requires = [], dev = False\<rparr>]"
  let ?A = "[''a'' \<mapsto> whole 1, ''c'' \<mapsto> whole 7]"
  show run: "resolve ?inp = Some (Inr ?res)" by (rule sample_run)
  show sel: "selection ?res ''c'' = Some (whole 5)" by (simp add: selection_def package_ref_new_def)
  have r: "\<forall>r\<in>set (roots ?inp). meets ?inp ?A r"
    by (simp add: roots_def meets_def resolve_eval)
  have c: "\<forall>c\<in>set children. meets ?inp ?A c" if "ask ?inp n v = Inr children" for n v children
    using that by (auto simp: meets_def resolve_eval split: if_splits)
  have "meets_all ?inp ?A" unfolding meets_all_def using r c by blast
  with resolve_least [OF run] sel have "\<exists>w. ?A ''c'' = Some w \<and> version_le (whole 5) w" by blast
  then show "version_le (whole 5) (whole 7)" by simp
qed

text \<open>
  C36. The bound on the iterations stops no small graph. Where the root requirements lie in a finite
  set of versions closed under their requirements, none of them excluded or refused, with at most ten
  thousand requirements in all, resolution succeeds.
\<close>

theorem resolve_within_limit:
  assumes "finite R" "target inp ` set (roots inp) \<subseteq> R"
    and "\<And>n v. (n, v) \<in> R \<Longrightarrow> \<not> excluded inp n v \<and> (\<exists>cs. ask inp n v = Inr cs \<and> target inp ` set cs \<subseteq> R)"
    and "length (roots inp) + (\<Sum>nv\<in>R. length (children_of inp nv)) \<le> MAX_ITERATIONS"
  shows "\<exists>res. resolve inp = Some (Inr res)"
proof -
  have "within inp R MAX_ITERATIONS (resolve_start inp)"
    unfolding within_def using assms(2,4) by (intro exI [of _ "{}"]) (simp add: resolve_start_def roots_def)
  with collect_within [OF assms(1), of inp MAX_ITERATIONS "resolve_start inp"] assms(3)
  show ?thesis by (auto simp: resolve_collect)
qed

theorem resolve_within_limit_witness:
  "\<exists>res. resolve (sample_input [package_ref_new ''a'' (whole 1)]) = Some (Inr res)"
proof (rule resolve_within_limit [of "{(''a'', whole 1), (''c'', whole 5)}"])
  show "length (roots (sample_input [package_ref_new ''a'' (whole 1)])) +
    (\<Sum>nv\<in>{(''a'', whole 1), (''c'', whole 5)}. length (children_of (sample_input [package_ref_new ''a'' (whole 1)]) nv)) \<le> MAX_ITERATIONS"
    by (simp add: roots_def children_of_def resolve_eval)
qed (auto simp: roots_def target_def resolve_eval)

text \<open>
  C37. The result depends on the order of the requirements. A reference that is popped after a higher
  one of its package is skipped with all it requires, so the same two direct requirements select a
  third package in one order and not in the other: the maximum is taken over the part of the graph
  that was reached, not over the whole of it.
\<close>

theorem resolve_order_dependent:
  "\<exists>refs res res'. resolve (sample_input refs) = Some (Inr res) \<and> resolve (sample_input (rev refs)) = Some (Inr res') \<and>
     selection res ''c'' = Some (whole 5) \<and> selection res' ''c'' = None \<and> selection res ''a'' = selection res' ''a''"
proof (intro exI conjI)
  let ?a = "package_ref_new ''a'' (whole 1)" and ?b = "package_ref_new ''a'' (whole 2)"
  let ?res = "[\<lparr>reference = ?b, requires = [], dev = False\<rparr>,
      \<lparr>reference = package_ref_new ''c'' (whole 5), requires = [], dev = False\<rparr>]"
  let ?res' = "[\<lparr>reference = ?b, requires = [], dev = False\<rparr>]"
  show "resolve (sample_input [?a, ?b]) = Some (Inr ?res)" by (simp add: resolve_eval word_le_nat_alt)
  show "resolve (sample_input (rev [?a, ?b])) = Some (Inr ?res')" by (simp add: resolve_eval word_le_nat_alt)
  show "selection ?res ''c'' = Some (whole 5)" "selection ?res' ''c'' = None" "selection ?res ''a'' = selection ?res' ''a''"
    by (simp_all add: selection_def package_ref_new_def)
qed

end
