(* ===== verification/Cfg.thy ===== *)
theory Cfg
  imports Span
begin

text \<open>
  The control-flow graph of a procedure, \<open>tcl-compiler/src/cfg.rs\<close>: blocks and terminators, the
  interner of block names, edges with the exception edges of \<open>try\<close>, predecessors, reachability and the
  reverse postorder every dataflow pass visits the blocks in. Statements and conditions are arguments of
  the types, because the graph algorithms never look at them.

  A hash map is an association list in the order its keys happen to be iterated, a hash set a list
  without duplicates; nothing below depends on that order.
\<close>

section \<open>Blocks\<close>

type_synonym block_id = nat

datatype 'e terminator =
    Goto block_id "span option"
  | Branch 'e block_id block_id "span option" "nat option"
  | Return "string option" "span option" "'e option" bool

fun terminator_successors :: "'e terminator \<Rightarrow> block_id list" where
  "terminator_successors (Goto t _) = [t]"
| "terminator_successors (Branch _ t f _ _) = [t, f]"
| "terminator_successors (Return _ _ _ _) = []"

fun terminator_span :: "'e terminator \<Rightarrow> span option" where
  "terminator_span (Goto _ s) = s"
| "terminator_span (Branch _ _ _ s _) = s"
| "terminator_span (Return _ s _ _) = s"

record ('s, 'e) cfg_block =
  block_label :: string
  block_statements :: "'s list"
  block_terminator :: "'e terminator option"

definition block_new :: "string \<Rightarrow> ('s, 'e) cfg_block" where
  "block_new n = \<lparr>block_label = n, block_statements = [], block_terminator = None\<rparr>"

definition successors :: "('s, 'e) cfg_block \<Rightarrow> block_id list" where
  "successors b = (case block_terminator b of Some t \<Rightarrow> terminator_successors t | None \<Rightarrow> [])"

section \<open>Functions\<close>

record ('s, 'e) cfg_function =
  fn_name :: string
  fn_entry :: block_id
  fn_blocks :: "(block_id \<times> ('s, 'e) cfg_block) list"
  exception_edges :: "(block_id \<times> block_id) list"
  fn_block_names :: "string list"
  name_to_id :: "string \<rightharpoonup> block_id"

text \<open>A new name gets the next identifier; the conversion to 32 bits panics when they run out.\<close>

definition intern_block :: "string \<Rightarrow> ('s, 'e) cfg_function \<Rightarrow> (block_id \<times> ('s, 'e) cfg_function) option" where
  "intern_block n f =
     (case name_to_id f n of
        Some i \<Rightarrow> Some (i, f)
      | None \<Rightarrow>
          let i = length (fn_block_names f) in
          if i < 2 ^ 32
          then Some (i, f\<lparr>fn_block_names := fn_block_names f @ [n], name_to_id := (name_to_id f)(n \<mapsto> i)\<rparr>)
          else None)"

definition function_new :: "string \<Rightarrow> string \<Rightarrow> ('s, 'e) cfg_function option" where
  "function_new n e =
     (case intern_block e \<lparr>fn_name = n, fn_entry = 0, fn_blocks = [], exception_edges = [], fn_block_names = [],
        name_to_id = (\<lambda>_. None)\<rparr> of
        Some (i, f) \<Rightarrow> Some (f\<lparr>fn_entry := i, fn_blocks := [(i, block_new e)]\<rparr>)
      | None \<Rightarrow> None)"

definition block_name :: "('s, 'e) cfg_function \<Rightarrow> block_id \<Rightarrow> string option" where
  "block_name f i = byte_at (fn_block_names f) i"

definition find_block :: "('s, 'e) cfg_function \<Rightarrow> string \<Rightarrow> block_id option" where
  "find_block f n = name_to_id f n"

definition block_by_name :: "('s, 'e) cfg_function \<Rightarrow> string \<Rightarrow> ('s, 'e) cfg_block option" where
  "block_by_name f n = (case find_block f n of Some i \<Rightarrow> map_of (fn_blocks f) i | None \<Rightarrow> None)"

section \<open>Edges\<close>

fun exception_targets :: "(block_id \<times> block_id) list \<Rightarrow> block_id \<Rightarrow> block_id list \<Rightarrow> block_id list" where
  "exception_targets [] _ acc = acc"
| "exception_targets ((u, v) # es) i acc =
     exception_targets es i (if u = i \<and> v \<notin> set acc then acc @ [v] else acc)"

definition block_successors :: "('s, 'e) cfg_function \<Rightarrow> block_id \<Rightarrow> block_id list" where
  "block_successors f i =
     exception_targets (exception_edges f) i
       (case map_of (fn_blocks f) i of Some b \<Rightarrow> successors b | None \<Rightarrow> [])"

text \<open>
  The predecessor map: every block has an entry, and so has every target. The sets of the source, whose
  order of iteration is unspecified, are lists without repetition.
\<close>

definition or_default :: "(block_id \<rightharpoonup> block_id list) \<Rightarrow> block_id \<Rightarrow> (block_id \<rightharpoonup> block_id list)" where
  "or_default m k = (case m k of Some _ \<Rightarrow> m | None \<Rightarrow> m(k \<mapsto> []))"

definition add_pred :: "block_id \<Rightarrow> block_id \<Rightarrow> (block_id \<rightharpoonup> block_id list) \<Rightarrow> (block_id \<rightharpoonup> block_id list)" where
  "add_pred u v m = m(v \<mapsto> List.insert u (case m v of Some ps \<Rightarrow> ps | None \<Rightarrow> []))"

definition predecessors :: "('s, 'e) cfg_function \<Rightarrow> (block_id \<rightharpoonup> block_id list)" where
  "predecessors f =
     fold (\<lambda>u. fold (add_pred u) (block_successors f u)) (map fst (fn_blocks f))
       (fold (\<lambda>k m. or_default m k) (map fst (fn_blocks f)) (\<lambda>_. None))"

text \<open>The queue of the breadth-first search holds identifiers already seen; they are skipped when popped.\<close>

definition known_ids :: "('s, 'e) cfg_function \<Rightarrow> block_id set" where
  "known_ids f = fst ` set (fn_blocks f) \<union> fst ` set (exception_edges f)"

lemma finite_known_ids [simp]: "finite (known_ids f)"
  by (simp add: known_ids_def)

function reachable_from :: "('s, 'e) cfg_function \<Rightarrow> block_id list \<Rightarrow> block_id list \<Rightarrow> block_id list" where
  "reachable_from f visited [] = visited"
| "reachable_from f visited (i # queue) =
     (if i \<in> set visited then reachable_from f visited queue
      else if i \<in> fst ` set (fn_blocks f)
      then reachable_from f (i # visited)
             (queue @ filter (\<lambda>v. v \<notin> set (i # visited)) (block_successors f i))
      else reachable_from f (i # visited) queue)"
  by pat_completeness auto
termination
proof (relation "measures [\<lambda>(f, visited, _). card (known_ids f - set visited), \<lambda>(_, _, queue). length queue]", goal_cases)
  case (3 f visited i queue)
  then have "i \<in> known_ids f - set visited"
    by (auto simp: known_ids_def)
  then have "card (known_ids f - set (i # visited)) < card (known_ids f - set visited)"
    by (intro psubset_card_mono) auto
  then show ?case by simp
next
  case (4 f visited i queue)
  have "card (known_ids f - set (i # visited)) \<le> card (known_ids f - set visited)"
    by (intro card_mono) auto
  then show ?case by auto
qed auto

definition reachable_blocks :: "('s, 'e) cfg_function \<Rightarrow> block_id list" where
  "reachable_blocks f = reachable_from f [] [fn_entry f]"

section \<open>Reverse postorder\<close>

record frame =
  frame_id :: block_id
  frame_succs :: "block_id list"
  frame_idx :: nat

definition visit_frame :: "('s, 'e) cfg_function \<Rightarrow> block_id \<Rightarrow> frame" where
  "visit_frame f i = \<lparr>frame_id = i, frame_succs = block_successors f i, frame_idx = 0\<rparr>"

lemma exception_targets_none: "\<forall>(u, v)\<in>set es. u \<noteq> i \<Longrightarrow> exception_targets es i acc = acc"
  by (induction es i acc rule: exception_targets.induct) auto

lemma block_successors_unknown: "i \<notin> known_ids f \<Longrightarrow> block_successors f i = []"
  by (subst block_successors_def, subst exception_targets_none)
    (auto simp: known_ids_def map_of_eq_None_iff [THEN iffD2] intro: rev_image_eqI)

definition frame_work :: "frame \<Rightarrow> nat" where
  "frame_work fr = 2 * (length (frame_succs fr) - frame_idx fr) + 1"

text \<open>The top of the stack is the head of the list; visited and postorder grow at their heads.\<close>

function postorder_loop ::
  "('s, 'e) cfg_function \<Rightarrow> block_id list \<Rightarrow> block_id list \<Rightarrow> frame list \<Rightarrow> block_id list" where
  "postorder_loop f visited post [] = post"
| "postorder_loop f visited post (fr # stack) =
     (if frame_idx fr < length (frame_succs fr)
      then let succ = frame_succs fr ! frame_idx fr; fr' = fr\<lparr>frame_idx := frame_idx fr + 1\<rparr> in
        if succ \<notin> set visited
        then postorder_loop f (succ # visited) post (visit_frame f succ # fr' # stack)
        else postorder_loop f visited post (fr' # stack)
      else postorder_loop f visited (frame_id fr # post) stack)"
  by pat_completeness auto
termination
proof (relation "measures [\<lambda>(f, visited, _, _). card (known_ids f - set visited), \<lambda>(_, _, _, stack). sum_list (map frame_work stack)]",
    goal_cases)
  case (2 f visited post fr stack succ fr')
  show ?case
  proof (cases "succ \<in> known_ids f")
    case True
    with 2 have "card (known_ids f - set (succ # visited)) < card (known_ids f - set visited)"
      by (intro psubset_card_mono) auto
    then show ?thesis by simp
  next
    case False
    have "card (known_ids f - set (succ # visited)) = card (known_ids f - set visited)"
      using False by (intro arg_cong [of _ _ card]) auto
    with False 2 show ?thesis
      by (simp add: visit_frame_def frame_work_def block_successors_unknown)
  qed
qed (auto simp: frame_work_def)

text \<open>The postorder of the source is \<open>rev\<close> of the list here, and the source reverses it before it returns.\<close>

definition reverse_postorder :: "('s, 'e) cfg_function \<Rightarrow> block_id list" where
  "reverse_postorder f =
     (if fn_entry f \<in> fst ` set (fn_blocks f)
      then postorder_loop f [fn_entry f] [] [visit_frame f (fn_entry f)] else [])"

section \<open>What the walks return\<close>

definition cfg_edge :: "('s, 'e) cfg_function \<Rightarrow> block_id \<Rightarrow> block_id \<Rightarrow> bool" where
  "cfg_edge f u v \<longleftrightarrow> v \<in> set (block_successors f u)"

text \<open>In an order of discovery every node but the root comes after one of its predecessors.\<close>

fun fathered :: "('a \<Rightarrow> 'a \<Rightarrow> bool) \<Rightarrow> 'a \<Rightarrow> 'a set \<Rightarrow> 'a list \<Rightarrow> bool" where
  "fathered E r seen [] \<longleftrightarrow> True"
| "fathered E r seen (v # vs) \<longleftrightarrow> (v = r \<or> (\<exists>u\<in>seen. E u v)) \<and> fathered E r (insert v seen) vs"

lemma fathered_append [simp]:
  "fathered E r S (xs @ ys) \<longleftrightarrow> fathered E r S xs \<and> fathered E r (S \<union> set xs) ys"
  by (induction xs arbitrary: S) auto

lemma fathered_mono: "fathered E r S xs \<Longrightarrow> S \<subseteq> T \<Longrightarrow> fathered E r T xs"
proof (induction xs arbitrary: S T)
  case (Cons x xs)
  from Cons.IH [of "insert x S" "insert x T"] Cons.prems show ?case by auto
qed simp

lemma fathered_insert:
  "fathered E r S (xs @ ys) \<Longrightarrow> u \<in> set xs \<Longrightarrow> E u v \<Longrightarrow> fathered E r S (xs @ v # ys)"
  by (auto intro: fathered_mono)

lemma fathered_nth:
  "fathered E r {} vs \<Longrightarrow> i < length vs \<Longrightarrow> vs ! i = r \<or> (\<exists>j<i. E (vs ! j) (vs ! i))"
proof -
  assume *: "fathered E r {} vs" "i < length vs"
  then have "fathered E r {} (take i vs @ vs ! i # drop (Suc i) vs)"
    by (simp add: id_take_nth_drop [symmetric])
  then show ?thesis
    using *(2) by (auto simp: in_set_conv_nth)
qed

lemma fathered_reachable: "fathered E r S vs \<Longrightarrow> \<forall>u\<in>S. E\<^sup>*\<^sup>* r u \<Longrightarrow> v \<in> set vs \<Longrightarrow> E\<^sup>*\<^sup>* r v"
proof (induction vs arbitrary: S)
  case (Cons w vs)
  then have "E\<^sup>*\<^sup>* r w" by (auto intro: rtranclp.rtrancl_into_rtrancl)
  with Cons show ?case by (auto intro: Cons.IH [of "insert w S"])
qed simp

lemma closed_reachable: "E\<^sup>*\<^sup>* r v \<Longrightarrow> r \<in> S \<Longrightarrow> (\<And>u w. u \<in> S \<Longrightarrow> E u w \<Longrightarrow> w \<in> S) \<Longrightarrow> v \<in> S"
  by (induction rule: rtranclp_induct) auto

text \<open>The loop: the open frames below the closed blocks form such an order.\<close>

definition frame_ok :: "('s, 'e) cfg_function \<Rightarrow> block_id list \<Rightarrow> frame \<Rightarrow> bool" where
  "frame_ok f visited fr \<longleftrightarrow> frame_succs fr = block_successors f (frame_id fr) \<and>
     set (take (frame_idx fr) (frame_succs fr)) \<subseteq> set visited"

definition dfs_state :: "('s, 'e) cfg_function \<Rightarrow> block_id list \<Rightarrow> block_id list \<Rightarrow> frame list \<Rightarrow> bool" where
  "dfs_state f visited post stack \<longleftrightarrow>
     (let order = rev (map frame_id stack) @ post in
      distinct order \<and> set visited = set order \<and> order \<noteq> [] \<and> hd order = fn_entry f \<and>
      fathered (cfg_edge f) (fn_entry f) {} order \<and>
      list_all (frame_ok f visited) stack \<and> (\<forall>u\<in>set post. set (block_successors f u) \<subseteq> set visited))"

lemma frame_ok_mono: "frame_ok f visited fr \<Longrightarrow> set visited \<subseteq> set visited' \<Longrightarrow> frame_ok f visited' fr"
  by (auto simp: frame_ok_def)

lemma postorder_loop_state: "dfs_state f visited post stack \<Longrightarrow>
  \<exists>visited'. dfs_state f visited' (postorder_loop f visited post stack) []"
proof (induction f visited post stack rule: postorder_loop.induct)
  case (1 f visited post)
  then show ?case by auto
next
  case (2 f visited post fr stack)
  define s where "s = frame_succs fr ! frame_idx fr"
  define fr' where "fr' = fr\<lparr>frame_idx := frame_idx fr + 1\<rparr>"
  note inv = "2.prems" [unfolded dfs_state_def Let_def]
  consider (push) "frame_idx fr < length (frame_succs fr)" "s \<notin> set visited"
    | (skip) "frame_idx fr < length (frame_succs fr)" "s \<in> set visited"
    | (pop) "\<not> frame_idx fr < length (frame_succs fr)" by blast
  then show ?case
  proof cases
    case push
    have ok: "frame_ok f (s # visited) fr'"
      using inv push(1) by (auto simp: frame_ok_def fr'_def s_def take_Suc_conv_app_nth)
    have edge: "cfg_edge f (frame_id fr) s"
      using inv push(1) by (auto simp: frame_ok_def cfg_edge_def s_def)
    have "fathered (cfg_edge f) (fn_entry f) {} (rev (map frame_id (fr' # stack)) @ s # post)"
      by (rule fathered_insert [where u = "frame_id fr"]) (use inv edge in \<open>auto simp: fr'_def\<close>)
    moreover have "list_all (frame_ok f (s # visited)) stack"
      using inv by (auto elim!: list.pred_mono_strong intro: frame_ok_mono)
    moreover have "frame_ok f (s # visited) (visit_frame f s)"
      by (simp add: frame_ok_def visit_frame_def)
    moreover have "hd (rev (map frame_id (fr' # stack)) @ s # post) = fn_entry f"
      using inv by (simp add: fr'_def hd_append split: if_splits)
    ultimately have "dfs_state f (s # visited) post (visit_frame f s # fr' # stack)"
      unfolding dfs_state_def Let_def using inv push(2) ok
      by (simp add: fr'_def visit_frame_def) blast
    with "2.IH"(1) push show ?thesis by (simp add: s_def fr'_def Let_def)
  next
    case skip
    have "frame_ok f visited fr'"
      using inv skip by (auto simp: frame_ok_def fr'_def s_def take_Suc_conv_app_nth)
    then have "dfs_state f visited post (fr' # stack)"
      unfolding dfs_state_def Let_def using inv by (simp add: fr'_def) blast
    with "2.IH"(2) skip show ?thesis by (simp add: s_def fr'_def Let_def)
  next
    case pop
    then have "set (block_successors f (frame_id fr)) \<subseteq> set visited"
      using inv by (auto simp: frame_ok_def)
    then have "dfs_state f visited (frame_id fr # post) stack"
      unfolding dfs_state_def Let_def using inv by simp blast
    with "2.IH"(3) pop show ?thesis by simp
  qed
qed

lemma postorder_start: "dfs_state f [fn_entry f] [] [visit_frame f (fn_entry f)]"
  by (simp add: dfs_state_def visit_frame_def frame_ok_def)

lemma reverse_postorder_state:
  assumes "fn_entry f \<in> fst ` set (fn_blocks f)"
  obtains visited where "dfs_state f visited (reverse_postorder f) []"
  using postorder_loop_state [OF postorder_start] assms by (auto simp: reverse_postorder_def)

lemma reverse_postorder_order:
  assumes "fn_entry f \<in> fst ` set (fn_blocks f)"
  shows "distinct (reverse_postorder f)" "reverse_postorder f \<noteq> []" "reverse_postorder f ! 0 = fn_entry f"
    "fathered (cfg_edge f) (fn_entry f) {} (reverse_postorder f)"
    "set (reverse_postorder f) = {v. (cfg_edge f)\<^sup>*\<^sup>* (fn_entry f) v}"
proof -
  from assms obtain visited where inv: "dfs_state f visited (reverse_postorder f) []"
    by (rule reverse_postorder_state)
  then show "distinct (reverse_postorder f)" "reverse_postorder f \<noteq> []" "reverse_postorder f ! 0 = fn_entry f"
    and fathered: "fathered (cfg_edge f) (fn_entry f) {} (reverse_postorder f)"
    by (auto simp: dfs_state_def Let_def hd_conv_nth)
  have closed: "v \<in> set (reverse_postorder f)" if "(cfg_edge f)\<^sup>*\<^sup>* (fn_entry f) v" for v
    using that
  proof (rule closed_reachable)
    show "fn_entry f \<in> set (reverse_postorder f)"
      using inv by (auto simp: dfs_state_def Let_def dest: hd_in_set)
    show "w \<in> set (reverse_postorder f)" if "u \<in> set (reverse_postorder f)" "cfg_edge f u w" for u w
      using inv that by (auto simp: dfs_state_def Let_def cfg_edge_def)
  qed
  then show "set (reverse_postorder f) = {v. (cfg_edge f)\<^sup>*\<^sup>* (fn_entry f) v}"
    using fathered_reachable [OF fathered] by auto
qed

text \<open>
  Breadth-first search agrees when every edge starts at a block. That is what the constructors maintain:
  an exception edge comes from a block of the function, and the entry is one. Identifiers have 32 bits.
\<close>

definition fn_ok :: "('s, 'e) cfg_function \<Rightarrow> bool" where
  "fn_ok f \<longleftrightarrow> fn_entry f \<in> fst ` set (fn_blocks f) \<and> fst ` set (exception_edges f) \<subseteq> fst ` set (fn_blocks f) \<and>
     (\<forall>i\<in>fst ` set (fn_blocks f). i < 2 ^ 32 \<and> (\<forall>v\<in>set (block_successors f i). v < 2 ^ 32))"

lemma fn_ok_entry: "fn_ok f \<Longrightarrow> fn_entry f \<in> fst ` set (fn_blocks f)"
  by (simp add: fn_ok_def)

lemma edge_from_block: "fn_ok f \<Longrightarrow> cfg_edge f u v \<Longrightarrow> u \<in> fst ` set (fn_blocks f)"
  using block_successors_unknown [of u f] unfolding fn_ok_def cfg_edge_def known_ids_def
  by (metis Un_iff empty_iff list.set(1) subsetD)

lemma fn_ok_ids:
  assumes "fn_ok f"
  shows "i \<in> fst ` set (fn_blocks f) \<Longrightarrow> i < 2 ^ 32" "cfg_edge f u v \<Longrightarrow> v < 2 ^ 32"
  using assms edge_from_block [OF assms, of u v] unfolding fn_ok_def cfg_edge_def by blast+

lemma reachable_from_sound:
  "(\<forall>v\<in>set visited \<union> set queue. (cfg_edge f)\<^sup>*\<^sup>* r v) \<Longrightarrow> v \<in> set (reachable_from f visited queue) \<Longrightarrow>
   (cfg_edge f)\<^sup>*\<^sup>* r v"
proof (induction f visited queue rule: reachable_from.induct)
  case (2 f visited i queue)
  then show ?case
    by (auto simp: cfg_edge_def split: if_splits intro: rtranclp.rtrancl_into_rtrancl)
qed simp

lemma reachable_from_closed:
  "(\<forall>u\<in>set visited. \<forall>w. cfg_edge f u w \<longrightarrow> w \<in> set visited \<union> set queue) \<Longrightarrow> fn_ok f \<Longrightarrow>
   set visited \<union> set queue \<subseteq> set (reachable_from f visited queue) \<and>
   (\<forall>u\<in>set (reachable_from f visited queue). \<forall>w. cfg_edge f u w \<longrightarrow> w \<in> set (reachable_from f visited queue))"
proof (induction f visited queue rule: reachable_from.induct)
  case (2 f visited i queue)
  consider (seen) "i \<in> set visited" | (block) "i \<notin> set visited" "i \<in> fst ` set (fn_blocks f)"
    | (other) "i \<notin> set visited" "i \<notin> fst ` set (fn_blocks f)" by blast
  then show ?case
  proof cases
    case seen
    then show ?thesis using 2 by auto
  next
    case block
    let ?q = "queue @ filter (\<lambda>v. v \<notin> set (i # visited)) (block_successors f i)"
    have "\<forall>u\<in>set (i # visited). \<forall>w. cfg_edge f u w \<longrightarrow> w \<in> set (i # visited) \<union> set ?q"
      using "2.prems"(1) by (auto simp: cfg_edge_def)
    from "2.IH"(2) [OF block this "2.prems"(2)] block show ?thesis by simp
  next
    case other
    have "\<forall>u\<in>set (i # visited). \<forall>w. cfg_edge f u w \<longrightarrow> w \<in> set (i # visited) \<union> set queue"
      using "2.prems"(1) other(2) by (auto dest: edge_from_block [OF "2.prems"(2)])
    from "2.IH"(3) [OF other this "2.prems"(2)] other show ?thesis by simp
  qed
qed simp

lemma reachable_blocks_set:
  assumes "fn_ok f"
  shows "set (reachable_blocks f) = {v. (cfg_edge f)\<^sup>*\<^sup>* (fn_entry f) v}"
proof (intro equalityI subsetI)
  fix v assume "v \<in> set (reachable_blocks f)"
  then show "v \<in> {v. (cfg_edge f)\<^sup>*\<^sup>* (fn_entry f) v}"
    using reachable_from_sound [of "[]" "[fn_entry f]" f "fn_entry f"]
    by (simp add: reachable_blocks_def del: reachable_from.simps)
next
  fix v assume "v \<in> {v. (cfg_edge f)\<^sup>*\<^sup>* (fn_entry f) v}"
  then show "v \<in> set (reachable_blocks f)"
    using reachable_from_closed [of "[]" f "[fn_entry f]"] assms
    by (auto simp: reachable_blocks_def simp del: reachable_from.simps intro: closed_reachable)
qed

lemma distinct_reachable_from: "distinct visited \<Longrightarrow> distinct (reachable_from f visited queue)"
  by (induction f visited queue rule: reachable_from.induct) auto

lemma distinct_reachable_blocks [simp]: "distinct (reachable_blocks f)"
  by (simp add: reachable_blocks_def distinct_reachable_from)

text \<open>The predecessor map is the edge relation turned round.\<close>

definition preds_of :: "(block_id \<rightharpoonup> 'a list) \<Rightarrow> block_id \<Rightarrow> 'a list" where
  "preds_of m v = (case m v of Some ps \<Rightarrow> ps | None \<Rightarrow> [])"

lemma preds_of_or_default [simp]: "preds_of (or_default m k) v = preds_of m v"
  by (simp add: preds_of_def or_default_def split: option.splits)

lemma preds_of_add_pred:
  "preds_of (add_pred u w m) v = (if v = w then List.insert u (preds_of m v) else preds_of m v)"
  by (simp add: preds_of_def add_pred_def)

lemma preds_of_add_preds: "set (preds_of (fold (add_pred u) ws m) v) = set (preds_of m v) \<union> (if v \<in> set ws then {u} else {})"
  by (induction ws arbitrary: m) (auto simp: preds_of_add_pred)

lemma preds_of_all:
  "set (preds_of (fold (\<lambda>u. fold (add_pred u) (block_successors f u)) us m) v) =
     set (preds_of m v) \<union> {u \<in> set us. cfg_edge f u v}"
  by (induction us arbitrary: m) (auto simp: preds_of_add_preds cfg_edge_def)

lemma preds_of_defaults: "preds_of (fold (\<lambda>k m. or_default m k) ks m) v = preds_of m v"
  by (induction ks arbitrary: m) simp_all

lemma predecessors_set: "fn_ok f \<Longrightarrow> set (preds_of (predecessors f) v) = {u. cfg_edge f u v}"
  using edge_from_block [of f]
  by (auto simp: predecessors_def preds_of_all preds_of_defaults) (simp add: preds_of_def)

lemma distinct_preds_of_all:
  "distinct (preds_of m v) \<Longrightarrow> distinct (preds_of (fold (\<lambda>u. fold (add_pred u) (block_successors f u)) us m) v)"
proof -
  have "distinct (preds_of (add_pred u w m) v) \<longleftrightarrow> distinct (preds_of m v)" for u w m
    by (simp add: preds_of_add_pred)
  then have "distinct (preds_of m v) \<Longrightarrow> distinct (preds_of (fold (add_pred u) ws m) v)" for u ws m
    by (induction ws arbitrary: m) simp_all
  then show "distinct (preds_of m v) \<Longrightarrow> ?thesis" by (induction us arbitrary: m) simp_all
qed

lemma distinct_predecessors [simp]: "distinct (preds_of (predecessors f) v)"
  unfolding predecessors_def by (rule distinct_preds_of_all) (simp add: preds_of_defaults, simp add: preds_of_def)

end
