(* ===== verification/Dominance.thy ===== *)
theory Dominance
  imports Cfg
begin

text \<open>
  Immediate dominators, \<open>compute_idom_fast\<close> of \<open>tcl-compiler/src/ssa.rs\<close>: the algorithm of Cooper,
  Harvey and Kennedy over reverse-postorder numbers, with the sentinel \<open>usize::MAX\<close> for a block not
  reached yet. Its loops run until nothing changes and index with what they stored, so they are partial
  functions: \<open>None\<close> is an index out of range or a loop that does not end.
\<close>

section \<open>The algorithm\<close>

definition UNDEF :: nat where
  "UNDEF = 2 ^ 64 - 1"

partial_function (option) climb :: "nat list \<Rightarrow> nat \<Rightarrow> nat \<Rightarrow> nat option" where
  "climb d b a =
     (if a > b then (case byte_at d a of Some a' \<Rightarrow> climb d b a' | None \<Rightarrow> None) else Some a)"

partial_function (option) intersect :: "nat list \<Rightarrow> nat \<Rightarrow> nat \<Rightarrow> nat option" where
  "intersect d a b =
     (if a = b then Some a
      else (case climb d b a of
              Some a' \<Rightarrow> (case climb d a' b of Some b' \<Rightarrow> intersect d a' b' | None \<Rightarrow> None)
            | None \<Rightarrow> None))"

fun new_idom_loop :: "(block_id \<rightharpoonup> nat) \<Rightarrow> nat list \<Rightarrow> nat \<Rightarrow> block_id list \<Rightarrow> nat option" where
  "new_idom_loop ix d new_idom [] = Some new_idom"
| "new_idom_loop ix d new_idom (p # ps) =
     (case ix p of
        None \<Rightarrow> new_idom_loop ix d new_idom ps
      | Some k \<Rightarrow>
          (case byte_at d k of
             None \<Rightarrow> None
           | Some dk \<Rightarrow>
               if dk = UNDEF then new_idom_loop ix d new_idom ps
               else if new_idom = UNDEF then new_idom_loop ix d k ps
               else (case intersect d k new_idom of
                       Some c \<Rightarrow> new_idom_loop ix d c ps
                     | None \<Rightarrow> None)))"

fun idom_pass :: "(block_id \<rightharpoonup> nat) \<Rightarrow> (nat \<Rightarrow> block_id list) \<Rightarrow> nat list \<Rightarrow> bool \<Rightarrow> nat list \<Rightarrow> (nat list \<times> bool) option" where
  "idom_pass ix ps d changed [] = Some (d, changed)"
| "idom_pass ix ps d changed (i # is) =
     (case new_idom_loop ix d UNDEF (ps i) of
        None \<Rightarrow> None
      | Some c \<Rightarrow>
          if c \<noteq> UNDEF \<and> d ! i \<noteq> c then idom_pass ix ps (d[i := c]) True is
          else idom_pass ix ps d changed is)"

partial_function (option) idom_fix :: "(block_id \<rightharpoonup> nat) \<Rightarrow> (nat \<Rightarrow> block_id list) \<Rightarrow> nat list \<Rightarrow> nat list option" where
  "idom_fix ix ps d =
     (case idom_pass ix ps d False [1..<length d] of
        None \<Rightarrow> None
      | Some (d', changed) \<Rightarrow> if changed then idom_fix ix ps d' else Some d')"

declare climb.simps [code] intersect.simps [code] idom_fix.simps [code]

definition rpo_index :: "block_id list \<Rightarrow> (block_id \<rightharpoonup> nat)" where
  "rpo_index rpo = fold (\<lambda>(i, v) m. m(v \<mapsto> i)) (enumerate 0 rpo) (\<lambda>_. None)"

definition idom_out ::
  "block_id list \<Rightarrow> nat list \<Rightarrow> (block_id \<rightharpoonup> block_id option) \<Rightarrow> (block_id \<rightharpoonup> block_id option)" where
  "idom_out rpo d =
     fold (\<lambda>(i, v) m. m(v \<mapsto> (if i = 0 \<or> d ! i = UNDEF then None else Some (rpo ! (d ! i))))) (enumerate 0 rpo)"

definition compute_idom_fast :: "('s, 'e) cfg_function \<Rightarrow> (block_id \<rightharpoonup> block_id option) option" where
  "compute_idom_fast f =
     (let rpo = reverse_postorder f;
          none = fold (\<lambda>k m. m(k \<mapsto> None)) (map fst (fn_blocks f)) (\<lambda>_. None)
      in if rpo = [] then Some none
         else (case idom_fix (rpo_index rpo) (\<lambda>i. preds_of (predecessors f) (rpo ! i)) ((replicate (length rpo) UNDEF)[0 := 0]) of
                 Some d \<Rightarrow> Some (idom_out rpo d none)
               | None \<Rightarrow> None))"

section \<open>Paths and dominators\<close>

text \<open>A path is written from its end back to the root.\<close>

inductive path :: "('a \<Rightarrow> 'a \<Rightarrow> bool) \<Rightarrow> 'a \<Rightarrow> 'a list \<Rightarrow> bool" for E r where
  root: "path E r [r]"
| edge: "path E r (u # xs) \<Longrightarrow> E u v \<Longrightarrow> path E r (v # u # xs)"

inductive_simps path_single [simp]: "path E r [v]"
inductive_simps path_edge [simp]: "path E r (v # u # xs)"
inductive_cases path_NilE [elim!]: "path E r []"

definition dominator :: "('a \<Rightarrow> 'a \<Rightarrow> bool) \<Rightarrow> 'a \<Rightarrow> 'a \<Rightarrow> 'a \<Rightarrow> bool" where
  "dominator E r a b \<longleftrightarrow> (\<forall>xs. path E r (b # xs) \<longrightarrow> a \<in> set (b # xs))"

text \<open>The immediate dominator is the strict dominator that all the others dominate.\<close>

definition immediate :: "('a \<Rightarrow> 'a \<Rightarrow> bool) \<Rightarrow> 'a \<Rightarrow> 'a \<Rightarrow> 'a \<Rightarrow> bool" where
  "immediate E r d b \<longleftrightarrow> d \<noteq> b \<and> dominator E r d b \<and> (\<forall>a. a \<noteq> b \<longrightarrow> dominator E r a b \<longrightarrow> dominator E r a d)"

lemma dominator_refl [simp]: "dominator E r a a"
  by (simp add: dominator_def)

lemma dominatorD: "dominator E r a b \<Longrightarrow> path E r (b # xs) \<Longrightarrow> a \<in> set (b # xs)"
  by (simp add: dominator_def)

lemma path_suffix: "path E r (xs @ v # ys) \<Longrightarrow> path E r (v # ys)"
proof (induction xs)
  case (Cons x xs)
  then show ?case by (cases xs) auto
qed simp

lemma path_split: "path E r p \<Longrightarrow> v \<in> set p \<Longrightarrow> \<exists>xs ys. p = xs @ v # ys \<and> path E r (v # ys)"
  by (metis path_suffix split_list)

lemma path_reachable: "path E r (v # xs) \<Longrightarrow> E\<^sup>*\<^sup>* r v"
proof (induction xs arbitrary: v)
  case (Cons u xs)
  then show ?case by (auto intro: rtranclp.rtrancl_into_rtrancl)
qed simp

lemma reachable_path: "E\<^sup>*\<^sup>* r v \<Longrightarrow> \<exists>xs. path E r (v # xs)"
  by (induction rule: rtranclp_induct) (auto intro: path.intros)

lemma simple_path: "path E r (v # xs) \<Longrightarrow>
  \<exists>ys. path E r (v # ys) \<and> distinct (v # ys) \<and> set (v # ys) \<subseteq> set (v # xs)"
proof (induction xs arbitrary: v)
  case (Cons u xs)
  then obtain ys where ys: "path E r (u # ys)" "distinct (u # ys)" "set (u # ys) \<subseteq> set (u # xs)" "E u v"
    by auto
  show ?case
  proof (cases "v \<in> set (u # ys)")
    case True
    from path_split [OF ys(1) True] obtain as bs where "u # ys = as @ v # bs" "path E r (v # bs)"
      by auto
    with ys(2,3) show ?thesis by (intro exI [of _ bs]) auto
  next
    case False
    with ys show ?thesis by (intro exI [of _ "u # ys"]) auto
  qed
qed (auto intro: exI [of _ "[]"])

lemma dominator_trans: "dominator E r a b \<Longrightarrow> dominator E r b c \<Longrightarrow> dominator E r a c"
  unfolding dominator_def by (metis (no_types, opaque_lifting) path_split set_append Un_iff)

lemma dominator_pred: "dominator E r a b \<Longrightarrow> a \<noteq> b \<Longrightarrow> E p b \<Longrightarrow> dominator E r a p"
  unfolding dominator_def by (metis path.edge set_ConsD)

lemma dominator_antisym:
  assumes "dominator E r a b" "dominator E r b a" "E\<^sup>*\<^sup>* r b"
  shows "a = b"
proof (rule ccontr)
  assume "a \<noteq> b"
  from reachable_path [OF assms(3)] obtain xs where "path E r (b # xs)" ..
  from simple_path [OF this] obtain ys where ys: "path E r (b # ys)" "distinct (b # ys)" by auto
  with dominatorD [OF assms(1) ys(1)] \<open>a \<noteq> b\<close> obtain as bs where "ys = as @ a # bs"
    by (auto dest: split_list)
  with ys have "path E r (a # bs)" "b \<notin> set (a # bs)"
    using path_suffix [of E r "b # as" a bs] by auto
  with dominatorD [OF assms(2)] show False by blast
qed

lemma immediate_unique:
  assumes "immediate E r d b" "immediate E r d' b" "E\<^sup>*\<^sup>* r b"
  shows "d = d'"
proof -
  have "dominator E r d d'" "dominator E r d' d"
    using assms(1,2) by (auto simp: immediate_def)
  moreover have "E\<^sup>*\<^sup>* r d'"
  proof -
    from reachable_path [OF assms(3)] obtain xs where xs: "path E r (b # xs)" ..
    with assms(2) have "d' \<in> set (b # xs)" by (auto simp: immediate_def dest: dominatorD)
    from path_split [OF xs this] show ?thesis by (auto dest: path_reachable)
  qed
  ultimately show ?thesis by (rule dominator_antisym)
qed

section \<open>The stored tree\<close>

text \<open>
  The graph of reverse-postorder numbers: the root is 0, and every other node has a predecessor with a
  smaller number.
\<close>

definition numbered :: "(nat \<Rightarrow> nat \<Rightarrow> bool) \<Rightarrow> nat \<Rightarrow> bool" where
  "numbered E n \<longleftrightarrow> 0 < n \<and> n \<le> UNDEF \<and> (\<forall>i j. E i j \<longrightarrow> i < n \<and> j < n) \<and> (\<forall>i<n. 0 < i \<longrightarrow> (\<exists>j<i. E j i))"

definition stored :: "nat \<Rightarrow> nat list \<Rightarrow> bool" where
  "stored n d \<longleftrightarrow> length d = n \<and> 0 < n \<and> n \<le> UNDEF \<and> d ! 0 = 0 \<and>
     (\<forall>i<n. 0 < i \<longrightarrow> d ! i = UNDEF \<or> d ! i < i \<and> d ! (d ! i) \<noteq> UNDEF)"

function chain :: "nat list \<Rightarrow> nat \<Rightarrow> nat list" where
  "chain d i = (if d ! i < i then i # chain d (d ! i) else [i])"
  by pat_completeness auto
termination by (relation "measure snd") auto

declare chain.simps [simp del]

lemma self_in_chain [simp]: "i \<in> set (chain d i)"
  by (subst chain.simps) simp

lemma chain_le: "c \<in> set (chain d i) \<Longrightarrow> c \<le> i"
proof (induction d i rule: chain.induct)
  case (1 d i)
  from "1.prems" show ?case
    by (subst (asm) chain.simps) (use "1.IH" in \<open>fastforce split: if_splits\<close>)
qed

lemma chain_parent: "d ! i < i \<Longrightarrow> set (chain d i) = insert i (set (chain d (d ! i)))"
  by (subst chain.simps) simp

lemma chain_root: "\<not> d ! i < i \<Longrightarrow> set (chain d i) = {i}"
  by (subst chain.simps) simp

lemma chain_trans: "c \<in> set (chain d i) \<Longrightarrow> set (chain d c) \<subseteq> set (chain d i)"
proof (induction d i rule: chain.induct)
  case (1 d i)
  then show ?case by (cases "d ! i < i") (auto simp: chain_parent chain_root)
qed

lemma chain_mem_cases:
  "c \<in> set (chain d i) \<Longrightarrow> (c = i \<Longrightarrow> P) \<Longrightarrow> (d ! i < i \<Longrightarrow> c \<in> set (chain d (d ! i)) \<Longrightarrow> P) \<Longrightarrow> P"
  by (cases "d ! i < i") (auto simp: chain_parent chain_root)

lemma chain_linear: "a \<in> set (chain d i) \<Longrightarrow> b \<in> set (chain d i) \<Longrightarrow> a \<le> b \<Longrightarrow> a \<in> set (chain d b)"
proof (induction d i rule: chain.induct)
  case (1 d i)
  from "1.prems"(2) show ?case
  proof (rule chain_mem_cases)
    assume b: "d ! i < i" "b \<in> set (chain d (d ! i))"
    from "1.prems"(1) show ?thesis
      by (rule chain_mem_cases) (use b "1" in \<open>auto dest: chain_le\<close>)
  qed (use "1.prems"(1) in simp)
qed

lemma chain_update_below: "c < i \<Longrightarrow> chain (d[i := x]) c = chain d c"
proof (induction d c rule: chain.induct)
  case (1 d c)
  then show ?case by (subst (1 2) chain.simps) auto
qed

lemma chain_update_above: "i \<notin> set (chain d c) \<Longrightarrow> chain (d[i := x]) c = chain d c"
proof (induction d c rule: chain.induct)
  case (1 d c)
  then have "c \<noteq> i" by auto
  with 1 show ?case by (subst (1 2) chain.simps) (auto simp: chain_parent)
qed

lemma stored_defined_chain:
  "stored n d \<Longrightarrow> i < n \<Longrightarrow> d ! i \<noteq> UNDEF \<Longrightarrow> c \<in> set (chain d i) \<Longrightarrow> d ! c \<noteq> UNDEF \<and> c < n"
proof (induction d i rule: chain.induct)
  case (1 d i)
  from "1.prems"(4) show ?case
    by (rule chain_mem_cases) (use 1 in \<open>auto simp: stored_def\<close>)
qed

lemma stored_zero: "stored n d \<Longrightarrow> i < n \<Longrightarrow> d ! i \<noteq> UNDEF \<Longrightarrow> 0 \<in> set (chain d i)"
proof (induction d i rule: chain.induct)
  case (1 d i)
  show ?case
  proof (cases "i = 0")
    case False
    with 1 have "d ! i < i" "d ! (d ! i) \<noteq> UNDEF" by (auto simp: stored_def)
    with 1 show ?thesis by (simp add: chain_parent)
  qed simp
qed

text \<open>Climbing and meeting: the deepest common ancestor.\<close>

lemma climb_stored:
  assumes "stored n d"
  shows "a < n \<Longrightarrow> d ! a \<noteq> UNDEF \<Longrightarrow>
    \<exists>a'. climb d b a = Some a' \<and> a' \<in> set (chain d a) \<and> a' \<le> b \<and> (\<forall>x\<in>set (chain d a). x \<le> b \<longrightarrow> x \<in> set (chain d a'))"
proof (induction a rule: less_induct)
  case (less a)
  show ?case
  proof (cases "a > b")
    case True
    with less.prems assms have step: "d ! a < a" "d ! (d ! a) \<noteq> UNDEF" "d ! a < n" "a < length d"
      by (auto simp: stored_def)
    with less.IH [OF step(1) step(3) step(2)] obtain a' where
      "climb d b (d ! a) = Some a'" "a' \<in> set (chain d (d ! a))" "a' \<le> b"
      "\<forall>x\<in>set (chain d (d ! a)). x \<le> b \<longrightarrow> x \<in> set (chain d a')" by auto
    with True step show ?thesis
      by (subst climb.simps) (auto simp: byte_at_def chain_parent)
  next
    case False
    then show ?thesis by (subst climb.simps) auto
  qed
qed

lemma intersect_stored:
  assumes "stored n d"
  shows "a < n \<Longrightarrow> b < n \<Longrightarrow> d ! a \<noteq> UNDEF \<Longrightarrow> d ! b \<noteq> UNDEF \<Longrightarrow>
    \<exists>c. intersect d a b = Some c \<and> c \<in> set (chain d a) \<inter> set (chain d b) \<and>
        set (chain d a) \<inter> set (chain d b) \<subseteq> set (chain d c)"
proof (induction "a + b" arbitrary: a b rule: less_induct)
  case less
  show ?case
  proof (cases "a = b")
    case True
    then show ?thesis by (subst intersect.simps) auto
  next
    case False
    obtain a' where a': "climb d b a = Some a'" "a' \<in> set (chain d a)" "a' \<le> b"
      "\<forall>x\<in>set (chain d a). x \<le> b \<longrightarrow> x \<in> set (chain d a')"
      using climb_stored [OF assms less.prems(1,3)] by blast
    obtain b' where b': "climb d a' b = Some b'" "b' \<in> set (chain d b)" "b' \<le> a'"
      "\<forall>x\<in>set (chain d b). x \<le> a' \<longrightarrow> x \<in> set (chain d b')"
      using climb_stored [OF assms less.prems(2,4)] by blast
    have def: "d ! a' \<noteq> UNDEF" "a' < n" "d ! b' \<noteq> UNDEF" "b' < n"
      using stored_defined_chain [OF assms] less.prems a'(2) b'(2) by blast+
    have "a' + b' < a + b"
      using False a' b' by (auto dest!: chain_le)
    from less.hyps [OF this def(2,4,1,3)] obtain c where c: "intersect d a' b' = Some c"
      "c \<in> set (chain d a') \<inter> set (chain d b')" "set (chain d a') \<inter> set (chain d b') \<subseteq> set (chain d c)" by blast
    have "x \<in> set (chain d a') \<inter> set (chain d b')" if "x \<in> set (chain d a) \<inter> set (chain d b)" for x
      using that a'(4) b'(4) by (auto dest: chain_le)
    with c a' b' False chain_trans [OF a'(2)] chain_trans [OF b'(2)] show ?thesis
      by (subst intersect.simps) auto
  qed
qed

text \<open>One node: the meet over the predecessors already reached.\<close>

definition meets :: "nat list \<Rightarrow> nat \<Rightarrow> nat set \<Rightarrow> nat \<Rightarrow> bool" where
  "meets d n K c \<longleftrightarrow>
     (if K = {} then c = UNDEF
      else c < n \<and> d ! c \<noteq> UNDEF \<and> (\<forall>k\<in>K. c \<in> set (chain d k)) \<and>
        (\<forall>x. (\<forall>k\<in>K. x \<in> set (chain d k)) \<longrightarrow> x \<in> set (chain d c)))"

definition reached :: "(block_id \<rightharpoonup> nat) \<Rightarrow> nat list \<Rightarrow> block_id list \<Rightarrow> nat set" where
  "reached ix d ps = {k. d ! k \<noteq> UNDEF \<and> (\<exists>p\<in>set ps. ix p = Some k)}"

lemma reached_Nil [simp]: "reached ix d [] = {}"
  by (simp add: reached_def)

lemma reached_Cons: "reached ix d (p # ps) =
  (case ix p of Some k \<Rightarrow> if d ! k = UNDEF then reached ix d ps else insert k (reached ix d ps) | None \<Rightarrow> reached ix d ps)"
  by (auto simp: reached_def split: option.splits)

lemma new_idom_loop_meets:
  assumes "stored n d"
  shows "(\<And>p k. p \<in> set ps \<Longrightarrow> ix p = Some k \<Longrightarrow> k < n) \<Longrightarrow> acc = UNDEF \<or> acc < n \<and> d ! acc \<noteq> UNDEF \<Longrightarrow>
    \<exists>c. new_idom_loop ix d acc ps = Some c \<and>
        meets d n (reached ix d ps \<union> (if acc = UNDEF then {} else {acc})) c"
proof (induction ps arbitrary: acc)
  case Nil
  then show ?case by (auto simp: meets_def)
next
  case (Cons p ps)
  have IH: "\<exists>c. new_idom_loop ix d a ps = Some c \<and> meets d n (reached ix d ps \<union> (if a = UNDEF then {} else {a})) c"
    if "a = UNDEF \<or> a < n \<and> d ! a \<noteq> UNDEF" for a
    by (rule Cons.IH) (use Cons.prems(1) that in auto)
  show ?case
  proof (cases "ix p")
    case None
    with IH [OF Cons.prems(2)] show ?thesis by (simp add: reached_Cons)
  next
    case (Some k)
    with Cons.prems(1) [of p k] have k: "k < n" by simp
    with assms have byte: "byte_at d k = Some (d ! k)" and n: "n \<le> UNDEF" by (auto simp: byte_at_def stored_def)
    consider (skip) "d ! k = UNDEF" | (first) "d ! k \<noteq> UNDEF" "acc = UNDEF" | (meet) "d ! k \<noteq> UNDEF" "acc \<noteq> UNDEF"
      by blast
    then show ?thesis
    proof cases
      case skip
      with IH [OF Cons.prems(2)] Some byte show ?thesis by (simp add: reached_Cons)
    next
      case first
      have "\<exists>c. new_idom_loop ix d k ps = Some c \<and> meets d n (reached ix d ps \<union> (if k = UNDEF then {} else {k})) c"
        by (rule IH) (use k first in auto)
      with first Some byte k n show ?thesis by (auto simp: reached_Cons)
    next
      case meet
      with Cons.prems(2) have acc: "acc < n" "d ! acc \<noteq> UNDEF" by auto
      from intersect_stored [OF assms k acc(1) meet(1) acc(2)] obtain a where a: "intersect d k acc = Some a"
        "a \<in> set (chain d k)" "a \<in> set (chain d acc)" "set (chain d k) \<inter> set (chain d acc) \<subseteq> set (chain d a)"
        by auto
      then have def: "d ! a \<noteq> UNDEF" "a < n" using stored_defined_chain [OF assms k meet(1)] by auto
      have "\<exists>c. new_idom_loop ix d a ps = Some c \<and> meets d n (reached ix d ps \<union> (if a = UNDEF then {} else {a})) c"
        by (rule IH) (use def in auto)
      then obtain c where c: "new_idom_loop ix d a ps = Some c" "meets d n (reached ix d ps \<union> {a}) c"
        using def n by auto
      then have "meets d n (reached ix d (p # ps) \<union> {acc}) c"
        using a Some meet chain_trans [OF a(2)] chain_trans [OF a(3)]
        unfolding meets_def by (simp add: reached_Cons) blast
      with c(1) a(1) meet Some byte show ?thesis by simp
    qed
  qed
qed

section \<open>The passes\<close>

text \<open>
  After \<open>t\<close> passes the stored ancestors of a node lie on every path to it with fewer than \<open>t\<close> steps
  against the numbering, and they never lose a dominator.
\<close>

fun retreats :: "nat list \<Rightarrow> nat" where
  "retreats (v # u # xs) = (if v \<le> u then 1 else 0) + retreats (u # xs)"
| "retreats _ = 0"

definition idom_state :: "(nat \<Rightarrow> nat \<Rightarrow> bool) \<Rightarrow> nat \<Rightarrow> nat \<Rightarrow> nat \<Rightarrow> nat list \<Rightarrow> bool" where
  "idom_state E n t k d \<longleftrightarrow> stored n d \<and>
     (\<forall>j<n. j < k \<or> 0 < t \<longrightarrow> d ! j \<noteq> UNDEF) \<and>
     (\<forall>j<n. 0 < j \<longrightarrow> d ! j \<noteq> UNDEF \<longrightarrow> (\<forall>a. a \<noteq> j \<longrightarrow> dominator E 0 a j \<longrightarrow> dominator E 0 a (d ! j))) \<and>
     (\<forall>j<n. \<forall>xs. path E 0 (j # xs) \<longrightarrow> retreats (j # xs) < (if j < k then Suc t else t) \<longrightarrow>
        set (chain d j) \<subseteq> set (j # xs))"

lemma idom_stateD:
  assumes "idom_state E n t k d"
  shows "stored n d" "\<And>j. j < n \<Longrightarrow> j < k \<or> 0 < t \<Longrightarrow> d ! j \<noteq> UNDEF"
    "\<And>j a. j < n \<Longrightarrow> 0 < j \<Longrightarrow> d ! j \<noteq> UNDEF \<Longrightarrow> a \<noteq> j \<Longrightarrow> dominator E 0 a j \<Longrightarrow> dominator E 0 a (d ! j)"
    "\<And>j xs. j < n \<Longrightarrow> path E 0 (j # xs) \<Longrightarrow> retreats (j # xs) < (if j < k then Suc t else t) \<Longrightarrow>
       set (chain d j) \<subseteq> set (j # xs)"
  using assms unfolding idom_state_def by blast+

lemma dominator_root: "dominator E r a r \<Longrightarrow> a = r"
  by (auto dest!: dominatorD [where xs = "[]"])

lemma dominator_chain:
  assumes "idom_state E n t k d"
  shows "j < n \<Longrightarrow> d ! j \<noteq> UNDEF \<Longrightarrow> dominator E 0 a j \<Longrightarrow> a \<in> set (chain d j)"
proof (induction j rule: less_induct)
  case (less j)
  show ?case
  proof (cases "a = j \<or> j = 0")
    case True
    with less.prems(3) show ?thesis by (auto dest: dominator_root)
  next
    case False
    with less.prems idom_stateD(1) [OF assms] have "d ! j < j" "d ! (d ! j) \<noteq> UNDEF" by (auto simp: stored_def)
    with False less.IH [of "d ! j"] less.prems idom_stateD(3) [OF assms less.prems(1)] show ?thesis
      by (simp add: chain_parent)
  qed
qed

lemma dominator_above:
  assumes "idom_state E n t k d"
  shows "j < n \<Longrightarrow> d ! j \<noteq> UNDEF \<Longrightarrow> dominator E 0 a j \<Longrightarrow> c \<in> set (chain d j) \<Longrightarrow> a \<le> c \<Longrightarrow> dominator E 0 a c"
proof (induction j rule: less_induct)
  case (less j)
  from less.prems(4) show ?case
  proof (rule chain_mem_cases)
    assume c: "d ! j < j" "c \<in> set (chain d (d ! j))"
    then have "a \<noteq> j" using less.prems(5) by (auto dest: chain_le)
    moreover have "d ! (d ! j) \<noteq> UNDEF"
      using c(1) less.prems(1,2) idom_stateD(1) [OF assms] by (auto simp: stored_def)
    ultimately show ?thesis
      using c less.IH [of "d ! j"] less.prems idom_stateD(3) [OF assms less.prems(1)] by simp
  qed (use less.prems in simp)
qed

lemma retreats_suffix: "retreats (v # ys) \<le> retreats (xs @ v # ys)"
proof (induction xs)
  case (Cons x xs)
  then show ?case by (cases xs) auto
qed simp

lemma retreats_length: "retreats (v # xs) \<le> length xs"
  by (induction xs arbitrary: v) (auto intro: le_SucI)

lemma path_below: "numbered E n \<Longrightarrow> path E 0 p \<Longrightarrow> v \<in> set p \<Longrightarrow> v < n"
  by (induction p rule: retreats.induct) (auto simp: numbered_def)

lemma idom_state_next:
  assumes num: "numbered E n" and st: "idom_state E n t i d" and i: "0 < i" "i < n"
    and c: "meets d n {k. E k i \<and> d ! k \<noteq> UNDEF} c"
  shows "c < i \<and> idom_state E n t (Suc i) (d[i := c])"
proof
  let ?K = "{k. E k i \<and> d ! k \<noteq> UNDEF}" and ?d = "d[i := c]"
  note st1 = idom_stateD [OF st]
  from num i obtain p where p: "p < i" "E p i" by (auto simp: numbered_def)
  with st1(2) [of p] i have pK: "p \<in> ?K" by simp
  with c have c': "c < n" "d ! c \<noteq> UNDEF" "\<And>k. k \<in> ?K \<Longrightarrow> c \<in> set (chain d k)"
    "\<And>x. (\<forall>k\<in>?K. x \<in> set (chain d k)) \<Longrightarrow> x \<in> set (chain d c)"
    by (auto simp: meets_def split: if_splits)
  from chain_le [OF c'(3) [OF pK]] p(1) show ci: "c < i" by simp
  have len: "length d = n" using st1(1) by (simp add: stored_def)
  have below: "k < n" if "k \<in> ?K" for k using that num by (auto simp: numbered_def)
  have stored: "stored n ?d"
    using st1(1) c'(1,2) ci i len by (auto simp: stored_def nth_list_update)
  have chain_i: "set (chain ?d i) = insert i (set (chain d c))"
    using ci i len by (subst chain_parent) (simp_all add: chain_update_below)
  have doms: "dominator E 0 a c" if a: "a \<noteq> i" "dominator E 0 a i" for a
  proof -
    have "dominator E 0 a k" if "k \<in> ?K" for k using that a by (auto intro: dominator_pred)
    then have "a \<in> set (chain d k)" "dominator E 0 a k" if "k \<in> ?K" for k
      using that dominator_chain [OF st below] by auto
    with c'(4) pK have "a \<le> c" "dominator E 0 a p" by (auto dest: chain_le)
    with dominator_above [OF st below [OF pK]] pK c'(3) [OF pK] show ?thesis by auto
  qed
  have new: "set (chain ?d i) \<subseteq> set (i # xs)" if xs: "path E 0 (i # xs)" "retreats (i # xs) < Suc t" for xs
  proof (cases xs)
    case Nil
    with xs i show ?thesis by simp
  next
    case (Cons k ys)
    with xs have k: "E k i" "path E 0 (k # ys)" by simp_all
    with num have kn: "k < n" by (auto simp: numbered_def)
    have t: "retreats (k # ys) < (if k < i then Suc t else t)"
      using xs(2) Cons by (auto split: if_splits)
    then have "k < i \<or> 0 < t" by (auto split: if_splits)
    with st1(2) [OF kn] k(1) have "k \<in> ?K" by simp
    with st1(4) [OF kn k(2) t] chain_trans [OF c'(3)] have "set (chain d c) \<subseteq> set (k # ys)" by blast
    with chain_i Cons show ?thesis by auto
  qed
  have old: "set (chain ?d j) \<subseteq> set (j # xs)"
    if j: "j < n" "j \<noteq> i" "path E 0 (j # xs)" "retreats (j # xs) < (if j < i then Suc t else t)" for j xs
  proof (cases "i \<in> set (chain d j)")
    case False
    with st1(4) [OF j(1,3,4)] show ?thesis by (simp add: chain_update_above)
  next
    case True
    have sub: "set (chain d j) \<subseteq> set (j # xs)" by (rule st1(4) [OF j(1,3,4)])
    with True obtain as bs where split: "j # xs = as @ i # bs" "path E 0 (i # bs)"
      using path_split [OF j(3), of i] by blast
    from True j(2) have "i < j" by (auto dest: chain_le simp: le_less)
    with j(4) split(1) retreats_suffix [of i bs as] have "retreats (i # bs) < Suc t" by auto
    from new [OF split(2) this] split(1) have i_on: "set (chain ?d i) \<subseteq> set (j # xs)" by auto
    have "set (chain ?d m) \<subseteq> set (chain d m) \<union> set (chain ?d i)" if "m \<in> set (chain d j)" for m
    proof (induction m rule: less_induct)
      case (less m)
      show ?case
      proof (cases "m = i \<or> i \<notin> set (chain d m)")
        case True
        then show ?thesis by (auto simp: chain_update_above)
      next
        case False
        then have m: "d ! m < m" "i \<in> set (chain d (d ! m))"
          by (auto elim: chain_mem_cases)
        with False less.IH [OF m(1)] show ?thesis by (auto simp: chain_parent)
      qed
    qed
    from this [OF self_in_chain] sub i_on show ?thesis by blast
  qed
  show "idom_state E n t (Suc i) ?d"
    unfolding idom_state_def
  proof (intro conjI allI impI)
    fix j assume j: "j < n" "j < Suc i \<or> 0 < t"
    then show "?d ! j \<noteq> UNDEF"
      using st1(2) [of j] c'(1) st1(1) len by (cases "j = i") (auto simp: stored_def less_Suc_eq)
  next
    fix j a assume "j < n" "0 < j" "?d ! j \<noteq> UNDEF" "a \<noteq> j" "dominator E 0 a j"
    then show "dominator E 0 a (?d ! j)"
      using doms st1(3) [of j a] len i by (cases "j = i") auto
  next
    fix j xs
    assume "j < n" "path E 0 (j # xs)" "retreats (j # xs) < (if j < Suc i then Suc t else t)"
    then show "set (chain ?d j) \<subseteq> set (j # xs)"
      using new [of xs] old [of j xs] by (cases "j = i") (auto split: if_splits)
  qed (rule stored)
qed

text \<open>A whole pass, and enough of them. A settled state is one no node can change.\<close>

definition settled :: "(nat \<Rightarrow> nat \<Rightarrow> bool) \<Rightarrow> nat \<Rightarrow> nat \<Rightarrow> nat \<Rightarrow> nat list \<Rightarrow> bool" where
  "settled E n t i d \<longleftrightarrow>
     (\<forall>j c. i \<le> j \<longrightarrow> j < n \<longrightarrow> idom_state E n t (Suc j) (d[j := c]) \<longrightarrow> c < j \<longrightarrow> c = d ! j)"

lemma settled_Suc: "settled E n t i d \<Longrightarrow> settled E n t (Suc i) d"
  by (simp add: settled_def)

lemma idom_pass_state:
  assumes num: "numbered E n" and ps: "\<And>i. i < n \<Longrightarrow> {k. \<exists>p\<in>set (ps i). ix p = Some k} = {k. E k i}"
  shows "idom_state E n t i d \<Longrightarrow> 0 < i \<Longrightarrow> i \<le> n \<Longrightarrow>
    \<exists>d' ch'. idom_pass ix ps d ch [i..<n] = Some (d', ch') \<and> idom_state E n t n d' \<and>
      (\<not> ch' \<longrightarrow> d' = d \<and> \<not> ch) \<and>
      (\<not> ch \<and> settled E n t i d \<longrightarrow> \<not> ch')"
proof (induction "n - i" arbitrary: i d ch)
  case 0
  then show ?case by simp
next
  case (Suc m)
  then have i: "i < n" and m: "m = n - Suc i" by simp_all
  then have upt: "[i..<n] = i # [Suc i..<n]" by (simp add: upt_conv_Cons)
  have "reached ix d (ps i) = {k. E k i \<and> d ! k \<noteq> UNDEF}"
    using ps [OF i] by (auto simp: reached_def)
  moreover have "k < n" if "p \<in> set (ps i)" "ix p = Some k" for p k
    using that ps [OF i] num by (fastforce simp: numbered_def)
  ultimately obtain c where c: "new_idom_loop ix d UNDEF (ps i) = Some c" "meets d n {k. E k i \<and> d ! k \<noteq> UNDEF} c"
    using new_idom_loop_meets [OF idom_stateD(1) [OF Suc.prems(1)], of "ps i" ix UNDEF] by auto
  from idom_state_next [OF num Suc.prems(1,2) i c(2)]
  have ci: "c < i" and nxt: "idom_state E n t (Suc i) (d[i := c])" by auto
  have "c \<noteq> UNDEF" using ci i num by (auto simp: numbered_def)
  show ?case
  proof (cases "d ! i = c")
    case True
    then have "idom_state E n t (Suc i) d" using nxt by (metis list_update_id)
    from Suc.hyps(1) [OF m this, of ch] i obtain d' ch' where
      "idom_pass ix ps d ch [Suc i..<n] = Some (d', ch')" "idom_state E n t n d'" "\<not> ch' \<longrightarrow> d' = d \<and> \<not> ch"
      "\<not> ch \<and> settled E n t (Suc i) d \<longrightarrow> \<not> ch'"
      by auto
    with True c(1) upt show ?thesis by (auto dest: settled_Suc)
  next
    case False
    from Suc.hyps(1) [OF m nxt, of True] i obtain d' ch' where
      d': "idom_pass ix ps (d[i := c]) True [Suc i..<n] = Some (d', ch')" "idom_state E n t n d'" "ch'"
      by auto
    have "\<not> settled E n t i d"
      using False nxt ci i unfolding settled_def by blast
    with d' False \<open>c \<noteq> UNDEF\<close> c(1) upt show ?thesis by (intro exI [of _ d'] exI [of _ True]) simp
  qed
qed

lemma idom_state_shift: "idom_state E n t n d \<Longrightarrow> idom_state E n (Suc t) 0 d"
  unfolding idom_state_def by auto

lemma idom_state_first:
  assumes "numbered E n" "idom_state E n t 0 d"
  shows "idom_state E n t (Suc 0) d"
proof -
  from assms have "stored n d" "0 < n" "d ! 0 = 0" by (auto simp: idom_state_def stored_def)
  moreover have "d ! 0 \<noteq> UNDEF" using \<open>d ! 0 = 0\<close> by (simp add: UNDEF_def)
  moreover have "set (chain d 0) = {0}" by (rule chain_root) (simp add: \<open>d ! 0 = 0\<close>)
  ultimately show ?thesis
    using assms(2) unfolding idom_state_def by (auto simp: less_Suc_eq)
qed

text \<open>With \<open>n\<close> passes behind it a stored parent is the immediate dominator.\<close>

lemma idom_state_exact:
  assumes num: "numbered E n" and st: "idom_state E n t k d" and t: "n \<le> t \<or> n \<le> Suc t \<and> i < k" and i: "0 < i" "i < n"
  shows "immediate E 0 (d ! i) i" "d ! i < i"
proof -
  have t': "n \<le> (if i < k then Suc t else t)" using t by auto
  with i have "i < k \<or> 0 < t" by (auto split: if_splits)
  then have def: "d ! i \<noteq> UNDEF" using idom_stateD(2) [OF st i(2)] by blast
  then show less: "d ! i < i" using idom_stateD(1) [OF st] i by (auto simp: stored_def)
  have "d ! i \<in> set (i # xs)" if xs: "path E 0 (i # xs)" for xs
  proof -
    from simple_path [OF xs] obtain ys where ys: "path E 0 (i # ys)" "distinct (i # ys)" "set (i # ys) \<subseteq> set (i # xs)"
      by blast
    then have "set (i # ys) \<subseteq> {..<n}" using path_below [OF num] by blast
    with ys(2) have "length (i # ys) \<le> n"
      using card_mono [of "{..<n}" "set (i # ys)"] distinct_card [of "i # ys"] by simp
    with retreats_length [of i ys] t' have "retreats (i # ys) < (if i < k then Suc t else t)" by simp
    from idom_stateD(4) [OF st i(2) ys(1) this] have "d ! i \<in> set (i # ys)"
      using self_in_chain [of "d ! i" d] chain_parent [OF less] by blast
    with ys(3) show ?thesis by blast
  qed
  then show "immediate E 0 (d ! i) i"
    using less idom_stateD(3) [OF st i(2,1) def] by (auto simp: immediate_def dominator_def)
qed

lemma idom_fix_exact:
  assumes num: "numbered E n" and ps: "\<And>i. i < n \<Longrightarrow> {k. \<exists>p\<in>set (ps i). ix p = Some k} = {k. E k i}"
  shows "idom_state E n t 0 d \<Longrightarrow>
    \<exists>d'. idom_fix ix ps d = Some d' \<and> length d' = n \<and> (\<forall>i<n. 0 < i \<longrightarrow> d' ! i < i \<and> immediate E 0 (d' ! i) i)"
proof (induction "n - t" arbitrary: t d rule: less_induct)
  case less
  note first = idom_state_first [OF num less.prems]
  have len: "length d = n" "0 < n" using idom_stateD(1) [OF less.prems] by (auto simp: stored_def)
  obtain d' ch where pass: "idom_pass ix ps d False [1..<n] = Some (d', ch)" "idom_state E n t n d'"
    "\<not> ch \<Longrightarrow> d' = d"
    "settled E n t 1 d \<Longrightarrow> \<not> ch"
    using idom_pass_state [OF num ps first, where ch = False] len(2) by auto
  show ?case
  proof (cases ch)
    case False
    then have "d' = d" "idom_pass ix ps d False [1..<n] = Some (d, False)" using pass by auto
    have again: "idom_state E n (t + m) 0 d" for m
    proof (induction m)
      case (Suc m)
      from idom_pass_state [OF num ps idom_state_first [OF num Suc], where ch = False] len(2)
        \<open>idom_pass ix ps d False [1..<n] = Some (d, False)\<close>
      have "idom_state E n (t + m) n d" by auto
      then show ?case by (auto dest: idom_state_shift)
    qed (use less.prems in simp)
    have "d ! i < i \<and> immediate E 0 (d ! i) i" if "i < n" "0 < i" for i
      using idom_state_exact [OF num again [of n]] that by simp
    moreover have "idom_fix ix ps d = Some d"
      using pass(1) False len \<open>d' = d\<close> by (subst idom_fix.simps) simp
    ultimately show ?thesis using len by blast
  next
    case True
    have "t < n"
    proof (rule ccontr)
      assume "\<not> t < n"
      have "c = d ! j" if "1 \<le> j" "j < n" "idom_state E n t (Suc j) (d[j := c])" "c < j" for j c
      proof -
        have "immediate E 0 (d[j := c] ! j) j" "immediate E 0 (d ! j) j"
          using idom_state_exact [OF num that(3)] idom_state_exact [OF num less.prems] that \<open>\<not> t < n\<close> by simp_all
        moreover have "E\<^sup>*\<^sup>* 0 j"
          using that(2)
        proof (induction j rule: less_induct)
          case (less j)
          show ?case
          proof (cases "j = 0")
            case False
            with less.prems num obtain i where "i < j" "E i j" by (auto simp: numbered_def)
            with less.IH [of i] less.prems show ?thesis by (auto intro: rtranclp.rtrancl_into_rtrancl)
          qed simp
        qed
        ultimately show ?thesis
          using that(2) len by (auto dest: immediate_unique)
      qed
      then have "settled E n t 1 d" by (simp add: settled_def)
      with pass(4) True show False by blast
    qed
    then have "n - Suc t < n - t" by simp
    from less.hyps [OF this idom_state_shift [OF pass(2)]] show ?thesis
      using pass(1) True len by (subst idom_fix.simps) simp
  qed
qed

lemma idom_state_init:
  assumes "numbered E n"
  shows "idom_state E n 0 0 ((replicate n UNDEF)[0 := 0])"
proof -
  have "(replicate n UNDEF)[0 := 0] ! j = (if j = 0 then 0 else UNDEF)" if "j < n" for j
    using that by (cases j) auto
  then show ?thesis
    using assms by (auto simp: idom_state_def stored_def numbered_def)
qed

section \<open>Back to the blocks\<close>

definition rpo_edge :: "('s, 'e) cfg_function \<Rightarrow> nat \<Rightarrow> nat \<Rightarrow> bool" where
  "rpo_edge f i j \<longleftrightarrow> (let rpo = reverse_postorder f in
     i < length rpo \<and> j < length rpo \<and> cfg_edge f (rpo ! i) (rpo ! j))"

lemma rpo_small: "fn_ok f \<Longrightarrow> length (reverse_postorder f) \<le> 2 ^ 32"
proof -
  assume f: "fn_ok f"
  note rpo = reverse_postorder_order [OF fn_ok_entry [OF f]]
  have "v < 2 ^ 32" if "v \<in> set (reverse_postorder f)" for v
  proof -
    from that rpo(5) have "(cfg_edge f)\<^sup>*\<^sup>* (fn_entry f) v" by simp
    then show ?thesis
      by (cases rule: rtranclp.cases) (use fn_ok_ids [OF f] fn_ok_entry [OF f] in auto)
  qed
  then have "set (reverse_postorder f) \<subseteq> {..<2 ^ 32}" by auto
  then have "card (set (reverse_postorder f)) \<le> card {..<(2 ^ 32 :: nat)}" by (intro card_mono) auto
  with distinct_card [OF rpo(1)] show ?thesis by simp
qed

lemma rpo_numbered:
  assumes "fn_ok f"
  shows "numbered (rpo_edge f) (length (reverse_postorder f))"
proof -
  note rpo = reverse_postorder_order [OF fn_ok_entry [OF assms]]
  have "\<exists>j<i. rpo_edge f j i" if i: "i < length (reverse_postorder f)" "0 < i" for i
  proof -
    from fathered_nth [OF rpo(4) i(1)] rpo(1,3) i
    have "\<exists>j<i. cfg_edge f (reverse_postorder f ! j) (reverse_postorder f ! i)"
      by (metis length_pos_if_in_set less_numeral_extra(3) nth_eq_iff_index_eq nth_mem)
    with i show ?thesis by (auto simp: rpo_edge_def Let_def)
  qed
  moreover have "length (reverse_postorder f) \<le> UNDEF"
    using rpo_small [OF assms] by (simp add: UNDEF_def)
  ultimately show ?thesis
    using rpo(2) by (auto simp: numbered_def rpo_edge_def Let_def)
qed

text \<open>A map filled from an enumeration.\<close>

lemma fold_enumerate_update:
  "distinct vs \<Longrightarrow> i < length vs \<Longrightarrow> fold (\<lambda>(i, v) m. m(v \<mapsto> g i)) (enumerate 0 vs) m0 (vs ! i) = Some (g i)"
  "v \<notin> set vs \<Longrightarrow> fold (\<lambda>(i, v) m. m(v \<mapsto> g i)) (enumerate 0 vs) m0 v = m0 v"
proof (induction vs rule: rev_induct)
  case (snoc x xs)
  {
    case 1
    with snoc.IH(1) show ?case
      by (auto simp: enumerate_append_eq nth_append less_Suc_eq)
  next
    case 2
    with snoc.IH(2) show ?case by (simp add: enumerate_append_eq)
  }
qed simp_all

lemma rpo_index_iff:
  assumes "distinct rpo"
  shows "rpo_index rpo v = Some i \<longleftrightarrow> i < length rpo \<and> rpo ! i = v"
proof (cases "v \<in> set rpo")
  case True
  then obtain j where j: "j < length rpo" "rpo ! j = v" by (auto simp: in_set_conv_nth)
  then have "rpo_index rpo v = Some j"
    using fold_enumerate_update(1) [OF assms j(1), of "\<lambda>i. i" "\<lambda>_. None"] by (simp add: rpo_index_def)
  then show ?thesis using nth_eq_iff_index_eq [OF assms] j by auto
next
  case False
  then have "rpo_index rpo v = None"
    using fold_enumerate_update(2) [OF False, of "\<lambda>i. i" "\<lambda>_. None"] by (simp add: rpo_index_def)
  with False show ?thesis by auto
qed

lemma idom_out_nth:
  "distinct rpo \<Longrightarrow> i < length rpo \<Longrightarrow>
   idom_out rpo d m (rpo ! i) = Some (if i = 0 \<or> d ! i = UNDEF then None else Some (rpo ! (d ! i)))"
  unfolding idom_out_def by (rule fold_enumerate_update(1))

lemma idom_out_other: "v \<notin> set rpo \<Longrightarrow> idom_out rpo d m v = m v"
  unfolding idom_out_def by (rule fold_enumerate_update(2))

text \<open>Paths of numbers are paths of blocks.\<close>

lemma rpo_path:
  assumes "fn_ok f"
  shows "path (rpo_edge f) 0 p \<Longrightarrow> path (cfg_edge f) (fn_entry f) (map (\<lambda>i. reverse_postorder f ! i) p)"
proof (induction rule: path.induct)
  case root
  then show ?case using reverse_postorder_order(3) [OF fn_ok_entry [OF assms]] by simp
qed (simp add: rpo_edge_def Let_def)

lemma path_rpo:
  assumes "fn_ok f"
  shows "path (cfg_edge f) (fn_entry f) p \<Longrightarrow>
    \<exists>q. p = map (\<lambda>i. reverse_postorder f ! i) q \<and> path (rpo_edge f) 0 q \<and> (\<forall>i\<in>set q. i < length (reverse_postorder f))"
proof (induction rule: path.induct)
  case root
  show ?case
    using reverse_postorder_order(2,3) [OF fn_ok_entry [OF assms]] by (intro exI [of _ "[0]"]) simp
next
  case (edge u xs v)
  from edge.IH obtain q where q: "u # xs = map (\<lambda>i. reverse_postorder f ! i) q" "path (rpo_edge f) 0 q"
    "\<forall>i\<in>set q. i < length (reverse_postorder f)" by (elim exE conjE)
  then obtain i q' where i: "q = i # q'" "u = reverse_postorder f ! i" by (cases q) auto
  have "v \<in> set (reverse_postorder f)"
    using path_reachable [OF path.edge [OF edge.hyps]] reverse_postorder_order(5) [OF fn_ok_entry [OF assms]] by simp
  then obtain j where j: "j < length (reverse_postorder f)" "v = reverse_postorder f ! j"
    by (auto simp: in_set_conv_nth)
  with q(3) i edge.hyps(2) have "rpo_edge f i j" by (simp add: rpo_edge_def Let_def)
  with q i j show ?case by (intro exI [of _ "j # q"]) simp
qed

lemma rpo_dominator:
  assumes f: "fn_ok f" and a: "a < length (reverse_postorder f)" and b: "b < length (reverse_postorder f)"
  shows "dominator (rpo_edge f) 0 a b \<longleftrightarrow>
    dominator (cfg_edge f) (fn_entry f) (reverse_postorder f ! a) (reverse_postorder f ! b)"
proof
  note nth_eq = nth_eq_iff_index_eq [OF reverse_postorder_order(1) [OF fn_ok_entry [OF f]]]
  assume *: "dominator (rpo_edge f) 0 a b"
  show "dominator (cfg_edge f) (fn_entry f) (reverse_postorder f ! a) (reverse_postorder f ! b)"
    unfolding dominator_def
  proof (intro allI impI)
    fix xs assume "path (cfg_edge f) (fn_entry f) (reverse_postorder f ! b # xs)"
    from path_rpo [OF f this] obtain i q where q: "reverse_postorder f ! b # xs = map (\<lambda>i. reverse_postorder f ! i) (i # q)"
      "path (rpo_edge f) 0 (i # q)" "i < length (reverse_postorder f)"
      by (metis list.discI list.exhaust list.set_intros(1) list.simps(8))
    then have "i = b" using nth_eq b by simp
    with dominatorD [OF *] q(2) have "a \<in> set (i # q)" by blast
    then show "reverse_postorder f ! a \<in> set (reverse_postorder f ! b # xs)" unfolding q(1) by auto
  qed
next
  note nth_eq = nth_eq_iff_index_eq [OF reverse_postorder_order(1) [OF fn_ok_entry [OF f]]]
  assume *: "dominator (cfg_edge f) (fn_entry f) (reverse_postorder f ! a) (reverse_postorder f ! b)"
  show "dominator (rpo_edge f) 0 a b"
    unfolding dominator_def
  proof (intro allI impI)
    fix xs assume xs: "path (rpo_edge f) 0 (b # xs)"
    from rpo_path [OF f xs]
    have "path (cfg_edge f) (fn_entry f) (reverse_postorder f ! b # map (\<lambda>i. reverse_postorder f ! i) xs)" by simp
    from dominatorD [OF * this] obtain i where "i \<in> set (b # xs)" "reverse_postorder f ! a = reverse_postorder f ! i" by auto
    with path_below [OF rpo_numbered [OF f] xs] nth_eq a show "a \<in> set (b # xs)" by auto
  qed
qed

lemma dominator_reachable:
  assumes "dominator E r a b" "E\<^sup>*\<^sup>* r b"
  shows "E\<^sup>*\<^sup>* r a"
proof -
  from reachable_path [OF assms(2)] obtain xs where xs: "path E r (b # xs)" ..
  from path_split [OF xs dominatorD [OF assms(1) xs]] show ?thesis by (auto dest: path_reachable)
qed

lemma rpo_immediate:
  assumes f: "fn_ok f" and d: "d < length (reverse_postorder f)" and b: "b < length (reverse_postorder f)"
    and imm: "immediate (rpo_edge f) 0 d b"
  shows "immediate (cfg_edge f) (fn_entry f) (reverse_postorder f ! d) (reverse_postorder f ! b)"
  unfolding immediate_def
proof (intro conjI allI impI)
  note rpo = reverse_postorder_order [OF fn_ok_entry [OF f]]
  show "reverse_postorder f ! d \<noteq> reverse_postorder f ! b"
    using imm nth_eq_iff_index_eq [OF rpo(1) d b] by (simp add: immediate_def)
  show "dominator (cfg_edge f) (fn_entry f) (reverse_postorder f ! d) (reverse_postorder f ! b)"
    using imm rpo_dominator [OF f d b] by (simp add: immediate_def)
  fix v assume v: "v \<noteq> reverse_postorder f ! b" "dominator (cfg_edge f) (fn_entry f) v (reverse_postorder f ! b)"
  have "(cfg_edge f)\<^sup>*\<^sup>* (fn_entry f) (reverse_postorder f ! b)" using rpo(5) nth_mem [OF b] by simp
  with dominator_reachable [OF v(2)] rpo(5) have "v \<in> set (reverse_postorder f)" by simp
  then obtain a where a: "a < length (reverse_postorder f)" "v = reverse_postorder f ! a" by (auto simp: in_set_conv_nth)
  with v rpo_dominator [OF f a(1) b] have "a \<noteq> b" "dominator (rpo_edge f) 0 a b" by auto
  with imm have "dominator (rpo_edge f) 0 a d" by (simp add: immediate_def)
  with rpo_dominator [OF f a(1) d] a(2) show
    "dominator (cfg_edge f) (fn_entry f) v (reverse_postorder f ! d)" by simp
qed

text \<open>The blocks outside the search keep the entry that the map starts with.\<close>

lemma fold_none: "fold (\<lambda>k m. m(k \<mapsto> None)) ks m v = (if v \<in> set ks then Some None else m v)"
  by (induction ks arbitrary: m) auto

definition idom_map :: "('s, 'e) cfg_function \<Rightarrow> (block_id \<rightharpoonup> block_id option) \<Rightarrow> bool" where
  "idom_map f m \<longleftrightarrow>
     dom m = fst ` set (fn_blocks f) \<union> {v. (cfg_edge f)\<^sup>*\<^sup>* (fn_entry f) v} \<and>
     (\<forall>v d. m v = Some (Some d) \<longleftrightarrow> (cfg_edge f)\<^sup>*\<^sup>* (fn_entry f) v \<and> immediate (cfg_edge f) (fn_entry f) d v) \<and>
     (\<forall>v. (cfg_edge f)\<^sup>*\<^sup>* (fn_entry f) v \<longrightarrow> v \<noteq> fn_entry f \<longrightarrow> (\<exists>d. m v = Some (Some d)))"

lemma idom_mapD:
  assumes "idom_map f m"
  shows "dom m = fst ` set (fn_blocks f) \<union> {v. (cfg_edge f)\<^sup>*\<^sup>* (fn_entry f) v}"
    "m v = Some (Some d) \<longleftrightarrow> (cfg_edge f)\<^sup>*\<^sup>* (fn_entry f) v \<and> immediate (cfg_edge f) (fn_entry f) d v"
    "(cfg_edge f)\<^sup>*\<^sup>* (fn_entry f) v \<Longrightarrow> v \<noteq> fn_entry f \<Longrightarrow> \<exists>d. m v = Some (Some d)"
  using assms unfolding idom_map_def by blast+

lemma idom_fast_spec:
  assumes "fn_ok f"
  obtains m where "compute_idom_fast f = Some m" "idom_map f m"
proof -
  define rpo where "rpo = reverse_postorder f"
  define ps where "ps i = preds_of (predecessors f) (rpo ! i)" for i
  note order = reverse_postorder_order [OF fn_ok_entry [OF assms], folded rpo_def]
  have preds: "{k. \<exists>p\<in>set (ps i). rpo_index rpo p = Some k} = {k. rpo_edge f k i}" if "i < length rpo" for i
  proof -
    have "rpo_edge f k i \<longleftrightarrow> k < length rpo \<and> cfg_edge f (rpo ! k) (rpo ! i)" for k
      using that by (simp add: rpo_edge_def rpo_def Let_def)
    then show ?thesis by (auto simp: ps_def predecessors_set [OF assms] rpo_index_iff [OF order(1)])
  qed
  from idom_fix_exact [OF rpo_numbered [OF assms, folded rpo_def] preds
      idom_state_init [OF rpo_numbered [OF assms, folded rpo_def]]]
  obtain d where d: "idom_fix (rpo_index rpo) ps ((replicate (length rpo) UNDEF)[0 := 0]) = Some d"
    "\<And>i. i < length rpo \<Longrightarrow> 0 < i \<Longrightarrow> d ! i < i \<and> immediate (rpo_edge f) 0 (d ! i) i" by auto
  define none where "none = fold (\<lambda>k m. m(k \<mapsto> None)) (map fst (fn_blocks f)) (\<lambda>_. None :: block_id option option)"
  have fast: "compute_idom_fast f = Some (idom_out rpo d none)"
    using d(1) order(2) by (simp add: compute_idom_fast_def Let_def rpo_def ps_def [abs_def] none_def)
  have parent: "idom_out rpo d none (rpo ! i) = Some (Some (rpo ! (d ! i)))"
    "immediate (cfg_edge f) (fn_entry f) (rpo ! (d ! i)) (rpo ! i)" if i: "i < length rpo" "0 < i" for i
  proof -
    from d(2) [OF i] i have less: "d ! i < i" "d ! i < length rpo" by auto
    moreover have "d ! i \<noteq> UNDEF" using less(2) rpo_small [OF assms] by (auto simp: UNDEF_def rpo_def)
    ultimately show "idom_out rpo d none (rpo ! i) = Some (Some (rpo ! (d ! i)))"
      using i by (simp add: idom_out_nth [OF order(1)])
    from less(2) i d(2) [OF i] show "immediate (cfg_edge f) (fn_entry f) (rpo ! (d ! i)) (rpo ! i)"
      unfolding rpo_def by (intro rpo_immediate [OF assms]) (simp_all add: rpo_def)
  qed
  have entry: "idom_out rpo d none (fn_entry f) = Some None"
    using idom_out_nth [OF order(1), of 0] order(2,3) by simp
  have other: "idom_out rpo d none v = none v" if "v \<notin> set rpo" for v
    using that by (rule idom_out_other)
  have none: "none v = (if v \<in> fst ` set (fn_blocks f) then Some None else None)" for v
    by (simp add: none_def fold_none)
  have root: "\<not> immediate (cfg_edge f) (fn_entry f) e (fn_entry f)" for e
    by (auto simp: immediate_def dest: dominator_root)
  have "idom_out rpo d none v \<noteq> None \<longleftrightarrow> v \<in> fst ` set (fn_blocks f) \<union> {v. (cfg_edge f)\<^sup>*\<^sup>* (fn_entry f) v}" for v
  proof (cases "v \<in> set rpo")
    case True
    then obtain i where "i < length rpo" "v = rpo ! i" by (auto simp: in_set_conv_nth)
    with parent(1) [of i] entry order(3) have "idom_out rpo d none v \<noteq> None" by (cases "i = 0") auto
    with True order(5) show ?thesis by simp
  qed (use order(5) other none in auto)
  moreover have "idom_out rpo d none v = Some (Some e) \<longleftrightarrow>
      (cfg_edge f)\<^sup>*\<^sup>* (fn_entry f) v \<and> immediate (cfg_edge f) (fn_entry f) e v" for v e
  proof (cases "v \<in> set rpo")
    case True
    then obtain i where i: "i < length rpo" "v = rpo ! i" by (auto simp: in_set_conv_nth)
    from True order(5) have reach: "(cfg_edge f)\<^sup>*\<^sup>* (fn_entry f) v" by simp
    show ?thesis
    proof (cases "i = 0")
      case False
      with parent [of i] i reach show ?thesis by (auto dest: immediate_unique)
    qed (use i order(3) entry root in simp)
  qed (use order(5) other none in auto)
  moreover have "\<exists>e. idom_out rpo d none v = Some (Some e)"
    if "(cfg_edge f)\<^sup>*\<^sup>* (fn_entry f) v" "v \<noteq> fn_entry f" for v
  proof -
    from that(1) order(5) have "v \<in> set rpo" by simp
    then obtain i where "i < length rpo" "v = rpo ! i" by (auto simp: in_set_conv_nth)
    with parent(1) [of i] order(3) that(2) show ?thesis by (cases "i = 0") auto
  qed
  ultimately have "idom_map f (idom_out rpo d none)" unfolding idom_map_def by blast
  with that [OF fast] show thesis .
qed

text \<open>The graph of a \<open>while\<close> loop: entry, header, body and exit.\<close>

definition while_cfg :: "(unit, unit) cfg_function" where
  "while_cfg =
     \<lparr>fn_name = ''loop'', fn_entry = 0,
      fn_blocks =
        [(0, \<lparr>block_label = ''entry'', block_statements = [], block_terminator = Some (Goto 1 None)\<rparr>),
         (1, \<lparr>block_label = ''header'', block_statements = [], block_terminator = Some (Branch () 2 3 None None)\<rparr>),
         (2, \<lparr>block_label = ''body'', block_statements = [], block_terminator = Some (Goto 1 None)\<rparr>),
         (3, \<lparr>block_label = ''exit'', block_statements = [], block_terminator = Some (Return None None None False)\<rparr>)],
      exception_edges = [], fn_block_names = [''entry'', ''header'', ''body'', ''exit''], name_to_id = (\<lambda>_. None)\<rparr>"

lemma while_ok: "fn_ok while_cfg"
  by (simp add: fn_ok_def while_cfg_def block_successors_def successors_def)

text \<open>
  C8. The immediate dominators are right. On every control-flow graph whose edges start at blocks the
  search ends, without an index out of range. Its map has an entry for every block, a parent for every
  reachable block but the entry, and as that parent the immediate dominator: a block other than the
  child that is on every path from the entry to it and that its other dominators dominate.
\<close>

theorem compute_idom_fast_correct:
  assumes "fn_ok f"
  shows "\<exists>m. compute_idom_fast f = Some m \<and>
    dom m = fst ` set (fn_blocks f) \<union> {v. (cfg_edge f)\<^sup>*\<^sup>* (fn_entry f) v} \<and>
    (\<forall>v d. m v = Some (Some d) \<longleftrightarrow> (cfg_edge f)\<^sup>*\<^sup>* (fn_entry f) v \<and> immediate (cfg_edge f) (fn_entry f) d v) \<and>
    (\<forall>v. (cfg_edge f)\<^sup>*\<^sup>* (fn_entry f) v \<longrightarrow> v \<noteq> fn_entry f \<longrightarrow> (\<exists>d. m v = Some (Some d)))"
  using idom_fast_spec [OF assms] unfolding idom_map_def by metis


theorem compute_idom_fast_correct_witness:
  "\<exists>m d. compute_idom_fast while_cfg = Some m \<and> m 3 = Some (Some d) \<and> immediate (cfg_edge while_cfg) 0 d 3"
proof -
  have "(cfg_edge while_cfg)\<^sup>*\<^sup>* 0 3"
    by (rule path_reachable [of _ _ _ "[1, 0]"]) (simp add: cfg_edge_def while_cfg_def block_successors_def successors_def)
  then show ?thesis
    using compute_idom_fast_correct [OF while_ok] by (fastforce simp: while_cfg_def)
qed

end
