(* ===== verification/Dominators.thy ===== *)
theory Dominators
  imports Dominance
begin

text \<open>
  The other dominance algorithms of \<open>tcl-compiler/src/ssa.rs\<close>: the dominator sets and the reference
  immediate dominators the fast algorithm is tested against, the dominance frontier, the dominator tree
  and the placement of phi nodes by iterated frontiers. Hash sets are lists without duplicates, compared
  as sets; a loop that ends only when nothing changes is a partial function.
\<close>

section \<open>Dominator sets\<close>

type_synonym dom_map = "block_id \<rightharpoonup> block_id list"

definition initial_dominators :: "('s, 'e) cfg_function \<Rightarrow> dom_map" where
  "initial_dominators f =
     fold (\<lambda>v m. m(v \<mapsto> (if v \<notin> set (reachable_blocks f) \<or> v = fn_entry f then [v] else reachable_blocks f)))
       (map fst (fn_blocks f)) (\<lambda>_. None)"

text \<open>The map is indexed with reachable predecessors; a missing one is a panic.\<close>

fun intersect_dominators :: "dom_map \<Rightarrow> block_id list \<Rightarrow> block_id list \<Rightarrow> block_id list option" where
  "intersect_dominators m acc [] = Some acc"
| "intersect_dominators m acc (p # ps) =
     (case m p of Some dp \<Rightarrow> intersect_dominators m (filter (\<lambda>x. x \<in> set dp) acc) ps | None \<Rightarrow> None)"

definition new_dominators :: "('s, 'e) cfg_function \<Rightarrow> dom_map \<Rightarrow> block_id \<Rightarrow> block_id list option" where
  "new_dominators f m v =
     (case filter (\<lambda>p. p \<in> set (reachable_blocks f)) (preds_of (predecessors f) v) of
        [] \<Rightarrow> Some [v]
      | p # ps \<Rightarrow>
          (case m p of
             Some dp \<Rightarrow> map_option (List.insert v) (intersect_dominators m dp ps)
           | None \<Rightarrow> None))"

fun dominators_pass :: "('s, 'e) cfg_function \<Rightarrow> dom_map \<Rightarrow> bool \<Rightarrow> block_id list \<Rightarrow> (dom_map \<times> bool) option" where
  "dominators_pass f m changed [] = Some (m, changed)"
| "dominators_pass f m changed (v # vs) =
     (if v = fn_entry f then dominators_pass f m changed vs
      else (case (new_dominators f m v, m v) of
              (Some new_dom, Some old) \<Rightarrow>
                if set new_dom \<noteq> set old then dominators_pass f (m(v \<mapsto> new_dom)) True vs
                else dominators_pass f m changed vs
            | _ \<Rightarrow> None))"

partial_function (option) dominators_fix :: "('s, 'e) cfg_function \<Rightarrow> dom_map \<Rightarrow> dom_map option" where
  "dominators_fix f m =
     (case dominators_pass f m False (reverse_postorder f) of
        None \<Rightarrow> None
      | Some (m', changed) \<Rightarrow> if changed then dominators_fix f m' else Some m')"

definition compute_dominators :: "('s, 'e) cfg_function \<Rightarrow> dom_map option" where
  "compute_dominators f = dominators_fix f (initial_dominators f)"

text \<open>
  The reference immediate dominators: the strict dominator with the most dominators, the last of them in
  iteration order.
\<close>

fun max_by_key :: "('a \<Rightarrow> nat) \<Rightarrow> 'a \<Rightarrow> 'a list \<Rightarrow> 'a" where
  "max_by_key key best [] = best"
| "max_by_key key best (x # xs) = max_by_key key (if key best \<le> key x then x else best) xs"

definition dom_count :: "dom_map \<Rightarrow> block_id \<Rightarrow> nat" where
  "dom_count m v = (case m v of Some ds \<Rightarrow> length ds | None \<Rightarrow> 0)"

fun reference_idom :: "('s, 'e) cfg_function \<Rightarrow> dom_map \<Rightarrow> block_id list \<Rightarrow> (block_id \<rightharpoonup> block_id option) \<Rightarrow>
    (block_id \<rightharpoonup> block_id option) option" where
  "reference_idom f m [] idom = Some idom"
| "reference_idom f m (v # vs) idom =
     (if v = fn_entry f then reference_idom f m vs idom
      else (case m v of
              None \<Rightarrow> None
            | Some ds \<Rightarrow>
                (case filter (\<lambda>x. x \<noteq> v) ds of
                   [] \<Rightarrow> reference_idom f m vs idom
                 | x # xs \<Rightarrow>
                     if list_all (\<lambda>y. m y \<noteq> None) (x # xs)
                     then reference_idom f m vs (idom(v \<mapsto> Some (max_by_key (dom_count m) x xs)))
                     else None)))"

definition compute_idom :: "('s, 'e) cfg_function \<Rightarrow> dom_map \<Rightarrow> (block_id \<rightharpoonup> block_id option) option" where
  "compute_idom f m =
     reference_idom f m (reachable_blocks f) (fold (\<lambda>k i. i(k \<mapsto> None)) (map fst (fn_blocks f)) (\<lambda>_. None))"

section \<open>Frontiers, tree and phi nodes\<close>

definition idom_parent :: "(block_id \<rightharpoonup> block_id option) \<Rightarrow> block_id \<Rightarrow> block_id option" where
  "idom_parent idom v = (case idom v of Some (Some d) \<Rightarrow> Some d | _ \<Rightarrow> None)"

definition insert_into :: "block_id \<Rightarrow> block_id \<Rightarrow> dom_map \<Rightarrow> dom_map" where
  "insert_into k v m = m(k \<mapsto> List.insert v (preds_of m k))"

partial_function (option) run_up :: "(block_id \<rightharpoonup> block_id option) \<Rightarrow> block_id \<Rightarrow> block_id option \<Rightarrow> dom_map \<Rightarrow> dom_map option" where
  "run_up idom b runner df =
     (case runner of
        None \<Rightarrow> Some df
      | Some r \<Rightarrow>
          if idom_parent idom b = Some r then Some df
          else run_up idom b (idom_parent idom r) (insert_into r b df))"

fun run_up_all :: "(block_id \<rightharpoonup> block_id option) \<Rightarrow> block_id \<Rightarrow> block_id list \<Rightarrow> dom_map \<Rightarrow> dom_map option" where
  "run_up_all idom b [] df = Some df"
| "run_up_all idom b (p # ps) df =
     (case run_up idom b (Some p) df of Some df' \<Rightarrow> run_up_all idom b ps df' | None \<Rightarrow> None)"

fun frontier_blocks :: "('s, 'e) cfg_function \<Rightarrow> (block_id \<rightharpoonup> block_id option) \<Rightarrow> block_id list \<Rightarrow> dom_map \<Rightarrow> dom_map option" where
  "frontier_blocks f idom [] df = Some df"
| "frontier_blocks f idom (b # bs) df =
     (let ps = filter (\<lambda>p. p \<in> set (reachable_blocks f)) (preds_of (predecessors f) b) in
      if length ps < 2 then frontier_blocks f idom bs df
      else (case run_up_all idom b ps df of Some df' \<Rightarrow> frontier_blocks f idom bs df' | None \<Rightarrow> None))"

definition compute_dominance_frontier :: "('s, 'e) cfg_function \<Rightarrow> (block_id \<rightharpoonup> block_id option) \<Rightarrow> dom_map option" where
  "compute_dominance_frontier f idom =
     frontier_blocks f idom (reachable_blocks f) (fold (\<lambda>k m. m(k \<mapsto> [])) (map fst (fn_blocks f)) (\<lambda>_. None))"

text \<open>The tree: the keys of the map in some order, the children of each block sorted.\<close>

definition build_dom_tree :: "block_id list \<Rightarrow> (block_id \<rightharpoonup> block_id option) \<Rightarrow> dom_map" where
  "build_dom_tree ks idom =
     (let t0 = fold (\<lambda>k m. or_default m k) ks (\<lambda>_. None);
          t = fold (\<lambda>k m. case idom_parent idom k of Some p \<Rightarrow> m(p \<mapsto> preds_of m p @ [k]) | None \<Rightarrow> m) ks t0
      in (\<lambda>k. map_option sort (t k)))"

text \<open>
  Phi nodes for one variable from its definition sites. The names that need them and their sites come
  from the statements and the command registry and are arguments here.
\<close>

fun phi_targets :: "block_id list \<Rightarrow> block_id list \<Rightarrow> block_id list \<Rightarrow> block_id list \<Rightarrow> block_id list \<times> block_id list" where
  "phi_targets sites [] has_phi work = (has_phi, work)"
| "phi_targets sites (b # bs) has_phi work =
     (if b \<in> set has_phi then phi_targets sites bs has_phi work
      else phi_targets sites bs (b # has_phi) (if b \<notin> set sites then b # work else work))"

partial_function (option) phi_loop :: "dom_map \<Rightarrow> block_id list \<Rightarrow> block_id list \<Rightarrow> block_id list \<Rightarrow> block_id list option" where
  "phi_loop df sites has_phi work =
     (if work = [] then Some has_phi
      else (case phi_targets sites (preds_of df (hd work)) has_phi (tl work) of
              (has_phi', work') \<Rightarrow> phi_loop df sites has_phi' work'))"

definition place_phis :: "dom_map \<Rightarrow> block_id list \<Rightarrow> block_id list option" where
  "place_phis df sites = phi_loop df sites [] (rev (sort sites))"

fun phi_vars_loop :: "dom_map \<Rightarrow> string list \<Rightarrow> (string \<times> block_id list) list \<Rightarrow> (block_id \<rightharpoonup> string list) \<Rightarrow>
    (block_id \<rightharpoonup> string list) option" where
  "phi_vars_loop df nonlocal [] phi = Some phi"
| "phi_vars_loop df nonlocal ((var, sites) # vs) phi =
     (if var \<notin> set nonlocal then phi_vars_loop df nonlocal vs phi
      else (case place_phis df sites of
              Some bs \<Rightarrow>
                phi_vars_loop df nonlocal vs
                  (fold (\<lambda>b p. p(b \<mapsto> List.insert var (case p b of Some l \<Rightarrow> l | None \<Rightarrow> []))) bs phi)
            | None \<Rightarrow> None))"

definition compute_phi_vars :: "('s, 'e) cfg_function \<Rightarrow> dom_map \<Rightarrow> string list \<Rightarrow> (string \<times> block_id list) list \<Rightarrow>
    (block_id \<rightharpoonup> string list) option" where
  "compute_phi_vars f df nonlocal defsites =
     phi_vars_loop df nonlocal defsites (fold (\<lambda>k m. m(k \<mapsto> [])) (map fst (fn_blocks f)) (\<lambda>_. None))"

declare dominators_fix.simps [code] run_up.simps [code] phi_loop.simps [code]

section \<open>The sets are the dominators\<close>

abbreviation reach :: "('s, 'e) cfg_function \<Rightarrow> block_id \<Rightarrow> bool" where
  "reach f v \<equiv> (cfg_edge f)\<^sup>*\<^sup>* (fn_entry f) v"

abbreviation doms :: "('s, 'e) cfg_function \<Rightarrow> block_id \<Rightarrow> block_id set" where
  "doms f v \<equiv> {a. dominator (cfg_edge f) (fn_entry f) a v}"

text \<open>A function whose reachable blocks all exist.\<close>

definition fn_closed :: "('s, 'e) cfg_function \<Rightarrow> bool" where
  "fn_closed f \<longleftrightarrow> fn_ok f \<and> set (reachable_blocks f) \<subseteq> fst ` set (fn_blocks f)"

lemma fn_closedD:
  assumes "fn_closed f"
  shows "fn_ok f" "reach f v \<Longrightarrow> v \<in> fst ` set (fn_blocks f)"
  using assms reachable_blocks_set [of f] by (auto simp: fn_closed_def)

lemma reach_entry [simp]: "reach f (fn_entry f)"
  by simp

lemma reach_pred: "reach f v \<Longrightarrow> v \<noteq> fn_entry f \<Longrightarrow> \<exists>p. reach f p \<and> cfg_edge f p v"
  by (auto elim: rtranclp.cases)

lemma doms_reach: "reach f v \<Longrightarrow> dominator (cfg_edge f) (fn_entry f) a v \<Longrightarrow> reach f a"
  by (rule dominator_reachable)

text \<open>The value a pass gives a block, as a set.\<close>

definition dom_of :: "dom_map \<Rightarrow> block_id \<Rightarrow> block_id set" where
  "dom_of m v = (case m v of Some l \<Rightarrow> set l | None \<Rightarrow> {})"

definition dom_step :: "('s, 'e) cfg_function \<Rightarrow> dom_map \<Rightarrow> block_id \<Rightarrow> block_id set" where
  "dom_step f m v = insert v {x. \<forall>p. reach f p \<longrightarrow> cfg_edge f p v \<longrightarrow> x \<in> dom_of m p}"

definition dom_state :: "('s, 'e) cfg_function \<Rightarrow> dom_map \<Rightarrow> bool" where
  "dom_state f m \<longleftrightarrow> dom m = fst ` set (fn_blocks f) \<and>
     (\<forall>v l. m v = Some l \<longrightarrow> distinct l \<and> (\<not> reach f v \<or> v = fn_entry f \<longrightarrow> l = [v])) \<and>
     (\<forall>v. reach f v \<longrightarrow> doms f v \<subseteq> dom_of m v \<and> dom_of m v \<subseteq> {w. reach f w}) \<and>
     (\<forall>v. reach f v \<longrightarrow> v \<noteq> fn_entry f \<longrightarrow> dom_step f m v \<subseteq> dom_of m v)"

lemma dom_stateD:
  assumes "dom_state f m"
  shows "dom m = fst ` set (fn_blocks f)" "m v = Some l \<Longrightarrow> distinct l"
    "m v = Some l \<Longrightarrow> \<not> reach f v \<or> v = fn_entry f \<Longrightarrow> l = [v]"
    "reach f v \<Longrightarrow> doms f v \<subseteq> dom_of m v" "reach f v \<Longrightarrow> dom_of m v \<subseteq> {w. reach f w}"
    "reach f v \<Longrightarrow> v \<noteq> fn_entry f \<Longrightarrow> dom_step f m v \<subseteq> dom_of m v"
  using assms unfolding dom_state_def by blast+

lemma dom_state_Some:
  assumes "fn_closed f" "dom_state f m" "reach f v"
  obtains l where "m v = Some l" "distinct l" "dom_of m v = set l"
proof -
  have "v \<in> dom m" using fn_closedD(2) [OF assms(1,3)] dom_stateD(1) [OF assms(2)] by simp
  then show thesis using that dom_stateD(2) [OF assms(2)] by (auto simp: dom_of_def)
qed

lemma intersect_dominators_spec:
  "(\<forall>p\<in>set ps. m p \<noteq> None) \<Longrightarrow> distinct acc \<Longrightarrow>
   \<exists>l. intersect_dominators m acc ps = Some l \<and> distinct l \<and> set l = {x \<in> set acc. \<forall>p\<in>set ps. x \<in> dom_of m p}"
  by (induction m acc ps rule: intersect_dominators.induct) (auto simp: dom_of_def split: option.splits)

lemma new_dominators_spec:
  assumes f: "fn_closed f" and st: "dom_state f m" and v: "reach f v" "v \<noteq> fn_entry f"
  shows "\<exists>l. new_dominators f m v = Some l \<and> distinct l \<and> set l = dom_step f m v"
proof -
  define ps where "ps = filter (\<lambda>p. p \<in> set (reachable_blocks f)) (preds_of (predecessors f) v)"
  have set_ps: "set ps = {p. reach f p \<and> cfg_edge f p v}"
    using fn_closedD(1) [OF f] by (auto simp: ps_def predecessors_set reachable_blocks_set)
  with reach_pred [OF v] obtain p qs where ps: "ps = p # qs" by (cases ps) auto
  have some: "\<exists>l. m q = Some l \<and> distinct l" if "q \<in> set ps" for q
    using that set_ps by (auto elim: dom_state_Some [OF f st])
  from some [of p] ps obtain l where l: "m p = Some l" "distinct l" by auto
  have "\<forall>q\<in>set qs. m q \<noteq> None" using some ps by fastforce
  from intersect_dominators_spec [OF this l(2)] obtain r where r: "intersect_dominators m l qs = Some r"
    "distinct r" "set r = {x \<in> set l. \<forall>q\<in>set qs. x \<in> dom_of m q}" by blast
  have "set r = {x. \<forall>q\<in>set ps. x \<in> dom_of m q}"
    using r(3) l(1) by (auto simp: ps dom_of_def)
  then have "set (List.insert v r) = dom_step f m v"
    by (auto simp: dom_step_def set_ps)
  with r l ps show ?thesis by (simp add: new_dominators_def ps_def [symmetric])
qed

lemma dom_step_mono: "(\<And>p. dom_of m' p \<subseteq> dom_of m p) \<Longrightarrow> dom_step f m' v \<subseteq> dom_step f m v"
  unfolding dom_step_def by blast

lemma dom_step_doms: "dom_state f m \<Longrightarrow> doms f v \<subseteq> dom_step f m v"
  using dominator_pred dom_stateD(4) by (fastforce simp: dom_step_def)

definition dom_size :: "('s, 'e) cfg_function \<Rightarrow> dom_map \<Rightarrow> nat" where
  "dom_size f m = (\<Sum>v\<in>set (reachable_blocks f). card (dom_of m v))"

lemma finite_dom_of [simp]: "finite (dom_of m v)"
  by (simp add: dom_of_def split: option.split)

lemma dom_state_update:
  assumes f: "fn_closed f" and st: "dom_state f m" and v: "reach f v" "v \<noteq> fn_entry f"
    and l: "distinct l" "set l = dom_step f m v" "set l \<noteq> dom_of m v"
  shows "dom_state f (m(v \<mapsto> l))" "dom_size f (m(v \<mapsto> l)) < dom_size f m"
proof -
  let ?m = "m(v \<mapsto> l)"
  have old: "set l \<subset> dom_of m v" using st v l by (auto simp: dom_state_def)
  have of: "dom_of ?m w = (if w = v then set l else dom_of m w)" for w by (simp add: dom_of_def)
  have sub: "dom_of ?m w \<subseteq> dom_of m w" for w using old by (auto simp: of)
  have step: "dom_step f ?m w \<subseteq> dom_of ?m w" if "reach f w" "w \<noteq> fn_entry f" for w
    using dom_step_mono [OF sub, of f w] dom_stateD(6) [OF st that] l(2) by (auto simp: of)
  have dom: "dom ?m = fst ` set (fn_blocks f)"
    using st fn_closedD(2) [OF f v(1)] by (auto simp: dom_state_def)
  have "doms f w \<subseteq> dom_of ?m w \<and> dom_of ?m w \<subseteq> {x. reach f x}" if "reach f w" for w
    using dom_step_doms [OF st, of v] dom_stateD(4,5) [OF st that] l(2) sub [of w] by (auto simp: of)
  with st step dom l(1) v show "dom_state f ?m" by (auto simp: dom_state_def)
  have "v \<in> set (reachable_blocks f)" using v reachable_blocks_set [OF fn_closedD(1) [OF f]] by simp
  then show "dom_size f ?m < dom_size f m"
    unfolding dom_size_def using old sub
    by (intro sum_strict_mono_ex1) (auto simp: of intro: card_mono psubset_card_mono)
qed

lemma dominators_pass_spec:
  assumes f: "fn_closed f"
  shows "dom_state f m \<Longrightarrow> \<forall>v\<in>set vs. reach f v \<Longrightarrow>
    \<exists>m' ch'. dominators_pass f m ch vs = Some (m', ch') \<and> dom_state f m' \<and> (ch \<longrightarrow> ch') \<and>
      dom_size f m' \<le> dom_size f m \<and> (ch' \<and> \<not> ch \<longrightarrow> dom_size f m' < dom_size f m) \<and>
      (\<not> ch' \<longrightarrow> m' = m \<and> (\<forall>v\<in>set vs. v \<noteq> fn_entry f \<longrightarrow> dom_of m v = dom_step f m v))"
proof (induction vs arbitrary: m ch)
  case (Cons v vs)
  show ?case
  proof (cases "v = fn_entry f")
    case False
    from new_dominators_spec [OF f Cons.prems(1) _ False] Cons.prems(2) obtain l where
      l: "new_dominators f m v = Some l" "distinct l" "set l = dom_step f m v" by auto
    obtain old where old: "m v = Some old" and of: "dom_of m v = set old"
      by (rule dom_state_Some [OF f Cons.prems(1), of v]) (use Cons.prems(2) in auto)
    show ?thesis
    proof (cases "set l = set old")
      case True
      with Cons.IH [OF Cons.prems(1), of ch] Cons.prems(2) l old of False show ?thesis by auto
    next
      case ne: False
      with of Cons.prems(2) have upd: "dom_state f (m(v \<mapsto> l))" "dom_size f (m(v \<mapsto> l)) < dom_size f m"
        using dom_state_update [OF f Cons.prems(1) _ False l(2,3)] by auto
      define m1 where "m1 = m(v \<mapsto> l)"
      from Cons.IH [of m1 True] upd(1) Cons.prems(2) obtain m' where
        "dominators_pass f m1 True vs = Some (m', True)" "dom_state f m'" "dom_size f m' \<le> dom_size f m1"
        by (auto simp: m1_def [symmetric])
      with ne l(1) old False upd(2) show ?thesis by (auto simp: m1_def [symmetric])
    qed
  qed (use Cons in auto)
qed auto

lemma dominators_fix_spec:
  assumes f: "fn_closed f"
  shows "dom_state f m \<Longrightarrow> \<exists>m'. dominators_fix f m = Some m' \<and> dom_state f m' \<and>
    (\<forall>v. reach f v \<longrightarrow> v \<noteq> fn_entry f \<longrightarrow> dom_of m' v = dom_step f m' v)"
proof (induction "dom_size f m" arbitrary: m rule: less_induct)
  case less
  have rpo: "set (reverse_postorder f) = {v. reach f v}"
    by (rule reverse_postorder_order(5)) (use fn_closedD(1) [OF f] in \<open>simp add: fn_ok_entry\<close>)
  obtain m' ch where pass: "dominators_pass f m False (reverse_postorder f) = Some (m', ch)" "dom_state f m'"
    "ch \<Longrightarrow> dom_size f m' < dom_size f m"
    "\<not> ch \<Longrightarrow> m' = m \<and> (\<forall>v\<in>set (reverse_postorder f). v \<noteq> fn_entry f \<longrightarrow> dom_of m v = dom_step f m v)"
    using dominators_pass_spec [OF f less.prems, of "reverse_postorder f" False] rpo by auto
  show ?case
  proof (cases ch)
    case True
    from less.hyps [OF pass(3) [OF True] pass(2)] pass(1) True show ?thesis
      by (subst dominators_fix.simps) simp
  next
    case False
    with pass rpo show ?thesis by (subst dominators_fix.simps) auto
  qed
qed

lemma dom_fixed_exact:
  assumes st: "dom_state f m" and fixed: "\<forall>v. reach f v \<longrightarrow> v \<noteq> fn_entry f \<longrightarrow> dom_of m v = dom_step f m v"
  shows "reach f v \<Longrightarrow> dom_of m v = doms f v"
proof
  have "path (cfg_edge f) (fn_entry f) p \<Longrightarrow> dom_of m (hd p) \<subseteq> set p" for p
  proof (induction rule: path.induct)
    case root
    from dom_stateD(3) [OF st, of "fn_entry f"] show ?case
      by (cases "m (fn_entry f)") (auto simp: dom_of_def)
  next
    case (edge u xs v)
    have "reach f v" "reach f u" using edge.hyps path_reachable [OF edge.hyps(1)] by auto
    show ?case
    proof (cases "v = fn_entry f")
      case True
      with dom_stateD(3) [OF st, of v] show ?thesis by (cases "m v") (auto simp: dom_of_def)
    next
      case False
      with fixed \<open>reach f v\<close> have "dom_of m v = dom_step f m v" by blast
      then show ?thesis using edge.IH edge.hyps(2) \<open>reach f u\<close> by (auto simp: dom_step_def)
    qed
  qed
  then show "reach f v \<Longrightarrow> dom_of m v \<subseteq> doms f v"
    by (fastforce simp: dominator_def)
  show "reach f v \<Longrightarrow> doms f v \<subseteq> dom_of m v" using st by (simp add: dom_state_def)
qed

lemma initial_value:
  "fold (\<lambda>v m. m(v \<mapsto> g v)) ks m0 v = (if v \<in> set ks then Some (g v) else m0 v)"
  by (induction ks arbitrary: m0) auto

lemma dom_state_initial:
  assumes "fn_closed f"
  shows "dom_state f (initial_dominators f)"
proof -
  note f = fn_closedD(1) [OF assms]
  have val: "initial_dominators f v =
    (if v \<in> fst ` set (fn_blocks f) then Some (if \<not> reach f v \<or> v = fn_entry f then [v] else reachable_blocks f) else None)" for v
    by (simp add: initial_dominators_def initial_value reachable_blocks_set [OF f])
  have of: "dom_of (initial_dominators f) v = (if v = fn_entry f then {v} else {w. reach f w})" if "reach f v" for v
    using that fn_closedD(2) [OF assms that] by (simp add: dom_of_def val reachable_blocks_set [OF f])
  have "doms f v \<subseteq> dom_of (initial_dominators f) v" if "reach f v" for v
    using that doms_reach [OF that] by (auto simp: of dest: dominator_root)
  moreover have "dom_step f (initial_dominators f) v \<subseteq> dom_of (initial_dominators f) v" if v: "reach f v" "v \<noteq> fn_entry f" for v
  proof -
    from reach_pred [OF v] obtain p where "reach f p" "cfg_edge f p v" by blast
    with of [of p] show ?thesis using v by (auto simp: of dom_step_def split: if_splits)
  qed
  ultimately show ?thesis
    unfolding dom_state_def using of by (auto simp: val dom_def image_iff split: if_splits)
qed

definition dominator_map :: "('s, 'e) cfg_function \<Rightarrow> dom_map \<Rightarrow> bool" where
  "dominator_map f m \<longleftrightarrow> dom m = fst ` set (fn_blocks f) \<and> (\<forall>v l. m v = Some l \<longrightarrow> distinct l) \<and>
     (\<forall>v. reach f v \<longrightarrow> (\<exists>l. m v = Some l \<and> set l = doms f v))"

lemma dominators_spec:
  assumes "fn_closed f"
  obtains m where "compute_dominators f = Some m" "dominator_map f m"
proof -
  obtain m where m: "compute_dominators f = Some m" "dom_state f m"
    "\<forall>v. reach f v \<longrightarrow> v \<noteq> fn_entry f \<longrightarrow> dom_of m v = dom_step f m v"
    using dominators_fix_spec [OF assms dom_state_initial [OF assms]] by (auto simp: compute_dominators_def)
  have "\<exists>l. m v = Some l \<and> set l = doms f v" if "reach f v" for v
    using dom_fixed_exact [OF m(2,3) that] dom_state_Some [OF assms m(2) that] by metis
  then have "dominator_map f m"
    using dom_stateD(1,2) [OF m(2)] unfolding dominator_map_def by blast
  with that [OF m(1)] show thesis .
qed

section \<open>The fast algorithm agrees with the reference\<close>

lemma max_by_key_spec: "max_by_key key x xs \<in> set (x # xs) \<and> (\<forall>y\<in>set (x # xs). key y \<le> key (max_by_key key x xs))"
proof (induction key x xs rule: max_by_key.induct)
  case (2 key best x xs)
  then show ?case by (auto split: if_splits intro: order_trans)
qed simp

lemma doms_card_less:
  assumes f: "fn_closed f" and v: "reach f v" and d: "immediate (cfg_edge f) (fn_entry f) d v"
    and a: "a \<in> doms f v" "a \<noteq> v" "a \<noteq> d"
  shows "card (doms f a) < card (doms f d)"
proof (rule psubset_card_mono)
  have d': "dominator (cfg_edge f) (fn_entry f) d v" using d by (simp add: immediate_def)
  then have rd: "reach f d" by (rule doms_reach [OF v])
  have "doms f d \<subseteq> set (reachable_blocks f)"
    using doms_reach [OF rd] by (auto simp: reachable_blocks_set [OF fn_closedD(1) [OF f]])
  then show "finite (doms f d)" by (rule finite_subset) simp
  have ad: "dominator (cfg_edge f) (fn_entry f) a d" using d a by (simp add: immediate_def)
  moreover have "\<not> dominator (cfg_edge f) (fn_entry f) d a"
    using ad a(3) dominator_antisym [OF ad _ rd] by blast
  ultimately show "doms f a \<subset> doms f d"
    by (auto intro: dominator_trans)
qed

lemma reference_idom_spec:
  assumes f: "fn_closed f" and m: "dominator_map f m"
    and imm: "\<And>v. reach f v \<Longrightarrow> v \<noteq> fn_entry f \<Longrightarrow> immediate (cfg_edge f) (fn_entry f) (d v) v"
  shows "\<forall>v\<in>set vs. reach f v \<Longrightarrow>
    reference_idom f m vs idom =
      Some (\<lambda>v. if v \<in> set vs \<and> v \<noteq> fn_entry f then Some (Some (d v)) else idom v)"
proof (induction vs arbitrary: idom)
  case (Cons v vs)
  have dom: "\<And>v l. m v = Some l \<Longrightarrow> distinct l" "\<And>v. reach f v \<Longrightarrow> \<exists>l. m v = Some l \<and> set l = doms f v"
    using m by (auto simp: dominator_map_def)
  show ?case
  proof (cases "v = fn_entry f")
    case True
    with Cons show ?thesis by auto
  next
    case False
    from Cons.prems have v: "reach f v" by simp
    from dom(2) [OF v] obtain l where l: "m v = Some l" "set l = doms f v" by blast
    note d = imm [OF v False]
    have mem: "d v \<in> set (filter (\<lambda>x. x \<noteq> v) l)" using d l(2) by (auto simp: immediate_def)
    then obtain x xs where x: "filter (\<lambda>x. x \<noteq> v) l = x # xs" by (cases "filter (\<lambda>x. x \<noteq> v) l") auto
    have strict: "set (x # xs) = doms f v - {v}" using l(2) by (auto simp: x [symmetric])
    have count: "dom_count m y = card (doms f y)" if "y \<in> doms f v" for y
    proof -
      from dom(2) [OF doms_reach [OF v]] that obtain ly where "m y = Some ly" "set ly = doms f y" by auto
      with dom(1) [of y ly] show ?thesis by (simp add: dom_count_def distinct_card [symmetric])
    qed
    have "max_by_key (dom_count m) x xs = d v"
    proof (rule ccontr)
      assume ne: "max_by_key (dom_count m) x xs \<noteq> d v"
      from max_by_key_spec [of "dom_count m" x xs]
      have b: "max_by_key (dom_count m) x xs \<in> doms f v - {v}"
        "dom_count m (d v) \<le> dom_count m (max_by_key (dom_count m) x xs)"
        using mem unfolding x strict by auto
      with doms_card_less [OF f v d, of "max_by_key (dom_count m) x xs"] ne show False
        using count d by (auto simp: immediate_def)
    qed
    moreover have "list_all (\<lambda>y. m y \<noteq> None) (x # xs)"
      using strict dom(2) doms_reach [OF v] by (auto simp: list_all_iff) (metis option.distinct(1))+
    ultimately show ?thesis
      using Cons.IH Cons.prems False l(1) x by (auto simp: fun_eq_iff)
  qed
qed simp

text \<open>
  C19. The fast immediate dominators are the reference ones. On every control-flow graph whose edges lead
  from block to block, the set-based computation ends, and the immediate dominators read off its sets, by
  taking the strict dominator with the most dominators, are the map of the fast algorithm.
\<close>

theorem idom_fast_matches_reference:
  assumes "fn_closed f"
  shows "\<exists>m. compute_dominators f = Some m \<and> compute_idom f m = compute_idom_fast f \<and> compute_idom_fast f \<noteq> None"
proof -
  from dominators_spec [OF assms] obtain m where m: "compute_dominators f = Some m" "dominator_map f m" .
  from idom_fast_spec [OF fn_closedD(1) [OF assms]] obtain i where i: "compute_idom_fast f = Some i" "idom_map f i" .
  define d where "d v = (case i v of Some (Some d) \<Rightarrow> d | _ \<Rightarrow> v)" for v
  have imm: "immediate (cfg_edge f) (fn_entry f) (d v) v" if "reach f v" "v \<noteq> fn_entry f" for v
  proof -
    from idom_mapD(3) [OF i(2) that] obtain e where "i v = Some (Some e)" ..
    with idom_mapD(2) [OF i(2), of v e] show ?thesis by (simp add: d_def)
  qed
  have reach: "set (reachable_blocks f) = {v. reach f v}"
    by (rule reachable_blocks_set [OF fn_closedD(1) [OF assms]])
  have "(if v \<in> set (reachable_blocks f) \<and> v \<noteq> fn_entry f then Some (Some (d v))
      else fold (\<lambda>k i. i(k \<mapsto> None)) (map fst (fn_blocks f)) (\<lambda>_. None) v) = i v" for v
  proof (cases "reach f v \<and> v \<noteq> fn_entry f")
    case True
    then obtain e where "i v = Some (Some e)" using idom_mapD(3) [OF i(2)] by blast
    with True show ?thesis by (simp add: d_def reach)
  next
    case False
    then have "i v \<noteq> Some (Some e)" for e
      using idom_mapD(2) [OF i(2), of v e] by (auto simp: immediate_def dest: dominator_root)
    moreover have "i v \<noteq> None \<longleftrightarrow> v \<in> fst ` set (fn_blocks f)"
      using idom_mapD(1) [OF i(2)] fn_closedD(2) [OF assms] by (auto simp: domIff [symmetric])
    ultimately show ?thesis using False by (cases "i v") (auto simp: reach fold_none)
  qed
  then have "compute_idom f m = Some i"
    unfolding compute_idom_def
    by (subst reference_idom_spec [OF assms m(2) imm]) (simp_all add: reach)
  with m(1) i(1) show ?thesis by simp
qed

lemma while_closed: "fn_closed while_cfg"
  unfolding fn_closed_def by (intro conjI while_ok) code_simp

theorem idom_fast_matches_reference_witness:
  "\<exists>m. compute_dominators while_cfg = Some m \<and> compute_idom while_cfg m = compute_idom_fast while_cfg"
  using idom_fast_matches_reference [OF while_closed] by blast

end
