(* ===== verification/Phi_Placement.thy ===== *)
theory Phi_Placement
  imports Dominators
begin

text \<open>
  What the dominance frontier and the phi nodes of \<open>tcl-compiler/src/ssa.rs\<close> are: the frontier that the
  walk up the dominator tree collects is the one of the definition, the dominator tree inverts the parent
  map, the work list computes the iterated frontier, and where no phi node is placed the version of a
  variable is the one its immediate dominator leaves.
\<close>

section \<open>The dominance frontier\<close>

abbreviation dominates :: "('s, 'e) cfg_function \<Rightarrow> block_id \<Rightarrow> block_id \<Rightarrow> bool" where
  "dominates f \<equiv> dominator (cfg_edge f) (fn_entry f)"

definition in_frontier :: "('s, 'e) cfg_function \<Rightarrow> block_id \<Rightarrow> block_id \<Rightarrow> bool" where
  "in_frontier f a b \<longleftrightarrow>
     (\<exists>p. reach f p \<and> cfg_edge f p b \<and> dominates f a p) \<and> \<not> (a \<noteq> b \<and> dominates f a b)"

lemma idom_parent_iff:
  assumes "idom_map f m"
  shows "idom_parent m v = Some d \<longleftrightarrow> reach f v \<and> immediate (cfg_edge f) (fn_entry f) d v"
  using idom_mapD(2) [OF assms, of v d] by (auto simp: idom_parent_def split: option.splits)

lemma idom_parent_None:
  assumes "idom_map f m" "reach f v" "idom_parent m v = None"
  shows "v = fn_entry f"
  using idom_mapD(3) [OF assms(1,2)] assms(3) by (cases "v = fn_entry f") (auto simp: idom_parent_def)

lemma immediateD:
  assumes "immediate E r d v"
  shows "d \<noteq> v" "dominator E r d v" "a \<noteq> v \<Longrightarrow> dominator E r a v \<Longrightarrow> dominator E r a d"
  using assms by (auto simp: immediate_def)

lemma doms_parent:
  assumes "idom_map f m" "idom_parent m v = Some d"
  shows "doms f v = insert v (doms f d)" "reach f d" "v \<notin> doms f d"
proof -
  from assms have v: "reach f v" "immediate (cfg_edge f) (fn_entry f) d v"
    by (simp_all add: idom_parent_iff)
  note d = immediateD [OF v(2)]
  show "doms f v = insert v (doms f d)" using d by (auto intro: dominator_trans)
  show "reach f d" by (rule dominator_reachable [OF d(2) v(1)])
  show "v \<notin> doms f d" using dominator_antisym [OF d(2) _ v(1)] d(1) by auto
qed

lemma finite_doms [simp]: "fn_ok f \<Longrightarrow> reach f v \<Longrightarrow> finite (doms f v)"
  by (rule finite_subset [OF _ finite_set [of "reachable_blocks f"]]) (auto simp: reachable_blocks_set dest: doms_reach)

lemma parent_doms_less:
  assumes "fn_ok f" "idom_map f m" "idom_parent m v = Some d"
  shows "card (doms f d) < card (doms f v)"
proof -
  note d = doms_parent [OF assms(2,3)]
  have "finite (doms f d)" by (rule finite_doms [OF assms(1) d(2)])
  with d(1,3) show ?thesis by simp
qed

text \<open>The blocks the runner passes on its way from a predecessor to the parent of the join.\<close>

definition passed :: "('s, 'e) cfg_function \<Rightarrow> (block_id \<rightharpoonup> block_id option) \<Rightarrow> block_id \<Rightarrow> block_id \<Rightarrow> block_id set" where
  "passed f m b p = doms f p - (case idom_parent m b of Some d \<Rightarrow> doms f d | None \<Rightarrow> {})"

lemma preds_of_insert_into:
  "set (preds_of (insert_into k v m) a) = set (preds_of m a) \<union> (if a = k then {v} else {})"
  by (auto simp: insert_into_def preds_of_def)

lemma run_up_spec:
  assumes f: "fn_ok f" and m: "idom_map f m"
  shows "reach f r \<Longrightarrow> (\<And>d. idom_parent m b = Some d \<Longrightarrow> dominates f d r) \<Longrightarrow>
    \<exists>df'. run_up m b (Some r) df = Some df' \<and>
      (\<forall>a. set (preds_of df' a) = set (preds_of df a) \<union> (if a \<in> passed f m b r then {b} else {}))"
proof (induction "card (doms f r)" arbitrary: r df rule: less_induct)
  case less
  show ?case
  proof (cases "idom_parent m b = Some r")
    case True
    then show ?thesis by (subst run_up.simps) (auto simp: passed_def)
  next
    case False
    have new: "r \<in> passed f m b r"
    proof (cases "idom_parent m b")
      case (Some d)
      with False less.prems(2) [OF Some] dominator_antisym [OF less.prems(2) [OF Some] _ less.prems(1)] show ?thesis
        by (auto simp: passed_def)
    qed (simp add: passed_def)
    show ?thesis
    proof (cases "idom_parent m r")
      case None
      with idom_parent_None [OF m less.prems(1)] have "r = fn_entry f" by simp
      then have "passed f m b r = {r}" using new by (auto simp: passed_def dest: dominator_root)
      with False None show ?thesis
        by (subst run_up.simps, subst run_up.simps) (simp add: preds_of_insert_into)
    next
      case (Some r')
      note r' = doms_parent [OF m Some]
      have "immediate (cfg_edge f) (fn_entry f) r' r" using idom_parent_iff [OF m] Some by simp
      then have up: "dominates f d r'" if "idom_parent m b = Some d" for d
        using less.prems(2) [OF that] False that by (auto dest: immediateD(3))
      obtain df' where df': "run_up m b (Some r') (insert_into r b df) = Some df'"
        "\<forall>a. set (preds_of df' a) = set (preds_of (insert_into r b df) a) \<union> (if a \<in> passed f m b r' then {b} else {})"
        using less.hyps [OF parent_doms_less [OF f m Some] r'(2) up, of "insert_into r b df"] by blast
      have "passed f m b r = insert r (passed f m b r')" using new r'(1) by (auto simp: passed_def)
      with df' False Some show ?thesis
        by (subst run_up.simps) (auto simp: preds_of_insert_into)
    qed
  qed
qed

lemma run_up_all_spec:
  assumes f: "fn_ok f" and m: "idom_map f m"
  shows "(\<And>p d. p \<in> set ps \<Longrightarrow> idom_parent m b = Some d \<Longrightarrow> dominates f d p) \<Longrightarrow> \<forall>p\<in>set ps. reach f p \<Longrightarrow>
    \<exists>df'. run_up_all m b ps df = Some df' \<and>
      (\<forall>a. set (preds_of df' a) = set (preds_of df a) \<union> (if \<exists>p\<in>set ps. a \<in> passed f m b p then {b} else {}))"
proof (induction ps arbitrary: df)
  case (Cons p ps)
  from Cons.prems(2) have p: "reach f p" by simp
  from run_up_spec [OF f m p, of b df] Cons.prems(1) obtain df1 where df1: "run_up m b (Some p) df = Some df1"
    "\<forall>a. set (preds_of df1 a) = set (preds_of df a) \<union> (if a \<in> passed f m b p then {b} else {})" by auto
  obtain df' where "run_up_all m b ps df1 = Some df'"
    "\<forall>a. set (preds_of df' a) = set (preds_of df1 a) \<union> (if \<exists>p\<in>set ps. a \<in> passed f m b p then {b} else {})"
    using Cons.IH [of df1] Cons.prems by auto
  with df1 show ?case by auto
qed simp

lemma immediate_dominates_preds:
  assumes "idom_map f m" "idom_parent m b = Some d" "cfg_edge f p b"
  shows "dominates f d p"
  using assms dominator_pred [of "cfg_edge f" "fn_entry f" d b p] by (auto simp: idom_parent_iff immediate_def)

lemma passed_frontier:
  assumes m: "idom_map f m" and b: "reach f b"
  shows "in_frontier f a b \<longleftrightarrow> (\<exists>p. reach f p \<and> cfg_edge f p b \<and> a \<in> passed f m b p)"
proof -
  have "(case idom_parent m b of Some d \<Rightarrow> dominates f a d | None \<Rightarrow> False) \<longleftrightarrow> a \<noteq> b \<and> dominates f a b"
  proof (cases "idom_parent m b")
    case None
    with idom_parent_None [OF m b] show ?thesis by (auto dest: dominator_root)
  next
    case (Some d)
    with doms_parent [OF m Some] show ?thesis by auto
  qed
  then show ?thesis
    unfolding in_frontier_def passed_def by (auto split: option.splits)
qed

lemma single_pred_frontier:
  assumes m: "idom_map f m" and b: "reach f b" "b \<noteq> fn_entry f" and ps: "{p. reach f p \<and> cfg_edge f p b} = {p}"
  shows "\<not> in_frontier f a b"
proof
  have p: "dominates f p b"
    unfolding dominator_def
  proof (intro allI impI)
    fix xs assume xs: "path (cfg_edge f) (fn_entry f) (b # xs)"
    with b(2) obtain u ys where "xs = u # ys" by (cases xs) auto
    with xs ps show "p \<in> set (b # xs)" by (auto dest: path_reachable)
  qed
  have "p \<noteq> b"
  proof
    assume "p = b"
    from reachable_path [OF b(1)] obtain xs where "path (cfg_edge f) (fn_entry f) (b # xs)" ..
    from simple_path [OF this] obtain ys where ys: "path (cfg_edge f) (fn_entry f) (b # ys)" "distinct (b # ys)" by auto
    with b(2) obtain u zs where u: "ys = u # zs" by (cases ys) auto
    with ys(1) have "u \<in> {p. reach f p \<and> cfg_edge f p b}" by (auto dest: path_reachable)
    with ps \<open>p = b\<close> u ys(2) show False by auto
  qed
  assume "in_frontier f a b"
  with ps have a: "dominates f a p" "\<not> (a \<noteq> b \<and> dominates f a b)" by (auto simp: in_frontier_def)
  with dominator_trans [OF a(1) p] have "a = b" by blast
  with a(1) dominator_antisym [OF p _ b(1)] \<open>p \<noteq> b\<close> show False by blast
qed

definition frontier_at :: "('s, 'e) cfg_function \<Rightarrow> block_id \<Rightarrow> block_id \<Rightarrow> bool" where
  "frontier_at f a b \<longleftrightarrow> in_frontier f a b \<and> (b = fn_entry f \<longrightarrow> 2 \<le> card {p. reach f p \<and> cfg_edge f p b})"

lemma frontier_blocks_spec:
  assumes f: "fn_ok f" and m: "idom_map f m"
  shows "\<forall>b\<in>set bs. reach f b \<Longrightarrow>
    \<exists>df'. frontier_blocks f m bs df = Some df' \<and>
      (\<forall>a b. b \<in> set (preds_of df' a) \<longleftrightarrow> b \<in> set (preds_of df a) \<or> b \<in> set bs \<and> frontier_at f a b)"
proof (induction bs arbitrary: df)
  case (Cons b bs)
  define ps where "ps = filter (\<lambda>p. p \<in> set (reachable_blocks f)) (preds_of (predecessors f) b)"
  have set_ps: "set ps = {p. reach f p \<and> cfg_edge f p b}"
    using f by (auto simp: ps_def predecessors_set reachable_blocks_set)
  have len: "length ps = card {p. reach f p \<and> cfg_edge f p b}"
    using distinct_card [of ps] set_ps by (simp add: ps_def)
  from Cons.prems have b: "reach f b" by simp
  show ?case
  proof (cases "length ps < 2")
    case True
    have "\<not> frontier_at f a b" for a
    proof (cases "b = fn_entry f")
      case False
      from reach_pred [OF b False] set_ps have "ps \<noteq> []" by auto
      with True obtain p where "ps = [p]" by (cases ps; cases "tl ps") auto
      with set_ps have "{p. reach f p \<and> cfg_edge f p b} = {p}" by simp
      from single_pred_frontier [OF m b False this] show ?thesis by (simp add: frontier_at_def)
    qed (use True len in \<open>simp add: frontier_at_def\<close>)
    moreover obtain df' where "frontier_blocks f m bs df = Some df'"
      "\<forall>a c. c \<in> set (preds_of df' a) \<longleftrightarrow> c \<in> set (preds_of df a) \<or> c \<in> set bs \<and> frontier_at f a c"
      using Cons.IH [of df] Cons.prems by auto
    ultimately show ?thesis using True by (auto simp: ps_def [symmetric] Let_def)
  next
    case False
    have "\<exists>df1. run_up_all m b ps df = Some df1 \<and>
      (\<forall>a. set (preds_of df1 a) = set (preds_of df a) \<union> (if \<exists>p\<in>set ps. a \<in> passed f m b p then {b} else {}))"
      by (rule run_up_all_spec [OF f m]) (use immediate_dominates_preds [OF m] set_ps in auto)
    moreover have "(\<exists>p\<in>set ps. a \<in> passed f m b p) \<longleftrightarrow> frontier_at f a b" for a
      using passed_frontier [OF m b, of a] set_ps False len by (auto simp: frontier_at_def)
    ultimately obtain df1 where df1: "run_up_all m b ps df = Some df1"
      "\<forall>a. set (preds_of df1 a) = set (preds_of df a) \<union> (if frontier_at f a b then {b} else {})" by auto
    obtain df' where "frontier_blocks f m bs df1 = Some df'"
      "\<forall>a c. c \<in> set (preds_of df' a) \<longleftrightarrow> c \<in> set (preds_of df1 a) \<or> c \<in> set bs \<and> frontier_at f a c"
      using Cons.IH [of df1] Cons.prems by auto
    with df1 False show ?thesis by (auto simp: ps_def [symmetric] Let_def)
  qed
qed simp

lemma frontier_spec:
  assumes f: "fn_ok f" and m: "idom_map f m"
  obtains df where "compute_dominance_frontier f m = Some df" "\<forall>a b. b \<in> set (preds_of df a) \<longleftrightarrow> frontier_at f a b"
proof -
  have reach: "set (reachable_blocks f) = {v. reach f v}" by (rule reachable_blocks_set [OF f])
  define start where "start = fold (\<lambda>k m. m(k \<mapsto> [])) (map fst (fn_blocks f)) (\<lambda>_. None :: block_id list option)"
  have "preds_of start a = []" for a by (simp add: start_def preds_of_def initial_value)
  with frontier_blocks_spec [OF f m, of "reachable_blocks f" start] reach obtain df where
    df: "compute_dominance_frontier f m = Some df" "\<forall>a b. b \<in> set (preds_of df a) \<longleftrightarrow> reach f b \<and> frontier_at f a b"
    by (auto simp: compute_dominance_frontier_def start_def)
  have "reach f b" if "frontier_at f a b" for a b
    using that by (auto simp: frontier_at_def in_frontier_def intro: rtranclp.rtrancl_into_rtrancl)
  with df that show thesis by blast
qed

text \<open>
  C20. The dominance frontier is the one of the definition: with the parents of the fast algorithm the
  walks end, and a block \<open>b\<close> is in the frontier of \<open>a\<close> exactly when \<open>a\<close> dominates a reachable predecessor
  of \<open>b\<close> and does not strictly dominate \<open>b\<close>. The entry block is the exception: it joins the start of
  the function with its predecessors, but it is left out unless it has two of them.
\<close>

theorem dominance_frontier_correct:
  assumes "fn_ok f" "compute_idom_fast f = Some m"
  shows "\<exists>df. compute_dominance_frontier f m = Some df \<and>
    (\<forall>a b. b \<in> set (preds_of df a) \<longleftrightarrow>
       (\<exists>p. reach f p \<and> cfg_edge f p b \<and> dominates f a p) \<and> \<not> (a \<noteq> b \<and> dominates f a b) \<and>
       (b = fn_entry f \<longrightarrow> 2 \<le> card {p. reach f p \<and> cfg_edge f p b}))"
proof -
  have m: "idom_map f m" using idom_fast_spec [OF assms(1)] assms(2) by (metis option.inject)
  obtain df where "compute_dominance_frontier f m = Some df" "\<forall>a b. b \<in> set (preds_of df a) \<longleftrightarrow> frontier_at f a b"
    by (rule frontier_spec [OF assms(1) m])
  then show ?thesis by (auto simp: frontier_at_def in_frontier_def)
qed

theorem dominance_frontier_correct_witness:
  "\<exists>m df. compute_idom_fast while_cfg = Some m \<and> compute_dominance_frontier while_cfg m = Some df \<and>
     (1 \<in> set (preds_of df 2) \<longleftrightarrow>
       (\<exists>p. reach while_cfg p \<and> cfg_edge while_cfg p 1 \<and> dominates while_cfg 2 p) \<and> \<not> dominates while_cfg 2 1)"
proof -
  obtain m where m: "compute_idom_fast while_cfg = Some m" using idom_fast_spec [OF while_ok] by blast
  have "fn_entry while_cfg = 0" by (simp add: while_cfg_def)
  with dominance_frontier_correct [OF while_ok m] m show ?thesis by auto
qed

section \<open>The dominator tree\<close>

lemma dom_tree_fold:
  "distinct ks \<Longrightarrow>
   preds_of (fold (\<lambda>k m. case idom_parent idom k of Some p \<Rightarrow> m(p \<mapsto> preds_of m p @ [k]) | None \<Rightarrow> m) ks t) v =
     preds_of t v @ filter (\<lambda>k. idom_parent idom k = Some v) ks"
proof (induction ks arbitrary: t)
  case (Cons k ks)
  then show ?case by (cases "idom_parent idom k") (auto simp: preds_of_def)
qed simp

lemma preds_of_map_option: "preds_of (\<lambda>k. map_option sort (t k)) v = sort (preds_of t v)"
  by (simp add: preds_of_def split: option.split)

text \<open>The children of a block are the keys whose parent it is, in ascending order.\<close>

lemma dom_tree_children:
  assumes "distinct ks"
  shows "preds_of (build_dom_tree ks idom) v = sort (filter (\<lambda>k. idom_parent idom k = Some v) ks)"
  using assms
  by (simp add: build_dom_tree_def Let_def preds_of_map_option dom_tree_fold preds_of_defaults) (simp add: preds_of_def)

section \<open>Phi nodes\<close>

inductive iterated :: "dom_map \<Rightarrow> block_id list \<Rightarrow> block_id \<Rightarrow> bool" for df sites where
  site: "s \<in> set sites \<Longrightarrow> b \<in> set (preds_of df s) \<Longrightarrow> iterated df sites b"
| again: "iterated df sites a \<Longrightarrow> b \<in> set (preds_of df a) \<Longrightarrow> iterated df sites b"

lemma phi_targets_spec:
  "phi_targets sites bs has work = (has', work') \<Longrightarrow>
   set has' = set has \<union> set bs \<and> set work' = set work \<union> {b \<in> set bs. b \<notin> set has \<and> b \<notin> set sites} \<and>
   (set bs \<subseteq> set has \<longrightarrow> work' = work)"
proof (induction sites bs has work rule: phi_targets.induct)
  case (2 sites b bs has work)
  then show ?case by (cases "b \<in> set has") (auto split: if_splits)
qed simp

lemma phi_loop_spec:
  assumes fin: "finite {b. \<exists>a. b \<in> set (preds_of df a)}"
  shows "set has \<subseteq> Collect (iterated df sites) \<Longrightarrow> set work \<subseteq> set sites \<union> Collect (iterated df sites) \<Longrightarrow>
    (\<forall>n\<in>set sites \<union> set has. n \<in> set work \<or> set (preds_of df n) \<subseteq> set has) \<Longrightarrow>
    \<exists>bs. phi_loop df sites has work = Some bs \<and> set bs = Collect (iterated df sites)"
proof (induction "(card ({b. \<exists>a. b \<in> set (preds_of df a)} - set has), length work)" arbitrary: "has" work
    rule: wf_induct_rule [OF wf_lex_prod [OF wf_less_than wf_less_than]])
  case 1
  show ?case
  proof (cases work)
    case Nil
    have "b \<in> set has" if "iterated df sites b" for b
      using that by induction (use 1(4) Nil in auto)
    with Nil 1(2) show ?thesis by (subst phi_loop.simps) auto
  next
    case (Cons nb rest)
    obtain has' work' where t: "phi_targets sites (preds_of df nb) has rest = (has', work')" by fastforce
    note spec = phi_targets_spec [OF t]
    have new: "iterated df sites b" if "b \<in> set (preds_of df nb)" for b
      using that 1(3) Cons by (auto intro: iterated.intros)
    have dec: "((card ({b. \<exists>a. b \<in> set (preds_of df a)} - set has'), length work'),
        (card ({b. \<exists>a. b \<in> set (preds_of df a)} - set has), length work)) \<in> less_than <*lex*> less_than"
    proof (cases "set (preds_of df nb) \<subseteq> set has")
      case True
      with spec Cons show ?thesis by (simp add: Un_absorb2)
    next
      case False
      have "card ({b. \<exists>a. b \<in> set (preds_of df a)} - set has') < card ({b. \<exists>a. b \<in> set (preds_of df a)} - set has)"
        using False spec by (intro psubset_card_mono) (use fin in auto)
      then show ?thesis by simp
    qed
    have open_work: "n \<in> set work' \<or> set (preds_of df n) \<subseteq> set has'" if n: "n \<in> set sites \<union> set has'" for n
    proof (cases "n \<in> set sites \<union> set has")
      case True
      with 1(4) Cons have "n = nb \<or> n \<in> set rest \<or> set (preds_of df n) \<subseteq> set has" by simp
      with spec show ?thesis by blast
    next
      case False
      with n spec show ?thesis by blast
    qed
    have "\<exists>bs. phi_loop df sites has' work' = Some bs \<and> set bs = Collect (iterated df sites)"
    proof (rule 1(1) [OF dec])
      show "set has' \<subseteq> Collect (iterated df sites)" using spec 1(2) new by blast
      show "set work' \<subseteq> set sites \<union> Collect (iterated df sites)" using spec 1(3) Cons new by auto
      show "\<forall>n\<in>set sites \<union> set has'. n \<in> set work' \<or> set (preds_of df n) \<subseteq> set has'"
        using open_work by blast
    qed
    with t Cons show ?thesis by (subst phi_loop.simps) simp
  qed
qed

lemma place_phis_spec:
  assumes "finite {b. \<exists>a. b \<in> set (preds_of df a)}"
  shows "\<exists>bs. place_phis df sites = Some bs \<and> set bs = Collect (iterated df sites)"
  unfolding place_phis_def by (rule phi_loop_spec [OF assms]) auto

text \<open>Along a walk without definitions or phi nodes the last definition dominates.\<close>

lemma quiet_walk_dominated:
  assumes P: "\<And>a b. a \<in> S \<union> P \<Longrightarrow> in_frontier f a b \<Longrightarrow> b \<noteq> fn_entry f \<Longrightarrow> b \<in> P" and u: "u \<in> S \<union> P"
  shows "successively (cfg_edge f) (x # xs) \<Longrightarrow> reach f x \<Longrightarrow> dominates f u x \<Longrightarrow>
    set xs \<inter> P = {} \<Longrightarrow> fn_entry f \<notin> set xs \<Longrightarrow> y \<in> set xs \<Longrightarrow> u \<noteq> y \<and> dominates f u y"
proof (induction xs arbitrary: x)
  case (Cons z zs)
  have z: "u \<noteq> z \<and> dominates f u z"
  proof (rule ccontr)
    assume "\<not> ?thesis"
    then have "in_frontier f u z" using Cons.prems by (auto simp: in_frontier_def)
    from P [OF u this] Cons.prems show False by auto
  qed
  show ?case
  proof (cases "y = z")
    case False
    with Cons.IH [of z] Cons.prems z show ?thesis by (auto intro: rtranclp.rtrancl_into_rtrancl)
  qed (use z in simp)
qed simp

lemma successively_path: "path E r (x # p) \<Longrightarrow> successively E (x # xs) \<Longrightarrow> path E r (rev xs @ x # p)"
proof (induction xs arbitrary: x p)
  case (Cons y ys)
  then show ?case using Cons.IH [of y "x # p"] by simp
qed simp

lemma no_definition_between:
  assumes f: "fn_ok f" and m: "idom_map f m" and parent: "idom_parent m v = Some d"
    and df: "\<forall>a b. b \<in> set (preds_of df a) \<longleftrightarrow> frontier_at f a b"
    and v: "\<not> iterated df sites v"
    and walk: "successively (cfg_edge f) (d # ws @ [v])" "d \<notin> set ws" and w: "w \<in> set ws"
  shows "w \<notin> set sites \<and> \<not> iterated df sites w"
proof (rule ccontr)
  let ?D = "set sites \<union> Collect (iterated df sites)"
  assume "\<not> ?thesis"
  with w have "\<exists>w\<in>set ws. w \<in> ?D" by auto
  then obtain as u bs where split: "ws = as @ u # bs" "u \<in> ?D" "\<forall>b\<in>set bs. b \<notin> ?D"
    by (auto elim!: split_list_last_propE)
  have imm: "reach f v" "immediate (cfg_edge f) (fn_entry f) d v"
    using parent by (simp_all add: idom_parent_iff [OF m])
  note dom = immediateD [OF imm(2)]
  have rd: "reach f d" by (rule doms_parent(2) [OF m parent])
  have tail: "successively (cfg_edge f) (u # bs @ [v])" "d \<notin> set (u # bs @ [v])"
    using walk split(1) dom(1) by (auto simp: successively_append_iff successively_Cons)
  have on: "d \<in> set (x # p)" if x: "path (cfg_edge f) (fn_entry f) (x # p)" "x # ys = zs @ x # ys"
    "successively (cfg_edge f) (x # ys @ [v])" "d \<notin> set ys" for x p ys zs
    using dominatorD [OF dom(2), of "rev ys @ x # p"] successively_path [OF x(1,3)] x(4) dom(1) by auto
  have du: "dominates f d u"
    unfolding dominator_def using on [of u _ bs "[]"] tail by auto
  have ru: "reach f u"
  proof -
    from reachable_path [OF rd] obtain p where "path (cfg_edge f) (fn_entry f) (d # p)" ..
    moreover have "d # ws @ [v] = (d # as @ [u]) @ bs @ [v]" using split(1) by simp
    with walk(1) have "successively (cfg_edge f) (d # as @ [u])" by (metis successively_append_iff)
    ultimately have "path (cfg_edge f) (fn_entry f) (u # rev as @ d # p)"
      using successively_path [of "cfg_edge f" "fn_entry f" d p "as @ [u]"] by simp
    then show ?thesis by (rule path_reachable)
  qed
  have entry: "fn_entry f \<notin> set (bs @ [v])"
  proof
    assume "fn_entry f \<in> set (bs @ [v])"
    moreover have "v \<noteq> fn_entry f" using dom(1,2) by (auto dest: dominator_root)
    ultimately obtain cs ds where cd: "bs = cs @ fn_entry f # ds" by (auto dest: split_list)
    have "d \<in> set [fn_entry f]"
      by (rule on [of _ "[]" ds "[]"]) (use tail cd in \<open>auto simp: successively_append_iff successively_Cons\<close>)
    with tail(2) cd show False by auto
  qed
  have "u \<noteq> v \<and> dominates f u v"
  proof (rule quiet_walk_dominated [where S = "set sites" and P = "Collect (iterated df sites)"])
    show "b \<in> Collect (iterated df sites)" if "a \<in> ?D" "in_frontier f a b" "b \<noteq> fn_entry f" for a b
      using that df by (auto simp: frontier_at_def intro: iterated.intros)
  qed (use split tail ru entry v in auto)
  with dom(3) have "dominates f u d" by blast
  with dominator_antisym [OF _ du rd] have "u = d" by blast
  with tail(2) show False by simp
qed

lemma finite_frontier:
  assumes "fn_ok f" "\<forall>a b. b \<in> set (preds_of df a) \<longleftrightarrow> frontier_at f a b"
  shows "finite {b. \<exists>a. b \<in> set (preds_of df a)}"
proof (rule finite_subset [OF _ finite_set [of "reachable_blocks f"]])
  have "reach f b" if "frontier_at f a b" for a b
    using that by (auto simp: frontier_at_def in_frontier_def intro: rtranclp.rtrancl_into_rtrancl)
  then show "{b. \<exists>a. b \<in> set (preds_of df a)} \<subseteq> set (reachable_blocks f)"
    using assms by (auto simp: reachable_blocks_set)
qed

lemma phi_insert_fold:
  "set (preds_of (fold (\<lambda>b p. p(b \<mapsto> List.insert var (case p b of Some l \<Rightarrow> l | None \<Rightarrow> []))) bs phi) v) =
     set (preds_of phi v) \<union> (if v \<in> set bs then {var} else {})"
  by (induction bs arbitrary: phi) (auto simp: preds_of_def)

lemma phi_vars_loop_spec:
  assumes fin: "finite {b. \<exists>a. b \<in> set (preds_of df a)}"
  shows "\<exists>phi'. phi_vars_loop df nonlocal defsites phi = Some phi' \<and>
    (\<forall>v var. var \<in> set (preds_of phi' v) \<longleftrightarrow> var \<in> set (preds_of phi v) \<or>
       var \<in> set nonlocal \<and> (\<exists>sites. (var, sites) \<in> set defsites \<and> iterated df sites v))"
proof (induction defsites arbitrary: phi)
  case (Cons e vs)
  obtain var sites where e: "e = (var, sites)" by fastforce
  show ?case
  proof (cases "var \<in> set nonlocal")
    case False
    with Cons.IH [of phi] e show ?thesis by auto
  next
    case True
    obtain bs where bs: "place_phis df sites = Some bs" "set bs = Collect (iterated df sites)"
      using place_phis_spec [OF fin] by blast
    define phi1 where "phi1 = fold (\<lambda>b p. p(b \<mapsto> List.insert var (case p b of Some l \<Rightarrow> l | None \<Rightarrow> []))) bs phi"
    have "set (preds_of phi1 v) = set (preds_of phi v) \<union> (if iterated df sites v then {var} else {})" for v
      by (simp add: phi1_def phi_insert_fold bs(2))
    with Cons.IH [of phi1] e True bs(1) show ?thesis by (auto simp: phi1_def)
  qed
qed simp

text \<open>
  C9. Phi nodes for the non-local variables are placed wherever their definitions meet. Placement is
  semi-pruned: only a variable that some block reads before defining it is considered, and a local one
  gets no phi node. With the parents and the frontier the algorithms compute, placement ends, and a
  block without a phi node for a non-local variable is entered with the version its immediate dominator
  leaves: on no way from the parent to the block, however it winds, is there a block that defines the
  variable or has a phi node for it.
\<close>

theorem phis_where_definitions_meet:
  assumes "fn_ok f" "compute_idom_fast f = Some m" "compute_dominance_frontier f m = Some df"
    and "distinct (map fst defsites)"
  shows "\<exists>phi. compute_phi_vars f df nonlocal defsites = Some phi \<and>
    (\<forall>var sites v d ws. var \<in> set nonlocal \<longrightarrow> (var, sites) \<in> set defsites \<longrightarrow>
       m v = Some (Some d) \<longrightarrow> var \<notin> set (preds_of phi v) \<longrightarrow>
       successively (cfg_edge f) (d # ws @ [v]) \<longrightarrow> d \<notin> set ws \<longrightarrow>
       (\<forall>w\<in>set ws. w \<notin> set sites \<and> var \<notin> set (preds_of phi w)))"
proof -
  have m: "idom_map f m" using idom_fast_spec [OF assms(1)] assms(2) by (metis option.inject)
  have df: "\<forall>a b. b \<in> set (preds_of df a) \<longleftrightarrow> frontier_at f a b"
    using frontier_spec [OF assms(1) m] assms(3) by (metis option.inject)
  define phi0 where "phi0 = fold (\<lambda>k m. m(k \<mapsto> [])) (map fst (fn_blocks f)) (\<lambda>_. None :: string list option)"
  have "preds_of phi0 v = []" for v by (simp add: phi0_def preds_of_def initial_value)
  with phi_vars_loop_spec [OF finite_frontier [OF assms(1) df], of nonlocal defsites phi0]
  obtain phi where phi: "compute_phi_vars f df nonlocal defsites = Some phi"
    "\<And>v var. var \<in> set (preds_of phi v) \<longleftrightarrow>
       var \<in> set nonlocal \<and> (\<exists>sites. (var, sites) \<in> set defsites \<and> iterated df sites v)"
    by (auto simp: compute_phi_vars_def phi0_def)
  have "w \<notin> set sites \<and> var \<notin> set (preds_of phi w)"
    if v: "var \<in> set nonlocal" "(var, sites) \<in> set defsites" "m v = Some (Some d)" "var \<notin> set (preds_of phi v)"
      "successively (cfg_edge f) (d # ws @ [v])" "d \<notin> set ws" "w \<in> set ws" for var sites v d ws w
  proof -
    have "idom_parent m v = Some d" using v(3) by (simp add: idom_parent_def)
    moreover have "\<not> iterated df sites v" using v(1,2,4) phi(2) by blast
    ultimately have "w \<notin> set sites \<and> \<not> iterated df sites w"
      by (rule no_definition_between [OF assms(1) m _ df _ v(5-7)])
    moreover have "sites' = sites" if "(var, sites') \<in> set defsites" for sites'
      using that v(2) assms(4) by (metis map_of_eq_Some_iff option.inject)
    ultimately show ?thesis using phi(2) by auto
  qed
  with phi(1) show ?thesis by blast
qed

theorem phis_where_definitions_meet_witness:
  "\<exists>m df phi. compute_idom_fast while_cfg = Some m \<and> compute_dominance_frontier while_cfg m = Some df \<and>
     compute_phi_vars while_cfg df [''i''] [(''i'', [0, 2])] = Some phi"
proof -
  obtain m df where "compute_idom_fast while_cfg = Some m" "compute_dominance_frontier while_cfg m = Some df"
    using frontier_spec [OF while_ok] idom_fast_spec [OF while_ok] by metis
  with phis_where_definitions_meet [OF while_ok this, of "[(''i'', [0, 2])]" "[''i'']"] show ?thesis by auto
qed

end
