(* ===== verification/Spec2Isabelle.thy ===== *)
theory Spec2Isabelle
  imports Tcl_List Glob Bpf_Compose Bpf_Run Document_Store Edit_Order Lexer_Strict Pkg_Resolver Phi_Placement
begin

text \<open>
  A verification library for the core of the Tcl toolchain under \<open>src/rust\<close>.

  The program is a language server and compiler collection for Tcl and its dialects. The library models
  the parts of it that carry the program's own algorithms and whose results others rely on. They form
  six stacks.

  \<^bold>\<open>Text and lists.\<close> Everything in the toolchain reads Tcl words. \<open>Prelude\<close> has bytes as
  characters, UTF-8, slices and character boundaries, and the reads that Rust panics on as options.
  \<open>Backslash\<close> is \<open>tcl-lexer/src/substitution.rs\<close> with the escape grammars of
  \<open>tcl-dialect/src/grammar.rs\<close>: the decoder of the four release grammars, escape extents, segments,
  and the collapsing of line continuations. \<open>Tcl_List\<close> is \<open>tcl-syntax/src/list.rs\<close>: the element
  scanner, the strict, raw, lenient and Jim splitters, and the renderer with its quoting decision.
  \<open>Glob\<close> is \<open>tcl-syntax/src/glob.rs\<close>. The lemmas show the decoder equal to a one-character-at-a-time
  substitution, the renderer inverted by the splitter, the Jim splitter equal to the strict one but for
  continuation lines, the glob loop equal to a backtracking
  specification, and every loop of these files terminating inside the text.

  \<^bold>\<open>The lexer.\<close> \<open>Span\<close> and \<open>Lexer_Scan\<close> have the spans, positions and tokens of
  \<open>tcl-lexer/src/span.rs\<close>, \<open>tokens.rs\<close> and \<open>source_map.rs\<close>, the axes of the lexical grammar from
  \<open>tcl-dialect/src/grammar.rs\<close>, the variable-name characters of \<open>tcl-core-types/src/naming.rs\<close> and
  the scanners that find where a word part ends. \<open>Lexer\<close> is the tokeniser of \<open>lexer.rs\<close> itself: its
  state, one function per method, the dispatch of \<open>get_token\<close> and the loop of \<open>tokenise_all\<close>.
  \<open>Lexer_Stream\<close> proves what its clients assume: the lexer returns on every source, the tokens tile
  the source from its start to its end, each ending where the next starts or before its own closing
  delimiter (an empty opening part of a quoted word alone reaches one byte further), and each token's
  text is the slice its offsets name. \<open>Lexer_Strict\<close> relates strict quoting to the lenient default by a simulation. The
  theorems on the stream assume that no recovery delimiter was inserted.

  \<^bold>\<open>The package resolver.\<close> \<open>Pkg_Version\<close> is \<open>tcl-pkg/src/version.rs\<close>: parsing, the order
  of versions with pre-release tags, requirement sets and their canonical text. \<open>Pkg_Resolver\<close> is
  \<open>resolver.rs\<close>: minimal version selection, a work list over requirements with the ordered maps of the
  source behind the locale \<open>ordered_map\<close>. Its lemmas show that a resolution meets every requirement,
  that no assignment meeting those of every version up to its own is lower, that the loops always end, and that a graph of at most ten thousand
  requirements with nothing excluded is resolved.

  \<^bold>\<open>Control flow.\<close> \<open>Cfg\<close> is the control-flow graph of \<open>tcl-compiler/src/cfg.rs\<close>: blocks,
  terminators, exception edges, predecessors, reachability and the reverse postorder, whose lemmas say
  that it lists the reachable blocks once, each but the entry after one of its predecessors. \<open>Dominance\<close>
  and \<open>Dominators\<close> are the dominance part of \<open>ssa.rs\<close>: the fast immediate dominators over
  reverse-postorder numbers, the dominator sets they are tested against, the dominance frontier, the
  dominator tree and the placement of phi nodes. The loops that run until nothing changes are partial
  functions; the proof that the fast one ends counts, for each path, the steps against the numbering:
  after \<open>t\<close> passes the stored ancestors of a block lie on every path to it with fewer than \<open>t\<close> of
  them, and no path needs as many as there are blocks. \<open>Phi_Placement\<close> shows the frontier to be the one
  of its definition and phi nodes to stand wherever definitions of a non-local variable meet.

  \<^bold>\<open>The BPF back end.\<close> \<open>Bpf_IR\<close> is the typed intermediate representation of
  \<open>bpf-tcl-ir/src/ir.rs\<close> with its diagnostics; \<open>Bpf_Compose\<close> the composition of event handlers
  (\<open>compose.rs\<close>); \<open>Bpf_Alloc\<close> slot allocation (\<open>alloc.rs\<close>: liveness, interference, colouring,
  rewriting) and \<open>Bpf_Alloc_Correct\<close> its refinement proof. \<open>Ebpf_Insn\<close> and \<open>Ebpf_Emit\<close> are
  \<open>bpf-tcl-codegen/src/ebpf/insn.rs\<close> and \<open>emit.rs\<close>; \<open>Ebpf_Verifier\<close> is \<open>verifier.rs\<close>.
  \<open>Bpf_Sem\<close> and \<open>Bpf_Run\<close> are the emulated maps, helpers and the run harness of
  \<open>bpf-tcl/src/run.rs\<close>. The virtual machine the harness drives is a third-party crate: it is a
  parameter, the locale \<open>ebpf_vm\<close> of \<open>Ebpf_Machine\<close>, whose assumptions are one documented rule of
  the instruction set each; \<open>Ebpf_Exec\<close> interprets the locale by a concrete machine so that they hold
  of something, and \<open>Ebpf_Sim\<close> and \<open>Ebpf_Total\<close> carry the simulation and the totality proof. The
  meaning of the IR is the evaluator \<open>run_ir\<close> with fuel: a program that returns does so with some
  fuel, and the refinement theorems turn that fuel into a bounded run of the machine.

  \<^bold>\<open>The language server's document state.\<close> \<open>Line_Index\<close> is \<open>tcl-lexer/src/line_index.rs\<close>: line
  starts under the lexer's and the editor's line rules, the in-place update for an edit, and UTF-16
  positions. \<open>Rust_Str\<close> has the few operations of the standard library's strings that the next two
  use, and \<open>Dialect_Hints\<close> is the part of \<open>tcl-registry/src/dialects.rs\<close> that reads the text:
  shebangs, content signatures and the marker list. \<open>Document_Sync\<close> and \<open>Document_Store\<close> are from
  \<open>tcl-lsp-server/src/lib.rs\<close>: the state of one document with the content changes applied to it and
  the filter that decides whether its dialect has to be detected again; and the map of open documents
  with the critical sections of the notifications and of deferred publication as functions on it, in
  any order. \<open>Edit_Order\<close> is the barrier that applies the notifications in arrival order: every atomic
  access of the source is one action of a step function, so handlers, dropped handlers and waiting
  requests interleave freely. Its lemmas are an invariant of the interleavings and a measure on the
  server's own steps, which give safety and liveness: turns in ticket order, requests
  that wait for every ticket drawn before they arrived, and a barrier that cannot wedge.

  \<^bold>\<open>Correspondence.\<close> Definitions keep the source's names, and a definition translates the function of
  that name; a helper with suffix \<open>_loop\<close> or \<open>_from\<close> is a loop of it. Strings are lists of bytes.
  A panic of the source (a slice off a character boundary, an index out of range, a failed conversion
  to 32 bits, an unwrap) is the value \<open>None\<close>; a diagnostic is the left of a sum. IR constants and
  machine registers are words of their width; offsets and counters are naturals whose width is written
  out where the source can exceed it. Loops whose recursion is not structural are functions with a
  termination proof; the loops with fuel are \<open>run_ir\<close>, the machine's runs and the liveness fixpoint,
  and for each a lemma gives enough fuel. \<open>Option\<close> values, maps and lists are HOL's.

  \<^bold>\<open>Assumptions.\<close> Unicode lower-casing (\<open>Glob\<close>), the decimal digits outside ASCII
  (\<open>Pkg_Version\<close>), the registry that answers the resolver (\<open>Pkg_Resolver\<close>) and the machine step
  (\<open>ebpf_vm\<close>) are arguments of the definitions that use them. In \<open>Document_Store\<close> the dialect resolved
  between two critical sections and the comparison of publication generations are arguments of the events, hence arbitrary. In
  \<open>Edit_Order\<close> the body of a granted handler is a step of its own, so handlers are assumed to end, and
  \<open>Notify\<close> has its documented behaviour of waking every registered waiter.

  \<^bold>\<open>Not modelled.\<close> The front end that lowers Tcl to the IR and the compiler's other analyses work over
  the command registry, a set of generated tables: the definitions and uses of a statement are arguments
  of phi placement, and SSA renaming is left out; the Tcl virtual machine's state is the host's (channels,
  processes, clocks); loading, deployment and object files are file formats and process interaction;
  the server's providers, its workspace index and its incremental database are protocol handling over
  the analyser; the package manager around the resolver fetches, unpacks and writes files. Of the lexer,
  the constructors that read a configuration off a dialect profile, the metrics and the word-closer
  accessors are left out. Of the dialect detector the directive, version-guard and file-name tiers are left out.
\<close>

section \<open>Properties\<close>

text \<open>
  C1. The back end is correct end to end. Slot allocation, code generation and the byte encoding
  together preserve meaning: whenever the IR program, from all-zero slots, returns a verdict and map
  contents on a packet, the machine that decodes and runs the emitted bytes with arbitrary stack
  contents halts with the same verdict and maps and leaves the packet as it was.
\<close>

theorem compile_correct:
  assumes "ebpf_vm step" "program_ok p" "insts_ok p"
    and "assign_slots p = Some (Inr q)" "emit_program q = Some (Inr obj)"
    and "env_ok env ivk" "vm_start env ivk ms s"
    and "run_ir fuel ivk p (entry p) \<lparr>slots = (\<lambda>_. 0), emaps = ms\<rparr> = Some r"
  shows "\<exists>n. vm_run step registered_helpers env (decode_insns (raw obj)) n s = Some (delivered ivk r)"
proof -
  from assms(2) have ok: "slots_in_range p" "distinct_labels p" "length (slot_types p) < 2 ^ 32"
    by (simp_all add: program_ok_def)
  from ok obtain m where al: "allocation p q m"
    by (cases rule: assign_slots_cases) (use assms(4) in auto)
  have "run_ir fuel ivk q (entry q) \<lparr>slots = initial_slots env q s, emaps = ms\<rparr> = Some r"
    using allocation_run [OF al, of "initial_slots env q s"] assms(8) by (simp add: initial_slots_def)
  then have "ebpf_vm.halts step registered_helpers env (insns obj) s (delivered ivk r)"
    using allocation_frame [OF al ok(1)] allocation_insts_ok [OF al assms(3)] allocation_labels [OF al ok(2)] assms
    by (intro ebpf_vm.sim_program [OF assms(1)])
  then show ?thesis
    using emitted_decodes(1) [OF assms(5) [unfolded emit_program_def]] by (simp add: ebpf_vm.halts_def [OF assms(1)])
qed

theorem compile_correct_witness:
  "\<exists>q obj n. assign_slots sock_demo = Some (Inr q) \<and> emit_program q = Some (Inr obj) \<and>
     vm_run isa_step registered_helpers demo_env (decode_insns (raw obj)) n demo_state = Some (0x1234, [], [0x12, 0x34])"
proof -
  obtain q obj where q: "assign_slots sock_demo = Some (Inr q)" "emit_program q = Some (Inr obj)"
    using compiles [OF sock_demo_compiles] by blast
  from compile_correct [OF isa.ebpf_vm_axioms sock_demo_compiles(1) sock_demo_ok(2) q demo_env_ok demo_start sock_demo_run] q
  show ?thesis by (auto simp: delivered_def demo_invocation_def)
qed

text \<open>
  C30. The back end compiles every well-formed program that fits: at most 64 values, jumps to existing
  blocks, load offsets within sixteen bits and code within the reach of a jump.
\<close>

theorem compile_total:
  assumes "program_ok p" "targets_ok p" "\<forall>b\<in>set (blocks p). list_all load_fits (insts b)"
    and "length (slot_types p) \<le> 64" "code_size p + 66 < 2 ^ 15"
  shows "\<exists>q obj. assign_slots p = Some (Inr q) \<and> emit_program q = Some (Inr obj)"
  by (rule compiles [OF assms])

theorem compile_total_witness:
  "\<exists>q obj. assign_slots sock_demo = Some (Inr q) \<and> emit_program q = Some (Inr obj)"
  by (rule compile_total [OF sock_demo_compiles])

end
